(* ===== verification/Szl_Prelude.thy ===== *)
theory Szl_Prelude
  imports Main "HOL-Library.Word" "HOL-Library.List_Lexorder" "HOL-Library.Multiset"
begin

text \<open>
  Shared vocabulary of the development.  Machine words: a C++ \<open>unsigned char\<close> is a
  \<open>byte\<close>, \<open>uint32\<close> is \<open>u32\<close>; both \<open>int64\<close> and \<open>uint64\<close> are \<open>64 word\<close>s, read
  with \<open>sint\<close> where the code compares or prints them as signed.  A C++ \<open>string\<close> or a
  \<open>char*\<close> with a length is a list of bytes; \<open>operator<\<close> on strings is the
  lexicographic order on byte lists of \<open>List_Lexorder\<close>.

  Outcomes: every \<open>LOG(FATAL)\<close>, every \<open>CHECK\<close> that fails and every access the code
  leaves undefined is a value of \<open>szl_error\<close>; a routine that can end so returns
  \<open>'a res\<close>.

  The last part is the arithmetic of big-endian byte strings that the encoder, the
  decoder, the float keys and the unique-hash routines share.
\<close>

unbundle bit_operations_syntax

named_theorems res_simps \<open>unfolding of the result combinators\<close>
named_theorems be_simps \<open>big-endian values of byte strings\<close>

type_synonym byte = "8 word"
type_synonym u32 = "32 word"
type_synonym u64 = "64 word"
type_synonym i64 = "64 word"
type_synonym bytes = "byte list"


section \<open>Outcomes\<close>

datatype szl_error =
    Fatal string      \<comment> \<open>\<open>LOG(FATAL)\<close>: the process is aborted with this message\<close>
  | Check_failed      \<comment> \<open>a \<open>CHECK\<close> macro whose condition is false\<close>
  | Bad_union         \<comment> \<open>a read of a union member that was not the one last written\<close>
  | Out_of_range      \<comment> \<open>an index outside the array\<close>
  | Null_deref        \<comment> \<open>a dereference of a null pointer\<close>
  | Bad_shift         \<comment> \<open>a shift by a negative amount or by the width of the operand or more\<close>
  | Diverges          \<comment> \<open>the fuel of a loop is used up; for a pointer chain, that it returns to itself\<close>

type_synonym 'a res = "szl_error + 'a"

abbreviation Ok :: "'a \<Rightarrow> 'a res" where
  "Ok \<equiv> Inr"

definition bind_res :: "'a res \<Rightarrow> ('a \<Rightarrow> 'b res) \<Rightarrow> 'b res" where
  "bind_res r f = (case r of Inl e \<Rightarrow> Inl e | Inr x \<Rightarrow> f x)"

definition check :: "bool \<Rightarrow> unit res" where
  "check b = (if b then Ok () else Inl Check_failed)"

lemma bind_res_Ok [simp, res_simps]: "bind_res (Ok x) f = f x"
  by (simp add: bind_res_def)

lemma bind_res_Inl [simp, res_simps]: "bind_res (Inl e) f = Inl e"
  by (simp add: bind_res_def)

lemma bind_res_eq_Ok:
  "bind_res r f = Ok y \<longleftrightarrow> (\<exists>x. r = Ok x \<and> f x = Ok y)"
  by (cases r) auto

lemma bind_res_cong:
  "r = r' \<Longrightarrow> (\<And>x. r' = Ok x \<Longrightarrow> f x = g x) \<Longrightarrow> bind_res r f = bind_res r' g"
  by (cases r') auto

lemma check_eq_Ok [simp, res_simps]: "check b = Ok u \<longleftrightarrow> b"
  by (cases u) (simp add: check_def)

lemma check_True [simp, res_simps]: "check True = Ok ()"
  by (simp add: check_def)

lemma check_False [simp, res_simps]: "check False = Inl Check_failed"
  by (simp add: check_def)

text \<open>A list of fallible steps, run in order and stopped by the first failure.\<close>

fun map_res :: "('a \<Rightarrow> 'b res) \<Rightarrow> 'a list \<Rightarrow> 'b list res" where
  "map_res f [] = Ok []"
| "map_res f (x # xs) = bind_res (f x) (\<lambda>y. bind_res (map_res f xs) (\<lambda>ys. Ok (y # ys)))"

fun fold_res :: "('a \<Rightarrow> 'b \<Rightarrow> 'b res) \<Rightarrow> 'a list \<Rightarrow> 'b \<Rightarrow> 'b res" where
  "fold_res f [] s = Ok s"
| "fold_res f (x # xs) s = bind_res (f x s) (fold_res f xs)"

lemma map_res_cong [fundef_cong]:
  "xs = ys \<Longrightarrow> (\<And>x. x \<in> set ys \<Longrightarrow> f x = g x) \<Longrightarrow> map_res f xs = map_res g ys"
  by (induction ys arbitrary: xs) auto

lemma map_res_Ok: "(\<And>x. x \<in> set xs \<Longrightarrow> f x = Ok (g x)) \<Longrightarrow> map_res f xs = Ok (map g xs)"
  by (induction xs) auto

lemma fold_res_append:
  "fold_res f (xs @ ys) s = bind_res (fold_res f xs s) (fold_res f ys)"
  by (induction xs arbitrary: s) (auto simp: bind_res_def split: sum.splits)

lemma fold_res_map: "fold_res f (map g xs) = fold_res (\<lambda>x. f (g x)) xs"
  by (induction xs) (auto intro!: ext)

lemma fold_res_invariant:
  assumes "fold_res f xs s = Ok s'" and "P s"
    and "\<And>x s s'. x \<in> set xs \<Longrightarrow> P s \<Longrightarrow> f x s = Ok s' \<Longrightarrow> P s'"
  shows "P s'"
  using assms by (induction xs arbitrary: s) (auto simp: bind_res_eq_Ok)

lemma fold_res_total:
  assumes "P s"
    and "\<And>x s. x \<in> set xs \<Longrightarrow> P s \<Longrightarrow> \<exists>s'. f x s = Ok s' \<and> P s'"
  shows "\<exists>s'. fold_res f xs s = Ok s' \<and> P s'"
  using assms
proof (induction xs arbitrary: s)
  case Nil
  then show ?case by simp
next
  case (Cons x xs)
  then obtain s1 where "f x s = Ok s1" "P s1" by fastforce
  then show ?case using Cons.IH [of s1] Cons.prems(2) by simp
qed


section \<open>Decimal numbers\<close>

text \<open>The conversions \<open>%d\<close>, \<open>%lld\<close> and \<open>%llu\<close> of \<open>printf\<close>.\<close>

definition digit_char :: "nat \<Rightarrow> char" where
  "digit_char d = char_of (48 + d)"

fun nat_dec :: "nat \<Rightarrow> string" where
  "nat_dec n = (if n < 10 then [digit_char n] else nat_dec (n div 10) @ [digit_char (n mod 10)])"

declare nat_dec.simps [simp del]

definition int_dec :: "int \<Rightarrow> string" where
  "int_dec i = (if i < 0 then CHR ''-'' # nat_dec (nat (- i)) else nat_dec (nat i))"


section \<open>Shifting bytes into words\<close>

text \<open>The step \<open>t = (t << 8) | p[i]\<close> of every big-endian reader.\<close>

definition shl8_or :: "'a::len word \<Rightarrow> byte \<Rightarrow> 'a word" where
  "shl8_or t b = (push_bit 8 t OR ucast b)"

lemma nat_push_bit_or_add:
  assumes "(b :: nat) < 2 ^ n"
  shows "push_bit n a OR b = a * 2 ^ n + b"
proof -
  have "push_bit n a + b = push_bit n a OR b"
  proof (rule disjunctive_add)
    fix k
    have "b = take_bit n b" using assms by (simp add: take_bit_nat_eq_self)
    then have "bit b k \<Longrightarrow> k < n" by (metis bit_take_bit_iff)
    then show "\<not> bit (push_bit n a) k \<or> \<not> bit b k"
      by (auto simp: bit_push_bit_iff)
  qed
  then show ?thesis by (simp add: push_bit_eq_mult)
qed

lemma unat_ucast_byte [simp]:
  "8 \<le> LENGTH('a::len) \<Longrightarrow> unat (ucast (b :: byte) :: 'a word) = unat b"
proof -
  assume l: "8 \<le> LENGTH('a)"
  have "unat b < 2 ^ 8" using unsigned_less [of b, where 'a = nat] by simp
  also have "\<dots> \<le> 2 ^ LENGTH('a)" using l by (rule power_increasing) simp
  finally show ?thesis by (simp add: unsigned_ucast_eq take_bit_nat_eq_self)
qed

lemma unat_push_bit:
  "unat (push_bit n (w :: 'a::len word)) = unat w * 2 ^ n mod 2 ^ LENGTH('a)"
  by (metis unsigned_push_bit_eq take_bit_eq_mod push_bit_eq_mult)

lemma unat_shl8_or:
  assumes "8 \<le> LENGTH('a::len)"
  shows "unat (shl8_or (t :: 'a word) b) = (unat t * 256 + unat b) mod 2 ^ LENGTH('a)"
proof -
  have b: "unat b < 2 ^ 8" using unsigned_less [of b, where 'a = nat] by simp
  have "2 ^ 8 \<le> (2 :: nat) ^ LENGTH('a)" using assms by (rule power_increasing) simp
  with b have bl: "unat b < 2 ^ LENGTH('a)" by (rule order.strict_trans2)
  have "unat (shl8_or t b) = take_bit LENGTH('a) (push_bit 8 (unat t)) OR unat b"
    using assms by (simp add: shl8_or_def unsigned_or_eq unsigned_push_bit_eq)
  also have "\<dots> = take_bit LENGTH('a) (push_bit 8 (unat t) OR unat b)"
    using bl by (simp add: take_bit_or take_bit_nat_eq_self)
  also have "\<dots> = (unat t * 256 + unat b) mod 2 ^ LENGTH('a)"
    using b by (simp add: nat_push_bit_or_add take_bit_eq_mod)
  finally show ?thesis .
qed


section \<open>Big-endian byte strings\<close>

fun be_nat :: "bytes \<Rightarrow> nat" where
  "be_nat [] = 0"
| "be_nat (b # bs) = unat b * 256 ^ length bs + be_nat bs"

lemma byte_less [simp]: "unat (b :: byte) < 256"
  using unsigned_less [of b, where 'a = nat] by simp

lemma be_nat_less: "be_nat bs < 256 ^ length bs"
proof (induction bs)
  case Nil
  then show ?case by simp
next
  case (Cons b bs)
  have "be_nat (b # bs) < unat b * 256 ^ length bs + 256 ^ length bs"
    using Cons.IH by simp
  also have "\<dots> = (unat b + 1) * 256 ^ length bs" by simp
  also have "\<dots> \<le> 256 * 256 ^ length bs"
    using byte_less [of b] by (intro mult_right_mono) (auto simp: less_Suc_eq_le [symmetric])
  finally show ?case by simp
qed

lemma be_nat_append [be_simps]: "be_nat (xs @ ys) = be_nat xs * 256 ^ length ys + be_nat ys"
  by (induction xs) (auto simp: algebra_simps power_add)

lemma be_nat_replicate_0 [simp, be_simps]: "be_nat (replicate n 0 @ ys) = be_nat ys"
  by (induction n) auto

lemma be_nat_take_drop:
  "be_nat bs = be_nat (take n bs) * 256 ^ (length bs - n) + be_nat (drop n bs)"
  by (metis append_take_drop_id be_nat_append length_drop)

lemma be_nat_inject:
  "length xs = length ys \<Longrightarrow> be_nat xs = be_nat ys \<Longrightarrow> xs = ys"
proof (induction xs ys rule: list_induct2)
  case Nil
  then show ?case by simp
next
  case (Cons x xs y ys)
  let ?k = "256 ^ length ys :: nat"
  have eq: "unat x * ?k + be_nat xs = unat y * ?k + be_nat ys"
    using Cons.prems Cons.hyps by simp
  have lx: "be_nat xs < ?k" and ly: "be_nat ys < ?k"
    using be_nat_less [of xs] be_nat_less [of ys] Cons.hyps by auto
  have "(unat x * ?k + be_nat xs) div ?k = (unat y * ?k + be_nat ys) div ?k"
    using eq by simp
  then have "unat x = unat y" using lx ly by simp
  then show ?case using eq Cons.IH by (simp add: unsigned_word_eqI)
qed

lemma be_nat_less_iff:
  "length xs = length ys \<Longrightarrow> be_nat xs < be_nat ys \<longleftrightarrow> xs < ys"
proof (induction xs ys rule: list_induct2)
  case Nil
  then show ?case by simp
next
  case (Cons x xs y ys)
  let ?k = "256 ^ length ys :: nat"
  have lx: "be_nat xs < ?k" and ly: "be_nat ys < ?k"
    using be_nat_less [of xs] be_nat_less [of ys] Cons.hyps by auto
  consider "x < y" | "x = y" | "y < x" by (rule linorder_cases)
  then show ?case
  proof cases
    case 1
    then have "unat x + 1 \<le> unat y" by (simp add: word_less_nat_alt)
    then have "(unat x + 1) * ?k \<le> unat y * ?k" by (rule mult_right_mono) simp
    then show ?thesis using 1 lx Cons.hyps by simp
  next
    case 2
    then show ?thesis using Cons by simp
  next
    case 3
    then have "unat y + 1 \<le> unat x" by (simp add: word_less_nat_alt)
    then have "(unat y + 1) * ?k \<le> unat x * ?k" by (rule mult_right_mono) simp
    then show ?thesis using 3 ly Cons.hyps by (auto simp: not_less)
  qed
qed

text \<open>The reading loop computes the big-endian value, modulo the accumulator's width.\<close>

lemma unat_foldl_shl8_or:
  assumes "8 \<le> LENGTH('a::len)"
  shows "unat (foldl shl8_or (t :: 'a word) bs)
    = (unat t * 256 ^ length bs + be_nat bs) mod 2 ^ LENGTH('a)"
proof (induction bs arbitrary: t)
  case Nil
  then show ?case by simp
next
  case (Cons b bs)
  have "unat (foldl shl8_or t (b # bs))
      = (((unat t * 256 + unat b) mod 2 ^ LENGTH('a)) * 256 ^ length bs + be_nat bs)
          mod 2 ^ LENGTH('a)"
    using Cons [of "shl8_or t b"] by (simp add: unat_shl8_or [OF assms])
  also have "\<dots> = ((unat t * 256 + unat b) * 256 ^ length bs + be_nat bs) mod 2 ^ LENGTH('a)"
    by (metis mod_add_left_eq mod_mult_left_eq)
  finally show ?case by (simp add: algebra_simps)
qed

lemma unat_foldl_shl8_or_exact:
  assumes "8 \<le> LENGTH('a::len)" and "8 * length bs \<le> LENGTH('a)"
  shows "unat (foldl shl8_or (0 :: 'a word) bs) = be_nat bs"
proof -
  have "be_nat bs < (2 ^ 8) ^ length bs" using be_nat_less [of bs] by simp
  also have "\<dots> = 2 ^ (8 * length bs)" by (simp only: power_mult)
  also have "\<dots> \<le> 2 ^ LENGTH('a)" using assms(2) by (rule power_increasing) simp
  finally show ?thesis using unat_foldl_shl8_or [OF assms(1), of 0 bs] by simp
qed

end
