(* ===== verification/Varint.thy ===== *)
theory Varint
  imports Szl_Prelude
begin

text \<open>
  The base-128 integers of \<open>utilities/varint.cc\<close>.  An encoder writes into a buffer the
  caller provides; the model returns the bytes written.  A decoder reads from a pointer
  with no length: the model reads from a byte list, returns \<open>Inl Out_of_range\<close> where the
  code would read past it, \<open>Ok None\<close> where the code returns \<open>NULL\<close>, and
  \<open>Ok (Some (v, rest))\<close> with the bytes after the returned pointer otherwise.

  \<open>varint_ref\<close> is the textbook definition the unrolled code is measured against.
\<close>

section \<open>The encoders\<close>

definition EncodeUnsignedVarint32 :: "u32 \<Rightarrow> bytes" where
  "EncodeUnsignedVarint32 v =
    (let B = 128 in
     if v < push_bit 7 1 then [ucast v]
     else if v < push_bit 14 1 then
       [ucast (v OR B), ucast (drop_bit 7 v)]
     else if v < push_bit 21 1 then
       [ucast (v OR B), ucast (drop_bit 7 v OR B), ucast (drop_bit 14 v)]
     else if v < push_bit 28 1 then
       [ucast (v OR B), ucast (drop_bit 7 v OR B), ucast (drop_bit 14 v OR B),
        ucast (drop_bit 21 v)]
     else
       [ucast (v OR B), ucast (drop_bit 7 v OR B), ucast (drop_bit 14 v OR B),
        ucast (drop_bit 21 v OR B), ucast (drop_bit 28 v)])"

definition EncodeUnsignedVarint64 :: "u64 \<Rightarrow> bytes" where
  "EncodeUnsignedVarint64 v =
    (if v < push_bit 28 1 then EncodeUnsignedVarint32 (ucast v)
     else
       (let B = 128; v32 = (ucast v :: u32);
            front = [ucast (v32 OR B), ucast (drop_bit 7 v32 OR B),
                     ucast (drop_bit 14 v32 OR B), ucast (drop_bit 21 v32 OR B)]
        in if v < push_bit 35 1 then front @ [ucast (drop_bit 28 v)]
           else front @ [ucast (drop_bit 28 v OR 128)]
                  @ EncodeUnsignedVarint32 (ucast (drop_bit 35 v))))"


section \<open>The decoders\<close>

text \<open>\<open>byte = *(ptr++)\<close>\<close>

definition next_byte :: "bytes \<Rightarrow> (u32 \<Rightarrow> bytes \<Rightarrow> 'a res) \<Rightarrow> 'a res" where
  "next_byte p k = (case p of [] \<Rightarrow> Inl Out_of_range | b # p' \<Rightarrow> k (ucast b) p')"

lemma next_byte_simps [simp]:
  "next_byte [] k = Inl Out_of_range"
  "next_byte (b # p) k = k (ucast b) p"
  by (simp_all add: next_byte_def)

lemma next_byte_weak_cong [cong]: "p = q \<Longrightarrow> next_byte p k = next_byte q k"
  by simp

definition DecodeUnsignedVarint32 :: "bytes \<Rightarrow> (u32 \<times> bytes) option res" where
  "DecodeUnsignedVarint32 p0 =
    next_byte p0 (\<lambda>r0 p1.
      if r0 \<ge> 128 then
        (let r = r0 AND 127 in
         next_byte p1 (\<lambda>b p2. let r = r OR push_bit 7 (b AND 127) in
           if b < 128 then Ok (Some (r, p2)) else
         next_byte p2 (\<lambda>b p3. let r = r OR push_bit 14 (b AND 127) in
           if b < 128 then Ok (Some (r, p3)) else
         next_byte p3 (\<lambda>b p4. let r = r OR push_bit 21 (b AND 127) in
           if b < 128 then Ok (Some (r, p4)) else
         next_byte p4 (\<lambda>b p5. let r = r OR push_bit 28 (b AND 127) in
           if b < 128 then Ok (Some (r, p5)) else
         Ok None)))))
      else Ok (Some (r0, p1)))"

text \<open>The three fragments \<open>res1\<close> (bits 0..27), \<open>res2\<close> (28..55) and \<open>res3\<close> (56..63).\<close>

definition varint64_done :: "u32 \<Rightarrow> u32 \<Rightarrow> u32 \<Rightarrow> u64" where
  "varint64_done res1 res2 res3 =
     ((ucast res1 OR push_bit 28 (ucast res2)) OR push_bit 56 (ucast res3))"

text \<open>The four-byte run that fills \<open>res1\<close>, and again \<open>res2\<close>: \<open>don\<close> is the jump to the
  \<open>done\<close> label, \<open>more\<close> what follows the run.\<close>

definition varint64_run ::
  "bytes \<Rightarrow> (u32 \<Rightarrow> bytes \<Rightarrow> 'a res) \<Rightarrow> (u32 \<Rightarrow> bytes \<Rightarrow> 'a res) \<Rightarrow> 'a res" where
  "varint64_run p don more =
    next_byte p (\<lambda>b p. let res = b AND 127 in if b < 128 then don res p else
    next_byte p (\<lambda>b p. let res = res OR push_bit 7 (b AND 127) in if b < 128 then don res p else
    next_byte p (\<lambda>b p. let res = res OR push_bit 14 (b AND 127) in if b < 128 then don res p else
    next_byte p (\<lambda>b p. let res = res OR push_bit 21 (b AND 127) in if b < 128 then don res p else
    more res p))))"

text \<open>The last two bytes, which fill \<open>res3\<close>.\<close>

definition varint64_tail :: "u32 \<Rightarrow> u32 \<Rightarrow> bytes \<Rightarrow> (u64 \<times> bytes) option res" where
  "varint64_tail res1 res2 p =
    next_byte p (\<lambda>b p. let res3 = b AND 127 in
      if b < 128 then Ok (Some (varint64_done res1 res2 res3, p)) else
    next_byte p (\<lambda>b p. let res3 = res3 OR push_bit 7 (b AND 127) in
      if b < 128 then Ok (Some (varint64_done res1 res2 res3, p)) else
    Ok None))"

definition DecodeUnsignedVarint64 :: "bytes \<Rightarrow> (u64 \<times> bytes) option res" where
  "DecodeUnsignedVarint64 p =
    varint64_run p (\<lambda>res1 p. Ok (Some (varint64_done res1 0 0, p))) (\<lambda>res1 p.
    varint64_run p (\<lambda>res2 p. Ok (Some (varint64_done res1 res2 0, p))) (varint64_tail res1))"


section \<open>The reference encoding\<close>

function varint_ref :: "nat \<Rightarrow> bytes" where
  "varint_ref n =
     (if n < 128 then [of_nat n] else of_nat (n mod 128 + 128) # varint_ref (n div 128))"
  by pat_completeness auto
termination
  by (relation "measure id") auto

declare varint_ref.simps [simp del]

lemma varint_ref_small: "n < 128 \<Longrightarrow> varint_ref n = [of_nat n]"
  by (subst varint_ref.simps) simp

lemma varint_ref_big: "128 \<le> n \<Longrightarrow> varint_ref n = of_nat (n mod 128 + 128) # varint_ref (n div 128)"
  by (subst varint_ref.simps) simp

lemma varint_ref_2:
  "128 \<le> n \<Longrightarrow> n < 16384 \<Longrightarrow> varint_ref n = [of_nat (n mod 128 + 128), of_nat (n div 128)]"
  using varint_ref_big [of n] varint_ref_small [of "n div 128"] by (simp add: less_mult_imp_div_less)

lemma varint_ref_more:
  "16384 \<le> n \<Longrightarrow> varint_ref n
    = of_nat (n mod 128 + 128) # of_nat (n div 128 mod 128 + 128) # varint_ref (n div 16384)"
  using varint_ref_big [of n] varint_ref_big [of "n div 128"]
  by (simp add: less_eq_div_iff_mult_less_eq div_mult2_eq [symmetric])

lemma varint_ref_3:
  "16384 \<le> n \<Longrightarrow> n < 2097152 \<Longrightarrow> varint_ref n
    = [of_nat (n mod 128 + 128), of_nat (n div 128 mod 128 + 128), of_nat (n div 16384)]"
  using varint_ref_more [of n] varint_ref_small [of "n div 16384"]
  by (simp add: less_mult_imp_div_less)

lemma varint_ref_4:
  "2097152 \<le> n \<Longrightarrow> n < 268435456 \<Longrightarrow> varint_ref n
    = [of_nat (n mod 128 + 128), of_nat (n div 128 mod 128 + 128),
       of_nat (n div 16384 mod 128 + 128), of_nat (n div 2097152)]"
  using varint_ref_more [of n] varint_ref_2 [of "n div 16384"]
  by (simp add: less_mult_imp_div_less less_eq_div_iff_mult_less_eq div_mult2_eq [symmetric])

lemma varint_ref_front:
  assumes "2 ^ 28 \<le> n"
  shows "varint_ref n =
      of_nat (n mod 128 + 128) # of_nat (n div 128 mod 128 + 128) #
      of_nat (n div 16384 mod 128 + 128) # of_nat (n div 2097152 mod 128 + 128) #
      varint_ref (n div 268435456)"
  using assms varint_ref_more [of n] varint_ref_more [of "n div 16384"]
  by (simp add: less_eq_div_iff_mult_less_eq div_mult2_eq [symmetric])

lemma varint_ref_5:
  "268435456 \<le> n \<Longrightarrow> n < 34359738368 \<Longrightarrow> varint_ref n
    = [of_nat (n mod 128 + 128), of_nat (n div 128 mod 128 + 128),
       of_nat (n div 16384 mod 128 + 128), of_nat (n div 2097152 mod 128 + 128),
       of_nat (n div 268435456)]"
  using varint_ref_front [of n] varint_ref_small [of "n div 268435456"]
  by (simp add: less_mult_imp_div_less)

lemma word_of_nat_or_push_bit:
  assumes "a < 2 ^ k"
  shows "(of_nat a OR push_bit k (of_nat b) :: 'a::len word) = of_nat (a + b * 2 ^ k)"
proof -
  have "(of_nat a OR push_bit k (of_nat b) :: 'a word) = of_nat (a OR push_bit k b)"
    by (intro bit_word_eqI) (auto simp: bit_simps)
  also have "a OR push_bit k b = a + b * 2 ^ k"
    using nat_push_bit_or_add [OF assms, of b] by (simp add: or.commute add.commute)
  finally show ?thesis .
qed

lemma byte_or_128:
  assumes "8 \<le> LENGTH('a::len)"
  shows "(ucast (v OR 128 :: 'a word) :: byte) = of_nat (unat v mod 128 + 128)"
proof -
  have m: "(128 :: 'a word) = push_bit 7 1" by simp
  have "unat v mod 128 = take_bit 7 (unat v)" by (simp add: take_bit_eq_mod)
  then have t: "(of_nat (unat v mod 128) :: byte) = take_bit 7 (ucast v)"
    by (intro bit_word_eqI) (auto simp: bit_simps)
  have "(ucast (v OR 128 :: 'a word) :: byte) = take_bit 7 (ucast v) OR push_bit 7 1"
    using assms by (intro bit_word_eqI) (auto simp: m bit_simps simp del: push_bit_of_1)
  also have "\<dots> = of_nat (unat v mod 128) OR push_bit 7 (of_nat 1)" by (simp add: t)
  also have "\<dots> = of_nat (unat v mod 128 + 1 * 2 ^ 7)"
    by (rule word_of_nat_or_push_bit) simp
  finally show ?thesis by simp
qed

lemma byte_drop_bit:
  "(ucast (drop_bit k (v :: 'a::len word)) :: byte) = of_nat (unat v div 2 ^ k)"
  by (metis of_nat_unat unat_drop_bit_eq drop_bit_eq_div)

lemma unat_drop_bit: "unat (drop_bit k (v :: 'a::len word)) = unat v div 2 ^ k"
  by (metis unat_drop_bit_eq drop_bit_eq_div)

lemmas varint_ref_cases = varint_ref_small varint_ref_2 varint_ref_3 varint_ref_4 varint_ref_5

lemmas varint_enc_simps = byte_or_128 byte_drop_bit unat_drop_bit word_less_nat_alt
  varint_ref_cases Let_def

lemma EncodeUnsignedVarint32_ref: "EncodeUnsignedVarint32 v = varint_ref (unat v)"
proof -
  have "unat v < 2 ^ 32" using unsigned_less [of v, where 'a = nat] by simp
  then show ?thesis
    by (simp add: EncodeUnsignedVarint32_def varint_enc_simps not_less)
qed

lemma EncodeUnsignedVarint64_ref: "EncodeUnsignedVarint64 v = varint_ref (unat v)"
proof -
  have b: "unat v < 2 ^ 64" using unsigned_less [of v, where 'a = nat] by simp
  have m: "unat v mod 2 ^ 32 div 2 ^ k mod 128 = unat v div 2 ^ k mod 128" if "k \<le> 21" for k
  proof -
    have "take_bit 7 (drop_bit k (take_bit 32 (unat v))) = take_bit 7 (drop_bit k (unat v))"
      using that by (intro bit_eqI) (auto simp: bit_simps)
    then show ?thesis by (simp add: take_bit_eq_mod drop_bit_eq_div)
  qed
  have u32: "unat (ucast v :: u32) = unat v mod 2 ^ 32"
    by (simp add: unsigned_ucast_eq take_bit_eq_mod)
  have u35: "unat (ucast (drop_bit 35 v) :: u32) = unat v div 2 ^ 35"
    using b by (simp add: unsigned_ucast_eq unat_drop_bit take_bit_nat_eq_self less_mult_imp_div_less)
  show ?thesis
  proof (cases "unat v < 2 ^ 28")
    case True
    then show ?thesis
      by (simp add: EncodeUnsignedVarint64_def EncodeUnsignedVarint32_ref u32 word_less_nat_alt)
  next
    case False
    then have ge: "2 ^ 28 \<le> unat v" by simp
    have tail: "varint_ref (unat v div 268435456) =
        (if unat v < 2 ^ 35 then [of_nat (unat v div 2 ^ 28)]
         else of_nat (unat v div 2 ^ 28 mod 128 + 128) # varint_ref (unat v div 2 ^ 35))"
      by (auto simp: varint_ref_small varint_ref_big div_mult2_eq [symmetric])
    show ?thesis unfolding varint_ref_front [OF ge] tail
      using m [of 0] m [of 7] m [of 14] m [of 21] ge
      by (simp add: EncodeUnsignedVarint64_def EncodeUnsignedVarint32_ref
          byte_or_128 byte_drop_bit unat_drop_bit u32 u35 Let_def word_less_nat_alt)
  qed
qed


section \<open>Decoding the reference encoding\<close>

lemma cont_byte:
  assumes "m < 128"
  shows "(ucast (of_nat (m + 128) :: byte) :: u32) \<ge> 128"
    and "\<not> (ucast (of_nat (m + 128) :: byte) :: u32) < 128"
    and "(ucast (of_nat (m + 128) :: byte) :: u32) AND 127 = of_nat m"
proof -
  have u: "unat (ucast (of_nat (m + 128) :: byte) :: u32) = m + 128"
    using assms by (simp add: unat_of_nat del: of_nat_add)
  then show "(ucast (of_nat (m + 128) :: byte) :: u32) \<ge> 128"
    and "\<not> (ucast (of_nat (m + 128) :: byte) :: u32) < 128"
    by (simp_all add: word_le_nat_alt word_less_nat_alt)
  have "(127 :: u32) = mask 7" by (simp add: mask_eq_exp_minus_1)
  then have "unat ((ucast (of_nat (m + 128) :: byte) :: u32) AND 127) = take_bit 7 (m + 128)"
    by (metis u take_bit_eq_mask unsigned_take_bit_eq)
  also have "\<dots> = m" using assms by (simp add: take_bit_eq_mod)
  finally show "(ucast (of_nat (m + 128) :: byte) :: u32) AND 127 = of_nat m"
    using assms by (intro unsigned_word_eqI [where 'a = nat]) (simp add: unat_of_nat)
qed

lemma last_byte:
  assumes "m < 128"
  shows "(of_nat m :: u32) < 128"
    and "\<not> (of_nat m :: u32) \<ge> 128"
    and "(ucast (of_nat m :: byte) :: u32) = of_nat m"
    and "(of_nat m :: u32) AND 127 = of_nat m"
proof -
  have u: "unat (ucast (of_nat m :: byte) :: u32) = m"
    using assms by (simp add: unat_of_nat)
  show "(of_nat m :: u32) < 128" and "\<not> (of_nat m :: u32) \<ge> 128"
    using assms by (simp_all add: word_le_nat_alt word_less_nat_alt unat_of_nat)
  show e: "(ucast (of_nat m :: byte) :: u32) = of_nat m"
    using u assms by (intro unsigned_word_eqI [where 'a = nat]) (simp add: unat_of_nat)
  have "(127 :: u32) = mask 7" by (simp add: mask_eq_exp_minus_1)
  then have "unat ((of_nat m :: u32) AND 127) = take_bit 7 m"
    by (metis u e take_bit_eq_mask unsigned_take_bit_eq)
  then show "(of_nat m :: u32) AND 127 = of_nat m"
    using assms by (intro unsigned_word_eqI [where 'a = nat])
      (simp add: unat_of_nat take_bit_eq_mod)
qed

lemma u32_or_push_bit:
  "a < 2 ^ k \<Longrightarrow> (of_nat a OR push_bit k (of_nat b) :: u32) = of_nat (a + b * 2 ^ k)"
  by (rule word_of_nat_or_push_bit)

lemma digits_128:
  "n mod 128 + n div 128 mod 128 * 128 = n mod 16384"
  "n mod 16384 + n div 16384 mod 128 * 16384 = n mod 2097152"
  "n mod 2097152 + n div 2097152 mod 128 * 2097152 = n mod 268435456"
  "n mod 268435456 + n div 268435456 * 268435456 = (n :: nat)"
proof -
  have g: "n mod a + n div a mod b * a = n mod (a * b)" for a b :: nat
    by (simp add: mod_mult2_eq)
  show "n mod 128 + n div 128 mod 128 * 128 = n mod 16384" using g [of 128 128] by simp
  show "n mod 16384 + n div 16384 mod 128 * 16384 = n mod 2097152" using g [of 16384 128] by simp
  show "n mod 2097152 + n div 2097152 mod 128 * 2097152 = n mod 268435456"
    using g [of 2097152 128] by simp
  show "n mod 268435456 + n div 268435456 * 268435456 = n" by (rule mod_div_mult_eq)
qed

lemmas varint_dec_simps = cont_byte last_byte varint_ref_cases less_mult_imp_div_less Let_def

lemma decode32_bytes:
  assumes "x0 < 128" "x1 < 128" "x2 < 128" "x3 < 128" "x4 < 128"
  shows "DecodeUnsignedVarint32 (of_nat (x0 + 128) # of_nat x1 # rest)
      = Ok (Some (of_nat (x0 + x1 * 2 ^ 7), rest))"
    and "DecodeUnsignedVarint32 (of_nat (x0 + 128) # of_nat (x1 + 128) # of_nat x2 # rest)
      = Ok (Some (of_nat (x0 + x1 * 2 ^ 7 + x2 * 2 ^ 14), rest))"
    and "DecodeUnsignedVarint32 (of_nat (x0 + 128) # of_nat (x1 + 128) # of_nat (x2 + 128) #
        of_nat x3 # rest)
      = Ok (Some (of_nat (x0 + x1 * 2 ^ 7 + x2 * 2 ^ 14 + x3 * 2 ^ 21), rest))"
    and "DecodeUnsignedVarint32 (of_nat (x0 + 128) # of_nat (x1 + 128) # of_nat (x2 + 128) #
        of_nat (x3 + 128) # of_nat x4 # rest)
      = Ok (Some (of_nat (x0 + x1 * 2 ^ 7 + x2 * 2 ^ 14 + x3 * 2 ^ 21 + x4 * 2 ^ 28), rest))"
proof -
  have "x0 < 2 ^ 7" "x0 + x1 * 2 ^ 7 < 2 ^ 14" "x0 + x1 * 2 ^ 7 + x2 * 2 ^ 14 < 2 ^ 21"
    "x0 + x1 * 2 ^ 7 + x2 * 2 ^ 14 + x3 * 2 ^ 21 < 2 ^ 28"
    using assms by simp_all
  note facts = this assms and defs = DecodeUnsignedVarint32_def cont_byte last_byte Let_def
    u32_or_push_bit
  show "DecodeUnsignedVarint32 (of_nat (x0 + 128) # of_nat x1 # rest)
      = Ok (Some (of_nat (x0 + x1 * 2 ^ 7), rest))"
    and "DecodeUnsignedVarint32 (of_nat (x0 + 128) # of_nat (x1 + 128) # of_nat x2 # rest)
      = Ok (Some (of_nat (x0 + x1 * 2 ^ 7 + x2 * 2 ^ 14), rest))"
    and "DecodeUnsignedVarint32 (of_nat (x0 + 128) # of_nat (x1 + 128) # of_nat (x2 + 128) #
        of_nat x3 # rest)
      = Ok (Some (of_nat (x0 + x1 * 2 ^ 7 + x2 * 2 ^ 14 + x3 * 2 ^ 21), rest))"
    and "DecodeUnsignedVarint32 (of_nat (x0 + 128) # of_nat (x1 + 128) # of_nat (x2 + 128) #
        of_nat (x3 + 128) # of_nat x4 # rest)
      = Ok (Some (of_nat (x0 + x1 * 2 ^ 7 + x2 * 2 ^ 14 + x3 * 2 ^ 21 + x4 * 2 ^ 28), rest))"
    using facts by (simp_all add: defs del: of_nat_add)
qed

lemma DecodeUnsignedVarint32_ref:
  assumes "n < 2 ^ 32"
  shows "DecodeUnsignedVarint32 (varint_ref n @ rest) = Ok (Some (of_nat n, rest))"
proof -
  define x0 x1 x2 x3 x4 where x: "x0 = n mod 128" "x1 = n div 128 mod 128"
    "x2 = n div 16384 mod 128" "x3 = n div 2097152 mod 128" "x4 = n div 268435456"
  have bounds: "x0 < 128" "x1 < 128" "x2 < 128" "x3 < 128" "x4 < 128"
    using assms by (simp_all add: x less_mult_imp_div_less)
  have sum: "x0 + x1 * 2 ^ 7 + x2 * 2 ^ 14 + x3 * 2 ^ 21 + x4 * 2 ^ 28 = n"
    unfolding x using digits_128 [of n] by simp
  note dec = decode32_bytes [OF bounds, of rest]
  consider "n < 128" | "128 \<le> n" "n < 16384" | "16384 \<le> n" "n < 2097152"
    | "2097152 \<le> n" "n < 268435456" | "268435456 \<le> n" by linarith
  then show ?thesis
  proof cases
    case 1
    then show ?thesis by (simp add: DecodeUnsignedVarint32_def varint_ref_small last_byte)
  next
    case 2
    then have "n div 128 = x1" "x2 = 0" "x3 = 0" "x4 = 0"
      by (simp_all add: x less_mult_imp_div_less)
    with varint_ref_2 [OF 2] dec(1) sum show ?thesis by (simp add: x(1) [symmetric] del: of_nat_add)
  next
    case 3
    then have "n div 16384 = x2" "x3 = 0" "x4 = 0" by (simp_all add: x less_mult_imp_div_less)
    with varint_ref_3 [OF 3] dec(2) sum show ?thesis by (simp add: x(1,2) [symmetric] del: of_nat_add)
  next
    case 4
    then have "n div 2097152 = x3" "x4 = 0" by (simp_all add: x less_mult_imp_div_less)
    with varint_ref_4 [OF 4] dec(3) sum show ?thesis by (simp add: x(1-3) [symmetric] del: of_nat_add)
  next
    case 5
    then have "varint_ref n = [of_nat (x0 + 128), of_nat (x1 + 128), of_nat (x2 + 128),
        of_nat (x3 + 128), of_nat x4]"
      unfolding x by (intro varint_ref_5) (use assms in simp_all)
    with dec(4) sum show ?thesis by (simp del: of_nat_add)
  qed
qed

lemma varint64_run_done:
  assumes "n < 2 ^ 28"
  shows "varint64_run (varint_ref n @ rest) don more = don (of_nat n) rest"
proof -
  consider "n < 128" | "128 \<le> n" "n < 2 ^ 14" | "2 ^ 14 \<le> n" "n < 2 ^ 21" | "2 ^ 21 \<le> n"
    by force
  then show ?thesis
  proof cases
    case 1
    then show ?thesis by (simp add: varint64_run_def varint_dec_simps)
  next
    case 2
    then show ?thesis
      using digits_128(1) [of n]
      by (simp add: varint64_run_def varint_dec_simps u32_or_push_bit del: of_nat_add)
  next
    case 3
    then show ?thesis
      using digits_128(1,2) [of n]
      by (simp add: varint64_run_def varint_dec_simps u32_or_push_bit del: of_nat_add)
  next
    case 4
    then show ?thesis
      using digits_128(1,2,3) [of n] assms
      by (simp add: varint64_run_def varint_dec_simps u32_or_push_bit del: of_nat_add)
  qed
qed

lemma varint64_run_four_bytes:
  assumes "x0 < 128" "x1 < 128" "x2 < 128" "x3 < 128"
  shows "varint64_run (of_nat (x0 + 128) # of_nat (x1 + 128) # of_nat (x2 + 128) #
      of_nat (x3 + 128) # rest) don more
    = more (of_nat (x0 + x1 * 2 ^ 7 + x2 * 2 ^ 14 + x3 * 2 ^ 21)) rest"
proof -
  have "x0 < 2 ^ 7" "x0 + x1 * 2 ^ 7 < 2 ^ 14" "x0 + x1 * 2 ^ 7 + x2 * 2 ^ 14 < 2 ^ 21"
    using assms by simp_all
  with assms show ?thesis
    by (simp add: varint64_run_def cont_byte last_byte Let_def u32_or_push_bit del: of_nat_add)
qed

lemma varint64_run_more:
  assumes "2 ^ 28 \<le> n"
  shows "varint64_run (varint_ref n @ rest) don more
    = more (of_nat (n mod 2 ^ 28)) (varint_ref (n div 2 ^ 28) @ rest)"
proof -
  have "n mod 128 + n div 128 mod 128 * 2 ^ 7 + n div 16384 mod 128 * 2 ^ 14
      + n div 2097152 mod 128 * 2 ^ 21 = n mod 2 ^ 28"
    using digits_128(1,2,3) [of n] by simp
  then show ?thesis
    unfolding varint_ref_front [OF assms]
    using varint64_run_four_bytes [of "n mod 128" "n div 128 mod 128"
        "n div 16384 mod 128" "n div 2097152 mod 128"]
    by (simp del: of_nat_add)
qed

lemma varint64_done_of_nat:
  assumes "a < 2 ^ 28" and "b < 2 ^ 28" and "c < 2 ^ 8"
  shows "varint64_done (of_nat a) (of_nat b) (of_nat c) = of_nat (a + (b + c * 2 ^ 28) * 2 ^ 28)"
proof -
  have u: "(ucast (of_nat x :: u32) :: u64) = of_nat x" if "x < 2 ^ 28" for x
    using that by (intro unsigned_word_eqI [where 'a = nat])
      (simp add: unat_of_nat unsigned_ucast_eq take_bit_nat_eq_self)
  have ab: "a + b * 2 ^ 28 < 2 ^ 56" using assms by simp
  have "varint64_done (of_nat a) (of_nat b) (of_nat c)
      = (of_nat a OR push_bit 28 (of_nat b)) OR push_bit 56 (of_nat c)"
    using assms by (simp add: varint64_done_def u)
  also have "\<dots> = of_nat (a + b * 2 ^ 28) OR push_bit 56 (of_nat c)"
    by (simp only: word_of_nat_or_push_bit [OF assms(1)])
  also have "\<dots> = of_nat (a + b * 2 ^ 28 + c * 2 ^ 56)"
    by (rule word_of_nat_or_push_bit [OF ab])
  finally show ?thesis by (simp add: algebra_simps)
qed

lemma varint64_tail_ref:
  assumes "c < 2 ^ 8"
  shows "varint64_tail res1 res2 (varint_ref c @ rest)
    = Ok (Some (varint64_done res1 res2 (of_nat c), rest))"
proof (cases "c < 128")
  case True
  then show ?thesis by (simp add: varint64_tail_def varint_dec_simps)
next
  case False
  then have "varint_ref c = [of_nat (c mod 128 + 128), of_nat (c div 128)]"
    using assms by (simp add: varint_ref_small varint_ref_big)
  moreover have "c div 128 < 128" using assms by (simp add: less_mult_imp_div_less)
  ultimately show ?thesis
    by (simp add: varint64_tail_def cont_byte last_byte u32_or_push_bit Let_def del: of_nat_add)
qed

lemma DecodeUnsignedVarint64_ref:
  assumes "n < 2 ^ 64"
  shows "DecodeUnsignedVarint64 (varint_ref n @ rest) = Ok (Some (of_nat n, rest))"
proof -
  define a m where "a = n mod 2 ^ 28" and "m = n div 2 ^ 28"
  define b c where "b = m mod 2 ^ 28" and "c = m div 2 ^ 28"
  have bounds: "a < 2 ^ 28" "b < 2 ^ 28" "c < 2 ^ 8"
    using assms by (simp_all add: a_def b_def c_def m_def less_mult_imp_div_less)
  have "m = b + c * 2 ^ 28" by (simp only: b_def c_def mod_div_mult_eq)
  moreover have "n = a + m * 2 ^ 28" by (simp only: a_def m_def mod_div_mult_eq)
  ultimately have val: "varint64_done (of_nat a) (of_nat b) (of_nat c) = of_nat n"
    using varint64_done_of_nat [OF bounds] by simp
  consider "n < 2 ^ 28" | "2 ^ 28 \<le> n" "m < 2 ^ 28" | "2 ^ 28 \<le> n" "2 ^ 28 \<le> m" by linarith
  then show ?thesis
  proof cases
    case 1
    then have "a = n" "b = 0" "c = 0" by (simp_all add: a_def b_def c_def m_def)
    with val show ?thesis by (simp add: DecodeUnsignedVarint64_def varint64_run_done [OF 1])
  next
    case 2
    then have "b = m" "c = 0" by (simp_all add: b_def c_def)
    with val show ?thesis
      by (simp add: DecodeUnsignedVarint64_def varint64_run_more [OF 2(1), folded a_def m_def]
          varint64_run_done [OF 2(2)])
  next
    case 3
    then show ?thesis
      by (simp add: DecodeUnsignedVarint64_def varint64_run_more [OF 3(1), folded a_def m_def]
          varint64_run_more [OF 3(2), folded b_def c_def] varint64_tail_ref [OF bounds(3)] val)
  qed
qed


section \<open>Round trips\<close>

lemma unat_less_32: "unat (v :: u32) < 2 ^ 32"
  using unsigned_less [of v, where 'a = nat] by simp

lemma unat_less_64: "unat (v :: u64) < 2 ^ 64"
  using unsigned_less [of v, where 'a = nat] by simp

text \<open>Encoding a \<open>uint32\<close> writes its base-128 representation, and decoding what was
  written, followed by anything, gives the value back and stops at what followed.\<close>

theorem varint32_roundtrip:
  "DecodeUnsignedVarint32 (EncodeUnsignedVarint32 v @ rest) = Ok (Some (v, rest))"
  using DecodeUnsignedVarint32_ref [OF unat_less_32, of v rest]
  by (simp add: EncodeUnsignedVarint32_ref)

text \<open>C36. The same for \<open>uint64\<close>: the encoder that switches to 32-bit arithmetic and the
  decoder that assembles three fragments agree with the base-128 representation.\<close>

theorem varint64_roundtrip:
  "DecodeUnsignedVarint64 (EncodeUnsignedVarint64 v @ rest) = Ok (Some (v, rest))
   \<and> EncodeUnsignedVarint64 v = varint_ref (unat v)"
  using DecodeUnsignedVarint64_ref [OF unat_less_64, of v rest]
  by (simp add: EncodeUnsignedVarint64_ref)

lemma length_varint_ref: "n < 128 ^ Suc k \<Longrightarrow> length (varint_ref n) \<le> Suc k"
proof (induction k arbitrary: n)
  case 0
  then show ?case by (simp add: varint_ref_small)
next
  case (Suc k)
  show ?case
  proof (cases "n < 128")
    case True
    then show ?thesis by (simp add: varint_ref_small)
  next
    case False
    have "n div 128 < 128 ^ Suc k" using Suc.prems by (simp add: less_mult_imp_div_less)
    then have "length (varint_ref (n div 128)) \<le> Suc k" by (rule Suc.IH)
    then show ?thesis using False by (simp add: varint_ref_big)
  qed
qed

text \<open>\<open>kMaxUnsignedVarint32Length\<close> and \<open>kMaxUnsignedVarint64Length\<close> of \<open>public/varint.h\<close>.\<close>

definition kMaxUnsignedVarint32Length :: nat where
  "kMaxUnsignedVarint32Length = 5"

definition kMaxUnsignedVarint64Length :: nat where
  "kMaxUnsignedVarint64Length = 10"

text \<open>No encoding is longer than the buffer sizes the header advertises.\<close>

theorem varint_lengths:
  "length (EncodeUnsignedVarint32 v) \<le> kMaxUnsignedVarint32Length
   \<and> length (EncodeUnsignedVarint64 w) \<le> kMaxUnsignedVarint64Length"
proof -
  have "unat v < 128 ^ Suc 4" using unat_less_32 [of v] by simp
  moreover have "unat w < 128 ^ Suc 9" using unat_less_64 [of w] by simp
  ultimately show ?thesis
    using length_varint_ref [of "unat v" 4] length_varint_ref [of "unat w" 9]
    by (simp add: EncodeUnsignedVarint32_ref EncodeUnsignedVarint64_ref
        kMaxUnsignedVarint32Length_def kMaxUnsignedVarint64Length_def)
qed

end
