(* ===== verification/Szl_Float.thy ===== *)
theory Szl_Float
  imports Szl_Prelude
begin

text \<open>
  The C++ type \<open>double\<close>, as the 64 bits of an IEEE 754 binary64 value.  Every finite
  double is an integer multiple of \<open>2 ^ -1074\<close>; \<open>dbl_mag\<close> is that multiple and
  \<open>dbl_int\<close> the signed one, so comparison is comparison of integers.  On a bit pattern the
  infinities come out as the multiple one step above the largest finite double, which
  orders them as IEEE does.  \<open>dbl_add\<close>, \<open>dbl_neg\<close> and \<open>dbl_of_i64\<close> are the operations the
  emitters use, with rounding to nearest and ties to even.  Which NaN an invalid operation
  gives is not modelled: it is always the quiet NaN.
\<close>

type_synonym dbl = "64 word"

section \<open>Fields\<close>

definition dbl_neg_sign :: "dbl \<Rightarrow> bool" where
  "dbl_neg_sign d \<longleftrightarrow> 2 ^ 63 \<le> unat d"

definition dbl_low :: "dbl \<Rightarrow> nat" where
  "dbl_low d = unat d mod 2 ^ 63"

definition inf_low :: nat where
  "inf_low = 2047 * 2 ^ 52"

definition is_nan :: "dbl \<Rightarrow> bool" where
  "is_nan d \<longleftrightarrow> inf_low < dbl_low d"

definition is_inf :: "dbl \<Rightarrow> bool" where
  "is_inf d \<longleftrightarrow> dbl_low d = inf_low"

text \<open>The magnitude of the pattern \<open>e * 2^52 + m\<close>: subnormal for \<open>e = 0\<close>.\<close>

definition mag_of_low :: "nat \<Rightarrow> nat" where
  "mag_of_low l = (let e = l div 2 ^ 52; m = l mod 2 ^ 52 in
     if e = 0 then m else (2 ^ 52 + m) * 2 ^ (e - 1))"

definition dbl_mag :: "dbl \<Rightarrow> nat" where
  "dbl_mag d = mag_of_low (dbl_low d)"

definition dbl_int :: "dbl \<Rightarrow> int" where
  "dbl_int d = (if dbl_neg_sign d then - int (dbl_mag d) else int (dbl_mag d))"

definition dbl_make :: "bool \<Rightarrow> nat \<Rightarrow> dbl" where
  "dbl_make s l = of_nat ((if s then 2 ^ 63 else 0) + l)"

definition quiet_nan :: dbl where
  "quiet_nan = dbl_make False (inf_low + 2 ^ 51)"


section \<open>Comparison\<close>

definition dbl_lt :: "dbl \<Rightarrow> dbl \<Rightarrow> bool" where
  "dbl_lt a b \<longleftrightarrow> \<not> is_nan a \<and> \<not> is_nan b \<and> dbl_int a < dbl_int b"

definition dbl_eq :: "dbl \<Rightarrow> dbl \<Rightarrow> bool" where
  "dbl_eq a b \<longleftrightarrow> \<not> is_nan a \<and> \<not> is_nan b \<and> dbl_int a = dbl_int b"


section \<open>Arithmetic\<close>

fun bit_length :: "nat \<Rightarrow> nat" where
  "bit_length n = (if n = 0 then 0 else Suc (bit_length (n div 2)))"

declare bit_length.simps [simp del]

text \<open>The pattern nearest to a magnitude, ties to even, overflowing to infinity: a
  magnitude of more than 53 bits loses its low \<open>s\<close> bits, and the carry of a rounding up
  runs into the exponent by itself.\<close>

definition low_of_mag :: "nat \<Rightarrow> nat" where
  "low_of_mag n =
     (if n < 2 ^ 53 then n
      else let s = bit_length n - 53; q = n div 2 ^ s; r = n mod 2 ^ s; h = 2 ^ (s - 1);
               q' = (if h < r \<or> h = r \<and> odd q then q + 1 else q)
           in min inf_low (s * 2 ^ 52 + q'))"

definition dbl_round :: "bool \<Rightarrow> int \<Rightarrow> dbl" where
  "dbl_round neg_zero i =
     (if i = 0 then dbl_make neg_zero 0 else dbl_make (i < 0) (low_of_mag (nat \<bar>i\<bar>)))"

definition dbl_add :: "dbl \<Rightarrow> dbl \<Rightarrow> dbl" where
  "dbl_add a b =
     (if is_nan a \<or> is_nan b then quiet_nan
      else if is_inf a then (if is_inf b \<and> dbl_neg_sign a \<noteq> dbl_neg_sign b then quiet_nan else a)
      else if is_inf b then b
      else dbl_round (dbl_neg_sign a \<and> dbl_neg_sign b) (dbl_int a + dbl_int b))"

text \<open>The unary minus flips the sign bit.\<close>

definition dbl_neg :: "dbl \<Rightarrow> dbl" where
  "dbl_neg d = d XOR 2 ^ 63"

definition dbl_sub :: "dbl \<Rightarrow> dbl \<Rightarrow> dbl" where
  "dbl_sub a b = dbl_add a (dbl_neg b)"

definition dbl_of_int :: "int \<Rightarrow> dbl" where
  "dbl_of_int i = dbl_round False (i * 2 ^ 1074)"

definition dbl_zero :: dbl where
  "dbl_zero = 0"


section \<open>The order of patterns is the order of values\<close>

lemma dbl_low_less: "dbl_low d < 2 ^ 63"
  by (simp add: dbl_low_def)

lemma unat_dbl: "unat (d :: dbl) = (if dbl_neg_sign d then 2 ^ 63 else 0) + dbl_low d"
proof -
  have "unat d < 2 ^ 64" using unsigned_less [of d, where 'a = nat] by simp
  then show ?thesis by (auto simp: dbl_neg_sign_def dbl_low_def mod_if)
qed

lemma dbl_make_fields:
  assumes "l < 2 ^ 63"
  shows "dbl_neg_sign (dbl_make s l) = s" and "dbl_low (dbl_make s l) = l"
proof -
  have "unat (dbl_make s l) = (if s then 2 ^ 63 else 0) + l"
    unfolding dbl_make_def unat_of_nat using assms by (intro mod_less) simp
  then show "dbl_neg_sign (dbl_make s l) = s" "dbl_low (dbl_make s l) = l"
    using assms by (auto simp: dbl_neg_sign_def dbl_low_def)
qed

lemma dbl_make_eta: "dbl_make (dbl_neg_sign d) (dbl_low d) = d"
  unfolding dbl_make_def unat_dbl [symmetric] by simp

lemma mag_of_low_step:
  assumes "l div 2 ^ 52 = e" and "e > 0"
  shows "2 ^ 52 * 2 ^ (e - 1) \<le> mag_of_low l" and "mag_of_low l < 2 ^ 52 * 2 ^ e"
proof -
  have m: "l mod 2 ^ 52 < 2 ^ 52" by simp
  have eq: "mag_of_low l = (2 ^ 52 + l mod 2 ^ 52) * 2 ^ (e - 1)"
    using assms by (simp add: mag_of_low_def Let_def)
  show "2 ^ 52 * 2 ^ (e - 1) \<le> mag_of_low l" unfolding eq by (rule mult_right_mono) auto
  have "(2 ^ 52 + l mod 2 ^ 52) * 2 ^ (e - 1) < (2 * 2 ^ 52) * 2 ^ (e - 1)"
    using m by (intro mult_strict_right_mono) auto
  also have "\<dots> = 2 ^ 52 * 2 ^ e" using assms(2) by (cases e) auto
  finally show "mag_of_low l < 2 ^ 52 * 2 ^ e" unfolding eq .
qed

lemma mag_of_low_mono_strict:
  assumes "a < b"
  shows "mag_of_low a < mag_of_low b"
proof -
  let ?ea = "a div 2 ^ 52" and ?eb = "b div 2 ^ 52"
  have le: "?ea \<le> ?eb" using assms by (intro div_le_mono) simp
  have decomp: "x = 2 ^ 52 * (x div 2 ^ 52) + x mod 2 ^ 52" for x :: nat by simp
  show ?thesis
  proof (cases "?ea = ?eb")
    case True
    have "a mod 2 ^ 52 < b mod 2 ^ 52"
      using assms decomp [of a] decomp [of b] unfolding True by (metis add_less_cancel_left)
    then show ?thesis using True assms by (simp add: mag_of_low_def Let_def)
  next
    case False
    then have lt: "?ea < ?eb" using le by simp
    then have b: "2 ^ 52 * 2 ^ (?eb - 1) \<le> mag_of_low b" by (intro mag_of_low_step) auto
    have "mag_of_low a < 2 ^ 52 * 2 ^ ?ea"
    proof (cases "?ea = 0")
      case True
      then have "mag_of_low a = a mod 2 ^ 52" by (simp add: mag_of_low_def)
      then show ?thesis using True by simp
    next
      case False
      then show ?thesis by (intro mag_of_low_step) auto
    qed
    also have "(2 :: nat) ^ ?ea \<le> 2 ^ (?eb - 1)" using lt by (intro power_increasing) auto
    then have "(2 :: nat) ^ 52 * 2 ^ ?ea \<le> 2 ^ 52 * 2 ^ (?eb - 1)" by (intro mult_left_mono) auto
    also note b
    finally show ?thesis .
  qed
qed

lemma mag_of_low_less_iff: "mag_of_low a < mag_of_low b \<longleftrightarrow> a < b"
  using mag_of_low_mono_strict by (metis less_asym linorder_neqE_nat)

lemma mag_of_low_eq_iff: "mag_of_low a = mag_of_low b \<longleftrightarrow> a = b"
  using mag_of_low_mono_strict by (metis less_irrefl linorder_neqE_nat)

lemma mag_of_low_0 [simp]: "mag_of_low 0 = 0"
  by (simp add: mag_of_low_def)

lemma dbl_mag_0_iff: "dbl_mag d = 0 \<longleftrightarrow> dbl_low d = 0"
  unfolding dbl_mag_def using mag_of_low_eq_iff [of _ 0] by simp

text \<open>The signed pattern orders doubles exactly as their values do.\<close>

definition dbl_ord :: "dbl \<Rightarrow> int" where
  "dbl_ord d = (if dbl_neg_sign d then - int (dbl_low d) else int (dbl_low d))"

lemma dbl_int_less_iff: "dbl_int a < dbl_int b \<longleftrightarrow> dbl_ord a < dbl_ord b"
  using mag_of_low_less_iff [of "dbl_low a" "dbl_low b"]
    mag_of_low_less_iff [of "dbl_low b" "dbl_low a"]
    dbl_mag_0_iff [of a] dbl_mag_0_iff [of b]
  by (auto simp: dbl_int_def dbl_ord_def dbl_mag_def)

lemma dbl_int_eq_iff: "dbl_int a = dbl_int b \<longleftrightarrow> dbl_ord a = dbl_ord b"
  using dbl_int_less_iff [of a b] dbl_int_less_iff [of b a] by linarith

end
