(* ===== verification/Szl_Keys.thy ===== *)
theory Szl_Keys
  imports Szl_Float
begin

text \<open>
  The sortable keys and the string hashes of \<open>public/hashutils.h\<close> and
  \<open>utilities/hashutils.cc\<close>.  The result of both depends on how the host stores an integer
  in memory, \<open>host\<close>, and the keys also on whether the macro \<open>IS_LITTLE_ENDIAN\<close> is
  defined, \<open>le_macro\<close>.  No file of the repository defines that macro: the build sets
  \<open>SZL_BYTE_ORDER\<close> instead, so \<open>le_macro\<close> is false on every host as shipped.
\<close>

datatype byte_order = Little | Big

text \<open>The eight bytes of a \<open>uint64\<close> in memory, and the integer that eight bytes hold.\<close>

definition be_bytes64 :: "u64 \<Rightarrow> bytes" where
  "be_bytes64 x = map (\<lambda>i. ucast (drop_bit (8 * i) x)) [7, 6, 5, 4, 3, 2, 1, 0]"

definition mem_of_u64 :: "byte_order \<Rightarrow> u64 \<Rightarrow> bytes" where
  "mem_of_u64 host x = (case host of Big \<Rightarrow> be_bytes64 x | Little \<Rightarrow> rev (be_bytes64 x))"

definition u64_of_mem :: "byte_order \<Rightarrow> bytes \<Rightarrow> u64" where
  "u64_of_mem host bs =
     (case host of Big \<Rightarrow> foldl shl8_or 0 bs | Little \<Rightarrow> foldl shl8_or 0 (rev bs))"


section \<open>Byte swapping\<close>

definition local_bswap_32 :: "u32 \<Rightarrow> u32" where
  "local_bswap_32 x =
     (push_bit 24 (x AND 0x000000FF) OR push_bit 8 (x AND 0x0000FF00))
     OR drop_bit 8 (x AND 0x00FF0000) OR drop_bit 24 (x AND 0xFF000000)"

definition local_bswap_64 :: "u64 \<Rightarrow> u64" where
  "local_bswap_64 host_int =
     ucast (local_bswap_32 (ucast (drop_bit 32 host_int)))
     OR push_bit 32 (ucast (local_bswap_32 (ucast host_int)))"

lemma unat_drop_bit_1_less: "x \<noteq> 0 \<Longrightarrow> unat (drop_bit 1 x) < unat (x :: 'a::len word)"
proof -
  assume "x \<noteq> 0"
  then have "0 < unat x" by (simp add: unat_gt_0)
  moreover have "unat (drop_bit 1 x) = unat x div 2"
    unfolding unat_drop_bit_eq by (simp add: drop_bit_Suc)
  ultimately show ?thesis by simp
qed

function Log2Int_loop :: "int \<Rightarrow> u64 \<Rightarrow> int" where
  "Log2Int_loop cnt x = (if x = 0 then cnt else Log2Int_loop (cnt + 1) (drop_bit 1 x))"
  by pat_completeness auto
termination
  by (relation "measure (\<lambda>(_, x). unat x)") (use unat_drop_bit_1_less in auto)

declare Log2Int_loop.simps [simp del]

definition Log2Int :: "u64 \<Rightarrow> int" where
  "Log2Int x = Log2Int_loop (- 1) x"


section \<open>Keys\<close>

definition KeyFromUint64 :: "byte_order \<Rightarrow> bool \<Rightarrow> u64 \<Rightarrow> bytes" where
  "KeyFromUint64 host le_macro fp =
     (let norder = (if le_macro then local_bswap_64 fp else fp) in mem_of_u64 host norder)"

definition KeyToUint64 :: "byte_order \<Rightarrow> bool \<Rightarrow> bytes \<Rightarrow> u64" where
  "KeyToUint64 host le_macro key =
     (if le_macro then local_bswap_64 (u64_of_mem host key) else u64_of_mem host key)"

definition KeyFromDouble :: "byte_order \<Rightarrow> bool \<Rightarrow> dbl \<Rightarrow> bytes" where
  "KeyFromDouble host le_macro d =
     (let n = (if 0 \<le>s d then d XOR push_bit 63 (- 1) else - d) in KeyFromUint64 host le_macro n)"

definition KeyToDouble :: "byte_order \<Rightarrow> bool \<Rightarrow> bytes \<Rightarrow> dbl" where
  "KeyToDouble host le_macro key =
     (let n = KeyToUint64 host le_macro key in
      if n AND push_bit 63 (- 1) \<noteq> 0 then n XOR push_bit 63 (- 1) else - n)"

definition EncodeDouble :: "byte_order \<Rightarrow> dbl \<Rightarrow> bytes" where
  "EncodeDouble host d = mem_of_u64 host d"


section \<open>Hashes\<close>

definition kPrimes32 :: "u32 list" where
  "kPrimes32 = [65537, 65539, 65543, 65551, 65557, 65563, 65579, 65581,
     65587, 65599, 65609, 65617, 65629, 65633, 65647, 65651]"

definition kPrimes64 :: "u64 list" where
  "kPrimes64 = [4294967311, 4294967357, 4294967371, 4294967377, 4294967387, 4294967389,
     4294967459, 4294967477, 4294967497, 4294967513, 4294967539, 4294967543, 4294967549,
     4294967561, 4294967563, 4294967569]"

definition kHashSeed32 :: u32 where
  "kHashSeed32 = 0x3a04f49f"

definition kHashSeed64 :: u64 where
  "kHashSeed64 = push_bit 32 0xe87b36be OR 0x6e2e58dc"

text \<open>The integer \<open>chunk.n\<close> read from the union after \<open>chunk.bytes\<close> was filled.\<close>

definition chunk16 :: "byte_order \<Rightarrow> byte \<Rightarrow> byte \<Rightarrow> u32" where
  "chunk16 host b0 b1 = (case host of
     Big \<Rightarrow> shl8_or (ucast b0) b1 | Little \<Rightarrow> shl8_or (ucast b1) b0)"

definition chunk32 :: "byte_order \<Rightarrow> byte \<Rightarrow> byte \<Rightarrow> byte \<Rightarrow> byte \<Rightarrow> u64" where
  "chunk32 host b0 b1 b2 b3 = (case host of
     Big \<Rightarrow> shl8_or (shl8_or (shl8_or (ucast b0) b1) b2) b3
   | Little \<Rightarrow> shl8_or (shl8_or (shl8_or (ucast b3) b2) b1) b0)"

text \<open>\<open>i == end ? 0 : *i++\<close>\<close>

fun take_or_0 :: "bytes \<Rightarrow> byte \<times> bytes" where
  "take_or_0 [] = (0, [])"
| "take_or_0 (b # bs) = (b, bs)"

lemma take_or_0_le [termination_simp]: "take_or_0 bs = (b, bs') \<Longrightarrow> length bs' \<le> length bs"
  by (cases bs) auto

function Hash32_loop :: "byte_order \<Rightarrow> nat \<Rightarrow> nat \<Rightarrow> u32 \<Rightarrow> bytes \<Rightarrow> u32" where
  "Hash32_loop host prime1 prime2 n [] = n"
| "Hash32_loop host prime1 prime2 n (b0 # s0) =
     (case take_or_0 s0 of (b1, s1) \<Rightarrow>
        Hash32_loop host ((prime1 + 1) AND 15) ((prime2 + 1) AND 15)
          ((n * kPrimes32 ! prime1) XOR (chunk16 host b0 b1 * kPrimes32 ! prime2)) s1)"
  by pat_completeness auto
termination
  by (relation "measure (\<lambda>(_, _, _, _, s). length s)") (auto simp: take_or_0_le le_imp_less_Suc dest: sym)

definition Hash32StringWithSeed :: "byte_order \<Rightarrow> bytes \<Rightarrow> u32 \<Rightarrow> u32" where
  "Hash32StringWithSeed host s seed = Hash32_loop host 0 8 seed s"

function Hash64_loop :: "byte_order \<Rightarrow> nat \<Rightarrow> nat \<Rightarrow> u64 \<Rightarrow> bytes \<Rightarrow> u64" where
  "Hash64_loop host prime1 prime2 n [] = n"
| "Hash64_loop host prime1 prime2 n (b0 # s0) =
     (case take_or_0 s0 of (b1, s1) \<Rightarrow> case take_or_0 s1 of (b2, s2) \<Rightarrow>
      case take_or_0 s2 of (b3, s3) \<Rightarrow>
        Hash64_loop host ((prime1 + 1) AND 15) ((prime2 + 1) AND 15)
          ((n * kPrimes64 ! prime1) XOR (chunk32 host b0 b1 b2 b3 * kPrimes64 ! prime2)) s3)"
  by pat_completeness auto
termination
  by (relation "measure (\<lambda>(_, _, _, _, s). length s)")
    (auto dest!: sym [THEN take_or_0_le])

definition Hash64StringWithSeed :: "byte_order \<Rightarrow> bytes \<Rightarrow> u64 \<Rightarrow> u64" where
  "Hash64StringWithSeed host s seed = Hash64_loop host 0 8 seed s"

definition Hash32NumWithSeed :: "u32 \<Rightarrow> u32 \<Rightarrow> u32" where
  "Hash32NumWithSeed num seed =
     (let n = (seed * kPrimes32 ! 0) XOR (push_bit 16 num * kPrimes32 ! 8)
      in (n * kPrimes32 ! 1) XOR (drop_bit 16 num * kPrimes32 ! 9))"

definition Hash64NumWithSeed :: "u64 \<Rightarrow> u64 \<Rightarrow> u64" where
  "Hash64NumWithSeed num seed =
     (let n = (seed * kPrimes64 ! 0) XOR (push_bit 32 num * kPrimes64 ! 8)
      in (n * kPrimes64 ! 1) XOR (drop_bit 32 num * kPrimes64 ! 9))"

definition FingerprintString :: "byte_order \<Rightarrow> bytes \<Rightarrow> u64" where
  "FingerprintString host s = Hash64StringWithSeed host s kHashSeed64"

definition FingerprintCat :: "u64 \<Rightarrow> u64 \<Rightarrow> u64" where
  "FingerprintCat fp1 fp2 = Hash64NumWithSeed fp1 fp2"

definition Fingerprint :: "u64 \<Rightarrow> u64" where
  "Fingerprint c = Hash64NumWithSeed c kHashSeed64"

definition kIllegalHash32 :: u32 where
  "kIllegalHash32 = 4294967295"

definition HashTo32 :: "byte_order \<Rightarrow> bytes \<Rightarrow> u32" where
  "HashTo32 host s =
     (let retval = Hash32StringWithSeed host s kHashSeed32
      in if retval = kIllegalHash32 then retval - 1 else retval)"

text \<open>A pointer of 32 or of 64 bits.\<close>

definition Hash32PointerWithSeed :: "bool \<Rightarrow> u64 \<Rightarrow> u32 \<Rightarrow> u32" where
  "Hash32PointerWithSeed ptr32 p seed =
     (if ptr32 then Hash32NumWithSeed (ucast p) seed
      else Hash32NumWithSeed (ucast p) (Hash32NumWithSeed (ucast (drop_bit 32 p)) seed))"


section \<open>Lemmas on byte order\<close>

lemma sgn_bit_eq: "push_bit 63 (- 1 :: 64 word) = 2 ^ 63"
  by (simp add: push_bit_eq_mult)

lemma length_be_bytes64 [simp]: "length (be_bytes64 x) = 8"
  by (simp add: be_bytes64_def)

lemma length_mem_of_u64 [simp]: "length (mem_of_u64 h x) = 8"
  by (cases h) (simp_all add: mem_of_u64_def)

lemma shl8_or_step:
  "shl8_or (drop_bit (n + 8) x) (ucast (drop_bit n x)) = drop_bit n (x :: u64)"
  unfolding shl8_or_def by (rule bit_word_eqI) (auto simp: bit_simps not_le)

lemma foldl_be_bytes64: "foldl shl8_or 0 (be_bytes64 x) = x"
proof -
  have z: "drop_bit 64 x = 0" by (rule bit_word_eqI) (auto simp: bit_simps)
  show ?thesis
    using shl8_or_step [of 56 x] shl8_or_step [of 48 x] shl8_or_step [of 40 x]
      shl8_or_step [of 32 x] shl8_or_step [of 24 x] shl8_or_step [of 16 x]
      shl8_or_step [of 8 x] shl8_or_step [of 0 x]
    by (simp add: be_bytes64_def z)
qed

lemma u64_of_mem_of_u64: "u64_of_mem h (mem_of_u64 h x) = x"
  by (cases h) (simp_all add: u64_of_mem_def mem_of_u64_def foldl_be_bytes64)

lemma be_nat_be_bytes64: "be_nat (be_bytes64 x) = unat x"
  using unat_foldl_shl8_or_exact [of "be_bytes64 x", where 'a = 64] by (simp add: foldl_be_bytes64)

lemma byte_masks:
  "(0x000000FF :: u32) = mask 8" "(0x0000FF00 :: u32) = push_bit 8 (mask 8)"
  "(0x00FF0000 :: u32) = push_bit 16 (mask 8)" "(0xFF000000 :: u32) = push_bit 24 (mask 8)"
  by (simp_all add: mask_eq_exp_minus_1)

lemma bswap32_bytes:
  "(ucast (local_bswap_32 x) :: byte) = ucast (drop_bit 24 x)"
  "(ucast (drop_bit 8 (local_bswap_32 x)) :: byte) = ucast (drop_bit 16 x)"
  "(ucast (drop_bit 16 (local_bswap_32 x)) :: byte) = ucast (drop_bit 8 x)"
  "(ucast (drop_bit 24 (local_bswap_32 x)) :: byte) = ucast x"
  unfolding local_bswap_32_def byte_masks
  by (rule bit_word_eqI, simp add: bit_simps)+

lemma byte_of_halves:
  fixes a b :: u32
  shows "n \<le> 24 \<Longrightarrow> (ucast (drop_bit n (ucast a OR push_bit 32 (ucast b) :: u64)) :: byte)
           = ucast (drop_bit n a)"
    and "n \<le> 24 \<Longrightarrow> (ucast (drop_bit (32 + n) (ucast a OR push_bit 32 (ucast b) :: u64)) :: byte)
           = ucast (drop_bit n b)"
  by (rule bit_word_eqI; auto simp: bit_simps dest: bit_imp_le_length)+

lemma byte_of_ucast:
  fixes x :: u64
  shows "n \<le> 24 \<Longrightarrow> (ucast (drop_bit n (ucast x :: u32)) :: byte) = ucast (drop_bit n x)"
    and "n \<le> 24 \<Longrightarrow> (ucast (drop_bit n (ucast (drop_bit 32 x) :: u32)) :: byte)
           = ucast (drop_bit (32 + n) x)"
  by (rule bit_word_eqI; auto simp: bit_simps ac_simps)+

lemma bswap_reverses: "be_bytes64 (local_bswap_64 x) = rev (be_bytes64 x)"
proof -
  let ?l = "local_bswap_32 (ucast (drop_bit 32 x))" and ?h = "local_bswap_32 (ucast x)"
  show ?thesis
    unfolding be_bytes64_def local_bswap_64_def
    using byte_of_halves(1) [of 0 ?l ?h] byte_of_halves(1) [of 8 ?l ?h]
      byte_of_halves(1) [of 16 ?l ?h] byte_of_halves(1) [of 24 ?l ?h]
      byte_of_halves(2) [of 0 ?l ?h] byte_of_halves(2) [of 8 ?l ?h]
      byte_of_halves(2) [of 16 ?l ?h] byte_of_halves(2) [of 24 ?l ?h]
      byte_of_ucast(1) [of 0 x] byte_of_ucast(1) [of 8 x]
      byte_of_ucast(1) [of 16 x] byte_of_ucast(1) [of 24 x]
      byte_of_ucast(2) [of 0 x] byte_of_ucast(2) [of 8 x]
      byte_of_ucast(2) [of 16 x] byte_of_ucast(2) [of 24 x]
    by (simp add: bswap32_bytes)
qed

lemma be_bytes64_inject: "be_bytes64 x = be_bytes64 y \<longleftrightarrow> x = y"
  by (metis foldl_be_bytes64)

lemma bswap_involution: "local_bswap_64 (local_bswap_64 x) = x"
  by (metis be_bytes64_inject bswap_reverses rev_rev_ident)

text \<open>What the macro should be: defined exactly on a little-endian host.\<close>

definition macro_agrees :: "byte_order \<Rightarrow> bool \<Rightarrow> bool" where
  "macro_agrees host le_macro \<longleftrightarrow> le_macro = (host = Little)"

lemma KeyFromUint64_big_endian:
  "macro_agrees h m \<Longrightarrow> KeyFromUint64 h m x = be_bytes64 x"
  by (cases h) (auto simp: macro_agrees_def KeyFromUint64_def mem_of_u64_def bswap_reverses)

lemma KeyToFromUint64: "KeyToUint64 h m (KeyFromUint64 h m x) = x"
  by (simp add: KeyToUint64_def KeyFromUint64_def u64_of_mem_of_u64 bswap_involution)

lemma be_bytes64_less_iff: "be_bytes64 x < be_bytes64 y \<longleftrightarrow> x < y"
  by (simp add: be_nat_less_iff [symmetric] be_nat_be_bytes64 word_less_nat_alt)

lemma KeyFromUint64_less_iff:
  "macro_agrees h m \<Longrightarrow> KeyFromUint64 h m x < KeyFromUint64 h m y \<longleftrightarrow> x < y"
  by (simp add: KeyFromUint64_big_endian be_bytes64_less_iff)


section \<open>Float keys\<close>

text \<open>The integer that \<open>KeyFromDouble\<close> writes.\<close>

definition dbl_code :: "dbl \<Rightarrow> u64" where
  "dbl_code d = (if 0 \<le>s d then d XOR push_bit 63 (- 1) else - d)"

lemma dbl_code_alt: "dbl_code d = (if 0 \<le>s d then d XOR 2 ^ 63 else - d)"
  by (simp only: dbl_code_def sgn_bit_eq)

lemma KeyFromDouble_code: "KeyFromDouble h m d = KeyFromUint64 h m (dbl_code d)"
  by (simp add: KeyFromDouble_def dbl_code_def Let_def)

lemma bit63_iff: "bit (d :: 64 word) 63 \<longleftrightarrow> dbl_neg_sign d"
proof -
  have "bit d 63 \<longleftrightarrow> bit (unat d) 63" by (simp add: bit_unsigned_iff)
  also have "\<dots> \<longleftrightarrow> odd (unat d div 2 ^ 63)" by (rule bit_iff_odd)
  also have "unat d div 2 ^ 63 = (if dbl_neg_sign d then 1 else 0)"
    using dbl_low_less [of d] unfolding unat_dbl [of d] by (simp add: div_add_self1)
  finally show ?thesis by simp
qed

lemma sign_iff: "0 \<le>s d \<longleftrightarrow> \<not> dbl_neg_sign d"
  using bit_last_iff [of d] by (auto simp: bit63_iff word_sle_eq)

lemma and_sgn_bit: "(n :: 64 word) AND 2 ^ 63 \<noteq> 0 \<longleftrightarrow> bit n 63"
  by (simp add: bit_iff_and_push_bit_not_eq_0 push_bit_eq_mult)

lemma xor_sgn_bit: "\<not> bit (n :: 64 word) 63 \<Longrightarrow> n XOR 2 ^ 63 = n + 2 ^ 63"
proof -
  assume n: "\<not> bit n 63"
  then have z: "n AND 2 ^ 63 = 0" using and_sgn_bit by blast
  then have "n + 2 ^ 63 = n OR 2 ^ 63" by (rule disjunctive_add_eq_or)
  also have "\<dots> = n XOR 2 ^ 63" using z by (simp only: disjunctive_xor_eq_or)
  finally show ?thesis by simp
qed

lemma uint_dbl: "uint (d :: dbl) = (if dbl_neg_sign d then 2 ^ 63 else 0) + int (dbl_low d)"
  using arg_cong [OF unat_dbl [of d], of int] by (simp split: if_splits)

lemma uint_dbl_code: "uint (dbl_code d) = 2 ^ 63 + dbl_ord d"
proof -
  have l: "dbl_low d < 2 ^ 63" by (rule dbl_low_less)
  show ?thesis
  proof (cases "dbl_neg_sign d")
    case True
    then have "uint (dbl_code d) = - (2 ^ 63 + int (dbl_low d)) mod 2 ^ 64"
      using uint_word_ariths(4) [of d] uint_dbl [of d] by (simp add: dbl_code_def sign_iff)
    also have "\<dots> = (2 ^ 63 - int (dbl_low d) + (-1) * 2 ^ 64) mod 2 ^ 64" by simp
    also have "\<dots> = 2 ^ 63 - int (dbl_low d)" using l by (subst mod_mult_self1) simp
    finally show ?thesis using True by (simp add: dbl_ord_def)
  next
    case False
    then have "uint (dbl_code d) = (int (dbl_low d) + 2 ^ 63) mod 2 ^ 64"
      using uint_word_ariths(1) [of d "2 ^ 63"] uint_dbl [of d] xor_sgn_bit [of d]
      by (simp add: dbl_code_alt sign_iff bit63_iff)
    then show ?thesis using False l by (simp add: dbl_ord_def)
  qed
qed

lemma KeyFromDouble_less_iff:
  "macro_agrees h m \<Longrightarrow> KeyFromDouble h m a < KeyFromDouble h m b \<longleftrightarrow> dbl_int a < dbl_int b"
  by (simp add: KeyFromDouble_code KeyFromUint64_less_iff word_less_def uint_dbl_code
      dbl_int_less_iff)

lemma KeyToFromDouble:
  "KeyToDouble h m (KeyFromDouble h m d) = (if d = 2 ^ 63 then 0 else d)"
proof -
  have "KeyToDouble h m (KeyFromDouble h m d) =
      (if dbl_neg_sign (dbl_code d) then dbl_code d XOR 2 ^ 63 else - dbl_code d)"
    by (simp only: KeyToDouble_def KeyFromDouble_code KeyToFromUint64 Let_def sgn_bit_eq
        and_sgn_bit bit63_iff)
  also have "\<dots> = (if d = 2 ^ 63 then 0 else d)"
  proof (cases "dbl_neg_sign d")
    case True
    then have "dbl_code d = - d" by (simp add: dbl_code_def sign_iff)
    moreover have "dbl_neg_sign (dbl_code d) \<longleftrightarrow> d = 2 ^ 63"
    proof -
      have "dbl_neg_sign (dbl_code d) \<longleftrightarrow> 2 ^ 63 \<le> uint (dbl_code d)"
        using uint_dbl [of "dbl_code d"] dbl_low_less [of "dbl_code d"] by (auto split: if_splits)
      also have "\<dots> \<longleftrightarrow> dbl_low d = 0" using True by (simp add: uint_dbl_code dbl_ord_def)
      also have "\<dots> \<longleftrightarrow> d = 2 ^ 63"
        using dbl_make_eta [of d] True by (auto simp: dbl_make_def dbl_low_def)
      finally show ?thesis .
    qed
    ultimately show ?thesis by auto
  next
    case False
    then have c: "dbl_code d = d XOR 2 ^ 63" by (simp add: dbl_code_alt sign_iff)
    have "dbl_neg_sign (dbl_code d)"
      using False by (simp add: bit63_iff [symmetric] c bit_xor_iff bit_exp_iff del: power_numeral)
    moreover have "d \<noteq> 2 ^ 63" using False by (auto simp: dbl_neg_sign_def)
    ultimately show ?thesis by (simp add: c xor.assoc)
  qed
  finally show ?thesis .
qed


section \<open>Properties\<close>

text \<open>C37. Where the macro agrees with the host, the keys written for two doubles that are not
  NaNs compare, as byte strings, exactly as the doubles do; the two zeros share one key.\<close>

theorem float_keys_sort:
  assumes "macro_agrees host le_macro" and "\<not> is_nan a" and "\<not> is_nan b"
  shows "(KeyFromDouble host le_macro a < KeyFromDouble host le_macro b \<longleftrightarrow> dbl_lt a b)
    \<and> (KeyFromDouble host le_macro a = KeyFromDouble host le_macro b \<longleftrightarrow> dbl_eq a b)"
proof -
  have less: "KeyFromDouble host le_macro x < KeyFromDouble host le_macro y
      \<longleftrightarrow> dbl_int x < dbl_int y" for x y
    by (rule KeyFromDouble_less_iff [OF assms(1)])
  have "KeyFromDouble host le_macro a = KeyFromDouble host le_macro b \<longleftrightarrow> dbl_int a = dbl_int b"
    using less [of a b] less [of b a] by auto
  then show ?thesis using less [of a b] assms(2,3) by (simp add: dbl_lt_def dbl_eq_def)
qed

lemma dbl_lt_alt: "dbl_lt a b \<longleftrightarrow> \<not> is_nan a \<and> \<not> is_nan b \<and> dbl_ord a < dbl_ord b"
  by (simp add: dbl_lt_def dbl_int_less_iff)

lemmas dbl_eval = dbl_lt_alt is_nan_def dbl_ord_def dbl_low_def dbl_neg_sign_def inf_low_def

theorem float_keys_sort_witness:
  "KeyFromDouble Little True 0xBFF0000000000000 < KeyFromDouble Little True 0x3FF0000000000000"
  using float_keys_sort [of Little True "0xBFF0000000000000" "0x3FF0000000000000"]
  by (simp add: macro_agrees_def dbl_eval)

text \<open>As shipped, with the macro undefined on a little-endian host, the keys do not sort:
  the key of 1.0 is above the key of 2.0.\<close>

theorem float_keys_unsorted_as_shipped:
  "dbl_lt 0x3FF0000000000000 0x4000000000000000
   \<and> KeyFromDouble Little False 0x4000000000000000 < KeyFromDouble Little False 0x3FF0000000000000"
proof
  show "dbl_lt 0x3FF0000000000000 0x4000000000000000" by (simp add: dbl_eval)
  have "KeyFromDouble Little False 0x4000000000000000 = [0, 0, 0, 0, 0, 0, 0, 0xC0]"
    and "KeyFromDouble Little False 0x3FF0000000000000 = [0, 0, 0, 0, 0, 0, 0xF0, 0xBF]"
    by (simp_all add: KeyFromDouble_code dbl_code_alt KeyFromUint64_def mem_of_u64_def be_bytes64_def
        sign_iff dbl_neg_sign_def)
  then show "KeyFromDouble Little False 0x4000000000000000
      < KeyFromDouble Little False 0x3FF0000000000000" by simp
qed

text \<open>On every host and with either setting of the macro, reading a key gives back the
  number that was written; the only double that changes is the negative zero.\<close>

theorem key_roundtrip:
  "KeyToUint64 host le_macro (KeyFromUint64 host le_macro x) = x
   \<and> KeyToDouble host le_macro (KeyFromDouble host le_macro d) = (if d = 2 ^ 63 then 0 else d)
   \<and> length (KeyFromUint64 host le_macro x) = 8"
proof -
  have "length (KeyFromUint64 host le_macro x) = 8" by (simp add: KeyFromUint64_def)
  then show ?thesis using KeyToFromUint64 KeyToFromDouble by blast
qed

lemma bit_length_0 [simp]: "bit_length 0 = 0"
  by (simp add: bit_length.simps)

lemma bit_length_rec: "n \<noteq> 0 \<Longrightarrow> bit_length n = Suc (bit_length (n div 2))"
  by (subst bit_length.simps) simp

lemma bit_length_bounds: "n \<noteq> 0 \<Longrightarrow> 2 ^ (bit_length n - 1) \<le> n \<and> n < 2 ^ bit_length n"
proof (induction n rule: bit_length.induct)
  case (1 n)
  show ?case
  proof (cases "n div 2 = 0")
    case True
    then have "n = 1" using 1 by auto
    then show ?thesis by (simp add: bit_length_rec)
  next
    case False
    then obtain k where k: "bit_length (n div 2) = Suc k"
      using bit_length_rec by blast
    have "2 ^ k \<le> n div 2 \<and> n div 2 < 2 ^ Suc k" using 1 False k by simp
    then show ?thesis using bit_length_rec [OF 1(2)] k by auto
  qed
qed

lemma Log2Int_loop_spec: "Log2Int_loop c x = c + int (bit_length (unat x))"
proof (induction c x rule: Log2Int_loop.induct)
  case (1 c x)
  have "unat (drop_bit 1 x) = unat x div 2"
    unfolding unat_drop_bit_eq by (simp add: drop_bit_Suc)
  then show ?case
    using 1 bit_length_rec [of "unat x"] by (subst Log2Int_loop.simps) (simp add: unat_gt_0)
qed

text \<open>\<open>Log2Int\<close> ends and gives the position of the highest bit set, -1 for 0.\<close>

theorem Log2Int_highest_bit:
  "if x = 0 then Log2Int x = - 1
   else 0 \<le> Log2Int x \<and> 2 ^ nat (Log2Int x) \<le> unat x \<and> unat x < 2 ^ (nat (Log2Int x) + 1)"
proof (cases "x = 0")
  case False
  then have nz: "unat x \<noteq> 0" by (simp add: unat_gt_0)
  then obtain k where "bit_length (unat x) = Suc k" using bit_length_rec by blast
  then show ?thesis using False bit_length_bounds [OF nz] by (simp add: Log2Int_def Log2Int_loop_spec)
qed (simp add: Log2Int_def Log2Int_loop_spec)

text \<open>The numeric hash is not the string hash of the number in either byte order,
  although its comment says so: it shifts the low half to the upper 32 bits.\<close>

theorem Hash64Num_is_not_string_hash:
  "Hash64NumWithSeed 1 0 \<noteq> Hash64StringWithSeed host (mem_of_u64 host' 1) 0"
proof -
  have "mem_of_u64 Big 1 = [0, 0, 0, 0, 0, 0, 0, 1]" "mem_of_u64 Little 1 = [1, 0, 0, 0, 0, 0, 0, 0]"
    by (simp_all add: mem_of_u64_def be_bytes64_def)
  then show ?thesis
    by (cases host; cases host')
      (simp_all add: Hash64NumWithSeed_def Hash64StringWithSeed_def chunk32_def shl8_or_def
        kPrimes64_def Let_def)
qed

end
