(* ===== verification/Szl_Type.thy ===== *)
theory Szl_Type
  imports Szl_Prelude
begin

text \<open>
  The type descriptions of \<open>public/szltype.h\<close> and \<open>emitvalues/szltype.cc\<close>.  A \<open>SzlType\<close>
  object is a value of \<open>szl_type\<close>; the vectors \<open>*fields_\<close> and \<open>*indices_\<close> are lists, the
  pointers \<open>element_\<close> and \<open>weight_\<close> are options (\<open>NULL\<close> is \<open>None\<close>).  Mutators return
  the updated object.

  The table kinds an executable knows are registered at start-up with
  \<open>SzlResultsRegisterer\<close>; the registry \<open>creators\<close> of \<open>emitvalues/szlresults.cc\<close> is the
  map \<open>reg\<close> from a table name to the registered functions.

  \<open>Valid\<close> keeps a mutable cache \<open>valid_\<close>.  The model returns the error message, and
  \<open>Valid_cached\<close> the object whose cache was set; the flags of nested types, which are
  reachable only through \<open>const\<close> accessors, are left as they were.
\<close>

section \<open>Kinds\<close>

datatype szl_kind =
    K_VOID | K_BOOL | K_BYTES | K_FINGERPRINT | K_FLOAT | K_INT | K_STRING | K_TIME
  | K_TUPLE | K_ARRAY | K_MAP | K_TABLE | K_FUNCTION

fun kind_num :: "szl_kind \<Rightarrow> int" where
  "kind_num K_VOID = 0"
| "kind_num K_BOOL = 1"
| "kind_num K_BYTES = 2"
| "kind_num K_FINGERPRINT = 3"
| "kind_num K_FLOAT = 4"
| "kind_num K_INT = 5"
| "kind_num K_STRING = 6"
| "kind_num K_TIME = 7"
| "kind_num K_TUPLE = 8"
| "kind_num K_ARRAY = 9"
| "kind_num K_MAP = 10"
| "kind_num K_TABLE = 11"
| "kind_num K_FUNCTION = 12"

definition NKIND :: int where
  "NKIND = 13"

text \<open>The static table \<open>tbl\<close>: names and the base-kind flags.\<close>

definition tbl_kind :: "string list" where
  "tbl_kind = [''void'', ''bool'', ''bytes'', ''fingerprint'', ''float'', ''int'', ''string'',
     ''time'', ''tuple'', ''array'', ''map'', ''unknown'', ''unknown'']"

fun BaseKind :: "szl_kind \<Rightarrow> bool" where
  "BaseKind k = (k \<in> {K_BOOL, K_BYTES, K_FINGERPRINT, K_FLOAT, K_INT, K_STRING, K_TIME})"

text \<open>\<open>KindName\<close> takes any value the enumeration's storage can hold.\<close>

definition KindName :: "int \<Rightarrow> string res" where
  "KindName kind =
     (if kind < 0 \<or> kind > NKIND then Ok ''<unknown type>''
      else if nat kind < length tbl_kind then Ok (tbl_kind ! nat kind)
      else Inl Out_of_range)"


section \<open>Types and fields\<close>

datatype szl_type =
  SzlType (ty_kind: szl_kind) (ty_table: string) (ty_param: int) (ty_valid: bool)
    (ty_fields: "szl_field list") (ty_indices: "szl_field list")
    (ty_element: "szl_field option") (ty_weight: "szl_field option")
and szl_field =
  SzlField (fd_label: string) (fd_type: szl_type)

text \<open>The constructor \<open>SzlType(Kind kind)\<close>.\<close>

definition new_type :: "szl_kind \<Rightarrow> szl_type" where
  "new_type k = SzlType k [] 0 False [] [] None None"

definition kVoid :: szl_type where "kVoid = new_type K_VOID"
definition kBool :: szl_type where "kBool = new_type K_BOOL"
definition kBytes :: szl_type where "kBytes = new_type K_BYTES"
definition kFingerprint :: szl_type where "kFingerprint = new_type K_FINGERPRINT"
definition kFloat :: szl_type where "kFloat = new_type K_FLOAT"
definition kInt :: szl_type where "kInt = new_type K_INT"
definition kString :: szl_type where "kString = new_type K_STRING"
definition kTime :: szl_type where "kTime = new_type K_TIME"

fun set_kind :: "szl_kind \<Rightarrow> szl_type \<Rightarrow> szl_type" where
  "set_kind k (SzlType _ tb pm v fs ixs el wt) = SzlType k tb pm v fs ixs el wt"

fun set_table :: "string \<Rightarrow> szl_type \<Rightarrow> szl_type" where
  "set_table tb (SzlType k _ pm v fs ixs el wt) = SzlType k tb pm v fs ixs el wt"

fun set_param :: "int \<Rightarrow> szl_type \<Rightarrow> szl_type" where
  "set_param pm (SzlType k tb _ v fs ixs el wt) = SzlType k tb pm v fs ixs el wt"

fun AddIndex :: "string \<Rightarrow> szl_type \<Rightarrow> szl_type \<Rightarrow> szl_type" where
  "AddIndex l t (SzlType k tb pm v fs ixs el wt) =
     SzlType k tb pm False fs (ixs @ [SzlField l t]) el wt"

fun AddField :: "string \<Rightarrow> szl_type \<Rightarrow> szl_type \<Rightarrow> szl_type" where
  "AddField l t (SzlType k tb pm v fs ixs el wt) =
     SzlType k tb pm False (fs @ [SzlField l t]) ixs el wt"

text \<open>\<open>vector::resize\<close> drops the tail or appends default fields \<open>SzlField()\<close>.\<close>

definition resize_fields :: "nat \<Rightarrow> szl_field list \<Rightarrow> szl_field list" where
  "resize_fields n fs = take n fs @ replicate (n - length fs) (SzlField [] (new_type K_VOID))"

fun indices_resize :: "nat \<Rightarrow> szl_type \<Rightarrow> szl_type" where
  "indices_resize n (SzlType k tb pm v fs ixs el wt) =
     SzlType k tb pm v fs (resize_fields n ixs) el wt"

fun fields_resize :: "nat \<Rightarrow> szl_type \<Rightarrow> szl_type" where
  "fields_resize n (SzlType k tb pm v fs ixs el wt) =
     SzlType k tb pm v (resize_fields n fs) ixs el wt"

fun set_element :: "szl_field option \<Rightarrow> szl_type \<Rightarrow> szl_type" where
  "set_element f (SzlType k tb pm v fs ixs el wt) = SzlType k tb pm False fs ixs f wt"

fun set_weight :: "szl_field option \<Rightarrow> szl_type \<Rightarrow> szl_type" where
  "set_weight f (SzlType k tb pm v fs ixs el wt) = SzlType k tb pm False fs ixs el f"

fun PartialReset :: "szl_type \<Rightarrow> szl_type" where
  "PartialReset (SzlType k tb pm v fs ixs el wt) = SzlType k [] pm False fs ixs None None"

definition fields_size :: "szl_type \<Rightarrow> nat" where
  "fields_size t = length (ty_fields t)"

definition indices_size :: "szl_type \<Rightarrow> nat" where
  "indices_size t = length (ty_indices t)"


section \<open>The registry of table kinds\<close>

record table_properties =
  props_name :: string
  has_param :: bool
  has_weight :: bool

text \<open>The registered functions a type description depends on: \<open>validate\<close> (the error, or
  \<open>None\<close>) and \<open>props\<close>.\<close>

record results_statics =
  validate :: "szl_type \<Rightarrow> string option"
  props :: "string \<Rightarrow> table_properties"

type_synonym registry = "string \<rightharpoonup> results_statics"

definition Properties :: "registry \<Rightarrow> string \<Rightarrow> table_properties option" where
  "Properties reg kind = (case reg kind of None \<Rightarrow> None | Some s \<Rightarrow> Some (props s kind))"

definition IsValid :: "registry \<Rightarrow> szl_type \<Rightarrow> string option res" where
  "IsValid reg t =
     (if ty_kind t \<noteq> K_TABLE then Inl Check_failed
      else Ok (case reg (ty_table t) of None \<Rightarrow> Some ''unknown szl type ''
               | Some s \<Rightarrow> validate s t))"


section \<open>Validity\<close>

text \<open>\<open>Valid\<close>: \<open>None\<close> when it returns true, the message in \<open>*error\<close> otherwise.  The call
  of \<open>SzlResults::IsValid\<close> is made for a table only, so its \<open>CHECK\<close> holds there.\<close>

definition table_check :: "registry \<Rightarrow> szl_type \<Rightarrow> string option" where
  "table_check reg t =
     (case Properties reg (ty_table t) of
        None \<Rightarrow> Some (''unknown table type '' @ ty_table t)
      | Some p \<Rightarrow>
          if (ty_weight t \<noteq> None) \<noteq> has_weight p then
            (if ty_weight t \<noteq> None then Some ''table has spurious weight''
             else Some ''table missing weight'')
          else (case IsValid reg t of Inl _ \<Rightarrow> Some ''CHECK'' | Inr r \<Rightarrow> r))"

fun Valid :: "registry \<Rightarrow> szl_type \<Rightarrow> string option"
and ValidIndices :: "registry \<Rightarrow> szl_field list \<Rightarrow> string option"
and ValidFields :: "registry \<Rightarrow> szl_field list \<Rightarrow> string option" where
  "Valid reg (SzlType k tb pm v fs ixs el wt) =
     (if v then None
      else if k = K_TABLE then
        (if tb = [] then Some ''no table type name''
         else case el of None \<Rightarrow> Some ''no element type''
         | Some (SzlField el_l el_t) \<Rightarrow>
           (case Valid reg el_t of Some e \<Rightarrow> Some e | None \<Rightarrow>
            if ty_kind el_t = K_TABLE then Some ''can't have a table of tables''
            else if fs \<noteq> [] then Some ''table can't have fields''
            else (case ValidIndices reg ixs of Some e \<Rightarrow> Some e | None \<Rightarrow>
              (case wt of
                 None \<Rightarrow> table_check reg (SzlType k tb pm v fs ixs el wt)
               | Some (SzlField wt_l wt_t) \<Rightarrow>
                 (case Valid reg wt_t of Some e \<Rightarrow> Some e | None \<Rightarrow>
                  if ty_kind wt_t = K_TABLE then Some ''can't have a table weighted by tables''
                  else table_check reg (SzlType k tb pm v fs ixs el wt))))))
      else if k = K_VOID then Some ''invalid type''
      else if k = K_TUPLE then
        (if pm \<noteq> 0 then Some ''tuples can't have params''
         else if ixs \<noteq> [] then Some ''tuples can't have indices''
         else if el \<noteq> None then Some ''tuples can't have an element type''
         else if wt \<noteq> None then Some ''tuples can't have weights''
         else ValidFields reg fs)
      else if k = K_ARRAY then
        (if pm \<noteq> 0 then Some ''arrays can't have params''
         else if ixs \<noteq> [] then Some ''arrays can't have indices''
         else if fs \<noteq> [] then Some ''arrays can't have fields''
         else if wt \<noteq> None then Some ''arrays can't have weights''
         else case el of None \<Rightarrow> Some ''arrays must have an element type''
         | Some (SzlField el_l el_t) \<Rightarrow>
           (case Valid reg el_t of Some e \<Rightarrow> Some e | None \<Rightarrow>
            if ty_kind el_t = K_TABLE then Some ''can't have an array of tables'' else None))
      else if k = K_MAP then
        (if pm \<noteq> 0 then Some ''maps can't have params''
         else if wt \<noteq> None then Some ''maps can't have weights''
         else if fs \<noteq> [] then Some ''maps can't have fields''
         else if length ixs \<noteq> 1 then Some ''maps must have exactly 1 index''
         else (case ValidIndices reg ixs of Some e \<Rightarrow> Some e | None \<Rightarrow>
           (case el of None \<Rightarrow> Some ''maps must have an element type''
            | Some (SzlField el_l el_t) \<Rightarrow>
              (case Valid reg el_t of Some e \<Rightarrow> Some e | None \<Rightarrow>
               if ty_kind el_t = K_TABLE then Some ''can't have a map of tables'' else None))))
      else if \<not> BaseKind k then Some ''unknown type kind''
      else if pm \<noteq> 0 \<or> fs \<noteq> [] \<or> ixs \<noteq> [] \<or> el \<noteq> None \<or> wt \<noteq> None then
        Some ''base type with some structural elements set''
      else None)"
| "ValidIndices reg [] = None"
| "ValidIndices reg (SzlField l t # ixs) =
     (case Valid reg t of Some e \<Rightarrow> Some e | None \<Rightarrow>
      if ty_kind t = K_TABLE then Some ''cannot have a table as another table's index''
      else ValidIndices reg ixs)"
| "ValidFields reg [] = None"
| "ValidFields reg (SzlField l t # fs) =
     (if ty_kind t = K_TABLE then Some ''can't have a tuple with a table field''
      else case Valid reg t of Some e \<Rightarrow> Some e | None \<Rightarrow> ValidFields reg fs)"

declare Valid.simps [simp del]

fun mark_valid :: "szl_type \<Rightarrow> szl_type" where
  "mark_valid (SzlType k tb pm v fs ixs el wt) = SzlType k tb pm True fs ixs el wt"

definition Valid_cached :: "registry \<Rightarrow> szl_type \<Rightarrow> szl_type" where
  "Valid_cached reg t = (if Valid reg t = None then mark_valid t else t)"

definition BaseType :: "registry \<Rightarrow> szl_type \<Rightarrow> bool" where
  "BaseType reg t = (if Valid reg t \<noteq> None then False else BaseKind (ty_kind t))"

definition TupleType :: "registry \<Rightarrow> szl_type \<Rightarrow> bool" where
  "TupleType reg t = (if Valid reg t \<noteq> None then False else ty_kind t = K_TUPLE)"

definition TableType :: "registry \<Rightarrow> szl_type \<Rightarrow> bool" where
  "TableType reg t = (if Valid reg t \<noteq> None then False else ty_kind t = K_TABLE)"



section \<open>Printing\<close>

fun separate_by :: "'a \<Rightarrow> 'a list \<Rightarrow> 'a list" where
  "separate_by s [] = []"
| "separate_by s [x] = [x]"
| "separate_by s (x # xs) = x # s # separate_by s xs"

definition field_prefix :: "string \<Rightarrow> string" where
  "field_prefix l = (if l \<noteq> [] then l @ '': '' else [])"

fun type_PPrint :: "registry \<Rightarrow> szl_type \<Rightarrow> string res"
and SzlFieldPPrint :: "registry \<Rightarrow> szl_field \<Rightarrow> string res"
and fields_PPrint :: "registry \<Rightarrow> szl_field list \<Rightarrow> string list res" where
  "type_PPrint reg (SzlType k tb pm v fs ixs el wt) =
     (case Valid reg (SzlType k tb pm v fs ixs el wt) of
        Some e \<Rightarrow> Ok (''badtype<'' @ e @ ''>'')
      | None \<Rightarrow>
        if BaseKind k then Ok (tbl_kind ! nat (kind_num k))
        else if k = K_TUPLE then
          bind_res (fields_PPrint reg fs) (\<lambda>ps.
            Ok (''{'' @ concat (separate_by '', '' ps) @ ''}''))
        else if k = K_ARRAY then
          (case el of None \<Rightarrow> Inl Null_deref
           | Some f \<Rightarrow> bind_res (SzlFieldPPrint reg f) (\<lambda>p. Ok (''array of '' @ p)))
        else if k = K_MAP then
          (case ixs of [] \<Rightarrow> Inl Out_of_range
           | ix # _ \<Rightarrow> bind_res (SzlFieldPPrint reg ix) (\<lambda>pi.
               case el of None \<Rightarrow> Inl Null_deref
               | Some f \<Rightarrow> bind_res (SzlFieldPPrint reg f) (\<lambda>p.
                   Ok (''map['' @ pi @ '']'' @ '' of '' @ p))))
        else if k = K_TABLE then
          (case Properties reg tb of
             None \<Rightarrow> Inl (Fatal ''can't get properties for a valid table type'')
           | Some pr \<Rightarrow>
             bind_res (fields_PPrint reg ixs) (\<lambda>pis.
             case el of None \<Rightarrow> Inl Null_deref
             | Some f \<Rightarrow> bind_res (SzlFieldPPrint reg f) (\<lambda>p.
               bind_res (case wt of None \<Rightarrow> Ok []
                         | Some w \<Rightarrow> bind_res (SzlFieldPPrint reg w) (\<lambda>pw. Ok ('' weight '' @ pw)))
                 (\<lambda>pw. Ok (''table '' @ props_name pr
                    @ (if has_param pr then ''('' @ int_dec pm @ '')'' else [])
                    @ concat (map (\<lambda>q. ''['' @ q @ '']'') pis) @ '' of '' @ p @ pw)))))
        else Ok (''can't PPrint '' @ (tbl_kind ! nat (kind_num k)) @ '' types''))"
| "SzlFieldPPrint reg (SzlField l t) =
     bind_res (type_PPrint reg t) (\<lambda>p. Ok (field_prefix l @ p))"
| "fields_PPrint reg [] = Ok []"
| "fields_PPrint reg (f # fs) =
     bind_res (SzlFieldPPrint reg f) (\<lambda>p. bind_res (fields_PPrint reg fs) (\<lambda>ps. Ok (p # ps)))"

declare type_PPrint.simps [simp del]


section \<open>Comparison\<close>

text \<open>\<open>Equal\<close> looks below the kind only for tables.\<close>

fun Equal :: "szl_type \<Rightarrow> szl_type \<Rightarrow> bool res"
and Equal_indices :: "szl_field list \<Rightarrow> szl_field list \<Rightarrow> bool res" where
  "Equal (SzlType k tb pm v fs ixs el wt) other =
     (if ty_kind other \<noteq> k then Ok False
      else if k = K_TABLE then
        (if ty_table other \<noteq> tb then Ok False
         else case el of None \<Rightarrow> Inl Null_deref
         | Some (SzlField el_l el_t) \<Rightarrow>
           (case ty_element other of None \<Rightarrow> Inl Null_deref
            | Some oel \<Rightarrow> bind_res (Equal el_t (fd_type oel)) (\<lambda>eq.
              if \<not> eq then Ok False
              else if length ixs \<noteq> length (ty_indices other) then Ok False
              else bind_res (Equal_indices ixs (ty_indices other)) (\<lambda>eqi.
                if \<not> eqi then Ok False
                else case wt of
                    None \<Rightarrow> Ok (ty_weight other = None)
                  | Some (SzlField wt_l wt_t) \<Rightarrow>
                    (case ty_weight other of None \<Rightarrow> Ok False
                     | Some ow \<Rightarrow> Equal wt_t (fd_type ow))))))
      else Ok True)"
| "Equal_indices [] _ = Ok True"
| "Equal_indices (SzlField l t # ixs) others =
     (case others of [] \<Rightarrow> Inl Out_of_range
      | SzlField _ ot # others' \<Rightarrow>
        bind_res (Equal t ot) (\<lambda>eq. if \<not> eq then Ok False else Equal_indices ixs others'))"

declare Equal.simps [simp del]


section \<open>What a valid type looks like\<close>

definition children :: "szl_type \<Rightarrow> szl_type list" where
  "children t = map fd_type (ty_fields t @ ty_indices t
     @ (case ty_element t of None \<Rightarrow> [] | Some f \<Rightarrow> [f])
     @ (case ty_weight t of None \<Rightarrow> [] | Some f \<Rightarrow> [f]))"

inductive nested :: "szl_type \<Rightarrow> szl_type \<Rightarrow> bool" where
  child: "s \<in> set (children t) \<Longrightarrow> nested s t"
| deeper: "s \<in> set (children t) \<Longrightarrow> nested r s \<Longrightarrow> nested r t"

text \<open>No validity flag has been cached yet, here or below.\<close>

definition fresh :: "szl_type \<Rightarrow> bool" where
  "fresh t \<longleftrightarrow> \<not> ty_valid t \<and> (\<forall>s. nested s t \<longrightarrow> \<not> ty_valid s)"

lemma fresh_child: "fresh t \<Longrightarrow> s \<in> set (children t) \<Longrightarrow> fresh s"
  by (auto simp: fresh_def intro: nested.intros)

lemma ValidFields_None_iff:
  "ValidFields reg fs = None \<longleftrightarrow>
     (\<forall>f \<in> set fs. ty_kind (fd_type f) \<noteq> K_TABLE \<and> Valid reg (fd_type f) = None)"
proof (induction fs)
  case Nil
  show ?case by (simp add: Valid.simps)
next
  case (Cons f fs)
  then show ?case by (cases f) (auto simp: Valid.simps split: option.splits)
qed

lemma ValidIndices_None_iff:
  "ValidIndices reg fs = None \<longleftrightarrow>
     (\<forall>f \<in> set fs. ty_kind (fd_type f) \<noteq> K_TABLE \<and> Valid reg (fd_type f) = None)"
proof (induction fs)
  case Nil
  show ?case by (simp add: Valid.simps)
next
  case (Cons f fs)
  then show ?case by (cases f) (auto simp: Valid.simps split: option.splits)
qed

text \<open>One characterisation of \<open>Valid\<close> per kind, for a type whose flag is not set.\<close>

lemma Valid_None_tuple:
  "Valid reg (SzlType K_TUPLE tb pm False fs ixs el wt) = None \<longleftrightarrow>
     pm = 0 \<and> ixs = [] \<and> el = None \<and> wt = None \<and> ValidFields reg fs = None"
  by (simp add: Valid.simps)

lemma Valid_None_array:
  "Valid reg (SzlType K_ARRAY tb pm False fs ixs el wt) = None \<longleftrightarrow>
     pm = 0 \<and> ixs = [] \<and> fs = [] \<and> wt = None \<and>
     (\<exists>f. el = Some f \<and> Valid reg (fd_type f) = None \<and> ty_kind (fd_type f) \<noteq> K_TABLE)"
  by (auto simp: Valid.simps split: option.splits szl_field.splits)

lemma Valid_None_map:
  "Valid reg (SzlType K_MAP tb pm False fs ixs el wt) = None \<longleftrightarrow>
     pm = 0 \<and> fs = [] \<and> wt = None \<and> length ixs = 1 \<and> ValidIndices reg ixs = None \<and>
     (\<exists>f. el = Some f \<and> Valid reg (fd_type f) = None \<and> ty_kind (fd_type f) \<noteq> K_TABLE)"
  by (auto simp: Valid.simps split: option.splits szl_field.splits)

lemma Valid_None_table:
  "Valid reg (SzlType K_TABLE tb pm False fs ixs el wt) = None \<longleftrightarrow>
     tb \<noteq> [] \<and> fs = [] \<and> ValidIndices reg ixs = None \<and>
     (\<exists>f. el = Some f \<and> Valid reg (fd_type f) = None \<and> ty_kind (fd_type f) \<noteq> K_TABLE) \<and>
     (\<forall>f. wt = Some f \<longrightarrow> Valid reg (fd_type f) = None \<and> ty_kind (fd_type f) \<noteq> K_TABLE) \<and>
     table_check reg (SzlType K_TABLE tb pm False fs ixs el wt) = None"
  by (cases el; cases wt)
    (auto simp: Valid.simps split: option.splits szl_field.splits)

lemma Valid_None_base:
  "BaseKind k \<Longrightarrow> Valid reg (SzlType k tb pm False fs ixs el wt) = None \<longleftrightarrow>
     pm = 0 \<and> fs = [] \<and> ixs = [] \<and> el = None \<and> wt = None"
  by (auto simp: Valid.simps)

lemma Valid_None_void [simp]:
  "Valid reg (SzlType K_VOID tb pm False fs ixs el wt) \<noteq> None"
  "Valid reg (SzlType K_FUNCTION tb pm False fs ixs el wt) \<noteq> None"
  by (simp_all add: Valid.simps)

lemmas Valid_None_simps = Valid_None_tuple Valid_None_array Valid_None_map Valid_None_table
  Valid_None_base ValidFields_None_iff ValidIndices_None_iff

lemma Valid_child:
  assumes "Valid reg t = None" and "\<not> ty_valid t" and "s \<in> set (children t)"
  shows "Valid reg s = None \<and> ty_kind s \<noteq> K_TABLE"
proof (cases t)
  case (SzlType k tb pm v fs ixs el wt)
  with assms(2) have t: "t = SzlType k tb pm False fs ixs el wt" by simp
  note valid = assms(1) [unfolded t] and kid = assms(3) [unfolded t children_def, simplified]
  consider "BaseKind k" | "k = K_TUPLE" | "k = K_ARRAY" | "k = K_MAP" | "k = K_TABLE"
    using valid by (cases k) auto
  then show ?thesis
  proof cases
    case 1
    show ?thesis using valid kid unfolding Valid_None_base [OF 1] by simp
  next
    case 2
    show ?thesis using valid kid unfolding 2 Valid_None_tuple ValidFields_None_iff by auto
  next
    case 3
    show ?thesis using valid kid unfolding 3 Valid_None_array by auto
  next
    case 4
    show ?thesis using valid kid unfolding 4 Valid_None_map ValidIndices_None_iff by auto
  next
    case 5
    show ?thesis using valid kid unfolding 5 Valid_None_table ValidIndices_None_iff
      by (cases wt) auto
  qed
qed

lemma Valid_uncached_kind:
  "Valid reg t = None \<Longrightarrow> \<not> ty_valid t \<Longrightarrow> ty_kind t \<noteq> K_VOID \<and> ty_kind t \<noteq> K_FUNCTION"
  by (cases t; cases "ty_kind t") auto

lemma nested_valid:
  "nested s t \<Longrightarrow> fresh t \<Longrightarrow> Valid reg t = None \<Longrightarrow>
     Valid reg s = None \<and> ty_kind s \<notin> {K_TABLE, K_VOID, K_FUNCTION}"
proof (induction rule: nested.induct)
  case (child s t)
  have "\<not> ty_valid t" using child.prems(1) by (simp add: fresh_def)
  then have "Valid reg s = None \<and> ty_kind s \<noteq> K_TABLE"
    by (rule Valid_child [OF child.prems(2) _ child.hyps])
  moreover have "\<not> ty_valid s"
    using fresh_child [OF child.prems(1) child.hyps] by (simp add: fresh_def)
  ultimately show ?case using Valid_uncached_kind by blast
next
  case (deeper s t r)
  have "\<not> ty_valid t" using deeper.prems(1) by (simp add: fresh_def)
  then have "Valid reg s = None"
    using Valid_child [OF deeper.prems(2) _ deeper.hyps(1)] by simp
  with deeper.IH fresh_child [OF deeper.prems(1) deeper.hyps(1)] show ?case by simp
qed

lemma BaseType_iff:
  "BaseType reg t \<longleftrightarrow> BaseKind (ty_kind t) \<and>
     (ty_valid t \<or> ty_param t = 0 \<and> ty_fields t = [] \<and> ty_indices t = []
        \<and> ty_element t = None \<and> ty_weight t = None)"
  by (cases t) (auto simp: BaseType_def Valid.simps)

lemma BaseType_new: "BaseKind k \<Longrightarrow> BaseType reg (new_type k)"
  by (simp add: BaseType_iff new_type_def)

lemma not_BaseType: "\<not> BaseKind (ty_kind t) \<Longrightarrow> \<not> BaseType reg t"
  by (simp add: BaseType_iff)


subsection \<open>Printing never aborts on a valid type\<close>

lemma Properties_of_valid_table:
  "Valid reg (SzlType K_TABLE tb pm False fs ixs el wt) = None \<Longrightarrow>
     \<exists>p. Properties reg tb = Some p"
  by (auto simp: Valid_None_table table_check_def split: option.splits)

lemma PPrint_total:
  shows "fresh t \<Longrightarrow> \<exists>p. type_PPrint reg t = Ok p"
    and "fresh (fd_type f) \<Longrightarrow> \<exists>p. SzlFieldPPrint reg f = Ok p"
    and "(\<forall>f \<in> set fs. fresh (fd_type f)) \<Longrightarrow> \<exists>ps. fields_PPrint reg fs = Ok ps"
proof (induction reg t and reg f and reg fs rule: type_PPrint_SzlFieldPPrint_fields_PPrint.induct)
  case (1 reg k tb pm v fs ixs el wt)
  let ?t = "SzlType k tb pm v fs ixs el wt"
  have kids: "fresh (fd_type f)" if "f \<in> set fs \<union> set ixs \<union> set_option el \<union> set_option wt" for f
    using 1(8) that by (elim fresh_child) (auto simp: children_def)
  have nv: "\<not> v" using 1(8) by (simp add: fresh_def)
  show ?case
  proof (cases "Valid reg ?t")
    case (Some e)
    then show ?thesis by (simp add: type_PPrint.simps)
  next
    case None
    note IH = 1(1-7) [OF None]
    consider "BaseKind k" | "k = K_TUPLE" | "k = K_ARRAY" | "k = K_MAP" | "k = K_TABLE"
      using Valid_uncached_kind [OF None] nv by (cases k) auto
    then show ?thesis
    proof cases
      case 1
      then show ?thesis using None by (simp add: type_PPrint.simps)
    next
      case 2
      then show ?thesis using IH(1) None kids by (force simp: type_PPrint.simps)
    next
      case 3
      then obtain f where "el = Some f" using None nv by (auto simp: Valid_None_simps)
      then show ?thesis using 3 IH(2) None kids by (force simp: type_PPrint.simps)
    next
      case 4
      then obtain f ix where "el = Some f" "ixs = [ix]"
        using None nv by (auto simp: Valid_None_simps length_Suc_conv)
      then show ?thesis using 4 IH(3,4) None kids by (force simp: type_PPrint.simps)
    next
      case 5
      then have vt: "Valid reg (SzlType K_TABLE tb pm False fs ixs el wt) = None"
        using None nv by simp
      then obtain f where "el = Some f" by (auto simp: Valid_None_table)
      moreover obtain p where "Properties reg tb = Some p"
        using Properties_of_valid_table [OF vt] by auto
      moreover obtain ps where "fields_PPrint reg ixs = Ok ps"
        using IH(5) 5 kids \<open>Properties reg tb = Some p\<close> by auto
      moreover obtain q where "SzlFieldPPrint reg f = Ok q"
        using IH(6) 5 kids [of f] calculation by auto
      moreover have "\<exists>r. SzlFieldPPrint reg w = Ok r" if "wt = Some w" for w
        using IH(7) 5 kids [of w] calculation that by auto
      ultimately show ?thesis using 5 None
        by (cases wt) (auto simp: type_PPrint.simps)
    qed
  qed
qed (auto simp: type_PPrint.simps)



section \<open>Properties\<close>

text \<open>C38. If no validity is cached anywhere inside a type (\<open>fresh\<close>; a cached one may be out
  of date, \<open>valid_cache_stale\<close>) and it is valid, every type nested in it at any depth is itself valid and is not a
  table, the void type or a function type, so the recursive walks over a type (flattening,
  encoding, printing) meet base types, tuples, arrays and maps only.\<close>

theorem valid_type_parts:
  assumes "fresh t" and "Valid reg t = None" and "nested s t"
  shows "Valid reg s = None \<and> ty_kind s \<notin> {K_TABLE, K_VOID, K_FUNCTION}"
  using nested_valid [OF assms(3,1,2)] .

definition pair_type :: szl_type where
  "pair_type = AddField ''n'' kInt (AddField ''s'' kString (new_type K_TUPLE))"

lemma nested_of_base: "BaseKind k \<Longrightarrow> \<not> nested s (new_type k)"
  by (auto simp: new_type_def children_def elim: nested.cases)

lemma nested_pair_type: "nested s pair_type \<longleftrightarrow> s = kInt \<or> s = kString"
proof
  assume "nested s pair_type"
  then show "s = kInt \<or> s = kString"
    using nested_of_base [of K_INT s] nested_of_base [of K_STRING s]
    by (cases rule: nested.cases)
      (auto simp: pair_type_def new_type_def children_def kInt_def kString_def)
next
  assume "s = kInt \<or> s = kString"
  then show "nested s pair_type"
    by (intro nested.child) (auto simp: pair_type_def new_type_def children_def)
qed

lemma fresh_pair_type: "fresh pair_type"
  by (auto simp: fresh_def nested_pair_type)
    (simp_all add: pair_type_def new_type_def kInt_def kString_def)

lemma Valid_pair_type: "Valid reg pair_type = None"
  by (simp add: pair_type_def new_type_def kInt_def kString_def Valid.simps)

theorem valid_type_parts_witness:
  "Valid Map.empty kInt = None \<and> ty_kind kInt \<notin> {K_TABLE, K_VOID, K_FUNCTION}"
  by (rule valid_type_parts [OF fresh_pair_type Valid_pair_type])
    (simp add: nested_pair_type)

text \<open>Printing a type description never aborts the process and never follows a null
  element pointer when no validity flag is stale: an invalid type prints as
  \<open>badtype<...>\<close>, and for a valid table the registered properties exist.\<close>

theorem type_PPrint_total: "fresh t \<Longrightarrow> \<exists>p. type_PPrint reg t = Ok p"
  by (rule PPrint_total(1))

theorem type_PPrint_total_witness: "\<exists>p. type_PPrint Map.empty pair_type = Ok p"
  by (rule type_PPrint_total [OF fresh_pair_type])

text \<open>The cached validity flag goes stale: \<open>set_param\<close>, \<open>set_kind\<close> and
  \<open>indices_resize\<close> do not reset it, so once \<open>Valid\<close> has accepted a type it goes on
  accepting the changed one, which the same checks refuse when the flag is clear.\<close>

theorem valid_cache_stale:
  "Valid reg (set_param 1 (Valid_cached reg kInt)) = None
   \<and> Valid reg (set_param 1 kInt) = Some ''base type with some structural elements set''
   \<and> Valid reg (set_kind K_VOID (Valid_cached reg kInt)) = None
   \<and> Valid reg (set_kind K_VOID kInt) = Some ''invalid type''
   \<and> Valid reg (indices_resize 1 (Valid_cached reg kInt)) = None
   \<and> Valid reg (indices_resize 1 kInt) = Some ''base type with some structural elements set''"
  by (simp add: Valid_cached_def kInt_def new_type_def Valid.simps resize_fields_def)

text \<open>\<open>KindName\<close> stays inside its table of names for every enumerator, answers
  \<open><unknown type>\<close> below 0 and above \<open>NKIND\<close>, and reads one element past the table at
  \<open>NKIND\<close> itself, which its bound \<open>kind > NKIND\<close> lets through.\<close>

theorem KindName_bounds:
  "KindName (kind_num k) = Ok (tbl_kind ! nat (kind_num k))
   \<and> (i < 0 \<or> i > NKIND \<longrightarrow> KindName i = Ok ''<unknown type>'')
   \<and> (KindName i = Inl Out_of_range \<longleftrightarrow> i = NKIND)"
  by (cases k) (auto simp: KindName_def NKIND_def tbl_kind_def)

theorem KindName_bounds_witness:
  "KindName (kind_num K_MAP) = Ok ''map'' \<and> KindName (- 1) = Ok ''<unknown type>''
   \<and> KindName NKIND = Inl Out_of_range"
  using KindName_bounds [of K_MAP "- 1"] KindName_bounds [of K_MAP NKIND]
  by (simp add: tbl_kind_def NKIND_def)

end
