(* ===== verification/Szl_Encoder.thy ===== *)
theory Szl_Encoder
  imports Szl_Keys Szl_Type
begin

text \<open>
  The wire format of emitted values: the tags of \<open>emitvalues/szlencoding.h\<close> and the class
  \<open>SzlEncoder\<close> of \<open>public/szlencoder.h\<close> and \<open>emitvalues/szlencoder.cc\<close>.  An encoder object
  is the record \<open>szl_encoder\<close>; every \<open>Put\<close> operation returns the updated object.  The
  scratch buffer \<open>buf_\<close> is local to one operation and is not part of the state.

  \<open>PutFloat\<close> needs the byte order of the host and the macro of \<open>Szl_Keys\<close>; a
  \<open>host_config\<close> is the pair of them.
\<close>

section \<open>Tags\<close>

definition TAG_VOID :: nat where "TAG_VOID = 0"
definition TAG_STRING :: nat where "TAG_STRING = 6"
definition BOOL_FALSE :: nat where "BOOL_FALSE = 8"
definition BOOL_TRUE :: nat where "BOOL_TRUE = 9"
definition TAG_BYTES :: nat where "TAG_BYTES = 10"
definition FINGERPRINT1 :: nat where "FINGERPRINT1 = 11"
definition INTN8 :: nat where "INTN8 = 19"
definition INTN1 :: nat where "INTN1 = 26"
definition INTP1 :: nat where "INTP1 = 27"
definition TIME1 :: nat where "TIME1 = 35"
definition ARRAY_START :: nat where "ARRAY_START = 43"
definition ARRAY_END :: nat where "ARRAY_END = 44"
definition TUPLE_START :: nat where "TUPLE_START = 45"
definition TUPLE_END :: nat where "TUPLE_END = 46"
definition TAG_FLOAT :: nat where "TAG_FLOAT = 47"
definition MAP_START :: nat where "MAP_START = 48"
definition MAP_END :: nat where "MAP_END = 49"
definition TAG_NKIND :: nat where "TAG_NKIND = 50"

definition kBytesTerm :: byte where "kBytesTerm = 0x42"

lemmas tag_defs = TAG_VOID_def TAG_STRING_def BOOL_FALSE_def BOOL_TRUE_def TAG_BYTES_def
  FINGERPRINT1_def INTN8_def INTN1_def INTP1_def TIME1_def ARRAY_START_def ARRAY_END_def
  TUPLE_START_def TUPLE_END_def TAG_FLOAT_def MAP_START_def MAP_END_def TAG_NKIND_def

text \<open>\<open>kSzlFileVersion\<close>\<close>

definition kSzlFileVersion :: string where
  "kSzlFileVersion = ''Szl File version 1.0''"


section \<open>The encoder\<close>

record host_config =
  host :: byte_order
  le_macro :: bool

record szl_encoder =
  enc_version :: byte
  enc_data :: bytes

definition AppendEncoding :: "bytes \<Rightarrow> szl_encoder \<Rightarrow> szl_encoder" where
  "AppendEncoding bs e = e\<lparr>enc_data := enc_data e @ bs\<rparr>"

text \<open>\<open>data_.push_back(k)\<close>\<close>

definition push_back :: "nat \<Rightarrow> szl_encoder \<Rightarrow> szl_encoder" where
  "push_back k e = e\<lparr>enc_data := enc_data e @ [of_nat k]\<rparr>"

definition SetVersion :: "string \<Rightarrow> szl_encoder \<Rightarrow> bool \<times> szl_encoder" where
  "SetVersion version e =
     (if version = kSzlFileVersion then (True, e\<lparr>enc_version := 10\<rparr>) else (False, e))"

definition new_encoder :: szl_encoder where
  "new_encoder = snd (SetVersion kSzlFileVersion \<lparr>enc_version = 0, enc_data = []\<rparr>)"

definition enc_Reset :: "szl_encoder \<Rightarrow> szl_encoder" where
  "enc_Reset e = e\<lparr>enc_data := []\<rparr>"

text \<open>\<open>Swap\<close> returns the string handed out.\<close>

definition enc_Swap :: "szl_encoder \<Rightarrow> bytes \<times> szl_encoder" where
  "enc_Swap e = (enc_data e, e\<lparr>enc_data := []\<rparr>)"

definition packUint32 :: "u32 \<Rightarrow> bytes" where
  "packUint32 x = [ucast (drop_bit 24 x), ucast (drop_bit 16 x), ucast (drop_bit 8 x), ucast x]"

definition packUint64 :: "u64 \<Rightarrow> bytes" where
  "packUint64 x = packUint32 (ucast (drop_bit 32 x)) @ packUint32 (ucast x)"

text \<open>The search for the number of bytes, \<open>start\<close> of both packing routines.\<close>

definition pack_start :: "u64 \<Rightarrow> nat" where
  "pack_start v = (case find (\<lambda>i. v < push_bit (8 * i) 1) [1..<7] of
     Some i \<Rightarrow> 8 - i | None \<Rightarrow> 0)"

text \<open>The buffer \<open>buf[9]\<close> holds the eight bytes after one for the tag; the tag goes in at
  \<open>start\<close> and what is before it is not sent.\<close>

definition PackP8 :: "nat \<Rightarrow> u64 \<Rightarrow> szl_encoder \<Rightarrow> szl_encoder" where
  "PackP8 tagp1 v =
     (let start = pack_start v; buf = (0 # packUint64 v)[start := of_nat (tagp1 + 7 - start)]
      in AppendEncoding (drop start buf))"

definition PackN8 :: "nat \<Rightarrow> i64 \<Rightarrow> szl_encoder \<Rightarrow> szl_encoder" where
  "PackN8 tagp1 v =
     (let u = - (v + 1); start = pack_start u;
          buf = (0 # packUint64 v)[start := of_nat (INTN1 - (7 - start))]
      in AppendEncoding (drop start buf))"

definition Start :: "szl_kind \<Rightarrow> szl_encoder \<Rightarrow> szl_encoder res" where
  "Start kind e =
     (if kind = K_ARRAY then Ok (push_back ARRAY_START e)
      else if kind = K_MAP then Ok (push_back MAP_START e)
      else if kind = K_TUPLE then Ok (push_back TUPLE_START e)
      else Inl (Fatal ''bad kind in SzlEncoder::Start''))"

definition End :: "szl_kind \<Rightarrow> szl_encoder \<Rightarrow> szl_encoder res" where
  "End kind e =
     (if kind = K_ARRAY then Ok (push_back ARRAY_END e)
      else if kind = K_MAP then Ok (push_back MAP_END e)
      else if kind = K_TUPLE then Ok (push_back TUPLE_END e)
      else Inl (Fatal ''bad kind in SzlEncoder::End''))"

definition PutBool :: "bool \<Rightarrow> szl_encoder \<Rightarrow> szl_encoder" where
  "PutBool b = push_back (BOOL_FALSE + of_bool b)"

text \<open>The loop of \<open>PutBytes\<close>: \<open>seg\<close> is what lies between \<open>segment\<close> and \<open>q\<close>.\<close>

fun PutBytes_loop :: "bytes \<Rightarrow> bytes \<Rightarrow> szl_encoder \<Rightarrow> szl_encoder" where
  "PutBytes_loop seg [] e = AppendEncoding seg e"
| "PutBytes_loop seg (q # qs) e =
     (if q = kBytesTerm then
        PutBytes_loop [q] qs (AppendEncoding [kBytesTerm] (AppendEncoding seg e))
      else PutBytes_loop (seg @ [q]) qs e)"

definition PutBytes :: "bytes \<Rightarrow> szl_encoder \<Rightarrow> szl_encoder" where
  "PutBytes p e = AppendEncoding [kBytesTerm, 0] (PutBytes_loop [] p (push_back TAG_BYTES e))"

definition PutInt :: "i64 \<Rightarrow> szl_encoder \<Rightarrow> szl_encoder" where
  "PutInt v = (if 0 \<le>s v then PackP8 INTP1 v else PackN8 INTN1 v)"

definition PutString :: "bytes \<Rightarrow> szl_encoder \<Rightarrow> szl_encoder" where
  "PutString s e = AppendEncoding [0] (AppendEncoding s (push_back TAG_STRING e))"

definition PutFingerprint :: "u64 \<Rightarrow> szl_encoder \<Rightarrow> szl_encoder" where
  "PutFingerprint fp = PackP8 FINGERPRINT1 fp"

definition PutTime :: "u64 \<Rightarrow> szl_encoder \<Rightarrow> szl_encoder" where
  "PutTime t = PackP8 TIME1 t"

definition PutFloat :: "host_config \<Rightarrow> dbl \<Rightarrow> szl_encoder \<Rightarrow> szl_encoder res" where
  "PutFloat hc x e =
     (let e = push_back TAG_FLOAT e; s = KeyFromDouble (host hc) (le_macro hc) x in
      bind_res (check (8 = length s)) (\<lambda>_. Ok (AppendEncoding s e)))"


section \<open>Keys given as text\<close>

text \<open>The C library's \<open>strtoll(s, NULL, 0)\<close>, behind \<open>strto64\<close> of \<open>utilities/strutils.h\<close>:
  white space, a sign, a prefix that chooses the base, digits, and saturation.\<close>

definition is_space :: "byte \<Rightarrow> bool" where
  "is_space b \<longleftrightarrow> b = 32 \<or> 9 \<le> b \<and> b \<le> 13"

definition digit_value :: "byte \<Rightarrow> nat option" where
  "digit_value b =
     (if 48 \<le> b \<and> b \<le> 57 then Some (unat b - 48)
      else if 97 \<le> b \<and> b \<le> 122 then Some (unat b - 87)
      else if 65 \<le> b \<and> b \<le> 90 then Some (unat b - 55)
      else None)"

fun digits_value :: "nat \<Rightarrow> nat \<Rightarrow> bytes \<Rightarrow> nat" where
  "digits_value base acc [] = acc"
| "digits_value base acc (b # bs) =
     (case digit_value b of None \<Rightarrow> acc
      | Some x \<Rightarrow> if x < base then digits_value base (acc * base + x) bs else acc)"

definition has_hex_digit :: "bytes \<Rightarrow> bool" where
  "has_hex_digit bs = (case bs of [] \<Rightarrow> False | b # _ \<Rightarrow>
     (case digit_value b of None \<Rightarrow> False | Some x \<Rightarrow> x < 16))"

fun auto_base_value :: "bytes \<Rightarrow> nat" where
  "auto_base_value (b # c # bs) =
     (if b = 48 then (if (c = 120 \<or> c = 88) \<and> has_hex_digit bs then digits_value 16 0 bs
                      else digits_value 8 0 (c # bs))
      else digits_value 10 0 (b # c # bs))"
| "auto_base_value bs = digits_value 10 0 bs"

definition strto64 :: "bytes \<Rightarrow> i64" where
  "strto64 s =
     (let s = dropWhile is_space s;
          (neg, s) = (case s of b # bs \<Rightarrow>
             if b = 45 then (True, bs) else if b = 43 then (False, bs) else (False, s)
           | [] \<Rightarrow> (False, s));
          m = int (auto_base_value s)
      in if neg then word_of_int (max (- (2 ^ 63)) (- m)) else word_of_int (min (2 ^ 63 - 1) m))"

text \<open>\<open>key.c_str()\<close> ends at the first zero byte.\<close>

definition c_str :: "bytes \<Rightarrow> bytes" where
  "c_str s = takeWhile (\<lambda>b. b \<noteq> 0) s"

definition EncodeKeyFromString :: "szl_type \<Rightarrow> bytes \<Rightarrow> string + bytes" where
  "EncodeKeyFromString t key =
     (if ty_kind t = K_INT then Inr (enc_data (PutInt (strto64 (c_str key)) new_encoder))
      else if ty_kind t = K_STRING then
        Inr (butlast (enc_data (PutString (c_str key) new_encoder)))
      else Inl ''Unsupported type for string encoding'')"


section \<open>What each operation appends\<close>

definition nbytes :: "u64 \<Rightarrow> nat" where
  "nbytes v = 8 - pack_start v"

definition p8_enc :: "nat \<Rightarrow> u64 \<Rightarrow> bytes" where
  "p8_enc tagp1 v = of_nat (tagp1 - 1 + nbytes v) # drop (8 - nbytes v) (be_bytes64 v)"

definition n8_enc :: "i64 \<Rightarrow> bytes" where
  "n8_enc v = of_nat (INTN1 + 1 - nbytes (- (v + 1))) # drop (8 - nbytes (- (v + 1))) (be_bytes64 v)"

definition int_enc :: "i64 \<Rightarrow> bytes" where
  "int_enc v = (if 0 \<le>s v then p8_enc INTP1 v else n8_enc v)"

definition string_enc :: "bytes \<Rightarrow> bytes" where
  "string_enc s = of_nat TAG_STRING # s @ [0]"

definition bool_enc :: "bool \<Rightarrow> bytes" where
  "bool_enc b = [of_nat (BOOL_FALSE + of_bool b)]"

definition esc :: "byte \<Rightarrow> bytes" where
  "esc b = (if b = kBytesTerm then [kBytesTerm, kBytesTerm] else [b])"

definition bytes_enc :: "bytes \<Rightarrow> bytes" where
  "bytes_enc p = of_nat TAG_BYTES # concat (map esc p) @ [kBytesTerm, 0]"

definition float_enc :: "host_config \<Rightarrow> dbl \<Rightarrow> bytes" where
  "float_enc hc d = of_nat TAG_FLOAT # KeyFromDouble (host hc) (le_macro hc) d"

lemma AppendEncoding_simps [simp]:
  "enc_data (AppendEncoding bs e) = enc_data e @ bs"
  "enc_version (AppendEncoding bs e) = enc_version e"
  by (simp_all add: AppendEncoding_def)

lemma AppendEncoding_append:
  "AppendEncoding ys (AppendEncoding xs e) = AppendEncoding (xs @ ys) e"
  by (simp add: AppendEncoding_def)

lemma AppendEncoding_nil: "AppendEncoding [] e = e"
  by (simp add: AppendEncoding_def)

lemma push_back_append: "push_back k e = AppendEncoding [of_nat k] e"
  by (simp add: push_back_def AppendEncoding_def)

lemma packUint64_be_bytes64: "packUint64 x = be_bytes64 x"
  using byte_of_ucast(1) [of 0 x] byte_of_ucast(1) [of 8 x] byte_of_ucast(1) [of 16 x]
    byte_of_ucast(1) [of 24 x] byte_of_ucast(2) [of 0 x] byte_of_ucast(2) [of 8 x]
    byte_of_ucast(2) [of 16 x] byte_of_ucast(2) [of 24 x]
  by (simp add: packUint64_def packUint32_def be_bytes64_def)

text \<open>The number of value bytes: the least of 1 to 6 that is enough, and 8 otherwise.\<close>

lemma unat_shift_one: "i < 7 \<Longrightarrow> unat (push_bit (8 * i) 1 :: u64) = 256 ^ i"
proof -
  assume "i < 7"
  then have "(2 :: nat) ^ (8 * i) < 2 ^ 64" by (intro power_strict_increasing) auto
  then have "unat (push_bit (8 * i) 1 :: u64) = 2 ^ (8 * i)"
    unfolding unat_push_bit by simp
  then show ?thesis by (simp add: power_mult)
qed

lemma nbytes_alt:
  "nbytes v = (if unat v < 256 then 1 else if unat v < 256 ^ 2 then 2
     else if unat v < 256 ^ 3 then 3 else if unat v < 256 ^ 4 then 4
     else if unat v < 256 ^ 5 then 5 else if unat v < 256 ^ 6 then 6 else 8)"
proof -
  have l: "[1..<7] = [1, 2, 3, 4, 5, 6 :: nat]" by (simp add: upt_rec)
  show ?thesis
    unfolding nbytes_def pack_start_def l word_less_nat_alt
    using unat_shift_one [of 1] unat_shift_one [of 2] unat_shift_one [of 3]
      unat_shift_one [of 4] unat_shift_one [of 5] unat_shift_one [of 6]
    by simp
qed

lemma nbytes_bounds: "1 \<le> nbytes v" "nbytes v \<le> 8" "unat v < 256 ^ nbytes v"
  using unsigned_less [of v, where 'a = nat] by (auto simp: nbytes_alt)

lemma nbytes_mono: "unat v \<le> unat w \<Longrightarrow> nbytes v \<le> nbytes w"
  unfolding nbytes_alt by (simp split: if_splits)

lemma pack_start_nbytes: "pack_start v = 8 - nbytes v" "pack_start v \<le> 7"
proof -
  have "pack_start v \<le> 8"
    by (auto simp: pack_start_def find_Some_iff split: option.splits)
  then show "pack_start v = 8 - nbytes v" by (simp add: nbytes_def)
  then show "pack_start v \<le> 7" using nbytes_bounds(1) [of v] by linarith
qed

lemma drop_tagged:
  assumes "start \<le> length bs" 
  shows "drop start ((b0 # bs)[start := x]) = x # drop start bs"
  using assms by (cases start) (auto simp: drop_update_swap Cons_nth_drop_Suc [symmetric])

lemma PackP8_eq: "1 \<le> tagp1 \<Longrightarrow> PackP8 tagp1 v = AppendEncoding (p8_enc tagp1 v)"
proof -
  assume t: "1 \<le> tagp1"
  have n: "pack_start v = 8 - nbytes v" by (rule pack_start_nbytes)
  have "tagp1 + 7 - pack_start v = tagp1 - 1 + nbytes v"
    using t nbytes_bounds(1,2) [of v] by (simp add: n)
  then show ?thesis
    unfolding PackP8_def Let_def packUint64_be_bytes64 p8_enc_def
    using pack_start_nbytes [of v] by (subst drop_tagged) simp_all
qed

lemma PackN8_eq: "PackN8 tagp1 v = AppendEncoding (n8_enc v)"
proof -
  define u where "u = - (v + 1)"
  have n: "pack_start u = 8 - nbytes u" by (rule pack_start_nbytes)
  have "INTN1 - (7 - pack_start u) = INTN1 + 1 - nbytes u"
    using nbytes_bounds(1,2) [of u] by (simp add: n INTN1_def)
  then show ?thesis
    unfolding PackN8_def Let_def u_def [symmetric] packUint64_be_bytes64 n8_enc_def
    using pack_start_nbytes [of u] by (subst drop_tagged) simp_all
qed

lemma PutBytes_loop_eq: "PutBytes_loop seg p e = AppendEncoding (seg @ concat (map esc p)) e"
  by (induction seg p e rule: PutBytes_loop.induct) (simp_all add: AppendEncoding_append esc_def)

lemma PutInt_eq: "PutInt v = AppendEncoding (int_enc v)"
  by (simp add: PutInt_def PackP8_eq PackN8_eq int_enc_def INTP1_def)

lemma PutFingerprint_eq: "PutFingerprint v = AppendEncoding (p8_enc FINGERPRINT1 v)"
  by (simp add: PutFingerprint_def PackP8_eq FINGERPRINT1_def)

lemma PutTime_eq: "PutTime v = AppendEncoding (p8_enc TIME1 v)"
  by (simp add: PutTime_def PackP8_eq TIME1_def)

lemma PutString_eq: "PutString s = AppendEncoding (string_enc s)"
  by (rule ext) (simp add: PutString_def push_back_append AppendEncoding_append string_enc_def)

lemma PutBool_eq: "PutBool b = AppendEncoding (bool_enc b)"
  by (rule ext) (simp add: PutBool_def push_back_append bool_enc_def)

lemma PutBytes_eq: "PutBytes p = AppendEncoding (bytes_enc p)"
  by (rule ext)
    (simp add: PutBytes_def push_back_append PutBytes_loop_eq AppendEncoding_append bytes_enc_def)

lemma PutFloat_eq: "PutFloat hc d e = Ok (AppendEncoding (float_enc hc d) e)"
  by (simp add: PutFloat_def push_back_append AppendEncoding_append float_enc_def
      KeyFromDouble_code KeyFromUint64_def Let_def)

lemmas Put_eqs = PutInt_eq PutFingerprint_eq PutTime_eq PutString_eq PutBool_eq PutBytes_eq
  PutFloat_eq

lemma be_nat_drop_be_bytes64:
  assumes "n \<le> 8"
  shows "be_nat (drop (8 - n) (be_bytes64 v)) = unat v mod 256 ^ n"
proof -
  let ?bs = "be_bytes64 v"
  have "unat v = be_nat (take (8 - n) ?bs) * 256 ^ n + be_nat (drop (8 - n) ?bs)"
    using be_nat_take_drop [of ?bs "8 - n"] assms by (simp add: be_nat_be_bytes64)
  moreover have "be_nat (drop (8 - n) ?bs) < 256 ^ n"
    using be_nat_less [of "drop (8 - n) ?bs"] assms by simp
  ultimately show ?thesis by simp
qed

lemma length_drop_be_bytes64 [simp]: "length (drop (8 - n) (be_bytes64 v)) = min n 8"
  by (auto simp: min_def)

lemma be_nat_p8: "be_nat (drop (8 - nbytes v) (be_bytes64 v)) = unat v"
  using be_nat_drop_be_bytes64 [OF nbytes_bounds(2), of v v] nbytes_bounds(3) [of v] by simp

end
