(* ===== verification/Szl_Decoder.thy ===== *)
theory Szl_Decoder
  imports Szl_Encoder
begin

text \<open>
  The class \<open>SzlDecoder\<close> of \<open>public/szldecoder.h\<close> and \<open>emitvalues/szldecoder.cc\<close>.  A
  decoder is the buffer between \<open>start_\<close> and \<open>end_\<close> and the offset of \<open>p_\<close> in it.  A
  \<open>Get\<close> operation that returns false leaves the object as it was and is \<open>None\<close> here;
  otherwise it is the value stored through the pointer and the advanced object.

  The second half states what an encoding promises as the locale \<open>codec\<close> (the reader
  inverts the writer and \<open>Skip\<close> consumes the same bytes) and its extension
  \<open>ordered_codec\<close> (byte order is value order), and interprets them for each scalar type.
\<close>

section \<open>The decoder object\<close>

record szl_decoder =
  buf :: bytes
  pos :: nat

definition new_decoder :: "bytes \<Rightarrow> szl_decoder" where
  "new_decoder p = \<lparr>buf = p, pos = 0\<rparr>"

definition Restart :: "szl_decoder \<Rightarrow> szl_decoder" where
  "Restart d = d\<lparr>pos := 0\<rparr>"

text \<open>\<open>[p_, end_)\<close>, its length, and \<open>p_ += n\<close>.\<close>

definition cur :: "szl_decoder \<Rightarrow> bytes" where
  "cur d = drop (pos d) (buf d)"

definition dec_size :: "szl_decoder \<Rightarrow> nat" where
  "dec_size d = length (cur d)"

definition adv :: "nat \<Rightarrow> szl_decoder \<Rightarrow> szl_decoder" where
  "adv n d = d\<lparr>pos := pos d + n\<rparr>"

definition dec_done :: "szl_decoder \<Rightarrow> bool" where
  "dec_done d \<longleftrightarrow> length (buf d) \<le> pos d"

text \<open>The static table, zero where the constructor stores nothing.\<close>

definition tbl_size :: "nat \<Rightarrow> nat" where
  "tbl_size k =
     (if k = TAG_FLOAT then 9
      else if k \<in> {TAG_STRING, BOOL_FALSE, BOOL_TRUE, TAG_BYTES, ARRAY_START, ARRAY_END,
                   TUPLE_START, TUPLE_END, MAP_START, MAP_END} then 1
      else if FINGERPRINT1 \<le> k \<and> k < FINGERPRINT1 + 8 then 2 + (k - FINGERPRINT1)
      else if INTP1 \<le> k \<and> k < INTP1 + 8 then 2 + (k - INTP1)
      else if INTN1 - 8 < k \<and> k \<le> INTN1 then 2 + (INTN1 - k)
      else if TIME1 \<le> k \<and> k < TIME1 + 8 then 2 + (k - TIME1)
      else 0)"

definition tbl_dec_kind :: "nat \<Rightarrow> szl_kind" where
  "tbl_dec_kind k =
     (if k = TAG_FLOAT then K_FLOAT
      else if k = TAG_STRING then K_STRING
      else if k = BOOL_FALSE \<or> k = BOOL_TRUE then K_BOOL
      else if k = TAG_BYTES then K_BYTES
      else if k = ARRAY_START \<or> k = ARRAY_END then K_ARRAY
      else if k = TUPLE_START \<or> k = TUPLE_END then K_TUPLE
      else if k = MAP_START \<or> k = MAP_END then K_MAP
      else if FINGERPRINT1 \<le> k \<and> k < FINGERPRINT1 + 8 then K_FINGERPRINT
      else if INTP1 \<le> k \<and> k < INTP1 + 8 then K_INT
      else if INTN1 - 8 < k \<and> k \<le> INTN1 then K_INT
      else if TIME1 \<le> k \<and> k < TIME1 + 8 then K_TIME
      else K_VOID)"

text \<open>\<open>*p_\<close>, read only when the size has been checked.\<close>

definition cur_tag :: "szl_decoder \<Rightarrow> nat" where
  "cur_tag d = unat (hd (cur d))"

definition peek :: "szl_decoder \<Rightarrow> szl_kind" where
  "peek d = (if dec_done d then K_VOID
     else let k = cur_tag d in if k < TAG_NKIND then tbl_dec_kind k else K_VOID)"

definition start_tag :: "szl_kind \<Rightarrow> nat option" where
  "start_tag kind =
     (if kind = K_ARRAY then Some ARRAY_START else if kind = K_MAP then Some MAP_START
      else if kind = K_TUPLE then Some TUPLE_START else None)"

definition end_tag :: "szl_kind \<Rightarrow> nat option" where
  "end_tag kind =
     (if kind = K_ARRAY then Some ARRAY_END else if kind = K_MAP then Some MAP_END
      else if kind = K_TUPLE then Some TUPLE_END else None)"

definition IsStart :: "szl_kind \<Rightarrow> szl_decoder \<Rightarrow> bool" where
  "IsStart kind d = (case start_tag kind of None \<Rightarrow> False
     | Some k \<Rightarrow> \<not> (dec_size d < 1 \<or> cur_tag d \<noteq> k))"

definition GetStart :: "szl_kind \<Rightarrow> szl_decoder \<Rightarrow> szl_decoder option" where
  "GetStart kind d = (if \<not> IsStart kind d then None else Some (adv 1 d))"

definition IsEnd :: "szl_kind \<Rightarrow> szl_decoder \<Rightarrow> bool" where
  "IsEnd kind d = (case end_tag kind of None \<Rightarrow> False
     | Some k \<Rightarrow> \<not> (dec_size d < 1 \<or> cur_tag d \<noteq> k))"

definition GetEnd :: "szl_kind \<Rightarrow> szl_decoder \<Rightarrow> szl_decoder option" where
  "GetEnd kind d = (if \<not> IsEnd kind d then None else Some (adv 1 d))"


section \<open>Unpacking\<close>

definition unpackUint32 :: "bytes \<Rightarrow> u32" where
  "unpackUint32 p =
     ((push_bit 24 (ucast (p ! 0)) OR push_bit 16 (ucast (p ! 1)))
       OR push_bit 8 (ucast (p ! 2))) OR ucast (p ! 3)"

definition unpackUint64 :: "bytes \<Rightarrow> u64" where
  "unpackUint64 p = push_bit 32 (ucast (unpackUint32 p)) OR ucast (unpackUint32 (drop 4 p))"

text \<open>The value and the number of bytes used; \<open>None\<close> is the result 0.\<close>

definition UnpackP8 :: "nat \<Rightarrow> bytes \<Rightarrow> (u64 \<times> nat) option" where
  "UnpackP8 tagp1 p =
     (if length p < 1 then None
      else let k = unat (hd p); p = tl p in
        if k < tagp1 \<or> k > tagp1 + 7 then None
        else let k = k - (tagp1 - 1) in
          if Suc (length p) < k + 1 then None
          else let k4 = min k 4; t1 = foldl shl8_or (0 :: u32) (take k4 p) in
            if k > 4 then
              let t2 = foldl shl8_or (0 :: u32) (take (k - 4) (drop 4 p)) in
              Some (push_bit (8 * (k - 4)) (ucast t1) OR ucast t2, k + 1)
            else Some (ucast t1, k + 1))"

definition UnpackN8 :: "nat \<Rightarrow> bytes \<Rightarrow> (i64 \<times> nat) option" where
  "UnpackN8 tagn1 p =
     (if length p < 1 then None
      else let k = unat (hd p); p = tl p in
        if k > tagn1 \<or> k + 7 < tagn1 then None
        else let k = (tagn1 - k) + 1 in
          if Suc (length p) < k + 1 then None
          else let k4 = min k 4; t1 = foldl shl8_or (NOT 0 :: u32) (take k4 p) in
            if k > 4 then
              let t2 = foldl shl8_or (0 :: u32) (take (k - 4) (drop 4 p));
                  uv = push_bit (8 * (k - 4)) (ucast t1) OR ucast t2;
                  uv = (if k \<noteq> 8 then uv OR push_bit (8 * k) (NOT 0) else uv) in
              Some (uv, k + 1)
            else Some (push_bit 32 (NOT 0) OR ucast t1, k + 1))"


section \<open>Reading values\<close>

definition GetBool :: "szl_decoder \<Rightarrow> (bool \<times> szl_decoder) option" where
  "GetBool d =
     (if dec_size d < 1 then None
      else let k = cur_tag d in
        if k = BOOL_FALSE \<or> k = BOOL_TRUE then Some (k - BOOL_FALSE \<noteq> 0, adv 1 d)
        else if dec_size d < 2 \<or> peek d \<noteq> K_BOOL then None
        else Some (cur d ! 1 \<noteq> 0, adv 2 d))"

text \<open>The segment loop: \<open>v\<close> what was appended so far, \<open>seg\<close> what lies between \<open>segment\<close>
  and \<open>q\<close>, \<open>n\<close> the offset of \<open>q\<close> from \<open>p_\<close>.\<close>

fun GetBytes_loop :: "bytes \<Rightarrow> bytes \<Rightarrow> nat \<Rightarrow> bytes \<Rightarrow> (bytes \<times> nat) option" where
  "GetBytes_loop v seg n (x # y # q) =
     (if x = kBytesTerm then
        (if y = 0 then Some (v @ seg, n + 2)
         else if y \<noteq> kBytesTerm then None
         else GetBytes_loop (v @ seg) [y] (n + 2) q)
      else GetBytes_loop v (seg @ [x]) (n + 1) (y # q))"
| "GetBytes_loop v seg n q = None"

definition GetBytes :: "szl_decoder \<Rightarrow> (bytes \<times> szl_decoder) option" where
  "GetBytes d =
     (if dec_size d < 1 then None
      else let k = cur_tag d in
        if k = TAG_BYTES then
          (case GetBytes_loop [] [] 1 (tl (cur d)) of None \<Rightarrow> None
           | Some (v, n) \<Rightarrow> Some (v, adv n d))
        else if dec_size d < 5 \<or> peek d \<noteq> K_BYTES then None
        else let n = unat (unpackUint32 (tl (cur d))) in
          if dec_size d < n + 5 then None
          else Some (take n (drop 5 (cur d)), adv (5 + n) d))"

definition GetInt :: "szl_decoder \<Rightarrow> (i64 \<times> szl_decoder) option" where
  "GetInt d =
     (case UnpackP8 INTP1 (cur d) of Some (uv, n) \<Rightarrow> Some (uv, adv n d)
      | None \<Rightarrow>
        (case UnpackN8 INTN1 (cur d) of Some (v, n) \<Rightarrow> Some (v, adv n d)
         | None \<Rightarrow>
           if dec_size d < 9 \<or> peek d \<noteq> K_INT then None
           else Some (unpackUint64 (tl (cur d)) - push_bit 63 1, adv 9 d)))"

definition GetFingerprint :: "szl_decoder \<Rightarrow> (u64 \<times> szl_decoder) option" where
  "GetFingerprint d =
     (case UnpackP8 FINGERPRINT1 (cur d) of Some (v, n) \<Rightarrow> Some (v, adv n d)
      | None \<Rightarrow> if dec_size d < 9 \<or> peek d \<noteq> K_FINGERPRINT then None
                else Some (unpackUint64 (tl (cur d)), adv 9 d))"

definition GetTime :: "szl_decoder \<Rightarrow> (u64 \<times> szl_decoder) option" where
  "GetTime d =
     (case UnpackP8 TIME1 (cur d) of Some (v, n) \<Rightarrow> Some (v, adv n d)
      | None \<Rightarrow> if dec_size d < 9 \<or> peek d \<noteq> K_TIME then None
                else Some (unpackUint64 (tl (cur d)), adv 9 d))"

text \<open>The scan \<open>q < end_ && *q\<close>: the number of bytes before the first zero, if there is one.\<close>

definition scan_zero :: "bytes \<Rightarrow> nat option" where
  "scan_zero q = (let s = takeWhile (\<lambda>b. b \<noteq> 0) q in if length s < length q then Some (length s) else None)"

definition GetString :: "szl_decoder \<Rightarrow> (bytes \<times> szl_decoder) option" where
  "GetString d =
     (if dec_size d < 1 \<or> peek d \<noteq> K_STRING then None
      else case scan_zero (tl (cur d)) of None \<Rightarrow> None
           | Some n \<Rightarrow> Some (take n (tl (cur d)), adv (n + 2) d))"

definition GetFloat :: "host_config \<Rightarrow> szl_decoder \<Rightarrow> (dbl \<times> szl_decoder) option" where
  "GetFloat hc d =
     (if dec_size d < 1 then None
      else let k = cur_tag d in
        if k = TAG_FLOAT then
          (if dec_size d < 9 then None
           else Some (KeyToDouble (host hc) (le_macro hc) (take 8 (tl (cur d))), adv 9 d))
        else if dec_size d < 10 \<or> peek d \<noteq> K_FLOAT then None
        else let i = unpackUint64 (drop 2 (cur d)) in
          Some (if cur d ! 1 = 0 then dbl_neg i else i, adv 10 d))"


section \<open>Skipping values\<close>

fun Skip_bytes_loop :: "nat \<Rightarrow> bytes \<Rightarrow> nat option" where
  "Skip_bytes_loop n (x # y # q) =
     (if x = kBytesTerm then
        (if y = 0 then Some (n + 2)
         else if y \<noteq> kBytesTerm then None
         else Skip_bytes_loop (n + 2) q)
      else Skip_bytes_loop (n + 1) (y # q))"
| "Skip_bytes_loop n q = None"

definition Skip :: "szl_kind \<Rightarrow> szl_decoder \<Rightarrow> szl_decoder option" where
  "Skip kind d =
     (if dec_done d \<or> kind \<noteq> peek d then None
      else let k = cur_tag d in
        if k \<ge> TAG_NKIND \<or> tbl_size k = 0 \<or> dec_size d < tbl_size k then None
        else if k = TAG_BYTES then
          (case Skip_bytes_loop 1 (tl (cur d)) of None \<Rightarrow> None | Some n \<Rightarrow> Some (adv n d))
        else if k = TAG_STRING then
          (case scan_zero (tl (cur d)) of None \<Rightarrow> None
           | Some n \<Rightarrow> Some (adv (1 + n + tbl_size k) d))
        else Some (adv (tbl_size k) d))"

text \<open>A call of \<open>Skip\<close> whose result is not looked at.\<close>

definition Skip_any :: "szl_kind \<Rightarrow> szl_decoder \<Rightarrow> szl_decoder" where
  "Skip_any kind d = (case Skip kind d of None \<Rightarrow> d | Some d' \<Rightarrow> d')"

lemma dec_done_iff: "dec_done d \<longleftrightarrow> cur d = []"
  by (simp add: dec_done_def cur_def)

lemma Skip_marker:
  assumes "IsStart (peek d) d \<or> IsEnd (peek d) d"
  shows "Skip (peek d) d = Some (adv 1 d)" and "dec_size (adv 1 d) < dec_size d"
proof -
  have ne: "cur d \<noteq> []" using assms
    by (auto simp: IsStart_def IsEnd_def dec_size_def split: option.splits)
  have k: "cur_tag d \<in> {ARRAY_START, ARRAY_END, TUPLE_START, TUPLE_END, MAP_START, MAP_END}"
    using assms by (auto simp: IsStart_def IsEnd_def start_tag_def end_tag_def split: if_splits)
  have "tbl_size (cur_tag d) = 1" "cur_tag d < TAG_NKIND" "cur_tag d \<noteq> TAG_BYTES"
    "cur_tag d \<noteq> TAG_STRING"
    using k by (auto simp: tbl_size_def tag_defs)
  then show "Skip (peek d) d = Some (adv 1 d)"
    using ne by (simp add: Skip_def dec_done_iff Let_def dec_size_def Suc_le_eq)
  show "dec_size (adv 1 d) < dec_size d"
    using ne by (simp add: dec_size_def cur_def adv_def)
qed

lemma Skip_any_marker:
  "IsStart (peek d) d \<or> IsEnd (peek d) d \<Longrightarrow> dec_size (Skip_any (peek d) d) < dec_size d"
  using Skip_marker [of d] by (simp add: Skip_any_def)

function skip_ends :: "szl_decoder \<Rightarrow> szl_decoder" where
  "skip_ends d = (if IsEnd (peek d) d then skip_ends (Skip_any (peek d) d) else d)"
  by pat_completeness auto
termination
  by (relation "measure dec_size") (auto intro: Skip_any_marker)

function skip_starts :: "szl_decoder \<Rightarrow> szl_decoder" where
  "skip_starts d = (if IsStart (peek d) d then skip_starts (Skip_any (peek d) d) else d)"
  by pat_completeness auto
termination
  by (relation "measure dec_size") (auto intro: Skip_any_marker)

declare skip_ends.simps [simp del] skip_starts.simps [simp del]

text \<open>\<open>Advance\<close>: the loop counts \<open>i\<close> up to \<open>num_values\<close>; \<open>n\<close> is what is left.\<close>

fun Advance :: "nat \<Rightarrow> szl_decoder \<Rightarrow> bool \<times> szl_decoder" where
  "Advance n d =
     (let d = skip_ends d in
      if peek d = K_VOID then (False, d)
      else case n of 0 \<Rightarrow> (True, d)
      | Suc n' \<Rightarrow> (let d = skip_starts d in Advance n' (Skip_any (peek d) d)))"

declare Advance.simps [simp del]


section \<open>Unpacking inverts packing\<close>

lemma unat_eq_imp_of_nat: "unat (w :: 'a::len word) = n \<Longrightarrow> w = of_nat n"
  by auto

lemma unat_of_nat_byte: "k < 256 \<Longrightarrow> unat (of_nat k :: byte) = k"
  by (simp add: unat_of_nat)

lemma unat_ucast_32_64: "unat (ucast (t :: u32) :: u64) = unat t"
  by (simp add: unsigned_ucast_eq take_bit_nat_eq_self
      order.strict_trans2 [OF unsigned_less [of t, where 'a = nat]])

text \<open>Two 32-bit halves put together are the value of all the bytes.\<close>

lemma unat_two_halves:
  fixes t1 t2 :: u32
  assumes "m \<le> 4" and "unat t2 < 256 ^ m"
  shows "unat (push_bit (8 * m) (ucast t1) OR ucast t2 :: u64) = unat t1 * 256 ^ m + unat t2"
proof -
  note u = unat_ucast_32_64
  have t1: "unat t1 < 2 ^ 32" using unsigned_less [of t1, where 'a = nat] by simp
  have e: "(2 :: nat) ^ (8 * m) = 256 ^ m" by (simp add: power_mult)
  have "unat t1 * 2 ^ (8 * m) + unat t2 < (unat t1 + 1) * 256 ^ m"
    using assms(2) by (simp add: e)
  also have "\<dots> \<le> 2 ^ 32 * 256 ^ 4"
    using t1 assms(1) by (intro mult_mono power_increasing) auto
  finally have b: "unat t1 * 2 ^ (8 * m) + unat t2 < 2 ^ 64" by simp
  then have p: "unat t1 * 2 ^ (8 * m) mod 2 ^ 64 = unat t1 * 2 ^ (8 * m)" by simp
  have "unat (push_bit (8 * m) (ucast t1) OR ucast t2 :: u64)
      = push_bit (8 * m) (unat t1) OR unat t2"
    unfolding unsigned_or_eq unat_push_bit u using p by (simp add: push_bit_eq_mult)
  also have "\<dots> = unat t1 * 256 ^ m + unat t2"
    using assms(2) by (subst nat_push_bit_or_add) (simp_all add: e)
  finally show ?thesis .
qed

lemma UnpackP8_enc:
  assumes "1 \<le> length bs" "length bs \<le> 8" "1 \<le> tagp1" "tagp1 \<le> 100"
    and p: "p = of_nat (tagp1 - 1 + length bs) # bs @ r"
  shows "UnpackP8 tagp1 p = Some (of_nat (be_nat bs), length bs + 1)"
proof -
  define k where "k = length bs"
  have tag: "unat (hd p) = tagp1 - 1 + k"
    unfolding p k_def list.sel using assms by (intro unat_of_nat_byte) simp
  have tl: "tl p = bs @ r" by (simp add: p)
  define t1 :: u32 where "t1 = foldl shl8_or 0 (take (min k 4) bs)"
  define t2 :: u32 where "t2 = foldl shl8_or 0 (drop 4 bs)"
  have t1: "unat t1 = be_nat (take (min k 4) bs)"
    unfolding t1_def by (rule unat_foldl_shl8_or_exact) (auto simp: k_def)
  have t2: "unat t2 = be_nat (drop 4 bs)"
    unfolding t2_def using assms(2) by (intro unat_foldl_shl8_or_exact) (auto simp: k_def)
  have res: "UnpackP8 tagp1 p = Some (if k > 4 then push_bit (8 * (k - 4)) (ucast t1) OR ucast t2
      else ucast t1, k + 1)"
    using assms(1,2,3) tag tl
    by (auto simp: UnpackP8_def Let_def p k_def [symmetric] t1_def t2_def drop_append)
  have "(if k > 4 then push_bit (8 * (k - 4)) (ucast t1) OR ucast t2 else ucast t1 :: u64)
      = of_nat (be_nat bs)"
  proof (cases "k > 4")
    case True
    have "unat t2 < 256 ^ (k - 4)" using be_nat_less [of "drop 4 bs"] by (simp add: t2 k_def)
    then have "unat (push_bit (8 * (k - 4)) (ucast t1) OR ucast t2 :: u64)
        = unat t1 * 256 ^ (k - 4) + unat t2"
      using assms(2) by (intro unat_two_halves) (auto simp: k_def)
    also have "\<dots> = be_nat bs"
      using be_nat_take_drop [of bs 4] True by (simp add: t1 t2 k_def)
    finally have "push_bit (8 * (k - 4)) (ucast t1) OR ucast t2 = (of_nat (be_nat bs) :: u64)"
      by (rule unat_eq_imp_of_nat)
    then show ?thesis using True by simp
  next
    case False
    then have "unat (ucast t1 :: u64) = be_nat bs"
      by (simp add: unat_ucast_32_64 t1 k_def min_def)
    then have "(ucast t1 :: u64) = of_nat (be_nat bs)" by (rule unat_eq_imp_of_nat)
    then show ?thesis using False by simp
  qed
  then show ?thesis using res by (simp add: k_def)
qed

lemma unat_sign_extend:
  assumes "n \<le> 64" "unat (x :: u64) < 2 ^ n"
  shows "unat (push_bit n (NOT 0) OR x) = 2 ^ 64 - 2 ^ n + unat x"
proof -
  have s: "(2 :: nat) ^ (64 - n) * 2 ^ n = 2 ^ 64"
    using assms(1) by (simp add: power_add [symmetric])
  have pos: "1 \<le> (2 :: nat) ^ (64 - n)" by simp
  have le: "(2 :: nat) ^ n \<le> 2 ^ 64" using assms(1) by (intro power_increasing) auto
  have m1: "unat (NOT 0 :: u64) = 2 ^ 64 - 1" by (simp add: unsigned_minus_1_eq_mask mask_eq_exp_minus_1)
  have "unat (push_bit n (NOT 0 :: u64)) = ((2 ^ 64 - 1) * 2 ^ n) mod 2 ^ 64"
    unfolding unat_push_bit m1 by simp
  also have "(2 ^ 64 - 1) * 2 ^ n = (2 ^ 64 - 2 ^ n) + (2 ^ n - 1) * (2 ^ 64 :: nat)"
    using le by (simp add: diff_mult_distrib algebra_simps)
  also have "\<dots> mod 2 ^ 64 = 2 ^ 64 - 2 ^ n" by simp
  also have "2 ^ 64 - 2 ^ n = (2 ^ (64 - n) - 1) * (2 :: nat) ^ n"
    using s by (simp only: diff_mult_distrib mult_1)
  finally have pb: "unat (push_bit n (NOT 0 :: u64)) = push_bit n (2 ^ (64 - n) - 1)"
    by (simp only: push_bit_eq_mult)
  have "unat (push_bit n (NOT 0) OR x) = (2 ^ (64 - n) - 1) * 2 ^ n + unat x"
    unfolding unsigned_or_eq pb using assms(2) by (rule nat_push_bit_or_add)
  then show ?thesis using s by (simp only: diff_mult_distrib mult_1)
qed

lemma UnpackN8_enc:
  assumes "1 \<le> length bs" "length bs \<le> 8" "7 \<le> tagn1" "tagn1 \<le> 100"
    and p: "p = of_nat (tagn1 + 1 - length bs) # bs @ r"
  shows "UnpackN8 tagn1 p = Some (of_nat (2 ^ 64 - 256 ^ length bs + be_nat bs), length bs + 1)"
proof -
  define k where "k = length bs"
  have k: "1 \<le> k" "k \<le> 8" using assms by (simp_all add: k_def)
  have tag: "unat (hd p) = tagn1 + 1 - k"
    unfolding p k_def list.sel using assms by (intro unat_of_nat_byte) simp
  have tl: "tl p = bs @ r" by (simp add: p)
  define t1 :: u32 where "t1 = foldl shl8_or (NOT 0) (take (min k 4) bs)"
  define t2 :: u32 where "t2 = foldl shl8_or 0 (drop 4 bs)"
  define uv :: u64 where "uv = push_bit (8 * (k - 4)) (ucast t1) OR ucast t2"
  have e: "(2 :: nat) ^ (8 * n) = 256 ^ n" for n by (simp add: power_mult)
  have bn: "be_nat bs < 2 ^ (8 * k)" using be_nat_less [of bs] by (simp add: e k_def)
  have m32: "unat (NOT 0 :: u32) = 2 ^ 32 - 1"
    by (simp add: unsigned_minus_1_eq_mask mask_eq_exp_minus_1)
  have "unat t1 = (unat (NOT 0 :: u32) * 256 ^ length (take (min k 4) bs)
      + be_nat (take (min k 4) bs)) mod 2 ^ LENGTH(32)"
    unfolding t1_def by (rule unat_foldl_shl8_or) simp
  then have t1_val: "unat t1 = ((2 ^ 32 - 1) * 256 ^ min k 4 + be_nat (take (min k 4) bs)) mod 2 ^ 32"
    unfolding m32 by (simp add: k_def min.commute)
  have res: "UnpackN8 tagn1 p = Some (if k > 4 then
        if k \<noteq> 8 then uv OR push_bit (8 * k) (NOT 0) else uv
      else push_bit 32 (NOT 0) OR ucast t1, k + 1)"
  proof -
    have kk: "tagn1 - (tagn1 + 1 - k) + 1 = k" using k assms(3) by simp
    show ?thesis
      using k assms(3)
      by (simp add: UnpackN8_def Let_def tag tl kk t1_def t2_def uv_def)
         (auto simp: p k_def)
  qed
  have "unat (if k > 4 then if k \<noteq> 8 then uv OR push_bit (8 * k) (NOT 0) else uv
      else push_bit 32 (NOT 0) OR ucast t1 :: u64) = 2 ^ 64 - 256 ^ k + be_nat bs"
  proof (cases "k > 4")
    case True
    have "unat t1 = ((2 ^ 32 - 1) * 256 ^ 4 + be_nat (take 4 bs)) mod 2 ^ 32"
      using t1_val True by (simp add: min_def)
    also have "(2 ^ 32 - 1) * 256 ^ 4 + be_nat (take 4 bs)
        = be_nat (take 4 bs) + (2 ^ 32 - 1) * 2 ^ 32" by simp
    also have "\<dots> mod 2 ^ 32 = be_nat (take 4 bs)"
      using be_nat_less [of "take 4 bs"] True by (subst mod_mult_self1) (simp add: k_def)
    finally have t1: "unat t1 = be_nat (take 4 bs)" .
    have t2: "unat t2 = be_nat (drop 4 bs)"
      unfolding t2_def using k by (intro unat_foldl_shl8_or_exact) (auto simp: k_def)
    have "unat t2 < 256 ^ (k - 4)" using be_nat_less [of "drop 4 bs"] by (simp add: t2 k_def)
    then have "unat uv = unat t1 * 256 ^ (k - 4) + unat t2"
      unfolding uv_def using k by (intro unat_two_halves) auto
    then have uv: "unat uv = be_nat bs"
      using be_nat_take_drop [of bs 4] by (simp add: t1 t2 k_def)
    show ?thesis
    proof (cases "k = 8")
      case True
      then show ?thesis using uv by simp
    next
      case False
      have "unat (push_bit (8 * k) (NOT 0) OR uv) = 2 ^ 64 - 2 ^ (8 * k) + be_nat bs"
        using unat_sign_extend [of "8 * k" uv] k bn by (simp only: uv)
      then show ?thesis using True False by (simp only: or.commute e) simp
    qed
  next
    case False
    have lt: "be_nat bs < 256 ^ k" using bn by (simp only: e)
    have "256 ^ k \<le> (256 :: nat) ^ 4" using False by (intro power_increasing) auto
    then have le: "256 ^ k \<le> (2 :: nat) ^ 32" by simp
    have "unat t1 = ((2 ^ 32 - 1) * 256 ^ k + be_nat bs) mod 2 ^ 32"
      using t1_val False by (simp add: min_def k_def)
    also have "(2 ^ 32 - 1) * 256 ^ k + be_nat bs
        = (2 ^ 32 - 256 ^ k + be_nat bs) + (256 ^ k - 1) * (2 ^ 32 :: nat)"
      using le by (simp add: diff_mult_distrib algebra_simps)
    also have "\<dots> mod 2 ^ 32 = 2 ^ 32 - 256 ^ k + be_nat bs"
      using lt le by (subst mod_mult_self1) simp
    finally have t1: "unat t1 = 2 ^ 32 - 256 ^ k + be_nat bs" .
    note u = unat_ucast_32_64 [of t1]
    have "unat (push_bit 32 (NOT 0) OR ucast t1 :: u64) = 2 ^ 64 - 2 ^ 32 + unat t1"
      using unat_sign_extend [of 32 "ucast t1"] lt le by (simp only: u t1)
    then show ?thesis using False le by (simp add: t1)
  qed
  then show ?thesis using res unat_eq_imp_of_nat unfolding k_def by metis
qed


section \<open>What an encoding promises\<close>

lemma cur_adv [simp]: "cur (adv n d) = drop n (cur d)"
  by (simp add: cur_def adv_def add.commute)

lemma adv_adv [simp]: "adv m (adv n d) = adv (n + m) d"
  by (simp add: adv_def)

lemma adv_0 [simp]: "adv 0 d = d"
  by (simp add: adv_def)

lemma cur_new_decoder [simp]: "cur (new_decoder p) = p"
  by (simp add: cur_def new_decoder_def)

text \<open>Reading \<open>n\<close> values one after the other.\<close>

fun get_n :: "(szl_decoder \<Rightarrow> ('a \<times> szl_decoder) option) \<Rightarrow> nat \<Rightarrow> szl_decoder
    \<Rightarrow> ('a list \<times> szl_decoder) option" where
  "get_n get 0 d = Some ([], d)"
| "get_n get (Suc n) d =
     (case get d of None \<Rightarrow> None
      | Some (v, d') \<Rightarrow> (case get_n get n d' of None \<Rightarrow> None
          | Some (vs, d'') \<Rightarrow> Some (v # vs, d'')))"

locale codec =
  fixes okv :: "'a \<Rightarrow> bool"
    and enc :: "'a \<Rightarrow> bytes"
    and get :: "szl_decoder \<Rightarrow> ('a \<times> szl_decoder) option"
    and kind :: szl_kind
  assumes get_enc: "okv v \<Longrightarrow> cur d = enc v @ r \<Longrightarrow> get d = Some (v, adv (length (enc v)) d)"
    and skip_enc: "okv v \<Longrightarrow> cur d = enc v @ r \<Longrightarrow> Skip kind d = Some (adv (length (enc v)) d)"
begin

lemma prefix_free:
  assumes "okv v" "okv w" "enc v @ x = enc w @ y"
  shows "v = w \<and> x = y"
proof -
  let ?d = "new_decoder (enc v @ x)"
  have "get ?d = Some (v, adv (length (enc v)) ?d)" by (rule get_enc [OF assms(1)]) simp
  moreover have "get ?d = Some (w, adv (length (enc w)) ?d)"
    using assms(3) by (intro get_enc [OF assms(2)]) simp
  ultimately have "v = w" by simp
  then show ?thesis using assms(3) by simp
qed

lemma enc_inject: "okv v \<Longrightarrow> okv w \<Longrightarrow> enc v = enc w \<longleftrightarrow> v = w"
  using prefix_free [of v w "[]" "[]"] by auto

lemma get_n_enc:
  "\<forall>v \<in> set vs. okv v \<Longrightarrow> cur d = concat (map enc vs) @ r \<Longrightarrow>
     get_n get (length vs) d = Some (vs, adv (length (concat (map enc vs))) d)"
proof (induction vs arbitrary: d)
  case Nil
  then show ?case by simp
next
  case (Cons v vs)
  let ?d = "adv (length (enc v)) d"
  have "get d = Some (v, ?d)" using Cons.prems by (intro get_enc) auto
  moreover have "get_n get (length vs) ?d = Some (vs, adv (length (concat (map enc vs))) ?d)"
    using Cons.prems by (intro Cons.IH) auto
  ultimately show ?case by simp
qed

end

text \<open>An encoding whose byte strings sort as the values do, whatever follows them.\<close>

locale ordered_codec = codec okv enc get kind
  for okv :: "'a \<Rightarrow> bool" and enc :: "'a \<Rightarrow> bytes"
    and get :: "szl_decoder \<Rightarrow> ('a \<times> szl_decoder) option" and kind :: szl_kind +
  fixes lt :: "'a \<Rightarrow> 'a \<Rightarrow> bool"
  assumes enc_less:
    "okv v \<Longrightarrow> okv w \<Longrightarrow> enc v @ x < enc w @ y \<longleftrightarrow> lt v w \<or> v = w \<and> x < y"
begin

lemma enc_less_nil: "okv v \<Longrightarrow> okv w \<Longrightarrow> enc v < enc w \<longleftrightarrow> lt v w"
  using enc_less [of v w "[]" "[]"] by simp

lemma lt_linear: "okv v \<Longrightarrow> okv w \<Longrightarrow> lt v w \<or> v = w \<or> lt w v"
  using enc_less_nil [of v w] enc_less_nil [of w v] enc_inject [of v w] by auto

text \<open>Composite keys: the encodings of two tuples of one length sort lexicographically.\<close>

lemma key_less:
  "length vs = length ws \<Longrightarrow> \<forall>v \<in> set vs. okv v \<Longrightarrow> \<forall>w \<in> set ws. okv w \<Longrightarrow>
     concat (map enc vs) < concat (map enc ws) \<longleftrightarrow> (vs, ws) \<in> lexord {(v, w). lt v w}"
proof (induction vs ws rule: list_induct2)
  case Nil
  then show ?case by simp
next
  case (Cons v vs w ws)
  then show ?case by (simp add: enc_less)
qed

end

end
