(* ===== verification/Szl_Codec.thy ===== *)
theory Szl_Codec
  imports Szl_Decoder
begin

text \<open>
  The encodings of the scalar types, proved against the contracts \<open>codec\<close> and
  \<open>ordered_codec\<close> of \<open>Szl_Decoder\<close>: integers, fingerprints, times, booleans, strings
  and floats sort on the wire as they do as values; byte arrays only round-trip.
\<close>

section \<open>Lexicographic comparison of concatenations\<close>

lemma append_less_append:
  fixes a b :: bytes
  assumes "length a = length b"
  shows "a @ x < b @ y \<longleftrightarrow> a < b \<or> a = b \<and> x < y"
  using assms by (induction a b rule: list_induct2) auto

lemma of_nat_byte_less:
  "j < 256 \<Longrightarrow> k < 256 \<Longrightarrow> (of_nat j :: byte) < of_nat k \<longleftrightarrow> j < k"
  by (simp add: word_less_nat_alt unat_of_nat)

lemma of_nat_byte_eq:
  "j < 256 \<Longrightarrow> k < 256 \<Longrightarrow> (of_nat j :: byte) = of_nat k \<longleftrightarrow> j = k"
  by (metis unat_of_nat_byte)

text \<open>A tag followed by a payload whose length the tag determines.\<close>

lemma tagged_less:
  assumes "j < 256" "k < 256" and "j = k \<Longrightarrow> length a = length b"
  shows "(of_nat j # a) @ x < (of_nat k # b) @ y \<longleftrightarrow>
    j < k \<or> j = k \<and> (be_nat a < be_nat b \<or> a = b \<and> x < y)"
  using assms
  by (cases "j = k") (auto simp: of_nat_byte_less of_nat_byte_eq append_less_append be_nat_less_iff)


section \<open>Unsigned numbers\<close>

lemma length_p8_payload: "length (drop (8 - nbytes v) (be_bytes64 v)) = nbytes v"
  using nbytes_bounds(2) [of v] by (simp add: min_def)

lemma length_p8_enc: "length (p8_enc tag v) = nbytes v + 1"
  using length_p8_payload [of v] by (simp add: p8_enc_def)

lemma p8_payload_inject:
  assumes "nbytes v = nbytes w"
    and "drop (8 - nbytes v) (be_bytes64 v) = drop (8 - nbytes w) (be_bytes64 w)"
  shows "v = w"
proof -
  have "unat v = unat w" using be_nat_p8 [of v] be_nat_p8 [of w] assms by simp
  then show ?thesis by (rule unsigned_word_eqI)
qed

lemma p8_less:
  assumes "1 \<le> tag" "tag \<le> 100"
  shows "p8_enc tag v @ x < p8_enc tag w @ y \<longleftrightarrow> v < w \<or> v = w \<and> x < y"
proof -
  have t: "tag - 1 + nbytes u < 256" for u using assms nbytes_bounds(2) [of u] by simp
  have "p8_enc tag v @ x < p8_enc tag w @ y \<longleftrightarrow> nbytes v < nbytes w \<or> nbytes v = nbytes w \<and>
      (unat v < unat w \<or> drop (8 - nbytes v) (be_bytes64 v) = drop (8 - nbytes w) (be_bytes64 w)
        \<and> x < y)"
    unfolding p8_enc_def
    by (subst tagged_less [OF t t]) (auto simp: length_p8_payload be_nat_p8)
  also have "\<dots> \<longleftrightarrow> v < w \<or> v = w \<and> x < y"
    using nbytes_mono [of v w] nbytes_mono [of w v] p8_payload_inject [of v w]
    by (auto simp: word_less_nat_alt)
  finally show ?thesis .
qed

lemma UnpackP8_p8_enc:
  assumes "1 \<le> tag" "tag \<le> 100"
  shows "UnpackP8 tag (p8_enc tag v @ r) = Some (v, length (p8_enc tag v))"
  using UnpackP8_enc [of "drop (8 - nbytes v) (be_bytes64 v)" tag "p8_enc tag v @ r" r]
    nbytes_bounds(1,2) [of v] assms length_p8_payload [of v]
  by (simp add: p8_enc_def be_nat_p8)

lemma cur_nonempty: "cur d = x # xs \<Longrightarrow> \<not> dec_done d \<and> dec_size d = Suc (length xs)"
  by (simp add: dec_done_iff dec_size_def)

text \<open>\<open>Skip\<close> on a value whose tag gives its length.\<close>

lemma Skip_sized:
  assumes "cur d = of_nat k # bs @ r" "k < TAG_NKIND" "tbl_size k = Suc (length bs)"
    "k \<noteq> TAG_BYTES" "k \<noteq> TAG_STRING"
  shows "Skip (tbl_dec_kind k) d = Some (adv (Suc (length bs)) d)"
proof -
  have "unat (of_nat k :: byte) = k" using assms(2) by (intro unat_of_nat_byte) (simp add: tag_defs)
  then have "cur_tag d = k" by (simp add: cur_tag_def assms(1))
  then show ?thesis
    using assms cur_nonempty [OF assms(1)] by (simp add: Skip_def peek_def Let_def)
qed

lemma one_to_eight: "1 \<le> n \<Longrightarrow> n \<le> 8 \<Longrightarrow> n \<in> {1, 2, 3, 4, 5, 6, 7, 8 :: nat}"
  by auto

lemma sized_tags:
  assumes "1 \<le> n" "n \<le> 8"
  shows "tag \<in> {FINGERPRINT1, INTP1, TIME1} \<Longrightarrow> tbl_size (tag - 1 + n) = Suc n
      \<and> tbl_dec_kind (tag - 1 + n) = tbl_dec_kind tag \<and> tag - 1 + n < TAG_NKIND
      \<and> tag - 1 + n \<noteq> TAG_BYTES \<and> tag - 1 + n \<noteq> TAG_STRING"
    and "tbl_size (INTN1 + 1 - n) = Suc n \<and> tbl_dec_kind (INTN1 + 1 - n) = K_INT
      \<and> INTN1 + 1 - n < TAG_NKIND \<and> INTN1 + 1 - n \<noteq> TAG_BYTES \<and> INTN1 + 1 - n \<noteq> TAG_STRING"
  using one_to_eight [OF assms]
  by (elim insertE emptyE; simp add: tbl_size_def tbl_dec_kind_def tag_defs)+

lemma p8_skip:
  assumes "cur d = p8_enc tag v @ r" "tag \<in> {FINGERPRINT1, INTP1, TIME1}"
  shows "Skip (tbl_dec_kind tag) d = Some (adv (length (p8_enc tag v)) d)"
proof -
  let ?bs = "drop (8 - nbytes v) (be_bytes64 v)"
  note tags = sized_tags(1) [OF nbytes_bounds(1,2) assms(2), of v]
  have c: "cur d = of_nat (tag - 1 + nbytes v) # ?bs @ r" using assms(1) by (simp add: p8_enc_def)
  have "Skip (tbl_dec_kind (tag - 1 + nbytes v)) d = Some (adv (Suc (length ?bs)) d)"
    using tags length_p8_payload [of v] by (intro Skip_sized [OF c]) (simp_all del: length_drop)
  then show ?thesis using tags length_p8_payload [of v] by (simp add: length_p8_enc)
qed

interpretation fingerprint_c: ordered_codec "\<lambda>_. True" "p8_enc FINGERPRINT1" GetFingerprint
  K_FINGERPRINT "(<)"
proof
  fix v d r assume "cur d = p8_enc FINGERPRINT1 v @ r"
  then show "GetFingerprint d = Some (v, adv (length (p8_enc FINGERPRINT1 v)) d)"
    "Skip K_FINGERPRINT d = Some (adv (length (p8_enc FINGERPRINT1 v)) d)"
    using p8_skip [of d FINGERPRINT1 v r]
    by (simp_all add: GetFingerprint_def UnpackP8_p8_enc tag_defs tbl_dec_kind_def)
qed (simp add: p8_less FINGERPRINT1_def)

interpretation time_c: ordered_codec "\<lambda>_. True" "p8_enc TIME1" GetTime K_TIME "(<)"
proof
  fix v d r assume "cur d = p8_enc TIME1 v @ r"
  then show "GetTime d = Some (v, adv (length (p8_enc TIME1 v)) d)"
    "Skip K_TIME d = Some (adv (length (p8_enc TIME1 v)) d)"
    using p8_skip [of d TIME1 v r]
    by (simp_all add: GetTime_def UnpackP8_p8_enc tag_defs tbl_dec_kind_def)
qed (simp add: p8_less TIME1_def)


section \<open>Integers\<close>

lemma unat_neg_mag: "unat (- (v + 1) :: i64) = 2 ^ 64 - 1 - unat v"
proof -
  have "- (v + 1) = (- 1) - v" by simp
  also have "unat \<dots> = unat (- 1 :: i64) - unat v" by (rule unat_sub) simp
  finally show ?thesis by (simp add: unsigned_minus_1_eq_mask mask_eq_exp_minus_1)
qed

definition nmag :: "i64 \<Rightarrow> nat" where
  "nmag v = nbytes (- (v + 1))"

lemma nmag_bounds: "1 \<le> nmag v" "nmag v \<le> 8" "2 ^ 64 - 256 ^ nmag v \<le> unat v"
  using nbytes_bounds [of "- (v + 1)"] unsigned_less [of v, where 'a = nat]
  unfolding nmag_def unat_neg_mag by simp_all

lemma nmag_mono: "unat v \<le> unat w \<Longrightarrow> nmag w \<le> nmag v"
  unfolding nmag_def by (rule nbytes_mono) (simp only: unat_neg_mag)

lemma n8_enc_nmag: "n8_enc v = of_nat (INTN1 + 1 - nmag v) # drop (8 - nmag v) (be_bytes64 v)"
  by (simp add: n8_enc_def nmag_def)

lemma length_n8_payload: "length (drop (8 - nmag v) (be_bytes64 v)) = nmag v"
  using nmag_bounds(2) [of v] by (simp add: min_def)

lemma length_n8_enc: "length (n8_enc v) = nmag v + 1"
  using length_n8_payload [of v] by (simp add: n8_enc_nmag)

lemma mod_top_block:
  fixes x :: nat
  assumes "m dvd M" "M - m \<le> x" "x < M" "0 < m"
  shows "x mod m = x - (M - m)"
proof -
  have "m \<le> M" using assms by (intro dvd_imp_le) auto
  then have d: "m dvd M - m" using assms(1) by (intro dvd_diff_nat) auto
  then obtain q where q: "M - m = m * q" by blast
  have "x = (x - (M - m)) + m * q" using assms(2) q by simp
  then have "x mod m = (x - (M - m)) mod m" by (metis mod_mult_self2)
  also have "\<dots> = x - (M - m)" using assms \<open>m \<le> M\<close> by simp
  finally show ?thesis .
qed

lemma be_nat_n8: "be_nat (drop (8 - nmag v) (be_bytes64 v)) = unat v - (2 ^ 64 - 256 ^ nmag v)"
proof -
  have "(256 :: nat) ^ nmag v dvd 256 ^ 8" using nmag_bounds(2) by (rule le_imp_power_dvd)
  then have "256 ^ nmag v dvd (2 :: nat) ^ 64" by simp
  then have "unat v mod 256 ^ nmag v = unat v - (2 ^ 64 - 256 ^ nmag v)"
    using nmag_bounds(3) [of v] unsigned_less [of v, where 'a = nat]
    by (intro mod_top_block) simp_all
  then show ?thesis using be_nat_drop_be_bytes64 [OF nmag_bounds(2)] by simp
qed

lemma n8_less:
  "n8_enc v @ x < n8_enc w @ y \<longleftrightarrow> v < w \<or> v = w \<and> x < y"
proof -
  have t: "INTN1 + 1 - nmag u < 256" for u by (simp add: INTN1_def)
  have tl: "INTN1 + 1 - nmag v < INTN1 + 1 - nmag w \<longleftrightarrow> nmag w < nmag v"
    and te: "INTN1 + 1 - nmag v = INTN1 + 1 - nmag w \<longleftrightarrow> nmag v = nmag w"
    using nmag_bounds(2) [of v] nmag_bounds(2) [of w] by (auto simp: INTN1_def)
  have pl: "nmag v = nmag w \<Longrightarrow>
      be_nat (drop (8 - nmag v) (be_bytes64 v)) < be_nat (drop (8 - nmag w) (be_bytes64 w))
      \<longleftrightarrow> unat v < unat w"
    unfolding be_nat_n8 using nmag_bounds(3) [of v] nmag_bounds(3) [of w] by auto
  have pe: "nmag v = nmag w \<Longrightarrow>
      drop (8 - nmag v) (be_bytes64 v) = drop (8 - nmag w) (be_bytes64 w) \<longleftrightarrow> unat v = unat w"
    using be_nat_n8 [of v] be_nat_n8 [of w] nmag_bounds(3) [of v] nmag_bounds(3) [of w]
    by (metis add_diff_inverse_nat leD unsigned_word_eqI)
  have "n8_enc v @ x < n8_enc w @ y \<longleftrightarrow>
      nmag w < nmag v \<or> nmag v = nmag w \<and> (unat v < unat w \<or> unat v = unat w \<and> x < y)"
    unfolding n8_enc_nmag
    by (subst tagged_less [OF t t]) (use tl te pl pe length_n8_payload in auto)
  also have "\<dots> \<longleftrightarrow> v < w \<or> v = w \<and> x < y"
    using nmag_mono [of v w] nmag_mono [of w v] unsigned_word_eqI [of v w, where 'a = nat]
    by (auto simp: word_less_nat_alt)
  finally show ?thesis .
qed

lemma UnpackN8_n8_enc: "UnpackN8 INTN1 (n8_enc v @ r) = Some (v, length (n8_enc v))"
proof -
  have "2 ^ 64 - 256 ^ nmag v + be_nat (drop (8 - nmag v) (be_bytes64 v)) = unat v"
    using nmag_bounds(3) [of v] unfolding be_nat_n8 by simp
  then show ?thesis
    using UnpackN8_enc [of "drop (8 - nmag v) (be_bytes64 v)" INTN1 "n8_enc v @ r" r]
      nmag_bounds(1,2) [of v] length_n8_payload [of v]
    by (simp add: n8_enc_nmag INTN1_def)
qed

lemma UnpackP8_tag_too_small: "k < tag \<Longrightarrow> k < 256 \<Longrightarrow> UnpackP8 tag (of_nat k # p) = None"
  by (simp add: UnpackP8_def Let_def unat_of_nat)

lemma n8_tag: "INTN1 + 1 - nmag v < INTP1"
  using nmag_bounds(1) [of v] by (simp add: tag_defs)

lemma GetInt_int_enc:
  assumes "cur d = int_enc v @ r"
  shows "GetInt d = Some (v, adv (length (int_enc v)) d)"
proof (cases "0 \<le>s v")
  case True
  then show ?thesis
    using assms UnpackP8_p8_enc [of INTP1 v r] by (simp add: GetInt_def int_enc_def INTP1_def)
next
  case False
  have "UnpackP8 INTP1 (n8_enc v @ r) = None"
    using UnpackP8_tag_too_small [OF n8_tag, of v] n8_tag [of v] by (simp add: n8_enc_nmag INTP1_def)
  then show ?thesis
    using False assms UnpackN8_n8_enc [of v r] by (simp add: GetInt_def int_enc_def)
qed

lemma Skip_int_enc:
  assumes "cur d = int_enc v @ r"
  shows "Skip K_INT d = Some (adv (length (int_enc v)) d)"
proof (cases "0 \<le>s v")
  case True
  then show ?thesis
    using assms p8_skip [of d INTP1 v r] by (simp add: int_enc_def tbl_dec_kind_def tag_defs)
next
  case False
  let ?bs = "drop (8 - nmag v) (be_bytes64 v)"
  note tags = sized_tags(2) [OF nmag_bounds(1,2), of v]
  have c: "cur d = of_nat (INTN1 + 1 - nmag v) # ?bs @ r"
    using assms False by (simp add: int_enc_def n8_enc_nmag)
  have "Skip (tbl_dec_kind (INTN1 + 1 - nmag v)) d = Some (adv (Suc (length ?bs)) d)"
    using tags length_n8_payload [of v] by (intro Skip_sized [OF c]) (simp_all del: length_drop)
  then show ?thesis
    using False tags length_n8_payload [of v] by (simp add: int_enc_def length_n8_enc)
qed

lemma sint_alt: "sint (v :: i64) = (if 0 \<le>s v then uint v else uint v - 2 ^ 64)"
proof -
  have "sint v = (if bit v 63 then uint v - 2 ^ 64 else uint v)"
    using take_bit_int_eq_self [of "uint v" 64] unsigned_less [of v, where 'a = int]
    by (simp add: sint_uint signed_take_bit_eq_take_bit_minus bit_unsigned_iff)
  then show ?thesis by (simp add: sign_iff bit63_iff)
qed

lemma n8_before_p8:
  assumes "0 \<le>s w"
  shows "n8_enc v @ x < p8_enc INTP1 w @ y" 
proof -
  have "INTN1 + 1 - nmag v < INTP1 - 1 + nbytes w"
    using nmag_bounds(1) [of v] nbytes_bounds(1) [of w] by (simp add: tag_defs)
  moreover have "INTP1 - 1 + nbytes w < 256" using nbytes_bounds(2) [of w] by (simp add: tag_defs)
  ultimately show ?thesis unfolding n8_enc_nmag p8_enc_def
    by (subst tagged_less) auto
qed

lemma int_less:
  "int_enc v @ x < int_enc w @ y \<longleftrightarrow> v <s w \<or> v = w \<and> x < y"
proof -
  have "v < w \<longleftrightarrow> v <s w" if "0 \<le>s v \<longleftrightarrow> 0 \<le>s w"
    using that by (auto simp: word_sless_alt sint_alt word_less_def)
  moreover have "v <s w" if "\<not> 0 \<le>s v" "0 \<le>s w"
  proof -
    have "uint v - 2 ^ 64 < 0" using unsigned_less [of v, where 'a = int] by simp
    also have "0 \<le> uint w" by simp
    finally show ?thesis using that by (simp add: word_sless_alt sint_alt)
  qed
  moreover have "p8_enc INTP1 v' @ x' < p8_enc INTP1 w' @ y' \<longleftrightarrow> v' < w' \<or> v' = w' \<and> x' < y'"
    for v' w' x' y' by (rule p8_less) (simp_all add: INTP1_def)
  ultimately show ?thesis
    using n8_before_p8 [of w v x y] n8_before_p8 [of v w y x]
    by (auto simp: int_enc_def n8_less)
qed

interpretation int_c: ordered_codec "\<lambda>_. True" int_enc GetInt K_INT "(<s)"
  by standard (simp_all add: GetInt_int_enc Skip_int_enc int_less)


section \<open>Booleans\<close>

interpretation bool_c: ordered_codec "\<lambda>_. True" bool_enc GetBool K_BOOL "(<)"
proof
  fix v d r assume c: "cur d = bool_enc v @ r"
  then have t: "cur_tag d = BOOL_FALSE + of_bool v"
    by (cases v) (simp_all add: cur_tag_def bool_enc_def tag_defs)
  have "dec_size d = Suc (length r)" "\<not> dec_done d"
    using cur_nonempty c by (auto simp: bool_enc_def)
  then show "GetBool d = Some (v, adv (length (bool_enc v)) d)"
    "Skip K_BOOL d = Some (adv (length (bool_enc v)) d)"
    using t by (cases v; simp add: GetBool_def Skip_def peek_def tbl_dec_kind_def tbl_size_def
        bool_enc_def tag_defs Let_def)+
next
  fix v w x y
  show "bool_enc v @ x < bool_enc w @ y \<longleftrightarrow> v < w \<or> v = w \<and> x < y"
    by (cases v; cases w) (simp_all add: bool_enc_def tag_defs)
qed


section \<open>Strings\<close>

text \<open>A string the encoding can carry: it has no zero byte.\<close>

definition c_string :: "bytes \<Rightarrow> bool" where
  "c_string s \<longleftrightarrow> 0 \<notin> set s"

lemma scan_zero_c_string: "c_string s \<Longrightarrow> scan_zero (s @ 0 # r) = Some (length s)"
  by (simp add: scan_zero_def c_string_def takeWhile_append Let_def)

lemma c_string_less:
  "c_string s \<Longrightarrow> c_string t \<Longrightarrow> s @ 0 # x < t @ 0 # y \<longleftrightarrow> s < t \<or> s = t \<and> x < y"
proof (induction s arbitrary: t)
  case Nil
  then show ?case by (cases t) (auto simp: c_string_def word_neq_0_conv)
next
  case (Cons b s)
  then show ?case by (cases t) (auto simp: c_string_def word_neq_0_conv)
qed

interpretation string_c: ordered_codec c_string string_enc GetString K_STRING "(<)"
proof
  fix v d r assume v: "c_string v" and c: "cur d = string_enc v @ r"
  then have t: "cur_tag d = TAG_STRING" and tl: "tl (cur d) = v @ 0 # r"
    by (simp_all add: cur_tag_def string_enc_def tag_defs)
  have "\<not> dec_done d" "dec_size d = Suc (length v + Suc (length r))"
    using cur_nonempty c by (auto simp: string_enc_def)
  then show "GetString d = Some (v, adv (length (string_enc v)) d)"
    "Skip K_STRING d = Some (adv (length (string_enc v)) d)"
    using t scan_zero_c_string [OF v, of r]
    by (simp_all add: GetString_def Skip_def peek_def tbl_dec_kind_def tbl_size_def string_enc_def
        tl tag_defs Let_def)
next
  fix v w x y assume "c_string v" "c_string w"
  then show "string_enc v @ x < string_enc w @ y \<longleftrightarrow> v < w \<or> v = w \<and> x < y"
    by (simp add: string_enc_def c_string_less)
qed


section \<open>Byte arrays\<close>

lemma esc_simps:
  "b = kBytesTerm \<Longrightarrow> esc b = [kBytesTerm, kBytesTerm]" "b \<noteq> kBytesTerm \<Longrightarrow> esc b = [b]"
  "kBytesTerm \<noteq> 0"
  by (simp_all add: esc_def kBytesTerm_def)

lemma GetBytes_loop_esc:
  "GetBytes_loop v seg n (concat (map esc p) @ kBytesTerm # 0 # r)
     = Some (v @ seg @ p, n + length (concat (map esc p)) + 2)"
proof (induction p arbitrary: v seg n)
  case Nil
  then show ?case by simp
next
  case (Cons b p)
  obtain y ys where y: "concat (map esc p) @ kBytesTerm # 0 # r = y # ys"
    by (cases "concat (map esc p)") auto
  show ?case
    using Cons.IH [of "v @ seg" "[b]" "n + 2"] Cons.IH [of v "seg @ [b]" "n + 1"] y
    by (cases "b = kBytesTerm") (simp_all add: esc_simps)
qed

lemma Skip_bytes_loop_esc:
  "Skip_bytes_loop n (concat (map esc p) @ kBytesTerm # 0 # r)
     = Some (n + length (concat (map esc p)) + 2)"
proof (induction p arbitrary: n)
  case Nil
  then show ?case by simp
next
  case (Cons b p)
  obtain y ys where y: "concat (map esc p) @ kBytesTerm # 0 # r = y # ys"
    by (cases "concat (map esc p)") auto
  show ?case
    using Cons.IH [of "n + 2"] Cons.IH [of "n + 1"] y
    by (cases "b = kBytesTerm") (simp_all add: esc_simps)
qed

interpretation bytes_c: codec "\<lambda>_. True" bytes_enc GetBytes K_BYTES
proof
  fix v d r assume c: "cur d = bytes_enc v @ r"
  then have t: "cur_tag d = TAG_BYTES" and tl: "tl (cur d) = concat (map esc v) @ kBytesTerm # 0 # r"
    by (simp_all add: cur_tag_def bytes_enc_def tag_defs)
  have "\<not> dec_done d" "1 \<le> dec_size d"
    using cur_nonempty c by (auto simp: bytes_enc_def)
  then show "GetBytes d = Some (v, adv (length (bytes_enc v)) d)"
    "Skip K_BYTES d = Some (adv (length (bytes_enc v)) d)"
    using t GetBytes_loop_esc [of "[]" "[]" 1 v r] Skip_bytes_loop_esc [of 1 v r]
    by (simp_all add: GetBytes_def Skip_def peek_def tbl_dec_kind_def tbl_size_def bytes_enc_def
        tl tag_defs Let_def)
qed


section \<open>Floats\<close>

definition not_neg_zero :: "dbl \<Rightarrow> bool" where
  "not_neg_zero d \<longleftrightarrow> d \<noteq> 2 ^ 63"

lemma length_KeyFromDouble [simp]: "length (KeyFromDouble h m d) = 8"
  by (simp add: KeyFromDouble_code KeyFromUint64_def)

interpretation float_c: codec not_neg_zero "float_enc hc" "GetFloat hc" K_FLOAT for hc
proof
  fix v d r assume v: "not_neg_zero v" and c: "cur d = float_enc hc v @ r"
  then have t: "cur_tag d = TAG_FLOAT"
    and tl: "tl (cur d) = KeyFromDouble (host hc) (le_macro hc) v @ r"
    by (simp_all add: cur_tag_def float_enc_def tag_defs)
  have "\<not> dec_done d" "dec_size d = 9 + length r"
    using cur_nonempty c by (auto simp: float_enc_def)
  then show "GetFloat hc d = Some (v, adv (length (float_enc hc v)) d)"
    "Skip K_FLOAT d = Some (adv (length (float_enc hc v)) d)"
    using t v KeyToFromDouble [of "host hc" "le_macro hc" v]
    by (simp_all add: GetFloat_def Skip_def peek_def tbl_dec_kind_def tbl_size_def float_enc_def
        tl tag_defs Let_def not_neg_zero_def)
qed

text \<open>The configuration the header means: the macro defined on little-endian hosts only.\<close>

definition good_config :: "byte_order \<Rightarrow> host_config" where
  "good_config h = \<lparr>host = h, le_macro = (h = Little)\<rparr>"

definition plain_float :: "dbl \<Rightarrow> bool" where
  "plain_float d \<longleftrightarrow> not_neg_zero d \<and> \<not> is_nan d"

interpretation float_sorted: ordered_codec plain_float "float_enc (good_config h)"
  "GetFloat (good_config h)" K_FLOAT dbl_lt for h
proof
  fix v d r assume "plain_float v" "cur d = float_enc (good_config h) v @ r"
  then show "GetFloat (good_config h) d = Some (v, adv (length (float_enc (good_config h) v)) d)"
    "Skip K_FLOAT d = Some (adv (length (float_enc (good_config h) v)) d)"
    using float_c.get_enc float_c.skip_enc by (auto simp: plain_float_def)
next
  fix v w x y assume vw: "plain_float v" "plain_float w"
  let ?K = "KeyFromDouble h (h = Little)"
  have m: "macro_agrees h (h = Little)" by (simp add: macro_agrees_def)
  have "?K v < ?K w \<longleftrightarrow> dbl_lt v w"
    using vw KeyFromDouble_less_iff [OF m] by (simp add: dbl_lt_def plain_float_def)
  moreover have "?K v = ?K w \<longleftrightarrow> v = w"
    using vw KeyToFromDouble [of h "h = Little"] by (metis plain_float_def not_neg_zero_def)
  ultimately show "float_enc (good_config h) v @ x < float_enc (good_config h) w @ y
      \<longleftrightarrow> dbl_lt v w \<or> v = w \<and> x < y"
    by (simp add: float_enc_def good_config_def append_less_append)
qed


section \<open>Arbitrary input\<close>

lemma kind_of_tag:
  "tbl_dec_kind k = K_INT \<longleftrightarrow> 19 \<le> k \<and> k \<le> 34"
  "tbl_dec_kind k = K_FINGERPRINT \<longleftrightarrow> 11 \<le> k \<and> k \<le> 18"
  "tbl_dec_kind k = K_TIME \<longleftrightarrow> 35 \<le> k \<and> k \<le> 42"
  "tbl_dec_kind k = K_BOOL \<longleftrightarrow> k = 8 \<or> k = 9"
  "tbl_dec_kind k = K_STRING \<longleftrightarrow> k = 6"
  "tbl_dec_kind k = K_BYTES \<longleftrightarrow> k = 10"
  "tbl_dec_kind k = K_FLOAT \<longleftrightarrow> k = 47"
  unfolding tbl_dec_kind_def tag_defs by (simp; presburger)+

lemma peek_eq_iff:
  "K \<noteq> K_VOID \<Longrightarrow> peek d = K \<longleftrightarrow> cur d \<noteq> [] \<and> cur_tag d < TAG_NKIND \<and> tbl_dec_kind (cur_tag d) = K"
  by (auto simp: peek_def dec_done_iff Let_def)

lemma UnpackP8_used:
  "map_option snd (UnpackP8 tag p) =
     (if p \<noteq> [] \<and> tag \<le> unat (hd p) \<and> unat (hd p) \<le> tag + 7
         \<and> Suc (unat (hd p) - (tag - 1)) \<le> length p
      then Some (Suc (unat (hd p) - (tag - 1))) else None)"
  by (cases p) (auto simp: UnpackP8_def Let_def)

lemma UnpackN8_used:
  "map_option snd (UnpackN8 tag p) =
     (if p \<noteq> [] \<and> unat (hd p) \<le> tag \<and> tag \<le> unat (hd p) + 7
         \<and> Suc (Suc (tag - unat (hd p))) \<le> length p
      then Some (Suc (Suc (tag - unat (hd p)))) else None)"
  by (cases p) (auto simp: UnpackN8_def Let_def)

text \<open>The reader of a number without its last branch, the old encoding.\<close>

lemma sized_sizes:
  "11 \<le> k \<Longrightarrow> k \<le> 18 \<Longrightarrow> tbl_size k = Suc (k - 10)"
  "27 \<le> k \<Longrightarrow> k \<le> 34 \<Longrightarrow> tbl_size k = Suc (k - 26)"
  "19 \<le> k \<Longrightarrow> k \<le> 26 \<Longrightarrow> tbl_size k = Suc (Suc (26 - k))"
  "35 \<le> k \<Longrightarrow> k \<le> 42 \<Longrightarrow> tbl_size k = Suc (k - 34)"
  by (simp_all add: tbl_size_def tag_defs)

text \<open>\<open>Skip\<close> on a kind whose tags all give the length.\<close>

lemma Skip_numeric:
  assumes "K \<in> {K_INT, K_FINGERPRINT, K_TIME}"
  shows "Skip K d = (if peek d = K \<and> tbl_size (cur_tag d) \<le> dec_size d
     then Some (adv (tbl_size (cur_tag d)) d) else None)"
proof (cases "peek d = K")
  case True
  then have c: "cur d \<noteq> []" "cur_tag d < TAG_NKIND" "tbl_dec_kind (cur_tag d) = K"
    using assms peek_eq_iff [of K d] by auto
  then have "11 \<le> cur_tag d" "cur_tag d \<le> 42" using assms by (auto simp: kind_of_tag)
  moreover from this have "tbl_size (cur_tag d) \<noteq> 0" by (auto simp: tbl_size_def tag_defs)
  ultimately show ?thesis using True c by (auto simp: Skip_def Let_def dec_done_iff tag_defs)
qed (auto simp: Skip_def)

lemma map_snd_p8:
  assumes "\<And>d. get d = (case UnpackP8 tag (cur d) of Some (v, n) \<Rightarrow> Some (v, adv n d)
      | None \<Rightarrow> if dec_size d < 9 \<or> peek d \<noteq> K then None else Some (old d, adv 9 d))"
    and "\<And>k. tbl_dec_kind k = K \<longleftrightarrow> tag \<le> k \<and> k \<le> tag + 7"
    and "\<And>k. tag \<le> k \<Longrightarrow> k \<le> tag + 7 \<Longrightarrow> tbl_size k = Suc (k - (tag - 1))"
    and "K \<in> {K_INT, K_FINGERPRINT, K_TIME}" "0 < tag" "tag + 7 < TAG_NKIND"
  shows "Skip K d = map_option snd (get d)"
proof -
  let ?k = "cur_tag d"
  have pk: "peek d = K \<longleftrightarrow> cur d \<noteq> [] \<and> tag \<le> ?k \<and> ?k \<le> tag + 7"
    using peek_eq_iff [of K d] assms(2) [of ?k] assms(4,6) by auto
  have used: "map_option snd (UnpackP8 tag (cur d)) = (if peek d = K \<and> tbl_size ?k \<le> dec_size d
      then Some (tbl_size ?k) else None)"
    unfolding UnpackP8_used pk using assms(3) [of ?k] by (auto simp: cur_tag_def dec_size_def)
  have le9: "peek d = K \<Longrightarrow> tbl_size ?k \<le> 9" using pk assms(3) [of ?k] by auto
  show ?thesis
    using used le9 assms(1) [of d] unfolding Skip_numeric [OF assms(4)]
    by (cases "UnpackP8 tag (cur d)") (auto split: if_splits prod.splits)
qed

lemma Skip_fingerprint: "Skip K_FINGERPRINT d = map_option snd (GetFingerprint d)"
  by (rule map_snd_p8 [where tag = FINGERPRINT1, OF GetFingerprint_def])
    (auto simp: kind_of_tag sized_sizes tag_defs)

lemma Skip_time: "Skip K_TIME d = map_option snd (GetTime d)"
  by (rule map_snd_p8 [where tag = TIME1, OF GetTime_def])
    (auto simp: kind_of_tag sized_sizes tag_defs)

lemma Skip_int: "Skip K_INT d = map_option snd (GetInt d)"
proof -
  let ?k = "cur_tag d"
  have pk: "peek d = K_INT \<longleftrightarrow> cur d \<noteq> [] \<and> 19 \<le> ?k \<and> ?k \<le> 34"
    using peek_eq_iff [of K_INT d] kind_of_tag(1) [of ?k] by (auto simp: TAG_NKIND_def)
  have p: "map_option snd (UnpackP8 INTP1 (cur d)) =
      (if cur d \<noteq> [] \<and> 27 \<le> ?k \<and> ?k \<le> 34 \<and> tbl_size ?k \<le> dec_size d then Some (tbl_size ?k) else None)"
    unfolding UnpackP8_used using sized_sizes(2) [of ?k]
    by (auto simp: cur_tag_def dec_size_def INTP1_def)
  have n: "map_option snd (UnpackN8 INTN1 (cur d)) =
      (if cur d \<noteq> [] \<and> 19 \<le> ?k \<and> ?k \<le> 26 \<and> tbl_size ?k \<le> dec_size d then Some (tbl_size ?k) else None)"
    unfolding UnpackN8_used using sized_sizes(3) [of ?k]
    by (auto simp: cur_tag_def dec_size_def INTN1_def)
  have le9: "peek d = K_INT \<Longrightarrow> tbl_size ?k \<le> 9"
    using pk sized_sizes(2,3) [of ?k] by (cases "27 \<le> ?k") auto
  show ?thesis
    using p n le9 pk unfolding Skip_numeric [of K_INT, simplified] GetInt_def
    by (cases "UnpackP8 INTP1 (cur d)"; cases "UnpackN8 INTN1 (cur d)")
      (auto split: if_splits prod.splits)
qed

lemma Skip_bytes_loop_get: "Skip_bytes_loop n q = map_option snd (GetBytes_loop v seg n q)"
  by (induction v seg n q rule: GetBytes_loop.induct) auto

lemma tbl_size_tags:
  "tbl_size 6 = 1" "tbl_size 8 = 1" "tbl_size 9 = 1" "tbl_size 10 = 1" "tbl_size 47 = 9"
  by (simp_all add: tbl_size_def tag_defs)

lemma Skip_other_kind: "peek d \<noteq> K \<Longrightarrow> Skip K d = None"
  by (auto simp: Skip_def)

lemma peek_tag:
  "peek d = K_BYTES \<longleftrightarrow> cur d \<noteq> [] \<and> cur_tag d = 10"
  "peek d = K_STRING \<longleftrightarrow> cur d \<noteq> [] \<and> cur_tag d = 6"
  "peek d = K_BOOL \<longleftrightarrow> cur d \<noteq> [] \<and> (cur_tag d = 8 \<or> cur_tag d = 9)"
  "peek d = K_FLOAT \<longleftrightarrow> cur d \<noteq> [] \<and> cur_tag d = 47"
  by (auto simp: peek_eq_iff kind_of_tag TAG_NKIND_def)

lemma dec_size_pos: "dec_size d = 0 \<longleftrightarrow> cur d = []" "dec_size d < Suc 0 \<longleftrightarrow> cur d = []"
  by (simp_all add: dec_size_def)

lemma Skip_bytes: "Skip K_BYTES d = map_option snd (GetBytes d)"
proof (cases "peek d = K_BYTES")
  case True
  then have "cur d \<noteq> []" "cur_tag d = 10" "0 < dec_size d"
    by (auto simp: peek_tag dec_size_def)
  then show ?thesis
    using True Skip_bytes_loop_get [of 1 "tl (cur d)" "[]" "[]"]
    by (simp add: Skip_def GetBytes_def dec_done_iff tbl_size_tags tag_defs split: option.splits)
next
  case False
  then show ?thesis
    by (auto simp: Skip_other_kind GetBytes_def peek_tag dec_size_pos TAG_BYTES_def Let_def)
qed

lemma Skip_string: "Skip K_STRING d = map_option snd (GetString d)"
proof (cases "peek d = K_STRING")
  case True
  then have "cur d \<noteq> []" "cur_tag d = 6" "0 < dec_size d"
    by (auto simp: peek_tag dec_size_def)
  then show ?thesis
    using True
    by (simp add: Skip_def GetString_def dec_done_iff tbl_size_tags tag_defs split: option.splits)
qed (simp add: Skip_other_kind GetString_def)

lemma Skip_bool: "Skip K_BOOL d = map_option snd (GetBool d)"
proof (cases "peek d = K_BOOL")
  case True
  then have "cur d \<noteq> []" "cur_tag d = 8 \<or> cur_tag d = 9" "0 < dec_size d"
    by (auto simp: peek_tag dec_size_def)
  then show ?thesis
    using True by (auto simp: Skip_def GetBool_def dec_done_iff tbl_size_tags tag_defs)
next
  case False
  then show ?thesis
    by (auto simp: Skip_other_kind GetBool_def peek_tag dec_size_pos tag_defs Let_def)
qed

lemma Skip_float: "Skip K_FLOAT d = map_option snd (GetFloat hc d)"
proof (cases "peek d = K_FLOAT")
  case True
  then have "cur d \<noteq> []" "cur_tag d = 47" "0 < dec_size d"
    by (auto simp: peek_tag dec_size_def)
  then show ?thesis
    using True by (simp add: Skip_def GetFloat_def dec_done_iff tbl_size_tags tag_defs)
next
  case False
  then show ?thesis
    by (auto simp: Skip_other_kind GetFloat_def peek_tag dec_size_pos tag_defs Let_def)
qed

lemmas Skip_scalar = Skip_int Skip_fingerprint Skip_time Skip_bytes Skip_string Skip_bool Skip_float


section \<open>Properties\<close>

text \<open>The decoder placed right after what \<open>e\<close> had written, in the buffer \<open>s\<close>.\<close>

definition decoder_after :: "szl_encoder \<Rightarrow> bytes \<Rightarrow> szl_decoder" where
  "decoder_after e s = \<lparr>buf = s, pos = length (enc_data e)\<rparr>"

lemma cur_decoder_after [simp]: "cur (decoder_after e (enc_data e @ s)) = s"
  by (simp add: decoder_after_def cur_def)

lemma decoder_after_AppendEncoding:
  "decoder_after (AppendEncoding bs e) s = adv (length bs) (decoder_after e s)"
  by (simp add: decoder_after_def adv_def)

lemma cur_after_Append: "cur (decoder_after e (enc_data (AppendEncoding bs e) @ r)) = bs @ r"
  by (simp add: decoder_after_def cur_def)

lemma GetString_any:
  assumes "cur d = string_enc s @ r"
  shows "GetString d = Some (c_str s, adv (length (c_str s) + 2) d)"
proof -
  have p: "peek d = K_STRING" and tl: "tl (cur d) = s @ 0 # r" and n: "dec_size d \<noteq> 0"
    using assms by (auto simp: peek_tag string_enc_def cur_tag_def TAG_STRING_def dec_size_def)
  have tw: "takeWhile (\<lambda>b. b \<noteq> 0) (s @ 0 # r) = c_str s"
    by (induction s) (auto simp: c_str_def)
  have "scan_zero (s @ 0 # r) = Some (length (c_str s))"
    using length_takeWhile_le [of "\<lambda>b. b \<noteq> 0" s] by (simp add: scan_zero_def tw c_str_def)
  moreover have "take (length (c_str s)) (s @ 0 # r) = c_str s"
    unfolding tw [symmetric] by (rule takeWhile_eq_take [symmetric])
  ultimately show ?thesis using p n tl by (simp add: GetString_def)
qed

lemma GetFloat_any:
  assumes "cur d = float_enc hc x @ r"
  shows "GetFloat hc d = Some (if x = 2 ^ 63 then 0 else x, adv (length (float_enc hc x)) d)"
proof -
  have "cur_tag d = 47" "tl (cur d) = KeyFromDouble (host hc) (le_macro hc) x @ r"
    "dec_size d = 9 + length r"
    using assms by (simp_all add: cur_tag_def float_enc_def tag_defs dec_size_def)
  then show ?thesis
    using KeyToFromDouble [of "host hc" "le_macro hc" x]
    by (simp add: GetFloat_def float_enc_def tag_defs)
qed

lemma fold_PutInt: "fold PutInt vs e = AppendEncoding (concat (map int_enc vs)) e"
  by (induction vs arbitrary: e) (simp_all add: PutInt_eq AppendEncoding_append AppendEncoding_nil)

lemma c_str_id: "c_string s \<Longrightarrow> c_str s = s"
  by (auto simp: c_string_def c_str_def takeWhile_eq_all_conv)

text \<open>C26. The encodings of two integers compare, as byte strings after any common prefix and
  before anything, exactly as the signed integers do.\<close>

theorem int_wire_order:
  "enc_data (PutInt v e) @ x < enc_data (PutInt w e) @ y \<longleftrightarrow> v <s w \<or> v = w \<and> x < y"
  using int_c.enc_less [where v = v and w = w and x = x and y = y] by (simp add: Put_eqs append_less_append)

text \<open>C27. Fingerprints, times and booleans sort on the wire as unsigned numbers do, strings
  without a zero byte as strings do, and floats that are neither a NaN nor the negative
  zero as numbers do where the byte-order macro agrees with the host.\<close>

theorem scalar_wire_order:
  "(enc_data (PutFingerprint fp e) @ x < enc_data (PutFingerprint fp' e) @ y
      \<longleftrightarrow> fp < fp' \<or> fp = fp' \<and> x < y)
   \<and> (enc_data (PutTime t e) @ x < enc_data (PutTime t' e) @ y \<longleftrightarrow> t < t' \<or> t = t' \<and> x < y)
   \<and> (enc_data (PutBool b e) @ x < enc_data (PutBool b' e) @ y \<longleftrightarrow> b < b' \<or> b = b' \<and> x < y)
   \<and> (c_string s \<and> c_string s' \<longrightarrow>
        (enc_data (PutString s e) @ x < enc_data (PutString s' e) @ y
          \<longleftrightarrow> s < s' \<or> s = s' \<and> x < y))
   \<and> (plain_float f \<and> plain_float f' \<longrightarrow>
        (\<exists>e1 e2. PutFloat (good_config h) f e = Ok e1 \<and> PutFloat (good_config h) f' e = Ok e2 \<and>
          (enc_data e1 @ x < enc_data e2 @ y \<longleftrightarrow> dbl_lt f f' \<or> f = f' \<and> x < y)))"
  using fingerprint_c.enc_less [where v = fp and w = fp' and x = x and y = y]
    time_c.enc_less [where v = t and w = t' and x = x and y = y]
    bool_c.enc_less [where v = b and w = b' and x = x and y = y]
    string_c.enc_less [where v = s and w = s' and x = x and y = y]
    float_sorted.enc_less [where v = f and w = f' and h = h and x = x and y = y]
  by (simp add: Put_eqs append_less_append)

theorem scalar_wire_order_witness:
  "enc_data (PutString [97] new_encoder) @ [] < enc_data (PutString [97, 98] new_encoder) @ []"
  using scalar_wire_order [of 0 new_encoder "[]" 0 "[]" 0 0 False False "[97]" "[97, 98]"]
  by (simp add: c_string_def)

text \<open>C28. What an encoder appends for a scalar value, followed by anything, is read back by
  the decoder, which then stands right behind it.  Two values do not come back as they
  were: a string is cut at its first zero byte, and the negative zero becomes zero.\<close>

theorem scalar_roundtrip:
  "GetInt (decoder_after e (enc_data (PutInt i e) @ r))
     = Some (i, decoder_after (PutInt i e) (enc_data (PutInt i e) @ r))
   \<and> GetFingerprint (decoder_after e (enc_data (PutFingerprint fp e) @ r))
     = Some (fp, decoder_after (PutFingerprint fp e) (enc_data (PutFingerprint fp e) @ r))
   \<and> GetTime (decoder_after e (enc_data (PutTime t e) @ r))
     = Some (t, decoder_after (PutTime t e) (enc_data (PutTime t e) @ r))
   \<and> GetBool (decoder_after e (enc_data (PutBool b e) @ r))
     = Some (b, decoder_after (PutBool b e) (enc_data (PutBool b e) @ r))
   \<and> GetBytes (decoder_after e (enc_data (PutBytes p e) @ r))
     = Some (p, decoder_after (PutBytes p e) (enc_data (PutBytes p e) @ r))
   \<and> GetString (decoder_after e (enc_data (PutString s e) @ r))
     = Some (c_str s, adv (length (c_str s) + 2) (decoder_after e (enc_data (PutString s e) @ r)))
   \<and> (\<exists>e'. PutFloat hc x e = Ok e' \<and> GetFloat hc (decoder_after e (enc_data e' @ r))
     = Some (if x = 2 ^ 63 then 0 else x, decoder_after e' (enc_data e' @ r)))"
  unfolding Put_eqs decoder_after_AppendEncoding
  using int_c.get_enc [OF TrueI cur_after_Append, of e i r]
    fingerprint_c.get_enc [OF TrueI cur_after_Append, of e fp r]
    time_c.get_enc [OF TrueI cur_after_Append, of e t r]
    bool_c.get_enc [OF TrueI cur_after_Append, of e b r]
    bytes_c.get_enc [OF TrueI cur_after_Append, of e p r]
    GetString_any [OF cur_after_Append, of e s r]
    GetFloat_any [OF cur_after_Append, of hc e x r]
  by (simp add: decoder_after_AppendEncoding)

text \<open>Byte arrays do not sort on the wire as they do as values: the escape byte that
  ends an array is not the smallest byte, so the empty array comes after one that starts
  with a smaller byte.\<close>

theorem bytes_wire_unsorted:
  "[] < [0x10 :: byte] \<and> enc_data (PutBytes [0x10] e) < enc_data (PutBytes [] e)"
  by (simp add: PutBytes_eq append_less_append bytes_enc_def esc_def kBytesTerm_def)

text \<open>C39. On arbitrary input, well formed or not, skipping a scalar of a kind succeeds exactly
  when reading one does, and stops at the same place.\<close>

theorem skip_agrees_with_get:
  "Skip K_INT d = map_option snd (GetInt d)
   \<and> Skip K_FINGERPRINT d = map_option snd (GetFingerprint d)
   \<and> Skip K_TIME d = map_option snd (GetTime d)
   \<and> Skip K_BOOL d = map_option snd (GetBool d)
   \<and> Skip K_BYTES d = map_option snd (GetBytes d)
   \<and> Skip K_STRING d = map_option snd (GetString d)
   \<and> Skip K_FLOAT d = map_option snd (GetFloat hc d)"
  using Skip_scalar by blast

text \<open>C40. A composite key of integers, the concatenation of their encodings, sorts as the
  tuple of integers does, and reading as many integers as were written gives them back.\<close>

theorem int_key_order:
  "length vs = length ws \<Longrightarrow>
    (enc_data (fold PutInt vs e) < enc_data (fold PutInt ws e)
      \<longleftrightarrow> (vs, ws) \<in> lexord {(v, w). v <s w})
    \<and> map_option fst (get_n GetInt (length vs) (decoder_after e (enc_data (fold PutInt vs e)))) = Some vs"
  using int_c.key_less [of vs ws] int_c.get_n_enc [of vs "decoder_after e (enc_data (fold PutInt vs e))" "[]"]
  by (simp add: fold_PutInt append_less_append)

theorem int_key_order_witness:
  "enc_data (fold PutInt [1, - 5] new_encoder) < enc_data (fold PutInt [1, 2] new_encoder)"
  using int_key_order [of "[1, - 5]" "[1, 2]" new_encoder] by (simp add: word_sless_alt)

text \<open>The encoding of a string key given as text is a prefix of the encoding of a
  string exactly when the key is a prefix of the string, so a scan for it finds the
  strings that start with the key and no others.\<close>

theorem string_key_prefix:
  assumes "ty_kind t = K_STRING" and "c_string key" and "c_string s"
  shows "\<exists>k. EncodeKeyFromString t key = Inr k
    \<and> ((\<exists>z. enc_data (PutString s new_encoder) = k @ z) \<longleftrightarrow> (\<exists>z. s = key @ z))"
proof -
  have "EncodeKeyFromString t key = Inr (of_nat TAG_STRING # key)"
    using assms by (simp add: EncodeKeyFromString_def PutString_eq string_enc_def c_str_id
        new_encoder_def SetVersion_def butlast_append)
  moreover have "(\<exists>z. s @ [0] = key @ z) \<longleftrightarrow> (\<exists>z. s = key @ z)"
    using assms(2) by (auto simp: append_eq_append_conv2 c_string_def Cons_eq_append_conv)
  ultimately show ?thesis
    by (simp add: PutString_eq string_enc_def new_encoder_def SetVersion_def)
qed

theorem string_key_prefix_witness:
  "\<exists>k. EncodeKeyFromString kString [97] = Inr k
    \<and> ((\<exists>z. enc_data (PutString [97, 98] new_encoder) = k @ z) \<longleftrightarrow> (\<exists>z. [97, 98 :: byte] = [97] @ z))"
  by (rule string_key_prefix) (simp_all add: kString_def new_type_def c_string_def)

text \<open>\<open>Advance\<close> does not report a decoding error: on a string that is never terminated
  it leaves the position where it was and returns true.\<close>

theorem Advance_ignores_errors:
  "Skip K_STRING (new_decoder [6, 97]) = None
   \<and> Advance 1 (new_decoder [6, 97]) = (True, new_decoder [6, 97])"
proof -
  let ?d = "new_decoder [6, 97]"
  have p: "peek ?d = K_STRING" by (simp add: peek_tag cur_tag_def)
  have s: "Skip K_STRING ?d = None"
    by (simp add: Skip_string GetString_def scan_zero_def)
  have "skip_ends ?d = ?d" "skip_starts ?d = ?d"
    using p by (simp_all add: skip_ends.simps skip_starts.simps IsEnd_def IsStart_def end_tag_def
        start_tag_def)
  then show ?thesis using p s by (simp add: Advance.simps Skip_any_def)
qed

end
