(* ===== verification/Szl_Value.thy ===== *)
theory Szl_Value
  imports Szl_Codec
begin

text \<open>
  Values and the operations on them: the union \<open>SzlValue\<close> and the class \<open>SzlOps\<close> of
  \<open>public/szlvalue.h\<close> and \<open>emitvalues/szlvalue.cc\<close>.

  A \<open>szl_value\<close> is what the union last held: all zero (the default constructor: null
  pointer, length 0, which also reads as the number 0), an integer, a double, a non-empty
  buffer, or a non-empty array of values.  Reading a member that is neither the one written
  nor zero is the error \<open>Bad_union\<close>.  Ownership is not modelled: assigning copies.

  A \<open>szl_ops\<close> object is its type and the flattened kinds, each with the nested operations
  (\<open>flat_ops_[i]\<close>) where the entry is a map, an array, or a tuple inside one of these; the
  array \<open>flat_ops_\<close> is null when no entry has any.  \<open>assert\<close> is active, as the default
  build leaves it, and fails as \<open>CHECK\<close> does.  Operations that overwrite \<open>*d\<close> return the
  new value of it.
\<close>

section \<open>Values\<close>

datatype szl_value =
    VZero
  | VInt i64
  | VFloat dbl
  | VBuf bytes
  | VVals "szl_value list"

fun get_i :: "szl_value \<Rightarrow> i64 res" where
  "get_i VZero = Ok 0"
| "get_i (VInt i) = Ok i"
| "get_i _ = Inl Bad_union"

fun get_f :: "szl_value \<Rightarrow> dbl res" where
  "get_f VZero = Ok 0"
| "get_f (VFloat f) = Ok f"
| "get_f _ = Inl Bad_union"

fun get_buf :: "szl_value \<Rightarrow> bytes res" where
  "get_buf VZero = Ok []"
| "get_buf (VBuf b) = Ok b"
| "get_buf _ = Inl Bad_union"

fun get_vals :: "szl_value \<Rightarrow> szl_value list res" where
  "get_vals VZero = Ok []"
| "get_vals (VVals vs) = Ok vs"
| "get_vals _ = Inl Bad_union"

definition mk_buf :: "bytes \<Rightarrow> szl_value" where
  "mk_buf b = (if b = [] then VZero else VBuf b)"

definition mk_vals :: "szl_value list \<Rightarrow> szl_value" where
  "mk_vals vs = (if vs = [] then VZero else VVals vs)"


section \<open>Kinds of types\<close>

definition IsSimpleBaseKind :: "szl_kind \<Rightarrow> bool" where
  "IsSimpleBaseKind kind \<longleftrightarrow> BaseKind kind \<and> kind \<noteq> K_STRING \<and> kind \<noteq> K_BYTES"

definition is_composite :: "szl_kind \<Rightarrow> bool" where
  "is_composite k \<longleftrightarrow> k = K_TUPLE \<or> k = K_ARRAY \<or> k = K_MAP"

fun IsOrdered :: "szl_type \<Rightarrow> bool"
and IsOrdered_fields :: "szl_field list \<Rightarrow> bool" where
  "IsOrdered (SzlType k tb pm v fs ixs el wt) =
     (if k \<in> {K_BOOL, K_BYTES, K_STRING, K_TIME, K_INT, K_FINGERPRINT, K_FLOAT} then True
      else if k = K_TUPLE then IsOrdered_fields fs
      else False)"
| "IsOrdered_fields [] = True"
| "IsOrdered_fields (SzlField l t # fs) = (if \<not> IsOrdered t then False else IsOrdered_fields fs)"

fun IsAddable :: "szl_type \<Rightarrow> bool res"
and IsAddable_fields :: "szl_field list \<Rightarrow> bool res" where
  "IsAddable (SzlType k tb pm v fs ixs el wt) =
     (if k \<in> {K_TIME, K_INT, K_FLOAT} then Ok True
      else if k = K_TUPLE then IsAddable_fields fs
      else if k = K_MAP then
        (case el of None \<Rightarrow> Inl Null_deref | Some (SzlField l t) \<Rightarrow> IsAddable t)
      else Ok False)"
| "IsAddable_fields [] = Ok True"
| "IsAddable_fields (SzlField l t # fs) =
     bind_res (IsAddable t) (\<lambda>b. if \<not> b then Ok False else IsAddable_fields fs)"

fun IsNumeric :: "szl_type \<Rightarrow> bool"
and IsNumeric_fields :: "szl_field list \<Rightarrow> bool" where
  "IsNumeric (SzlType k tb pm v fs ixs el wt) =
     (if k \<in> {K_INT, K_FLOAT} then True
      else if k = K_TUPLE then IsNumeric_fields fs
      else False)"
| "IsNumeric_fields [] = True"
| "IsNumeric_fields (SzlField l t # fs) = (if \<not> IsNumeric t then False else IsNumeric_fields fs)"


section \<open>Flattening\<close>

datatype szl_ops = SzlOps (ops_type: szl_type) (ops_flats: "szl_flat list")
and szl_flat = Flat (flat_kind: szl_kind) | FlatOps (flat_kind: szl_kind) szl_ops

text \<open>The number of flat values, and \<open>is_complex\<close>.\<close>

fun SzlFlattenedVals :: "registry \<Rightarrow> nat \<Rightarrow> szl_type \<Rightarrow> (nat \<times> bool) res"
and SzlFlattenedVals_fields :: "registry \<Rightarrow> nat \<Rightarrow> szl_field list \<Rightarrow> (nat \<times> bool) res" where
  "SzlFlattenedVals reg depth (SzlType k tb pm v fs ixs el wt) =
     (if BaseType reg (SzlType k tb pm v fs ixs el wt) then Ok (1, False)
      else if k = K_MAP then
        (case ixs of [] \<Rightarrow> Inl Out_of_range
         | ix # _ \<Rightarrow> (case el of None \<Rightarrow> Inl Null_deref
           | Some e \<Rightarrow> Ok (1, \<not> BaseType reg (fd_type ix) \<or> \<not> BaseType reg (fd_type e) \<or> depth > 0)))
      else if k = K_ARRAY then
        (case el of None \<Rightarrow> Inl Null_deref
         | Some e \<Rightarrow> Ok (1, \<not> BaseType reg (fd_type e) \<or> depth > 0))
      else if k = K_TUPLE then SzlFlattenedVals_fields reg (depth + 1) fs
      else Inl (Fatal ''can't perform ops''))"
| "SzlFlattenedVals_fields reg depth [] = Ok (0, False)"
| "SzlFlattenedVals_fields reg depth (SzlField l t # fs) =
     bind_res (SzlFlattenedVals reg depth t) (\<lambda>(n, c).
     bind_res (SzlFlattenedVals_fields reg depth fs) (\<lambda>(n', c'). Ok (n + n', c \<or> c')))"

text \<open>\<open>Init\<close> and \<open>SzlFlattenKinds\<close>; \<open>has_ops\<close> says whether \<open>flat_ops_\<close> was allocated.\<close>

definition flat_of :: "szl_kind \<Rightarrow> szl_ops option \<Rightarrow> szl_flat" where
  "flat_of k oo = (case oo of None \<Rightarrow> Flat k | Some ops \<Rightarrow> FlatOps k ops)"

function (sequential) new_ops :: "registry \<Rightarrow> szl_type \<Rightarrow> szl_ops res"
and SzlFlattenKinds :: "registry \<Rightarrow> bool \<Rightarrow> szl_type \<Rightarrow> szl_flat list res"
and SzlFlattenKinds_fields :: "registry \<Rightarrow> bool \<Rightarrow> szl_field list \<Rightarrow> szl_flat list res" where
  "new_ops reg (SzlType k tb pm v fs ixs el wt) =
     (let t = SzlType k tb pm v fs ixs el wt in
      if k = K_MAP then
        (case ixs of
           [SzlField kl kt] \<Rightarrow>
             (case el of None \<Rightarrow> Inl Null_deref
              | Some (SzlField el_l et) \<Rightarrow>
                bind_res (if BaseType reg kt then Ok None
                          else bind_res (new_ops reg kt) (\<lambda>p. Ok (Some p))) (\<lambda>ko.
                bind_res (if BaseType reg et then Ok None
                          else bind_res (new_ops reg et) (\<lambda>p. Ok (Some p))) (\<lambda>eo.
                Ok (SzlOps t [flat_of (ty_kind kt) ko, flat_of (ty_kind et) eo]))))
         | _ \<Rightarrow> Inl (Fatal ''maps with multiple keys are not supported''))
      else if k = K_ARRAY then
        (case el of None \<Rightarrow> Inl Null_deref
         | Some (SzlField el_l et) \<Rightarrow>
           bind_res (if BaseType reg et then Ok None
                     else bind_res (new_ops reg et) (\<lambda>p. Ok (Some p))) (\<lambda>eo.
           Ok (SzlOps t [flat_of (ty_kind et) eo])))
      else
        bind_res (SzlFlattenedVals reg 0 t) (\<lambda>(n, is_complex).
        bind_res (SzlFlattenKinds reg is_complex t) (\<lambda>flats.
        bind_res (check (n = length flats)) (\<lambda>_. Ok (SzlOps t flats)))))"
| "SzlFlattenKinds reg has_ops (SzlType k tb pm v fs ixs el wt) =
     (let t = SzlType k tb pm v fs ixs el wt in
      if BaseType reg t then Ok [Flat k]
      else if k = K_MAP \<or> k = K_ARRAY then
        bind_res (check has_ops) (\<lambda>_. bind_res (new_ops reg t) (\<lambda>p. Ok [FlatOps k p]))
      else if k = K_TUPLE then SzlFlattenKinds_fields reg has_ops fs
      else Inl (Fatal ''can't perform ops''))"
| "SzlFlattenKinds_fields reg has_ops [] = Ok []"
| "SzlFlattenKinds_fields reg has_ops (SzlField l t # fs) =
     bind_res (SzlFlattenKinds reg has_ops t) (\<lambda>a.
     bind_res (SzlFlattenKinds_fields reg has_ops fs) (\<lambda>b. Ok (a @ b)))"
  by pat_completeness auto
termination
  by (relation "measure (case_sum
        (\<lambda>(_, t). 2 * size t + (if ty_kind t = K_MAP \<or> ty_kind t = K_ARRAY then 0 else 1))
        (case_sum
          (\<lambda>(_, _, t). 2 * size t + (if ty_kind t = K_MAP \<or> ty_kind t = K_ARRAY then 1 else 0))
          (\<lambda>(_, _, fs). 2 * size_list size fs + 1)))") (auto split: if_splits)

declare new_ops.simps [simp del]


section \<open>Walking over the flat values\<close>

text \<open>The element \<open>vals[i]\<close> goes with \<open>flats_[i % nflats_]\<close>.\<close>

definition zip_flats :: "szl_flat list \<Rightarrow> szl_value list \<Rightarrow> (szl_flat \<times> szl_value) list" where
  "zip_flats fl vs =
     (if fl = [] then [] else map (\<lambda>i. (fl ! (i mod length fl), vs ! i)) [0..<length vs])"

definition zip2_flats ::
  "szl_flat list \<Rightarrow> 'a list \<Rightarrow> 'b list \<Rightarrow> nat \<Rightarrow> nat \<Rightarrow> (szl_flat \<times> 'a \<times> 'b) list" where
  "zip2_flats fl xs ys start stop =
     (if fl = [] then [] else map (\<lambda>i. (fl ! (i mod length fl), xs ! i, ys ! i)) [start..<stop])"

lemma zip_flats_mem: "(f, v) \<in> set (zip_flats fl vs) \<Longrightarrow> f \<in> set fl \<and> v \<in> set vs"
  by (auto simp: zip_flats_def split: if_splits)

lemma zip2_flats_mem: "(f, x, y) \<in> set (zip2_flats fl xs ys a b) \<Longrightarrow> f \<in> set fl"
  by (auto simp: zip2_flats_def split: if_splits)

lemma flat_size [termination_simp]: "f \<in> set fl \<Longrightarrow> size f < Suc (size_list size fl)"
  by (simp add: size_list_estimation' less_Suc_eq_le)

lemma zip_flats_size [termination_simp]:
  "(f, v) \<in> set (zip_flats fl vs) \<Longrightarrow> size f < Suc (size_list size fl)"
  using zip_flats_mem flat_size by blast

lemma zip2_flats_size [termination_simp]:
  "(f, x, y) \<in> set (zip2_flats fl xs ys a b) \<Longrightarrow> size f < Suc (size_list size fl)"
  by (rule flat_size [OF zip2_flats_mem])

text \<open>A loop that stops at the first result that is not 0.\<close>

fun first_nz :: "('a \<Rightarrow> int res) \<Rightarrow> 'a list \<Rightarrow> int res" where
  "first_nz f [] = Ok 0"
| "first_nz f (x # xs) = bind_res (f x) (\<lambda>r. if r \<noteq> 0 then Ok r else first_nz f xs)"

lemma first_nz_cong [fundef_cong]:
  "xs = ys \<Longrightarrow> (\<And>x. x \<in> set ys \<Longrightarrow> f x = g x) \<Longrightarrow> first_nz f xs = first_nz g ys"
  by (induction ys arbitrary: xs) (auto cong: if_cong)

lemma fold_res_cong [fundef_cong]:
  "xs = ys \<Longrightarrow> s = s' \<Longrightarrow> (\<And>x s. x \<in> set ys \<Longrightarrow> f x s = g x s) \<Longrightarrow> fold_res f xs s = fold_res g ys s'"
proof (induction ys arbitrary: xs s s')
  case Nil
  then show ?case by simp
next
  case (Cons y ys)
  then have "fold_res f ys = fold_res g ys" by auto
  then show ?case using Cons.prems by simp
qed


section \<open>Memory, clearing and zero\<close>

definition sizeof_value :: int where
  "sizeof_value = 16"

fun Memory :: "szl_ops \<Rightarrow> szl_value \<Rightarrow> int res"
and Memory_flat :: "szl_flat \<Rightarrow> szl_value \<Rightarrow> int res" where
  "Memory (SzlOps t fl) s =
     (let k = ty_kind t in
      if IsSimpleBaseKind k then Ok sizeof_value
      else if k = K_STRING \<or> k = K_BYTES then
        bind_res (get_buf s) (\<lambda>b. Ok (sizeof_value + int (length b)))
      else if is_composite k then
        bind_res (get_vals s) (\<lambda>vs.
          if vs = [] then Ok sizeof_value
          else bind_res (check (k \<noteq> K_TUPLE \<or> length vs = length fl)) (\<lambda>_.
            bind_res (map_res (\<lambda>(f, v). Memory_flat f v) (zip_flats fl vs)) (\<lambda>ms.
              Ok (sizeof_value + int (length vs) * sizeof_value + sum_list ms))))
      else Inl (Fatal ''can't report memory usage''))"
| "Memory_flat (Flat k) v =
     (if k = K_STRING \<or> k = K_BYTES then bind_res (get_buf v) (\<lambda>b. Ok (int (length b)))
      else if \<not> IsSimpleBaseKind k then Inl (Fatal ''can't report memory usage'')
      else Ok 0)"
| "Memory_flat (FlatOps k p) v =
     (if k = K_STRING \<or> k = K_BYTES then bind_res (get_buf v) (\<lambda>b. Ok (int (length b)))
      else bind_res (Memory p v) (\<lambda>m. Ok (m - sizeof_value)))"

fun Clear :: "szl_ops \<Rightarrow> szl_value \<Rightarrow> szl_value res"
and Clear_flat :: "szl_flat \<Rightarrow> szl_value \<Rightarrow> szl_value res" where
  "Clear (SzlOps t fl) v =
     (let k = ty_kind t in
      if IsSimpleBaseKind k then Ok v
      else if k = K_STRING \<or> k = K_BYTES then bind_res (get_buf v) (\<lambda>_. Ok VZero)
      else if is_composite k then
        bind_res (get_vals v) (\<lambda>vs.
          if vs = [] then Ok v
          else bind_res (check (k \<noteq> K_TUPLE \<or> length vs = length fl)) (\<lambda>_.
            bind_res (map_res (\<lambda>(f, x). Clear_flat f x) (zip_flats fl vs)) (\<lambda>_. Ok VZero)))
      else Inl (Fatal ''can't clear''))"
| "Clear_flat (Flat k) v =
     (if k = K_STRING \<or> k = K_BYTES then bind_res (get_buf v) (\<lambda>_. Ok VZero)
      else if \<not> IsSimpleBaseKind k then Inl (Fatal ''can't clear'')
      else Ok v)"
| "Clear_flat (FlatOps k p) v =
     (if k = K_STRING \<or> k = K_BYTES then bind_res (get_buf v) (\<lambda>_. Ok VZero)
      else Clear p v)"

definition zero_flat :: "szl_flat \<Rightarrow> szl_value \<Rightarrow> szl_value res" where
  "zero_flat f v =
     (case f of
        FlatOps k p \<Rightarrow> Clear p v
      | Flat k \<Rightarrow>
          if k = K_STRING \<or> k = K_BYTES then bind_res (get_buf v) (\<lambda>_. Ok VZero)
          else if k = K_FLOAT then Ok (VFloat 0)
          else if IsSimpleBaseKind k then Ok (VInt 0)
          else Inl (Fatal ''can't assign zero''))"

fun AssignZero :: "szl_ops \<Rightarrow> szl_value \<Rightarrow> szl_value res" where
  "AssignZero (SzlOps t fl) v =
     (let k = ty_kind t in
      if k = K_FLOAT then Ok (VFloat 0)
      else if IsSimpleBaseKind k then Ok (VInt 0)
      else if k = K_STRING \<or> k = K_BYTES then bind_res (get_buf v) (\<lambda>_. Ok VZero)
      else if k = K_TUPLE then
        bind_res (get_vals v) (\<lambda>vs.
          let vs = (if vs = [] then replicate (length fl) VZero else vs) in
          bind_res (check (length vs = length fl)) (\<lambda>_.
          bind_res (map_res (\<lambda>(f, x). zero_flat f x) (zip_flats fl vs)) (\<lambda>vs'. Ok (mk_vals vs'))))
      else if k = K_ARRAY \<or> k = K_MAP then Clear (SzlOps t fl) v
      else Inl (Fatal ''can't assign zero''))"

text \<open>\<open>ToFloat\<close> fills the array it is given with \<open>nflats_\<close> doubles.\<close>

definition float_of_flat :: "szl_flat \<Rightarrow> szl_value \<Rightarrow> dbl res" where
  "float_of_flat f v =
     (if flat_kind f = K_FLOAT then get_f v
      else if flat_kind f = K_INT then bind_res (get_i v) (\<lambda>i. Ok (dbl_of_int (sint i)))
      else Inl (Fatal ''can't convert to float''))"

fun ToFloat :: "szl_ops \<Rightarrow> szl_value \<Rightarrow> dbl list res" where
  "ToFloat (SzlOps t fl) s =
     (let k = ty_kind t in
      if k = K_INT then bind_res (get_i s) (\<lambda>i. Ok [dbl_of_int (sint i)])
      else if k = K_FLOAT then bind_res (get_f s) (\<lambda>f. Ok [f])
      else if k = K_TUPLE then
        bind_res (get_vals s) (\<lambda>vs.
          if vs \<noteq> [] then bind_res (check (length vs = length fl)) (\<lambda>_.
            map_res (\<lambda>(f, v). float_of_flat f v) (zip_flats fl vs))
          else Ok (replicate (length fl) 0))
      else Inl (Fatal ''can't convert to float''))"


section \<open>Assignment\<close>

text \<open>The new buffer of \<open>*val\<close>.\<close>

definition ReplaceSzlValueBuf :: "bytes \<Rightarrow> szl_value \<Rightarrow> szl_value res" where
  "ReplaceSzlValueBuf b v = bind_res (get_buf v) (\<lambda>_. Ok (mk_buf b))"

function (sequential) Assign :: "szl_ops \<Rightarrow> szl_value \<Rightarrow> szl_value \<Rightarrow> szl_value res"
and AssignRange :: "szl_ops \<Rightarrow> szl_value \<Rightarrow> nat \<Rightarrow> nat \<Rightarrow> szl_value \<Rightarrow> szl_value res"
and Assign_flat :: "szl_flat \<Rightarrow> szl_value \<Rightarrow> szl_value \<Rightarrow> szl_value res" where
  "Assign (SzlOps t fl) s d =
     (let k = ty_kind t in
      if k = K_FLOAT then bind_res (get_f s) (\<lambda>f. Ok (VFloat f))
      else if IsSimpleBaseKind k then bind_res (get_i s) (\<lambda>i. Ok (VInt i))
      else if k = K_STRING \<or> k = K_BYTES then bind_res (get_buf s) (\<lambda>b. ReplaceSzlValueBuf b d)
      else if is_composite k then
        (if s = VZero \<and> d = VZero then Ok d
         else bind_res (get_vals s) (\<lambda>vs. AssignRange (SzlOps t fl) s 0 (length vs) d))
      else Inl (Fatal ''can't assign''))"
| "AssignRange (SzlOps t fl) s start stop d =
     (let k = ty_kind t in
      if is_composite k then
        bind_res (get_vals s) (\<lambda>vs.
        bind_res (get_vals d) (\<lambda>vd.
        bind_res (if length vs \<noteq> length vd then
            bind_res (check (k \<noteq> K_TUPLE \<or> vs = [] \<or> vd = [])) (\<lambda>_.
            bind_res (Clear (SzlOps t fl) d) get_vals)
          else Ok vd) (\<lambda>vd.
        if vs = [] then Ok (mk_vals vd)
        else
          bind_res (check (k = K_TUPLE \<longrightarrow> length vs = length fl)) (\<lambda>_.
          bind_res (check (stop \<le> length vs)) (\<lambda>_.
          bind_res (check (start \<le> stop)) (\<lambda>_.
          let dvals = (if vd = [] then replicate (length vs) VZero else vd) in
          bind_res (check (length vs = length dvals)) (\<lambda>_.
          bind_res (map_res (\<lambda>(f, x, y). Assign_flat f x y) (zip2_flats fl vs dvals start stop))
            (\<lambda>xs. Ok (mk_vals (take start dvals @ xs @ drop stop dvals))))))))))
      else if start + 1 \<noteq> stop \<or> start \<noteq> 0 then Inl (Fatal ''can't assign range'')
      else Assign (SzlOps t fl) s d)"
| "Assign_flat (FlatOps k p) s d = Assign p s d"
| "Assign_flat (Flat k) s d =
     (if k = K_STRING \<or> k = K_BYTES then bind_res (get_buf s) (\<lambda>b. ReplaceSzlValueBuf b d)
      else if k = K_FLOAT then bind_res (get_f s) (\<lambda>f. Ok (VFloat f))
      else if IsSimpleBaseKind k then bind_res (get_i s) (\<lambda>i. Ok (VInt i))
      else Inl (Fatal ''can't assign''))"
  by pat_completeness auto
termination
  by (relation "measure (case_sum
        (\<lambda>(p, _, _). 2 * size p + (if is_composite (ty_kind (ops_type p)) then 1 else 0))
        (case_sum
          (\<lambda>(p, _, _, _, _). 2 * size p + (if is_composite (ty_kind (ops_type p)) then 0 else 1))
          (\<lambda>(f, _, _). 2 * size f)))") (auto dest: zip2_flats_size split: if_splits)

declare Assign.simps [simp del] AssignRange.simps [simp del]

definition AssignAtPos :: "szl_ops \<Rightarrow> szl_value \<Rightarrow> nat \<Rightarrow> szl_value \<Rightarrow> szl_value res" where
  "AssignAtPos p s i d = AssignRange p s i (i + 1) d"


text \<open>The slot a \<open>Put\<close> operation writes, \<open>SzlFlatValueAt\<close>; \<open>upd\<close> is the write.\<close>

fun SzlFlatValueAt :: "szl_ops \<Rightarrow> nat \<Rightarrow> szl_kind \<Rightarrow> (szl_value \<Rightarrow> szl_value res)
    \<Rightarrow> szl_value \<Rightarrow> szl_value res" where
  "SzlFlatValueAt (SzlOps t fl) i expected_kind upd v =
     bind_res (check (i < length fl)) (\<lambda>_.
       if flat_kind (fl ! i) \<noteq> expected_kind then Inl (Fatal ''can't get flat value'')
       else if ty_kind t = K_TUPLE then
         bind_res (get_vals v) (\<lambda>vs.
           let vals = (if vs = [] then replicate (length fl) VZero else vs) in
           if i < length vals then
             bind_res (upd (vals ! i)) (\<lambda>x. Ok (VVals (vals[i := x])))
           else Inl Out_of_range)
       else bind_res (check (length fl = 1)) (\<lambda>_. upd v))"

definition ops_PutBool :: "szl_ops \<Rightarrow> bool \<Rightarrow> nat \<Rightarrow> szl_value \<Rightarrow> szl_value res" where
  "ops_PutBool p b i d = SzlFlatValueAt p i K_BOOL (\<lambda>_. Ok (VInt (of_bool b))) d"

definition ops_PutBytes :: "szl_ops \<Rightarrow> bytes \<Rightarrow> nat \<Rightarrow> szl_value \<Rightarrow> szl_value res" where
  "ops_PutBytes p s i d = SzlFlatValueAt p i K_BYTES (ReplaceSzlValueBuf s) d"

definition ops_PutFloat :: "szl_ops \<Rightarrow> dbl \<Rightarrow> nat \<Rightarrow> szl_value \<Rightarrow> szl_value res" where
  "ops_PutFloat p f i d = SzlFlatValueAt p i K_FLOAT (\<lambda>_. Ok (VFloat f)) d"

definition ops_PutInt :: "szl_ops \<Rightarrow> i64 \<Rightarrow> nat \<Rightarrow> szl_value \<Rightarrow> szl_value res" where
  "ops_PutInt p x i d = SzlFlatValueAt p i K_INT (\<lambda>_. Ok (VInt x)) d"

definition ops_PutFingerprint :: "szl_ops \<Rightarrow> u64 \<Rightarrow> nat \<Rightarrow> szl_value \<Rightarrow> szl_value res" where
  "ops_PutFingerprint p fp i d = SzlFlatValueAt p i K_FINGERPRINT (\<lambda>_. Ok (VInt fp)) d"

definition ops_PutTime :: "szl_ops \<Rightarrow> u64 \<Rightarrow> nat \<Rightarrow> szl_value \<Rightarrow> szl_value res" where
  "ops_PutTime p t i d = SzlFlatValueAt p i K_TIME (\<lambda>_. Ok (VInt t)) d"

text \<open>A string is stored with the terminating zero that follows its \<open>len\<close> characters.\<close>

definition ops_PutString :: "szl_ops \<Rightarrow> bytes \<Rightarrow> nat \<Rightarrow> szl_value \<Rightarrow> szl_value res" where
  "ops_PutString p s i d =
     SzlFlatValueAt p i K_STRING
       (if s = [] then (\<lambda>v. bind_res (get_buf v) (\<lambda>_. Ok VZero))
        else ReplaceSzlValueBuf (s @ [0])) d"


section \<open>Comparison\<close>

definition CmpBaseT :: "('a \<Rightarrow> 'a \<Rightarrow> bool) \<Rightarrow> 'a \<Rightarrow> 'a \<Rightarrow> int" where
  "CmpBaseT lt a b = (if lt a b then - 1 else if lt b a then 1 else 0)"

text \<open>\<open>memcmp\<close>: only the sign of its result is specified.\<close>

definition memcmp :: "bytes \<Rightarrow> bytes \<Rightarrow> nat \<Rightarrow> int" where
  "memcmp a b n = CmpBaseT (<) (take n a) (take n b)"

definition CmpStr :: "szl_value option \<Rightarrow> szl_value option \<Rightarrow> int res" where
  "CmpStr s0 s1 =
     (case (s0, s1) of
        (None, None) \<Rightarrow> Ok 0
      | (None, Some v1) \<Rightarrow> bind_res (get_buf v1) (\<lambda>b1. Ok (CmpBaseT (<) 0 (length b1)))
      | (Some v0, None) \<Rightarrow> bind_res (get_buf v0) (\<lambda>b0. Ok (CmpBaseT (<) (length b0) 0))
      | (Some v0, Some v1) \<Rightarrow>
          bind_res (get_buf v0) (\<lambda>b0. bind_res (get_buf v1) (\<lambda>b1.
            let len = (if length b0 > length b1 then length b1 else length b0);
                c = memcmp b0 b1 len in
            if c = 0 then Ok (CmpBaseT (<) (length b0) (length b1)) else Ok c)))"

text \<open>\<open>s == NULL ? 0 : s->i\<close>\<close>

definition opt_get :: "(szl_value \<Rightarrow> 'a::zero res) \<Rightarrow> szl_value option \<Rightarrow> 'a res" where
  "opt_get g s = (case s of None \<Rightarrow> Ok 0 | Some v \<Rightarrow> g v)"

definition CmpBase :: "szl_kind \<Rightarrow> szl_value option \<Rightarrow> szl_value option \<Rightarrow> int res" where
  "CmpBase kind s0 s1 =
     (if kind = K_INT then
        bind_res (opt_get get_i s0) (\<lambda>a. bind_res (opt_get get_i s1) (\<lambda>b. Ok (CmpBaseT (<s) a b)))
      else if kind = K_BOOL \<or> kind = K_FINGERPRINT \<or> kind = K_TIME then
        bind_res (opt_get get_i s0) (\<lambda>a. bind_res (opt_get get_i s1) (\<lambda>b. Ok (CmpBaseT (<) a b)))
      else if kind = K_FLOAT then
        bind_res (opt_get get_f s0) (\<lambda>a. bind_res (opt_get get_f s1) (\<lambda>b. Ok (CmpBaseT dbl_lt a b)))
      else if kind = K_STRING \<or> kind = K_BYTES then CmpStr s0 s1
      else Inl (Fatal ''not a base kind''))"

text \<open>\<open>vals + i\<close>, or null for an empty value.\<close>

definition opt_vals :: "nat \<Rightarrow> szl_value list \<Rightarrow> szl_value option list" where
  "opt_vals len vs = (if vs = [] then replicate len None else map Some vs)"

fun Cmp :: "szl_ops \<Rightarrow> szl_value option \<Rightarrow> szl_value option \<Rightarrow> int res"
and Cmp_flat :: "szl_flat \<Rightarrow> szl_value option \<Rightarrow> szl_value option \<Rightarrow> int res" where
  "Cmp (SzlOps t fl) s0 s1 =
     (let k = ty_kind t in
      if BaseKind k then CmpBase k s0 s1
      else if is_composite k then
        bind_res (case s0 of None \<Rightarrow> Ok [] | Some v \<Rightarrow> get_vals v) (\<lambda>v0.
        bind_res (case s1 of None \<Rightarrow> Ok [] | Some v \<Rightarrow> get_vals v) (\<lambda>v1.
        let len0 = length v0; len1 = length v1 in
        if len0 = 0 \<and> len1 = 0 then Ok 0
        else if (k = K_MAP \<or> k = K_ARRAY) \<and> len0 = 0 then Ok (- 1)
        else if (k = K_MAP \<or> k = K_ARRAY) \<and> len1 = 0 then Ok 1
        else
          let len = (if k = K_MAP \<or> k = K_ARRAY then min len0 len1 else length fl) in
          bind_res (check (k = K_TUPLE \<longrightarrow> (len0 = length fl \<or> len0 = 0) \<and> (len1 = length fl \<or> len1 = 0))) (\<lambda>_.
          bind_res (check (len > 0)) (\<lambda>_.
          bind_res (first_nz (\<lambda>(f, x, y). Cmp_flat f x y)
              (zip2_flats fl (opt_vals len v0) (opt_vals len v1) 0 len)) (\<lambda>res.
          if res \<noteq> 0 then Ok res
          else if k = K_TUPLE then Ok 0
          else Ok (CmpBaseT (<) len0 len1))))))
      else Inl (Fatal ''can't compare''))"
| "Cmp_flat (FlatOps k p) x y = Cmp p x y"
| "Cmp_flat (Flat k) x y = CmpBase k x y"

declare Cmp.simps [simp del]

definition Eq :: "szl_ops \<Rightarrow> szl_value \<Rightarrow> szl_value \<Rightarrow> bool res" where
  "Eq p s0 s1 = bind_res (Cmp p (Some s0) (Some s1)) (\<lambda>c. Ok (c = 0))"

definition Less :: "szl_ops \<Rightarrow> szl_value \<Rightarrow> szl_value \<Rightarrow> bool res" where
  "Less p s0 s1 = bind_res (Cmp p (Some s0) (Some s1)) (\<lambda>c. Ok (c < 0))"

definition SzlValueLess_Cmp :: "szl_ops \<Rightarrow> szl_value \<Rightarrow> szl_value \<Rightarrow> bool res" where
  "SzlValueLess_Cmp p v1 v2 = Less p v1 v2"

definition SzlValueGreater_Cmp :: "szl_ops \<Rightarrow> szl_value \<Rightarrow> szl_value \<Rightarrow> bool res" where
  "SzlValueGreater_Cmp p v1 v2 = Less p v2 v1"

fun LessAtPos :: "szl_ops \<Rightarrow> szl_value \<Rightarrow> nat \<Rightarrow> szl_value \<Rightarrow> bool res" where
  "LessAtPos (SzlOps t fl) s0 i s1 =
     (if ty_kind t \<noteq> K_TUPLE then
        bind_res (check (i = 0)) (\<lambda>_. Less (SzlOps t fl) s0 s1)
      else
        bind_res (check (i < length fl)) (\<lambda>_.
        let k = flat_kind (fl ! i) in
        if \<not> BaseKind k then Inl (Fatal ''can't compare at position'')
        else
          bind_res (get_vals s0) (\<lambda>v0. bind_res (get_vals s1) (\<lambda>v1.
          if v0 = [] then
            (if v1 = [] then Ok False
             else bind_res (check (length v1 = length fl)) (\<lambda>_.
               if k = K_STRING \<or> k = K_BYTES then bind_res (get_buf (v1 ! i)) (\<lambda>b. Ok (b \<noteq> []))
               else if k = K_FLOAT then bind_res (get_f (v1 ! i)) (\<lambda>x. Ok (dbl_lt 0 x))
               else if k = K_INT then bind_res (get_i (v1 ! i)) (\<lambda>x. Ok (0 <s x))
               else bind_res (get_i (v1 ! i)) (\<lambda>x. Ok (0 < x))))
          else if v1 = [] then
            bind_res (check (length v0 = length fl)) (\<lambda>_.
              if k = K_FLOAT then bind_res (get_f (v0 ! i)) (\<lambda>x. Ok (dbl_lt x 0))
              else if k = K_INT then bind_res (get_i (v0 ! i)) (\<lambda>x. Ok (x <s 0))
              else Ok False)
          else
            bind_res (check (length v0 = length fl)) (\<lambda>_.
            bind_res (check (length v1 = length fl)) (\<lambda>_.
              if k = K_STRING \<or> k = K_BYTES then
                bind_res (CmpStr (Some (v0 ! i)) (Some (v1 ! i))) (\<lambda>c. Ok (c < 0))
              else if k = K_FLOAT then
                bind_res (get_f (v0 ! i)) (\<lambda>x. bind_res (get_f (v1 ! i)) (\<lambda>y. Ok (dbl_lt x y)))
              else if k = K_INT then
                bind_res (get_i (v0 ! i)) (\<lambda>x. bind_res (get_i (v1 ! i)) (\<lambda>y. Ok (x <s y)))
              else
                bind_res (get_i (v0 ! i)) (\<lambda>x. bind_res (get_i (v1 ! i)) (\<lambda>y. Ok (x < y)))))))))"

end
