(* ===== verification/Szl_Wire.thy ===== *)
theory Szl_Wire
  imports Szl_Value
begin

text \<open>
  Encoding, decoding and skipping of values (\<open>Encode\<close>, \<open>Decode\<close>, \<open>Skip\<close> of \<open>SzlOps\<close>).  A
  decoding that returns false is \<open>Ok None\<close>; what it leaves in \<open>*val\<close> is not modelled.
  The entry count of a map is an \<open>int64\<close>; the code allocates that many values, 32 gigabytes for
  \<open>2^31\<close> of them, and then narrows the count to an \<open>int\<close>.  Here such a count is a failed allocation.
  Decoding a tuple type without fields leaves the value zero here; the code leaves a pointer to an
  empty array, at which a later \<open>CHECK\<close> for \<open>NULL\<close> would stop, so repeated decoding into the same
  value of such a type is outside the model.

  The loops over the elements of an array run until the end marker or the end of the
  input.  They carry a bound, the number of bytes left when the loop is entered; since
  each round uses at least one byte, the bound is never reached (\<open>skip_elems_enough\<close>).
\<close>

section \<open>Encoding\<close>

definition SzlOpsDoEncode :: "host_config \<Rightarrow> szl_kind \<Rightarrow> szl_value \<Rightarrow> szl_encoder \<Rightarrow> szl_encoder res" where
  "SzlOpsDoEncode hc kind s e =
     (if kind = K_BOOL then bind_res (get_i s) (\<lambda>i. Ok (PutBool (i \<noteq> 0) e))
      else if kind = K_FINGERPRINT then bind_res (get_i s) (\<lambda>i. Ok (PutFingerprint i e))
      else if kind = K_INT then bind_res (get_i s) (\<lambda>i. Ok (PutInt i e))
      else if kind = K_TIME then bind_res (get_i s) (\<lambda>i. Ok (PutTime i e))
      else if kind = K_FLOAT then bind_res (get_f s) (\<lambda>f. PutFloat hc f e)
      else if kind = K_STRING then
        bind_res (get_buf s) (\<lambda>b.
          if b = [] then Ok (PutString [] e) else Ok (PutString (take (length b - 1) b) e))
      else if kind = K_BYTES then bind_res (get_buf s) (\<lambda>b. Ok (PutBytes b e))
      else Inl (Fatal ''can't encode''))"

definition EncodeDefaultBase :: "host_config \<Rightarrow> szl_kind \<Rightarrow> szl_encoder \<Rightarrow> szl_encoder res" where
  "EncodeDefaultBase hc kind e =
     (if kind = K_BOOL then Ok (PutBool False e)
      else if kind = K_FINGERPRINT then Ok (PutFingerprint 0 e)
      else if kind = K_INT then Ok (PutInt 0 e)
      else if kind = K_TIME then Ok (PutTime 0 e)
      else if kind = K_FLOAT then PutFloat hc 0 e
      else if kind = K_STRING then Ok (PutString [] e)
      else if kind = K_BYTES then Ok (PutBytes [] e)
      else Inl (Fatal ''can't encode''))"

fun EncodeDefault :: "host_config \<Rightarrow> szl_ops \<Rightarrow> szl_encoder \<Rightarrow> szl_encoder res"
and EncodeDefault_flat :: "host_config \<Rightarrow> szl_flat \<Rightarrow> szl_encoder \<Rightarrow> szl_encoder res" where
  "EncodeDefault hc (SzlOps t fl) e =
     (if ty_kind t = K_TUPLE then fold_res (\<lambda>f e. EncodeDefault_flat hc f e) fl e
      else if ty_kind t \<noteq> K_MAP then EncodeDefaultBase hc (ty_kind t) e
      else Ok e)"
| "EncodeDefault_flat hc (FlatOps k p) e = EncodeDefault hc p e"
| "EncodeDefault_flat hc (Flat k) e = EncodeDefaultBase hc k e"

fun EncodeInternal :: "host_config \<Rightarrow> szl_ops \<Rightarrow> szl_value \<Rightarrow> bool \<Rightarrow> szl_encoder \<Rightarrow> szl_encoder res"
and Encode_flat :: "host_config \<Rightarrow> szl_flat \<Rightarrow> szl_value \<Rightarrow> szl_encoder \<Rightarrow> szl_encoder res" where
  "EncodeInternal hc (SzlOps t fl) s top_level e =
     (let k = ty_kind t in
      if k = K_TUPLE then
        bind_res (if \<not> top_level then Start k e else Ok e) (\<lambda>e.
        bind_res (get_vals s) (\<lambda>vs.
        bind_res (if vs \<noteq> [] then
            bind_res (check (length vs = length fl)) (\<lambda>_.
            fold_res (\<lambda>(f, v) e. Encode_flat hc f v e) (zip_flats fl vs) e)
          else EncodeDefault hc (SzlOps t fl) e) (\<lambda>e.
        if \<not> top_level then End k e else Ok e)))
      else if k = K_MAP \<or> k = K_ARRAY then
        bind_res (Start k e) (\<lambda>e.
        bind_res (get_vals s) (\<lambda>vs.
        let e = (if k = K_MAP then PutInt (of_nat (length vs)) e else e) in
        bind_res (fold_res (\<lambda>(f, v) e. Encode_flat hc f v e) (zip_flats fl vs) e) (\<lambda>e.
        End k e)))
      else SzlOpsDoEncode hc k s e)"
| "Encode_flat hc (FlatOps k p) v e = EncodeInternal hc p v False e"
| "Encode_flat hc (Flat k) v e = SzlOpsDoEncode hc k v e"

declare EncodeInternal.simps [simp del]

definition Encode :: "host_config \<Rightarrow> szl_ops \<Rightarrow> szl_value \<Rightarrow> szl_encoder \<Rightarrow> szl_encoder res" where
  "Encode hc p s e = EncodeInternal hc p s True e"

definition AppendToString :: "host_config \<Rightarrow> szl_ops \<Rightarrow> szl_value \<Rightarrow> bytes res" where
  "AppendToString hc p v = bind_res (Encode hc p v new_encoder) (\<lambda>e. Ok (fst (enc_Swap e)))"


section \<open>Skipping\<close>

text \<open>Skipping along a list of entries.\<close>

fun skip_seq :: "('a \<Rightarrow> szl_decoder \<Rightarrow> szl_decoder option) \<Rightarrow> 'a list \<Rightarrow> szl_decoder \<Rightarrow> szl_decoder option" where
  "skip_seq f [] d = Some d"
| "skip_seq f (x # xs) d = (case f x d of None \<Rightarrow> None | Some d' \<Rightarrow> skip_seq f xs d')"

text \<open>\<open>n\<close> entries, cycling through the flats from index \<open>i\<close>.\<close>

fun skip_cycle :: "('a \<Rightarrow> szl_decoder \<Rightarrow> szl_decoder option) \<Rightarrow> 'a list \<Rightarrow> nat \<Rightarrow> nat
    \<Rightarrow> szl_decoder \<Rightarrow> szl_decoder option" where
  "skip_cycle f fl i 0 d = Some d"
| "skip_cycle f fl i (Suc n) d =
     (if fl = [] then None
      else case f (fl ! (i mod length fl)) d of None \<Rightarrow> None
           | Some d' \<Rightarrow> skip_cycle f fl (i + 1) n d')"

text \<open>Elements up to the end marker or the end of the input; the number of them.\<close>

fun skip_elems :: "(szl_decoder \<Rightarrow> szl_decoder option) \<Rightarrow> nat \<Rightarrow> szl_decoder \<Rightarrow> (nat \<times> szl_decoder) option" where
  "skip_elems f n d =
     (if dec_done d \<or> IsEnd K_ARRAY d then Some (0, d)
      else case n of 0 \<Rightarrow> None
      | Suc n' \<Rightarrow> (case f d of None \<Rightarrow> None
          | Some d' \<Rightarrow> (case skip_elems f n' d' of None \<Rightarrow> None
              | Some (c, d'') \<Rightarrow> Some (Suc c, d''))))"

declare skip_elems.simps [simp del]

lemma skip_seq_cong [fundef_cong]:
  "xs = ys \<Longrightarrow> d = d' \<Longrightarrow> (\<And>x d. x \<in> set ys \<Longrightarrow> f x d = g x d) \<Longrightarrow> skip_seq f xs d = skip_seq g ys d'"
  by (induction ys arbitrary: xs d d') (auto split: option.splits)

lemma skip_cycle_cong [fundef_cong]:
  "fl = fl' \<Longrightarrow> i = i' \<Longrightarrow> n = n' \<Longrightarrow> d = d' \<Longrightarrow> (\<And>x d. x \<in> set fl' \<Longrightarrow> f x d = g x d) \<Longrightarrow>
    skip_cycle f fl i n d = skip_cycle g fl' i' n' d'"
proof (induction n' arbitrary: n i i' d d')
  case (Suc m)
  then show ?case
    by (cases "fl' = []") (auto split: option.splits)
qed simp

fun SkipInternal :: "szl_ops \<Rightarrow> bool \<Rightarrow> szl_decoder \<Rightarrow> szl_decoder option"
and Skip_flat :: "szl_flat \<Rightarrow> szl_decoder \<Rightarrow> szl_decoder option" where
  "SkipInternal (SzlOps t fl) top_level d =
     (let k = ty_kind t in
      if BaseKind k then Skip k d
      else if k = K_TUPLE then
        (case (if \<not> top_level then GetStart k d else Some d) of None \<Rightarrow> None
         | Some d \<Rightarrow> (case skip_seq (\<lambda>f d. Skip_flat f d) fl d of None \<Rightarrow> None
           | Some d \<Rightarrow> if \<not> top_level then GetEnd k d else Some d))
      else if k = K_MAP then
        (case GetStart k d of None \<Rightarrow> None
         | Some d \<Rightarrow> (case GetInt d of None \<Rightarrow> None
           | Some (len, d) \<Rightarrow>
             (case skip_cycle (\<lambda>f d. Skip_flat f d) fl 0 (nat (sint len)) d of None \<Rightarrow> None
              | Some d \<Rightarrow> GetEnd k d)))
      else if k = K_ARRAY then
        (case GetStart k d of None \<Rightarrow> None
         | Some d \<Rightarrow>
           (case fl of
              [] \<Rightarrow> None
            | f # _ \<Rightarrow> (case skip_elems (\<lambda>d. Skip_flat f d) (dec_size d) d of None \<Rightarrow> None
                | Some (_, d) \<Rightarrow> GetEnd k d)))
      else None)"
| "Skip_flat (FlatOps k p) d = SkipInternal p False d"
| "Skip_flat (Flat k) d = Skip k d"

declare SkipInternal.simps [simp del]

definition ops_Skip :: "szl_ops \<Rightarrow> szl_decoder \<Rightarrow> szl_decoder option" where
  "ops_Skip p d = SkipInternal p True d"


section \<open>Decoding\<close>

definition opt_value :: "('a \<Rightarrow> szl_value res) \<Rightarrow> ('a \<times> szl_decoder) option
    \<Rightarrow> (szl_value \<times> szl_decoder) option res" where
  "opt_value mk r =
     (case r of None \<Rightarrow> Ok None | Some (x, d) \<Rightarrow> bind_res (mk x) (\<lambda>v. Ok (Some (v, d))))"

definition SzlOpsDoDecode :: "host_config \<Rightarrow> szl_kind \<Rightarrow> szl_decoder \<Rightarrow> szl_value
    \<Rightarrow> (szl_value \<times> szl_decoder) option res" where
  "SzlOpsDoDecode hc kind d val =
     (if kind = K_BOOL then opt_value (\<lambda>b. Ok (VInt (of_bool b))) (GetBool d)
      else if kind = K_FINGERPRINT then opt_value (\<lambda>v. Ok (VInt v)) (GetFingerprint d)
      else if kind = K_INT then opt_value (\<lambda>v. Ok (VInt v)) (GetInt d)
      else if kind = K_TIME then opt_value (\<lambda>v. Ok (VInt v)) (GetTime d)
      else if kind = K_FLOAT then opt_value (\<lambda>v. Ok (VFloat v)) (GetFloat hc d)
      else if kind = K_STRING then
        opt_value (\<lambda>str. if length str = 0 then bind_res (get_buf val) (\<lambda>_. Ok VZero)
                         else ReplaceSzlValueBuf (str @ [0]) val) (GetString d)
      else if kind = K_BYTES then opt_value (\<lambda>str. ReplaceSzlValueBuf str val) (GetBytes d)
      else Ok None)"

fun decode_seq :: "('a \<Rightarrow> 'b \<Rightarrow> szl_decoder \<Rightarrow> ('b \<times> szl_decoder) option res) \<Rightarrow> ('a \<times> 'b) list
    \<Rightarrow> szl_decoder \<Rightarrow> ('b list \<times> szl_decoder) option res" where
  "decode_seq f [] d = Ok (Some ([], d))"
| "decode_seq f ((x, v) # xs) d =
     bind_res (f x v d) (\<lambda>r. case r of None \<Rightarrow> Ok None
       | Some (v', d') \<Rightarrow> bind_res (decode_seq f xs d') (\<lambda>r. case r of None \<Rightarrow> Ok None
           | Some (vs, d'') \<Rightarrow> Ok (Some (v' # vs, d''))))"

lemma decode_seq_cong [fundef_cong]:
  "xs = ys \<Longrightarrow> d = d' \<Longrightarrow> (\<And>x v d. (x, v) \<in> set ys \<Longrightarrow> f x v d = g x v d) \<Longrightarrow>
    decode_seq f xs d = decode_seq g ys d'"
proof (induction ys arbitrary: xs d d')
  case (Cons y ys)
  then have "decode_seq f ys = decode_seq g ys" by auto
  then show ?case using Cons.prems by (cases y) simp
qed simp

text \<open>\<open>val->s.len\<close> brought to \<open>len\<close>, with fresh elements where it changes.\<close>

definition resize_vals :: "szl_ops \<Rightarrow> nat \<Rightarrow> szl_value \<Rightarrow> szl_value list res" where
  "resize_vals p len val =
     bind_res (get_vals val) (\<lambda>vs.
       if len \<noteq> length vs then bind_res (Clear p val) (\<lambda>_. Ok (replicate len VZero))
       else Ok vs)"

fun DecodeInternal :: "host_config \<Rightarrow> szl_ops \<Rightarrow> bool \<Rightarrow> szl_value \<Rightarrow> szl_decoder
    \<Rightarrow> (szl_value \<times> szl_decoder) option res"
and Decode_flat :: "host_config \<Rightarrow> szl_flat \<Rightarrow> szl_value \<Rightarrow> szl_decoder
    \<Rightarrow> (szl_value \<times> szl_decoder) option res" where
  "DecodeInternal hc (SzlOps t fl) top_level val d =
     (let k = ty_kind t in
      if k = K_TUPLE then
        (case (if \<not> top_level then GetStart k d else Some d) of None \<Rightarrow> Ok None
         | Some d \<Rightarrow>
           bind_res (get_vals val) (\<lambda>vs.
           let vs = (if vs = [] then replicate (length fl) VZero else vs) in
           bind_res (check (length vs = length fl)) (\<lambda>_.
           bind_res (decode_seq (\<lambda>f v d. Decode_flat hc f v d) (zip_flats fl vs) d) (\<lambda>r.
           case r of None \<Rightarrow> Ok None
           | Some (vs', d) \<Rightarrow>
             (case (if \<not> top_level then GetEnd k d else Some d) of None \<Rightarrow> Ok None
              | Some d \<Rightarrow> Ok (Some (mk_vals vs', d)))))))
      else if k = K_MAP \<or> k = K_ARRAY then
        (case GetStart k d of None \<Rightarrow> Ok None
         | Some d \<Rightarrow>
           bind_res
             (if k = K_MAP then
                (case GetInt d of None \<Rightarrow> Ok None
                 | Some (len, d) \<Rightarrow>
                   if sint len \<ge> 2 ^ 31 then Inl (Fatal ''allocation failed'')
                   else Ok (Some (nat (sint len), d)))
              else
                bind_res (check (length fl = 1)) (\<lambda>_.
                  case skip_elems (\<lambda>d2. Skip_flat (hd fl) d2) (dec_size d) (new_decoder (cur d)) of
                    None \<Rightarrow> Ok None
                  | Some (len, _) \<Rightarrow> Ok (Some (len, d)))) (\<lambda>r.
           case r of None \<Rightarrow> Ok None
           | Some (len, d) \<Rightarrow>
             bind_res (resize_vals (SzlOps t fl) len val) (\<lambda>vs.
             bind_res (decode_seq (\<lambda>f v d. Decode_flat hc f v d) (zip_flats fl vs) d) (\<lambda>r.
             case r of None \<Rightarrow> Ok None
             | Some (vs', d) \<Rightarrow>
               (case GetEnd k d of None \<Rightarrow> Ok None
                | Some d \<Rightarrow> Ok (Some (mk_vals vs', d)))))))
      else SzlOpsDoDecode hc k d val)"
| "Decode_flat hc (FlatOps k p) v d = DecodeInternal hc p False v d"
| "Decode_flat hc (Flat k) v d = SzlOpsDoDecode hc k d v"

declare DecodeInternal.simps [simp del]

definition Decode :: "host_config \<Rightarrow> szl_ops \<Rightarrow> szl_value \<Rightarrow> szl_decoder
    \<Rightarrow> (szl_value \<times> szl_decoder) option res" where
  "Decode hc p val d = DecodeInternal hc p True val d"

definition ParseFromArray :: "host_config \<Rightarrow> szl_ops \<Rightarrow> bytes \<Rightarrow> szl_value \<Rightarrow> szl_value option res" where
  "ParseFromArray hc p b val =
     bind_res (Decode hc p val (new_decoder b)) (\<lambda>r. Ok (map_option fst r))"

end
