(* ===== verification/Szl_Wire_Props.thy ===== *)
theory Szl_Wire_Props
  imports Szl_Wire
begin

text \<open>
  Encoding, decoding and skipping agree.  \<open>wf_ops\<close> is the shape of the objects that
  \<open>SzlOps::Init\<close> builds, and \<open>canon\<close> the values that belong to one, in the form the
  decoder builds them: a tuple has all its fields, an empty map, array, string or bytes is
  the zero value, a string ends with its zero byte.
\<close>

section \<open>Well-formed operations\<close>

fun wf_ops :: "szl_ops \<Rightarrow> bool"
and wf_flat :: "szl_flat \<Rightarrow> bool" where
  "wf_ops (SzlOps t fl) =
     (let k = ty_kind t in
      if BaseKind k then fl = [Flat k]
      else if k = K_TUPLE then (\<forall>f \<in> set fl. wf_flat f)
      else if k = K_MAP then length fl = 2 \<and> indices_size t = 1 \<and> (\<forall>f \<in> set fl. wf_flat f)
      else if k = K_ARRAY then length fl = 1 \<and> (\<forall>f \<in> set fl. wf_flat f)
      else False)"
| "wf_flat (Flat k) = BaseKind k"
| "wf_flat (FlatOps k p) = (k = ty_kind (ops_type p) \<and> is_composite k \<and> wf_ops p)"

declare wf_ops.simps [simp del]

lemma kind_distinct: "BaseKind k \<Longrightarrow> k \<noteq> K_TUPLE \<and> k \<noteq> K_MAP \<and> k \<noteq> K_ARRAY \<and> k \<noteq> K_TABLE"
  by auto

lemma wf_ops_kinds:
  "wf_ops p \<Longrightarrow> BaseKind (ty_kind (ops_type p)) \<or> is_composite (ty_kind (ops_type p))"
  by (cases p) (auto simp: wf_ops.simps is_composite_def Let_def split: if_splits)


section \<open>Every valid type has its operations\<close>

definition flats_ok :: "szl_flat list \<Rightarrow> bool" where
  "flats_ok fl \<longleftrightarrow> (\<forall>f \<in> set fl. wf_flat f)"

definition good_field :: "registry \<Rightarrow> szl_type \<Rightarrow> bool" where
  "good_field reg t \<longleftrightarrow> fresh t \<and> Valid reg t = None \<and> ty_kind t \<noteq> K_TABLE"

lemma good_field_kinds:
  assumes "good_field reg t"
  shows "BaseType reg t \<longleftrightarrow> BaseKind (ty_kind t)"
    and "BaseKind (ty_kind t) \<or> is_composite (ty_kind t)"
proof -
  have v: "Valid reg t = None" "\<not> ty_valid t" "ty_kind t \<noteq> K_TABLE"
    using assms by (auto simp: good_field_def fresh_def)
  then show "BaseType reg t \<longleftrightarrow> BaseKind (ty_kind t)" by (simp add: BaseType_def)
  show "BaseKind (ty_kind t) \<or> is_composite (ty_kind t)"
    using Valid_uncached_kind [OF v(1,2)] v(3) by (cases "ty_kind t") (auto simp: is_composite_def)
qed

lemma good_field_children:
  assumes "good_field reg t" and "s \<in> set (children t)"
  shows "good_field reg s"
proof -
  have v: "Valid reg t = None" "\<not> ty_valid t" "fresh t"
    using assms(1) by (auto simp: good_field_def fresh_def)
  show ?thesis
    using Valid_child [OF v(1,2) assms(2)] fresh_child [OF v(3) assms(2)]
    by (simp add: good_field_def)
qed

lemma good_map:
  assumes "good_field reg (SzlType K_MAP tb pm v fs ixs el wt)"
  obtains kl kt l et where "ixs = [SzlField kl kt]" "el = Some (SzlField l et)"
    "good_field reg kt" "good_field reg et"
proof -
  let ?t = "SzlType K_MAP tb pm v fs ixs el wt"
  have "v = False" "Valid reg ?t = None" using assms by (auto simp: good_field_def fresh_def)
  then obtain ix f where "ixs = [ix]" "el = Some f"
    by (auto simp: Valid_None_map length_Suc_conv)
  moreover have "good_field reg (fd_type ix)" "good_field reg (fd_type f)"
    using assms calculation by (auto intro!: good_field_children [OF assms] simp: children_def)
  ultimately show ?thesis by (cases ix; cases f) (auto intro: that)
qed

lemma good_array:
  assumes "good_field reg (SzlType K_ARRAY tb pm v fs ixs el wt)"
  obtains l et where "el = Some (SzlField l et)" "good_field reg et"
proof -
  let ?t = "SzlType K_ARRAY tb pm v fs ixs el wt"
  have "v = False" "Valid reg ?t = None" using assms by (auto simp: good_field_def fresh_def)
  then obtain f where "el = Some f" by (auto simp: Valid_None_array)
  moreover have "good_field reg (fd_type f)"
    using assms calculation by (auto intro!: good_field_children [OF assms] simp: children_def)
  ultimately show ?thesis by (cases f) (auto intro: that)
qed

lemma good_tuple:
  assumes "good_field reg (SzlType K_TUPLE tb pm v fs ixs el wt)" and "f \<in> set fs"
  shows "good_field reg (fd_type f)"
  by (rule good_field_children [OF assms(1)]) (use assms(2) in \<open>simp add: children_def\<close>)

text \<open>The counting pass succeeds, and the building pass then yields as many flat values,
  well formed, provided the array of nested operations is there when it is needed.\<close>

lemma SzlFlattenedVals_total:
  shows "good_field reg t \<Longrightarrow> \<exists>r. SzlFlattenedVals reg depth t = Ok r"
    and "(\<forall>f \<in> set fs. good_field reg (fd_type f)) \<Longrightarrow> \<exists>r. SzlFlattenedVals_fields reg depth fs = Ok r"
proof (induction reg depth t and reg depth fs
    rule: SzlFlattenedVals_SzlFlattenedVals_fields.induct)
  case (1 reg depth k tb pm v fs ixs el wt)
  note g = good_field_kinds [OF 1(2)]
  consider "BaseKind k" | "k = K_MAP" | "k = K_ARRAY" | "k = K_TUPLE"
    using g(2) by (auto simp: is_composite_def)
  then show ?case
  proof cases
    case 4
    then show ?thesis using 1 g(1) good_tuple [of reg tb pm v fs ixs el wt] by simp
  qed (use 1 g(1) in \<open>auto elim: good_map good_array\<close>)
qed (auto simp: bind_res_def split: sum.splits)

lemma wf_flat_of:
  assumes "good_field reg t"
    and "\<not> BaseType reg t \<Longrightarrow> \<exists>fl. new_ops reg t = Ok (SzlOps t fl) \<and> wf_ops (SzlOps t fl)"
  shows "\<exists>x. (if BaseType reg t then Ok None
      else bind_res (new_ops reg t) (\<lambda>p. Ok (Some p))) = Ok x \<and> wf_flat (flat_of (ty_kind t) x)"
  using assms good_field_kinds [OF assms(1)]
  by (cases "BaseType reg t") (auto simp: flat_of_def)

lemma new_ops_total:
  shows "good_field reg t \<Longrightarrow> \<exists>fl. new_ops reg t = Ok (SzlOps t fl) \<and> wf_ops (SzlOps t fl)"
    and "good_field reg t \<Longrightarrow> SzlFlattenedVals reg depth t = Ok (n, c) \<Longrightarrow> (c \<longrightarrow> b) \<Longrightarrow>
      depth > 0 \<or> ty_kind t \<noteq> K_MAP \<and> ty_kind t \<noteq> K_ARRAY \<Longrightarrow>
      \<exists>fl. SzlFlattenKinds reg b t = Ok fl \<and> length fl = n \<and> flats_ok fl
        \<and> (BaseKind (ty_kind t) \<longrightarrow> fl = [Flat (ty_kind t)])"
    and "(\<forall>f \<in> set fs. good_field reg (fd_type f)) \<Longrightarrow>
      SzlFlattenedVals_fields reg depth fs = Ok (n, c) \<Longrightarrow> (c \<longrightarrow> b) \<Longrightarrow> depth > 0 \<Longrightarrow>
      \<exists>fl. SzlFlattenKinds_fields reg b fs = Ok fl \<and> length fl = n \<and> flats_ok fl"
proof (induction reg t and reg b t and reg b fs arbitrary: and depth n c and depth n c
    rule: new_ops_SzlFlattenKinds_SzlFlattenKinds_fields.induct)
  case (1 reg k tb pm v fs ixs el wt)
  let ?t = "SzlType k tb pm v fs ixs el wt"
  consider "k = K_MAP" | "k = K_ARRAY" | "k \<noteq> K_MAP \<and> k \<noteq> K_ARRAY" by blast
  then show ?case
  proof cases
    case k: 1
    obtain kl kt l et where e: "ixs = [SzlField kl kt]" "el = Some (SzlField l et)"
      and g: "good_field reg kt" "good_field reg et" using 1 k good_map by metis
    have "\<exists>x. (if BaseType reg kt then Ok None
      else bind_res (new_ops reg kt) (\<lambda>p. Ok (Some p))) = Ok x \<and> wf_flat (flat_of (ty_kind kt) x)"
      using g(1) by (rule wf_flat_of) (use 1(1) g(1) k e in auto)
    moreover have "\<exists>x. (if BaseType reg et then Ok None
      else bind_res (new_ops reg et) (\<lambda>p. Ok (Some p))) = Ok x \<and> wf_flat (flat_of (ty_kind et) x)"
      using g(2) by (rule wf_flat_of) (use 1(2) g(2) k e in auto)
    ultimately show ?thesis
      using k e by (auto simp: new_ops.simps wf_ops.simps indices_size_def)
  next
    case k: 2
    obtain l et where e: "el = Some (SzlField l et)" and g: "good_field reg et"
      using 1 k good_array by metis
    have "\<exists>x. (if BaseType reg et then Ok None
      else bind_res (new_ops reg et) (\<lambda>p. Ok (Some p))) = Ok x \<and> wf_flat (flat_of (ty_kind et) x)"
      using g by (rule wf_flat_of) (use 1(3) g k e in auto)
    then show ?thesis using k e by (auto simp: new_ops.simps wf_ops.simps)
  next
    case k: 3
    obtain n c where nc: "SzlFlattenedVals reg 0 ?t = Ok (n, c)"
      using SzlFlattenedVals_total(1) [OF 1(5)] by fastforce
    obtain fl where "SzlFlattenKinds reg c ?t = Ok fl" "length fl = n" "flats_ok fl"
        "BaseKind k \<longrightarrow> fl = [Flat k]"
      using 1(4) [OF refl _ _ 1(5) nc] k by auto
    then show ?thesis
      using k nc good_field_kinds(2) [OF 1(5)]
      by (auto simp: new_ops.simps wf_ops.simps flats_ok_def is_composite_def Let_def)
  qed
next
  case (2 reg b k tb pm v fs ixs el wt)
  let ?t = "SzlType k tb pm v fs ixs el wt"
  note g = good_field_kinds [OF 2(3)]
  consider "BaseKind k" | "k = K_MAP \<or> k = K_ARRAY" | "k = K_TUPLE"
    using g(2) by (auto simp: is_composite_def)
  then show ?case
  proof cases
    case 1
    then show ?thesis using 2 g(1) by (auto simp: flats_ok_def)
  next
    case k: 2
    then have nb: "\<not> BaseType reg ?t" using g(1) by auto
    have b: "b" "n = 1"
      using 2(4-6) k nb by (auto split: list.splits option.splits)
    obtain fl where "new_ops reg ?t = Ok (SzlOps ?t fl)" "wf_ops (SzlOps ?t fl)"
      using 2(1) [OF refl nb k 2(3)] by blast
    then show ?thesis
      using nb k b by (auto simp: flats_ok_def is_composite_def)
  next
    case k: 3
    then have nb: "\<not> BaseType reg ?t" using g(1) by auto
    have fc: "SzlFlattenedVals_fields reg (depth + 1) fs = Ok (n, c)" using 2(4) k nb by simp
    have gt: "\<forall>f \<in> set fs. good_field reg (fd_type f)" using good_tuple 2(3) k by blast
    have "\<exists>fl. SzlFlattenKinds_fields reg b fs = Ok fl \<and> length fl = n \<and> flats_ok fl"
      using 2(2) [OF refl nb _ k gt fc] 2(5) k by simp
    then show ?thesis using nb k by auto
  qed
next
  case (3 reg b)
  then show ?case by (simp add: flats_ok_def)
next
  case (4 reg b l t fs)
  obtain n1 c1 n2 c2 where e: "SzlFlattenedVals reg depth t = Ok (n1, c1)"
    "SzlFlattenedVals_fields reg depth fs = Ok (n2, c2)" "n = n1 + n2" "c = (c1 \<or> c2)"
    using 4(4) by (auto simp: bind_res_eq_Ok)
  obtain a where "SzlFlattenKinds reg b t = Ok a" "length a = n1" "flats_ok a"
    using 4(1) [OF _ e(1)] 4(3,5,6) e(4) by auto
  moreover obtain r where "SzlFlattenKinds_fields reg b fs = Ok r" "length r = n2" "flats_ok r"
    using 4(2) [OF _ e(2)] 4(3,5,6) e(4) by auto
  ultimately show ?case using e(3) by (simp add: flats_ok_def ball_Un)
qed


section \<open>Values in the decoder's form\<close>

definition canon_base :: "szl_kind \<Rightarrow> szl_value \<Rightarrow> bool" where
  "canon_base k v =
     (if k = K_BOOL then v = VInt 0 \<or> v = VInt 1
      else if k = K_FLOAT then (case v of VFloat f \<Rightarrow> f \<noteq> 2 ^ 63 | _ \<Rightarrow> False)
      else if k = K_STRING then
        (case v of VZero \<Rightarrow> True
         | VBuf b \<Rightarrow> b \<noteq> [] \<and> butlast b \<noteq> [] \<and> last b = 0 \<and> c_string (butlast b) | _ \<Rightarrow> False)
      else if k = K_BYTES then (case v of VZero \<Rightarrow> True | VBuf b \<Rightarrow> b \<noteq> [] | _ \<Rightarrow> False)
      else (case v of VInt _ \<Rightarrow> True | _ \<Rightarrow> False))"

fun canon :: "szl_ops \<Rightarrow> szl_value \<Rightarrow> bool"
and canon_flat :: "szl_flat \<Rightarrow> szl_value \<Rightarrow> bool" where
  "canon (SzlOps t fl) v =
     (let k = ty_kind t in
      if BaseKind k then canon_base k v
      else case v of
        VZero \<Rightarrow> k = K_TUPLE \<longrightarrow> fl = []
      | VVals vs \<Rightarrow> vs \<noteq> []
          \<and> (k = K_TUPLE \<longrightarrow> length vs = length fl)
          \<and> (k = K_MAP \<longrightarrow> even (length vs) \<and> length vs < 2 ^ 31)
          \<and> (\<forall>(f, x) \<in> set (zip_flats fl vs). canon_flat f x)
      | _ \<Rightarrow> False)"
| "canon_flat (FlatOps k p) v = canon p v"
| "canon_flat (Flat k) v = canon_base k v"

declare canon.simps [simp del]

text \<open>\<open>bs\<close> is what is written for \<open>v\<close>, and reading or skipping it in front of anything works.\<close>

definition wired :: "(szl_encoder \<Rightarrow> szl_encoder res) \<Rightarrow> (szl_decoder \<Rightarrow> szl_decoder option)
    \<Rightarrow> (szl_decoder \<Rightarrow> ('a \<times> szl_decoder) option res) \<Rightarrow> 'a \<Rightarrow> bytes \<Rightarrow> bool" where
  "wired enc skip dec v bs \<longleftrightarrow>
     (\<forall>e. enc e = Ok (AppendEncoding bs e)) \<and>
     (\<forall>d r. cur d = bs @ r \<longrightarrow>
        skip d = Some (adv (length bs) d) \<and> dec d = Ok (Some (v, adv (length bs) d)))"

text \<open>Not empty and not an end-of-array marker, so the loops over an array go on.\<close>

definition starts_value :: "bytes \<Rightarrow> bool" where
  "starts_value bs \<longleftrightarrow> (\<exists>b r. bs = b # r \<and> unat b \<noteq> ARRAY_END)"

lemma starts_valueI: "k \<noteq> ARRAY_END \<Longrightarrow> k < 256 \<Longrightarrow> starts_value (of_nat k # r)"
  by (simp add: starts_value_def unat_of_nat_byte)

lemma p8_starts_value:
  assumes "tag \<in> {FINGERPRINT1, INTP1, TIME1}"
  shows "starts_value (p8_enc tag v)"
proof -
  have "tag \<le> 35" using assms by (auto simp: tag_defs)
  then show ?thesis
    unfolding p8_enc_def using nbytes_bounds(2) [of v] by (intro starts_valueI) (simp_all add: tag_defs)
qed

lemma n8_starts_value: "starts_value (n8_enc v)"
  unfolding n8_enc_nmag by (intro starts_valueI) (simp_all add: tag_defs)

lemma scalar_starts_value:
  "starts_value (int_enc i)" "starts_value (p8_enc FINGERPRINT1 x)" "starts_value (p8_enc TIME1 x)"
  "starts_value (bool_enc b)" "starts_value (bytes_enc bs)" "starts_value (string_enc bs)"
  "starts_value (float_enc hc f)"
  by (simp_all add: int_enc_def p8_starts_value n8_starts_value bool_enc_def bytes_enc_def
      string_enc_def float_enc_def starts_valueI tag_defs del: of_nat_numeral of_nat_add)

context codec
begin

lemma wired_value:
  "okv x \<Longrightarrow> mk x = Ok v \<Longrightarrow>
    wired (\<lambda>e. Ok (AppendEncoding (enc x) e)) (Skip kind) (\<lambda>d. opt_value mk (get d)) v (enc x)"
  by (auto simp: wired_def opt_value_def get_enc skip_enc)

end

lemma canon_base_forms:
  assumes "canon_base k v" "BaseKind k"
  shows "k = K_BOOL \<Longrightarrow> \<exists>b. v = VInt (of_bool b)"
    and "k \<in> {K_INT, K_TIME, K_FINGERPRINT} \<Longrightarrow> \<exists>i. v = VInt i"
    and "k = K_FLOAT \<Longrightarrow> \<exists>f. v = VFloat f \<and> not_neg_zero f"
    and "k = K_BYTES \<Longrightarrow> \<exists>b. v = mk_buf b"
    and "k = K_STRING \<Longrightarrow> \<exists>s. c_string s \<and> v = (if s = [] then VZero else VBuf (s @ [0]))"
proof -
  show "k = K_BOOL \<Longrightarrow> \<exists>b. v = VInt (of_bool b)"
    using assms by (auto simp: canon_base_def intro: exI [of _ True] exI [of _ False])
  show "k \<in> {K_INT, K_TIME, K_FINGERPRINT} \<Longrightarrow> \<exists>i. v = VInt i"
    "k = K_FLOAT \<Longrightarrow> \<exists>f. v = VFloat f \<and> not_neg_zero f"
    using assms by (auto simp: canon_base_def not_neg_zero_def split: szl_value.splits)
  show "k = K_BYTES \<Longrightarrow> \<exists>b. v = mk_buf b"
    using assms by (intro exI [of _ "case v of VBuf b \<Rightarrow> b | _ \<Rightarrow> []"])
      (auto simp: canon_base_def mk_buf_def split: szl_value.splits)
  show "k = K_STRING \<Longrightarrow> \<exists>s. c_string s \<and> v = (if s = [] then VZero else VBuf (s @ [0]))"
    using assms by (intro exI [of _ "case v of VBuf b \<Rightarrow> butlast b | _ \<Rightarrow> []"])
      (auto simp: canon_base_def c_string_def split: szl_value.splits, metis append_butlast_last_id)
qed

lemma base_wired:
  assumes "BaseKind k" "canon_base k v"
  shows "\<exists>bs. starts_value bs \<and>
    wired (SzlOpsDoEncode hc k v) (Skip k) (\<lambda>d. SzlOpsDoDecode hc k d VZero) v bs"
proof -
  note defs = SzlOpsDoEncode_def [abs_def] SzlOpsDoDecode_def Put_eqs ReplaceSzlValueBuf_def mk_buf_def
  note forms = canon_base_forms [OF assms(2,1)]
  let ?W = "wired (SzlOpsDoEncode hc k v) (Skip k) (\<lambda>d. SzlOpsDoDecode hc k d VZero) v"
  consider "k = K_BOOL" | "k = K_BYTES" | "k = K_FINGERPRINT" | "k = K_FLOAT" | "k = K_INT"
    | "k = K_STRING" | "k = K_TIME" using assms(1) by auto
  then have "\<exists>bs. ?W bs \<and> starts_value bs"
  proof cases
    case 1
    then obtain b where v: "v = VInt (of_bool b)" using forms(1) by blast
    have "?W (bool_enc b)"
      using bool_c.wired_value [where x = b and v = v and mk = "\<lambda>b. Ok (VInt (of_bool b))"] 1 v by (simp add: defs)
    then show ?thesis using scalar_starts_value by blast
  next
    case 2
    then obtain b where v: "v = mk_buf b" using forms(4) by blast
    have "?W (bytes_enc b)"
      using bytes_c.wired_value [where x = b and v = v and mk = "\<lambda>b. Ok (mk_buf b)"] 2 v by (auto simp: defs)
    then show ?thesis using scalar_starts_value by blast
  next
    case 3
    then obtain i where v: "v = VInt i" using forms(2) by blast
    have "?W (p8_enc FINGERPRINT1 i)"
      using fingerprint_c.wired_value [where x = i and v = v and mk = "\<lambda>i. Ok (VInt i)"] 3 v by (simp add: defs)
    then show ?thesis using scalar_starts_value by blast
  next
    case 4
    then obtain f where v: "v = VFloat f" "not_neg_zero f" using forms(3) by blast
    have "?W (float_enc hc f)"
      using float_c.wired_value [where x = f and v = v and mk = "\<lambda>f. Ok (VFloat f)"] 4 v by (simp add: defs)
    then show ?thesis using scalar_starts_value by blast
  next
    case 5
    then obtain i where v: "v = VInt i" using forms(2) by blast
    have "?W (int_enc i)"
      using int_c.wired_value [where x = i and v = v and mk = "\<lambda>i. Ok (VInt i)"] 5 v by (simp add: defs)
    then show ?thesis using scalar_starts_value by blast
  next
    case 6
    then obtain s where v: "c_string s" "v = (if s = [] then VZero else VBuf (s @ [0]))"
      using forms(5) by blast
    have "?W (string_enc s)"
      using string_c.wired_value [where x = s and v = v and mk = "\<lambda>s. if s = [] then Ok VZero else Ok (VBuf (s @ [0]))"] 6 v
      by (cases "s = []") (simp_all add: defs cong: if_cong)
    then show ?thesis using scalar_starts_value by blast
  next
    case 7
    then obtain i where v: "v = VInt i" using forms(2) by blast
    have "?W (p8_enc TIME1 i)"
      using time_c.wired_value [where x = i and v = v and mk = "\<lambda>i. Ok (VInt i)"] 7 v by (simp add: defs)
    then show ?thesis using scalar_starts_value by blast
  qed
  then show ?thesis by blast
qed


section \<open>Sequences of values\<close>

lemma wired_seq:
  assumes "\<forall>(f, v) \<in> set items. \<exists>bs. P bs \<and> wired (E f v) (S f) (D f z) v bs"
  shows "\<exists>bs. list_all2 (\<lambda>(f, v) b. P b \<and> wired (E f v) (S f) (D f z) v b) items bs \<and>
    wired (fold_res (\<lambda>(f, v). E f v) items) (skip_seq S (map fst items))
      (decode_seq D (map (\<lambda>(f, _). (f, z)) items)) (map snd items) (concat bs)"
  using assms
proof (induction items)
  case Nil
  show ?case by (simp add: wired_def AppendEncoding_nil)
next
  case (Cons a items)
  obtain f v where a: "a = (f, v)" by (cases a)
  obtain b where b: "P b" "wired (E f v) (S f) (D f z) v b" using Cons.prems a by auto
  obtain bs where bs: "list_all2 (\<lambda>(f, v) b. P b \<and> wired (E f v) (S f) (D f z) v b) items bs"
    "wired (fold_res (\<lambda>(f, v). E f v) items) (skip_seq S (map fst items))
      (decode_seq D (map (\<lambda>(f, _). (f, z)) items)) (map snd items) (concat bs)"
    using Cons by auto
  have "wired (fold_res (\<lambda>(f, v). E f v) (a # items)) (skip_seq S (map fst (a # items)))
      (decode_seq D (map (\<lambda>(f, _). (f, z)) (a # items))) (map snd (a # items)) (concat (b # bs))"
    using b(2) bs(2) a by (auto simp: wired_def AppendEncoding_append)
  moreover have "list_all2 (\<lambda>(f, v) b. P b \<and> wired (E f v) (S f) (D f z) v b) (a # items) (b # bs)"
    using b bs(1) a by simp
  ultimately show ?case by blast
qed

lemma skip_cycle_seq:
  "fl \<noteq> [] \<Longrightarrow> skip_cycle f fl i n d = skip_seq f (map (\<lambda>j. fl ! (j mod length fl)) [i..<i + n]) d"
proof (induction n arbitrary: i d)
  case (Suc n)
  have "[i..<i + Suc n] = i # [Suc i..<Suc i + n]" by (simp add: upt_rec)
  then show ?case using Suc by (auto split: option.splits)
qed simp

lemma map_fst_zip_flats:
  "fl \<noteq> [] \<Longrightarrow> map fst (zip_flats fl vs) = map (\<lambda>j. fl ! (j mod length fl)) [0..<length vs]"
  "fl \<noteq> [] \<Longrightarrow> map snd (zip_flats fl vs) = vs"
  "fl \<noteq> [] \<Longrightarrow> map (\<lambda>(f, _). (f, z)) (zip_flats fl vs) = zip_flats fl (replicate (length vs) z)"
  "length (zip_flats fl vs) = (if fl = [] then 0 else length vs)"
  by (auto simp: zip_flats_def o_def map_nth intro: map_nth)

lemma zip_flats_exact: "length vs = length fl \<Longrightarrow> zip_flats fl vs = zip fl vs"
  by (auto simp: zip_flats_def intro!: nth_equalityI)

text \<open>The counting loop over the elements of an array.\<close>

lemma skip_elems_items:
  assumes "list_all2 (\<lambda>(g, v) b. starts_value b \<and> wired (E g v) (S g) (D g z) v b) items bs"
    and "\<forall>(g, v) \<in> set items. g = f" and "cur d = concat bs @ of_nat ARRAY_END # r"
    and "length items \<le> n"
  shows "skip_elems (S f) n d = Some (length items, adv (length (concat bs)) d)"
  using assms
proof (induction items bs arbitrary: d n rule: list_all2_induct)
  case Nil
  then have "IsEnd K_ARRAY d"
    by (simp add: IsEnd_def end_tag_def dec_size_def cur_tag_def tag_defs)
  then show ?case by (simp add: skip_elems.simps)
next
  case (Cons x items b bs)
  obtain m where n: "n = Suc m" using Cons.prems(3) by (cases n) auto
  obtain c cs where b: "b = c # cs" "unat c \<noteq> ARRAY_END"
    using Cons.hyps(1) by (auto simp: starts_value_def)
  obtain v where x: "x = (f, v)" using Cons.prems(1) by (cases x) auto
  have sk: "S f d = Some (adv (length b) d)"
    using Cons.hyps(1) Cons.prems(2) x by (auto simp: wired_def)
  have go: "\<not> (dec_done d \<or> IsEnd K_ARRAY d)"
    using Cons.prems(2) b by (simp add: dec_done_iff IsEnd_def end_tag_def cur_tag_def)
  have "skip_elems (S f) m (adv (length b) d)
      = Some (length items, adv (length (concat bs)) (adv (length b) d))"
    using Cons.prems n by (intro Cons.IH) auto
  then show ?case using go sk n by (subst skip_elems.simps) simp
qed


section \<open>Markers\<close>

definition start_byte :: "szl_kind \<Rightarrow> byte" where
  "start_byte k = of_nat (case start_tag k of None \<Rightarrow> 0 | Some n \<Rightarrow> n)"

definition end_byte :: "szl_kind \<Rightarrow> byte" where
  "end_byte k = of_nat (case end_tag k of None \<Rightarrow> 0 | Some n \<Rightarrow> n)"

lemma markers:
  assumes "is_composite k"
  shows "Start k e = Ok (AppendEncoding [start_byte k] e)"
    and "End k e = Ok (AppendEncoding [end_byte k] e)"
    and "cur d = start_byte k # r \<Longrightarrow> GetStart k d = Some (adv 1 d)"
    and "cur d = end_byte k # r \<Longrightarrow> GetEnd k d = Some (adv 1 d)"
    and "starts_value (start_byte k # bs)"
  using assms
  by (auto simp: is_composite_def Start_def End_def start_byte_def end_byte_def start_tag_def
      end_tag_def push_back_append GetStart_def GetEnd_def IsStart_def IsEnd_def dec_size_def
      cur_tag_def starts_value_def tag_defs)


section \<open>The round trip\<close>

lemma get_vals_mk_vals [simp]: "get_vals (mk_vals vs) = Ok vs"
  by (simp add: mk_vals_def)

lemma cur_append_drop: "cur d = xs @ ys \<Longrightarrow> cur (adv (length xs) d) = ys"
  by simp

lemma tuple_wired:
  assumes t: "ty_kind t = K_TUPLE" and n: "length vs = length fl"
    and w: "wired (fold_res (\<lambda>(f, v). Encode_flat hc f v) (zip_flats fl vs))
      (skip_seq Skip_flat fl) (decode_seq (Decode_flat hc) (zip_flats fl (replicate (length fl) VZero)))
      vs bs"
  shows "wired (EncodeInternal hc (SzlOps t fl) (mk_vals vs) lev) (SkipInternal (SzlOps t fl) lev)
    (DecodeInternal hc (SzlOps t fl) lev VZero) (mk_vals vs)
    (if lev then bs else start_byte K_TUPLE # bs @ [end_byte K_TUPLE])"
proof -
  define B where "B = (if lev then bs else start_byte K_TUPLE # bs @ [end_byte K_TUPLE])"
  have k: "is_composite K_TUPLE" "\<not> BaseKind K_TUPLE" by (simp_all add: is_composite_def)
  have enc: "EncodeInternal hc (SzlOps t fl) (mk_vals vs) lev e
      = Ok (AppendEncoding B e)" for e
  proof (cases "vs = []")
    case True
    then have "new_encoder = AppendEncoding bs new_encoder"
      using w n by (simp add: wired_def zip_flats_def)
    then have "enc_data new_encoder = enc_data new_encoder @ bs" by (metis AppendEncoding_simps(1))
    then have "bs = []" by simp
    then show ?thesis using True n t
      by (simp add: EncodeInternal.simps mk_vals_def markers [OF k(1)] B_def AppendEncoding_append AppendEncoding_nil)
  next
    case False
    then show ?thesis using t n w
      by (simp add: EncodeInternal.simps mk_vals_def markers [OF k(1)] wired_def B_def AppendEncoding_append)
  qed
  have dec: "DecodeInternal hc (SzlOps t fl) lev VZero d
        = Ok (Some (mk_vals vs, adv (length B) d))"
    and skip: "SkipInternal (SzlOps t fl) lev d
        = Some (adv (length B) d)"
    if c: "cur d = B @ r" for d r
  proof -
    let ?d = "if lev then d else adv 1 d"
    have cd: "cur ?d = bs @ (if lev then r else end_byte K_TUPLE # r)" using c by (cases lev) (auto simp: B_def)
    have s1: "(if \<not> lev then GetStart K_TUPLE d else Some d) = Some ?d"
      using c markers(3) [OF k(1)] by (cases lev) (auto simp: B_def)
    have s2: "skip_seq Skip_flat fl ?d = Some (adv (length bs) ?d)"
      "decode_seq (Decode_flat hc) (zip_flats fl (replicate (length fl) VZero)) ?d
        = Ok (Some (vs, adv (length bs) ?d))"
      using w cd by (auto simp: wired_def)
    have s3: "(if \<not> lev then GetEnd K_TUPLE (adv (length bs) ?d) else Some (adv (length bs) ?d))
        = Some (adv (length B) d)"
      using cur_append_drop [OF cd] markers(4) [OF k(1), of "adv (length bs) ?d" r]
      by (cases lev) (auto simp: B_def)
    show "DecodeInternal hc (SzlOps t fl) lev VZero d
        = Ok (Some (mk_vals vs, adv (length B) d))"
      "SkipInternal (SzlOps t fl) lev d
        = Some (adv (length B) d)"
      using s1 s2 s3 t k(2) by (simp_all add: DecodeInternal.simps SkipInternal.simps)
  qed
  show ?thesis unfolding wired_def B_def [symmetric] using enc dec skip by blast
qed

lemma map_wired:
  assumes t: "ty_kind t = K_MAP" and n: "length vs < 2 ^ 31" "fl \<noteq> []"
    and w: "wired (fold_res (\<lambda>(f, v). Encode_flat hc f v) (zip_flats fl vs))
      (skip_seq Skip_flat (map fst (zip_flats fl vs)))
      (decode_seq (Decode_flat hc) (zip_flats fl (replicate (length vs) VZero))) vs bs"
  shows "wired (EncodeInternal hc (SzlOps t fl) (mk_vals vs) lev) (SkipInternal (SzlOps t fl) lev)
    (DecodeInternal hc (SzlOps t fl) lev VZero) (mk_vals vs)
    ([start_byte K_MAP] @ int_enc (of_nat (length vs)) @ bs @ [end_byte K_MAP])"
proof -
  have k: "is_composite K_MAP" "\<not> BaseKind K_MAP" by (simp_all add: is_composite_def)
  let ?i = "int_enc (of_nat (length vs))"
  have len: "sint (of_nat (length vs) :: i64) = int (length vs)"
    using n(1) by (simp add: signed_of_nat signed_take_bit_int_eq_self)
  have enc: "EncodeInternal hc (SzlOps t fl) (mk_vals vs) lev e
      = Ok (AppendEncoding ([start_byte K_MAP] @ ?i @ bs @ [end_byte K_MAP]) e)" for e
    using t w by (simp add: EncodeInternal.simps markers [OF k(1)] wired_def
        PutInt_eq AppendEncoding_append)
  have "DecodeInternal hc (SzlOps t fl) lev VZero d = Ok (Some (mk_vals vs,
        adv (length ([start_byte K_MAP] @ ?i @ bs @ [end_byte K_MAP])) d))
      \<and> SkipInternal (SzlOps t fl) lev d
        = Some (adv (length ([start_byte K_MAP] @ ?i @ bs @ [end_byte K_MAP])) d)"
    if c: "cur d = ([start_byte K_MAP] @ ?i @ bs @ [end_byte K_MAP]) @ r" for d r
  proof -
    have s1: "GetStart K_MAP d = Some (adv 1 d)" using c by (intro markers(3) [OF k(1)]) simp
    have s2: "GetInt (adv 1 d) = Some (of_nat (length vs), adv (length ?i) (adv 1 d))"
      using c by (intro GetInt_int_enc) auto
    let ?d = "adv (length ?i) (adv 1 d)"
    have cd: "cur ?d = bs @ end_byte K_MAP # r" using c by auto
    have s3: "skip_seq Skip_flat (map fst (zip_flats fl vs)) ?d = Some (adv (length bs) ?d)"
      "decode_seq (Decode_flat hc) (zip_flats fl (replicate (length vs) VZero)) ?d
        = Ok (Some (vs, adv (length bs) ?d))"
      using w cd by (auto simp: wired_def)
    then have s3': "skip_cycle Skip_flat fl 0 (length vs) ?d = Some (adv (length bs) ?d)"
      using n(2) by (simp add: skip_cycle_seq map_fst_zip_flats)
    have s4: "GetEnd K_MAP (adv (length bs) ?d) = Some (adv 1 (adv (length bs) ?d))"
      using cur_append_drop [OF cd] by (rule markers(4) [OF k(1)])
    have rs: "resize_vals (SzlOps t fl) (length vs) VZero = Ok (replicate (length vs) VZero)"
      using t k by (cases vs) (simp_all add: resize_vals_def IsSimpleBaseKind_def)
    show ?thesis
      using s1 s2 s3(2) s3' s4 rs t k len n(1)
      by (simp add: DecodeInternal.simps SkipInternal.simps)
  qed
  then show ?thesis unfolding wired_def using enc by blast
qed

lemma length_concat_ge: "\<forall>b \<in> set bs. b \<noteq> [] \<Longrightarrow> length bs \<le> length (concat bs)"
proof (induction bs)
  case (Cons b bs)
  then have "1 \<le> length b" by (cases b) auto
  then show ?case using Cons by simp
qed simp

lemma starts_values_nonempty:
  "list_all2 (\<lambda>(f, v) b. starts_value b \<and> Q f v b) xs bs \<Longrightarrow> \<forall>b \<in> set bs. b \<noteq> []"
  by (induction rule: list_all2_induct) (auto simp: starts_value_def)

lemma array_wired:
  assumes t: "ty_kind t = K_ARRAY" and fl: "fl = [f]"
    and l: "list_all2 (\<lambda>(f, v) b. starts_value b \<and>
        wired (Encode_flat hc f v) (Skip_flat f) (Decode_flat hc f VZero) v b) (zip_flats fl vs) bs"
    and w: "wired (fold_res (\<lambda>(f, v). Encode_flat hc f v) (zip_flats fl vs))
      (skip_seq Skip_flat (map fst (zip_flats fl vs)))
      (decode_seq (Decode_flat hc) (zip_flats fl (replicate (length vs) VZero))) vs (concat bs)"
  shows "wired (EncodeInternal hc (SzlOps t fl) (mk_vals vs) lev) (SkipInternal (SzlOps t fl) lev)
    (DecodeInternal hc (SzlOps t fl) lev VZero) (mk_vals vs)
    ([start_byte K_ARRAY] @ concat bs @ [end_byte K_ARRAY])"
proof -
  have k: "is_composite K_ARRAY" "\<not> BaseKind K_ARRAY" by (simp_all add: is_composite_def)
  have eb: "end_byte K_ARRAY = of_nat ARRAY_END" by (simp add: end_byte_def end_tag_def)
  have enc: "EncodeInternal hc (SzlOps t fl) (mk_vals vs) lev e
      = Ok (AppendEncoding ([start_byte K_ARRAY] @ concat bs @ [end_byte K_ARRAY]) e)" for e
    using t w by (simp add: EncodeInternal.simps markers [OF k(1)] wired_def
        AppendEncoding_append)
  have "DecodeInternal hc (SzlOps t fl) lev VZero d = Ok (Some (mk_vals vs,
        adv (length ([start_byte K_ARRAY] @ concat bs @ [end_byte K_ARRAY])) d))
      \<and> SkipInternal (SzlOps t fl) lev d
        = Some (adv (length ([start_byte K_ARRAY] @ concat bs @ [end_byte K_ARRAY])) d)"
    if c: "cur d = ([start_byte K_ARRAY] @ concat bs @ [end_byte K_ARRAY]) @ r" for d r
  proof -
    have s1: "GetStart K_ARRAY d = Some (adv 1 d)" using c by (intro markers(3) [OF k(1)]) simp
    have cd: "cur (adv 1 d) = concat bs @ end_byte K_ARRAY # r" using c by auto
    have lv: "length (zip_flats fl vs) = length vs" using fl by (simp add: map_fst_zip_flats)
    have "\<forall>b \<in> set bs. b \<noteq> []" by (rule starts_values_nonempty [OF l])
    then have "length bs \<le> length (concat bs)" by (rule length_concat_ge)
    then have sz: "length vs \<le> dec_size (adv 1 d)"
      using cd lv list_all2_lengthD [OF l] by (simp add: dec_size_def)
    have same: "\<forall>(g, v) \<in> set (zip_flats fl vs). g = f" using fl zip_flats_mem by fastforce
    have s2: "skip_elems (Skip_flat f) (dec_size (adv 1 d)) d'
        = Some (length vs, adv (length (concat bs)) d')"
      if "cur d' = concat bs @ end_byte K_ARRAY # r" for d'
      using skip_elems_items [where E = "Encode_flat hc" and S = Skip_flat and D = "Decode_flat hc"
          and z = VZero and r = r, OF l same _ _] that sz lv eb by simp
    have s3: "decode_seq (Decode_flat hc) (zip_flats fl (replicate (length vs) VZero)) (adv 1 d)
        = Ok (Some (vs, adv (length (concat bs)) (adv 1 d)))"
      using w cd by (auto simp: wired_def)
    have s4: "GetEnd K_ARRAY (adv (length (concat bs)) (adv 1 d))
        = Some (adv 1 (adv (length (concat bs)) (adv 1 d)))"
      using cur_append_drop [OF cd] by (rule markers(4) [OF k(1)])
    have rs: "resize_vals (SzlOps t fl) (length vs) VZero = Ok (replicate (length vs) VZero)"
      using t k by (cases vs) (simp_all add: resize_vals_def IsSimpleBaseKind_def)
    show ?thesis
      using s1 s2 [OF cd] s2 [of "new_decoder (cur (adv 1 d))"] s3 s4 rs t k fl cd
      by (simp add: DecodeInternal.simps SkipInternal.simps)
  qed
  then show ?thesis unfolding wired_def using enc by blast
qed

lemma canon_composite:
  assumes "canon (SzlOps t fl) v" "wf_ops (SzlOps t fl)" "\<not> BaseKind (ty_kind t)"
  obtains vs where "v = mk_vals vs" "\<forall>(f, x) \<in> set (zip_flats fl vs). canon_flat f x \<and> wf_flat f"
    "ty_kind t = K_TUPLE \<Longrightarrow> length vs = length fl" "ty_kind t = K_MAP \<Longrightarrow> length vs < 2 ^ 31"
proof -
  have wf: "\<forall>f \<in> set fl. wf_flat f"
    using assms(2,3) by (auto simp: wf_ops.simps Let_def split: if_splits)
  show ?thesis
  proof (cases v)
    case VZero
    then show ?thesis using assms by (intro that [of "[]"])
        (auto simp: canon.simps mk_vals_def zip_flats_def Let_def)
  next
    case (VVals vs)
    then have "\<forall>(f, x) \<in> set (zip_flats fl vs). canon_flat f x \<and> wf_flat f"
      using assms wf zip_flats_mem by (fastforce simp: canon.simps Let_def)
    then show ?thesis using assms VVals by (intro that [of vs])
        (auto simp: canon.simps mk_vals_def Let_def)
  qed (use assms in \<open>auto simp: canon.simps Let_def\<close>)
qed

lemma values_wired:
  shows "canon p v \<Longrightarrow> wf_ops p \<Longrightarrow> \<exists>bs.
      (lev \<and> ty_kind (ops_type p) = K_TUPLE \<or> starts_value bs) \<and>
      wired (EncodeInternal hc p v lev) (SkipInternal p lev) (DecodeInternal hc p lev VZero) v bs"
    and "canon_flat f v \<Longrightarrow> wf_flat f \<Longrightarrow> \<exists>bs. starts_value bs \<and>
      wired (Encode_flat hc f v) (Skip_flat f) (Decode_flat hc f VZero) v bs"
proof (induction p v and f v arbitrary: lev rule: canon_canon_flat.induct)
  case (1 t fl v)
  show ?case
  proof (cases "BaseKind (ty_kind t)")
    case True
    then have "canon_base (ty_kind t) v" using 1(2) by (simp add: canon.simps)
    then obtain bs where "starts_value bs" "wired (SzlOpsDoEncode hc (ty_kind t) v)
        (Skip (ty_kind t)) (\<lambda>d. SzlOpsDoDecode hc (ty_kind t) d VZero) v bs"
      using base_wired [OF True] by blast
    then show ?thesis using True kind_distinct [OF True]
      by (intro exI [of _ bs])
        (simp add: wired_def EncodeInternal.simps SkipInternal.simps DecodeInternal.simps)
  next
    case False
    obtain vs where vs: "v = mk_vals vs"
      and cv: "\<forall>(f, x) \<in> set (zip_flats fl vs). canon_flat f x \<and> wf_flat f"
      and len: "ty_kind t = K_TUPLE \<Longrightarrow> length vs = length fl"
        "ty_kind t = K_MAP \<Longrightarrow> length vs < 2 ^ 31"
      using canon_composite [OF 1(2,3) False] by blast
    have "\<exists>bs. starts_value bs \<and> wired (Encode_flat hc f x) (Skip_flat f) (Decode_flat hc f VZero) x bs"
      if m: "(f, x) \<in> set (zip_flats fl vs)" for f x
    proof -
      have "vs \<noteq> []" using m zip_flats_mem by fastforce
      then have "v = VVals vs" using vs by (simp add: mk_vals_def)
      then show ?thesis using 1(1) [OF refl False _ m refl] cv m by auto
    qed
    then have "\<forall>(f, x) \<in> set (zip_flats fl vs). \<exists>bs. starts_value bs \<and>
        wired (Encode_flat hc f x) (Skip_flat f) (Decode_flat hc f VZero) x bs" by blast
    from wired_seq [where E = "Encode_flat hc" and S = Skip_flat and D = "Decode_flat hc"
        and z = VZero, OF this]
    obtain bs where l: "list_all2 (\<lambda>(f, v) b. starts_value b \<and>
          wired (Encode_flat hc f v) (Skip_flat f) (Decode_flat hc f VZero) v b) (zip_flats fl vs) bs"
      and w: "wired (fold_res (\<lambda>(f, v). Encode_flat hc f v) (zip_flats fl vs))
        (skip_seq Skip_flat (map fst (zip_flats fl vs)))
        (decode_seq (Decode_flat hc) (map (\<lambda>(f, _). (f, VZero)) (zip_flats fl vs)))
        (map snd (zip_flats fl vs)) (concat bs)" by blast
    consider "ty_kind t = K_TUPLE" | "ty_kind t = K_MAP" | "ty_kind t = K_ARRAY"
      using wf_ops_kinds [OF 1(3)] False by (auto simp: is_composite_def)
    then show ?thesis
    proof cases
      case k: 1
      have "map fst (zip_flats fl vs) = fl" "map snd (zip_flats fl vs) = vs"
        "map (\<lambda>(f, _). (f, VZero)) (zip_flats fl vs) = zip_flats fl (replicate (length fl) VZero)"
        using len(1) [OF k] by (auto simp: zip_flats_exact zip_replicate2 map_fst_zip_flats
            intro!: nth_equalityI)
      then show ?thesis
        using tuple_wired [OF k len(1) [OF k], of hc "concat bs" lev] w vs k
          markers(5) [of K_TUPLE] by (cases lev) (auto simp: is_composite_def)
    next
      case k: 2
      then have fl: "fl \<noteq> []" using 1(3) by (auto simp: wf_ops.simps Let_def)
      have "starts_value ([start_byte K_MAP] @ int_enc (of_nat (length vs)) @ concat bs @ [end_byte K_MAP])"
        using markers(5) [of K_MAP] by (simp add: is_composite_def)
      then show ?thesis
        using map_wired [OF k len(2) [OF k] fl w [unfolded map_fst_zip_flats(2,3) [OF fl]], of lev]
        unfolding vs by blast
    next
      case k: 3
      then obtain f where fl: "fl = [f]" using 1(3) by (auto simp: wf_ops.simps Let_def length_Suc_conv)
      have ne: "fl \<noteq> []" by (simp add: fl)
      have "starts_value ([start_byte K_ARRAY] @ concat bs @ [end_byte K_ARRAY])"
        using markers(5) [of K_ARRAY] by (simp add: is_composite_def)
      then show ?thesis
        using array_wired [OF k fl l w [unfolded map_fst_zip_flats(2,3) [OF ne]], of lev]
        unfolding vs by blast
    qed
  qed
next
  case (2 k p v)
  then obtain bs where "starts_value bs"
    "wired (EncodeInternal hc p v False) (SkipInternal p False) (DecodeInternal hc p False VZero) v bs"
    using 2(1) [where lev = False] by (auto simp only: canon_flat.simps wf_flat.simps simp_thms)
  then show ?case by (intro exI [of _ bs]) (simp add: wired_def)
next
  case (3 k v)
  then show ?case using base_wired [of k v hc] by (auto simp: wired_def)
qed


section \<open>The array loops end by themselves\<close>

lemma dec_size_adv: "dec_size (adv n d) = dec_size d - n"
  by (simp add: dec_size_def)

lemma tbl_size_pos: "tbl_size k \<noteq> 0 \<Longrightarrow> 1 \<le> tbl_size k"
  by simp

lemma Skip_bytes_loop_ge: "Skip_bytes_loop n q = Some m \<Longrightarrow> n < m"
  by (induction n q rule: Skip_bytes_loop.induct) (fastforce split: if_splits)+

lemma Skip_progress:
  assumes "Skip k d = Some d'"
  shows "dec_size d' < dec_size d"
proof -
  have "cur d \<noteq> []" using assms by (auto simp: Skip_def dec_done_iff split: if_splits)
  then have ne: "pos d < length (buf d)" by (simp add: cur_def)
  have "pos d < pos d' \<and> buf d' = buf d"
    using assms by (auto simp: Skip_def Let_def adv_def dest!: Skip_bytes_loop_ge
        split: if_splits option.splits)
  then show ?thesis using ne by (auto simp: dec_size_def cur_def)
qed

lemma marker_progress:
  "GetStart k d = Some d' \<Longrightarrow> dec_size d' < dec_size d"
  "GetEnd k d = Some d' \<Longrightarrow> dec_size d' < dec_size d"
  by (auto simp: GetStart_def GetEnd_def IsStart_def IsEnd_def dec_size_adv split: if_splits option.splits)

lemma skip_seq_le:
  "skip_seq f xs d = Some d' \<Longrightarrow> (\<And>x d d'. x \<in> set xs \<Longrightarrow> f x d = Some d' \<Longrightarrow> dec_size d' < dec_size d) \<Longrightarrow>
    dec_size d' \<le> dec_size d"
proof (induction xs arbitrary: d)
  case (Cons x xs)
  then obtain d1 where d1: "f x d = Some d1" "skip_seq f xs d1 = Some d'" by (auto split: option.splits)
  have "dec_size d1 < dec_size d" using Cons.prems(2) [OF _ d1(1)] by simp
  moreover have "dec_size d' \<le> dec_size d1"
    by (rule Cons.IH [OF d1(2)]) (use Cons.prems(2) in \<open>meson list.set_intros(2)\<close>)
  ultimately show ?case by simp
qed simp

lemma skip_elems_le:
  "skip_elems f n d = Some (c, d') \<Longrightarrow> (\<And>d d'. f d = Some d' \<Longrightarrow> dec_size d' < dec_size d) \<Longrightarrow>
    dec_size d' \<le> dec_size d"
proof (induction n arbitrary: d c)
  case 0
  then show ?case by (simp add: skip_elems.simps split: if_splits)
next
  case (Suc n)
  show ?case
  proof (cases "dec_done d \<or> IsEnd K_ARRAY d")
    case True
    then show ?thesis using Suc.prems(1) by (simp add: skip_elems.simps)
  next
    case False
    then obtain d1 c1 where d1: "f d = Some d1" "skip_elems f n d1 = Some (c1, d')"
      using Suc.prems(1) by (subst (asm) skip_elems.simps) (auto split: option.splits)
    then show ?thesis
      using Suc.IH [OF d1(2) Suc.prems(2)] Suc.prems(2) [OF d1(1)] by linarith
  qed
qed

lemma GetInt_progress: "GetInt d = Some (i, d') \<Longrightarrow> dec_size d' < dec_size d"
  using Skip_int [of d] Skip_progress [of K_INT d d'] by simp

lemma SkipInternal_progress:
  shows "wf_ops p \<Longrightarrow> lev \<longrightarrow> ty_kind (ops_type p) \<noteq> K_TUPLE \<Longrightarrow> SkipInternal p lev d = Some d' \<Longrightarrow>
      dec_size d' < dec_size d"
    and "wf_flat f \<Longrightarrow> Skip_flat f d = Some d' \<Longrightarrow> dec_size d' < dec_size d"
proof (induction p lev d and f d arbitrary: d' and d' rule: SkipInternal_Skip_flat.induct)
  case (1 t fl lev d)
  let ?k = "ty_kind t"
  consider "BaseKind ?k" | "?k = K_TUPLE" | "?k = K_MAP" | "?k = K_ARRAY"
    using wf_ops_kinds [OF 1(4)] by (auto simp: is_composite_def)
  then show ?case
  proof cases
    case k: 1
    then show ?thesis using 1(6) Skip_progress by (simp add: SkipInternal.simps)
  next
    case k: 2
    then have wf: "\<forall>f \<in> set fl. wf_flat f" using 1(4) by (simp add: wf_ops.simps)
    obtain d1 d2 where d: "GetStart ?k d = Some d1" "skip_seq Skip_flat fl d1 = Some d2"
      "GetEnd ?k d2 = Some d'"
      using 1(5,6) k by (auto simp: SkipInternal.simps split: option.splits)
    have "dec_size d2 \<le> dec_size d1"
      by (rule skip_seq_le [OF d(2)]) (use 1(1) k wf d(1) 1(5) in auto)
    then show ?thesis using marker_progress(1) [OF d(1)] marker_progress(2) [OF d(3)] by simp
  next
    case k: 3
    then have wf: "\<forall>f \<in> set fl. wf_flat f" and ne: "fl \<noteq> []" using 1(4) by (auto simp: wf_ops.simps)
    obtain d1 len d2 d3 where d: "GetStart ?k d = Some d1" "GetInt d1 = Some (len, d2)"
      "skip_cycle Skip_flat fl 0 (nat (sint len)) d2 = Some d3" "GetEnd ?k d3 = Some d'"
      using 1(6) k by (auto simp: SkipInternal.simps split: option.splits prod.splits)
    have mem: "fl ! (j mod length fl) \<in> set fl" for j using ne by simp
    have "dec_size d3 \<le> dec_size d2"
    proof (rule skip_seq_le [OF d(3) [unfolded skip_cycle_seq [OF ne]]])
      fix x e e' assume "x \<in> set (map (\<lambda>j. fl ! (j mod length fl)) [0..<0 + nat (sint len)])"
        and s: "Skip_flat x e = Some e'"
      then have "x \<in> set fl" using mem by auto
      then show "dec_size e' < dec_size e" using 1(2) k wf d(1,2) s by auto
    qed
    then show ?thesis
      using marker_progress(1) [OF d(1)] GetInt_progress [OF d(2)] marker_progress(2) [OF d(4)] by simp
  next
    case k: 4
    then obtain f where fl: "fl = [f]" "wf_flat f" using 1(4)
      by (auto simp: wf_ops.simps length_Suc_conv)
    obtain d1 c d2 where d: "GetStart ?k d = Some d1"
      "skip_elems (Skip_flat f) (dec_size d1) d1 = Some (c, d2)" "GetEnd ?k d2 = Some d'"
      using 1(6) k fl by (auto simp: SkipInternal.simps split: option.splits)
    have "dec_size d2 \<le> dec_size d1"
      by (rule skip_elems_le [OF d(2)]) (use 1(3) k fl d(1) in auto)
    then show ?thesis using marker_progress(1) [OF d(1)] marker_progress(2) [OF d(3)] by simp
  qed
next
  case (2 k p d)
  then show ?case by auto
next
  case (3 k d)
  then show ?case using Skip_progress by simp
qed

lemma skip_elems_enough:
  assumes "\<And>d d'. f d = Some d' \<Longrightarrow> dec_size d' < dec_size d"
  shows "dec_size d \<le> n \<Longrightarrow> dec_size d \<le> m \<Longrightarrow> skip_elems f n d = skip_elems f m d"
proof (induction n arbitrary: m d)
  case 0
  then have "dec_done d" by (simp add: dec_done_iff dec_size_def)
  then show ?case by (simp add: skip_elems.simps)
next
  case (Suc n)
  show ?case
  proof (cases "dec_done d \<or> IsEnd K_ARRAY d")
    case True
    then show ?thesis by (simp add: skip_elems.simps)
  next
    case False
    then have "0 < dec_size d" by (simp add: dec_done_iff dec_size_def)
    then obtain m' where m: "m = Suc m'" using Suc.prems by (cases m) auto
    have "skip_elems f n d1 = skip_elems f m' d1" if "f d = Some d1" for d1
      using assms [OF that] Suc.prems m by (intro Suc.IH) auto
    then show ?thesis using False m
      by (subst (1 2) skip_elems.simps) (auto split: option.splits)
  qed
qed


section \<open>Properties\<close>

text \<open>C25. \<open>SzlOps\<close> can be built for every type that is valid, is not a table and has no validity
  cached anywhere inside (\<open>fresh\<close>; a cached one may be out of date, \<open>valid_cache_stale\<close>): no flattening step
  aborts, the two passes agree on the number of flat values, the array of nested
  operations exists wherever an entry needs it, and the object is well formed.\<close>

theorem ops_of_valid_type:
  assumes "fresh t" and "Valid reg t = None" and "ty_kind t \<noteq> K_TABLE"
  shows "\<exists>p. new_ops reg t = Ok p \<and> wf_ops p \<and> ops_type p = t"
  using new_ops_total(1) [of reg t] assms by (auto simp: good_field_def)

theorem ops_of_valid_type_witness:
  "\<exists>p. new_ops Map.empty pair_type = Ok p \<and> wf_ops p \<and> ops_type p = pair_type"
  by (rule ops_of_valid_type [OF fresh_pair_type Valid_pair_type]) (simp add: pair_type_def new_type_def)

text \<open>C1. Values of every type, with maps, arrays and tuples nested to any depth, survive the
  wire, if they are in the form that decoding gives (\<open>canon\<close>): every tuple has a value for each
  of its fields, so that no default has to be encoded for it; a string is unset, or not empty
  and without a zero byte before its terminator; bytes are unset or not empty; a boolean is 0 or 1;
  no float is the negative zero; a map has pairs only and fewer than \<open>2^31\<close> keys and values.
  Then encoding succeeds, decoding what was written (with anything behind it) into a fresh value
  gives the value back, and skipping it stops at the same place, right behind it.\<close>

theorem value_roundtrip:
  assumes "wf_ops p" and "canon p v"
  shows "\<exists>e'. Encode hc p v e = Ok e' \<and> (\<forall>r.
    Decode hc p VZero (decoder_after e (enc_data e' @ r)) = Ok (Some (v, decoder_after e' (enc_data e' @ r)))
    \<and> ops_Skip p (decoder_after e (enc_data e' @ r)) = Some (decoder_after e' (enc_data e' @ r)))"
proof -
  obtain bs where w: "wired (EncodeInternal hc p v True) (SkipInternal p True)
      (DecodeInternal hc p True VZero) v bs"
    using values_wired(1) [OF assms(2,1)] by blast
  then have "Encode hc p v e = Ok (AppendEncoding bs e)" by (simp add: wired_def Encode_def)
  moreover have "cur (decoder_after e (enc_data (AppendEncoding bs e) @ r)) = bs @ r" for r
    by (rule cur_after_Append)
  ultimately show ?thesis
    using w by (auto simp: wired_def Decode_def ops_Skip_def decoder_after_AppendEncoding)
qed

definition pair_ops :: szl_ops where
  "pair_ops = SzlOps pair_type [Flat K_STRING, Flat K_INT]"

definition pair_value :: szl_value where
  "pair_value = VVals [VBuf [104, 105, 0], VInt (- 7)]"

lemma pair_value_canon: "wf_ops pair_ops \<and> canon pair_ops pair_value"
  by (simp add: pair_ops_def pair_value_def pair_type_def new_type_def wf_ops.simps canon.simps
      zip_flats_def canon_base_def c_string_def)

theorem value_roundtrip_witness:
  "\<exists>e'. Encode (good_config Big) pair_ops pair_value new_encoder = Ok e' \<and>
    Decode (good_config Big) pair_ops VZero (decoder_after new_encoder (enc_data e' @ [1])) =
      Ok (Some (pair_value, decoder_after e' (enc_data e' @ [1])))"
  using value_roundtrip [of pair_ops pair_value "good_config Big" new_encoder] pair_value_canon by blast

text \<open>Walking over the elements of an array ends by itself: every element that is skipped
  uses up input, so any bound on the rounds that is at least the number of bytes left gives
  the result of the unbounded loop.\<close>

theorem array_loop_terminates:
  assumes "wf_flat f" and "dec_size d \<le> n"
  shows "skip_elems (Skip_flat f) n d = skip_elems (Skip_flat f) (dec_size d) d
    \<and> (\<forall>d1. Skip_flat f d = Some d1 \<longrightarrow> dec_size d1 < dec_size d)"
  using skip_elems_enough [of "Skip_flat f" d n "dec_size d"] SkipInternal_progress(2) [OF assms(1)]
    assms(2) by blast

theorem array_loop_terminates_witness:
  "skip_elems (Skip_flat (Flat K_BOOL)) 5 (new_decoder [8, 9, 44])
     = skip_elems (Skip_flat (Flat K_BOOL)) (dec_size (new_decoder [8, 9, 44])) (new_decoder [8, 9, 44])"
  using array_loop_terminates [of "Flat K_BOOL" "new_decoder [8, 9, 44]" 5] by (simp add: dec_size_def)

definition map_type :: szl_type where
  "map_type = set_element (Some (SzlField [] kInt)) (AddIndex [] kString (new_type K_MAP))"

definition array_type :: szl_type where
  "array_type = set_element (Some (SzlField [] kInt)) (new_type K_ARRAY)"

definition tuple_with :: "szl_type \<Rightarrow> szl_type" where
  "tuple_with t = AddField ''f'' t (new_type K_TUPLE)"

definition map_tuple_ops :: szl_ops where
  "map_tuple_ops = SzlOps (tuple_with map_type)
     [FlatOps K_MAP (SzlOps map_type [Flat K_STRING, Flat K_INT])]"

definition array_tuple_ops :: szl_ops where
  "array_tuple_ops = SzlOps (tuple_with array_type) [FlatOps K_ARRAY (SzlOps array_type [Flat K_INT])]"

text \<open>\<open>EncodeDefault\<close> does not write what \<open>Decode\<close> reads: the empty tuple with a map
  field is written as nothing at all, which the decoder refuses, and the empty tuple with an
  array field aborts the process.\<close>

theorem default_encoding_of_containers:
  "new_ops Map.empty (tuple_with map_type) = Ok map_tuple_ops
   \<and> Encode hc map_tuple_ops VZero e = Ok e
   \<and> Decode hc map_tuple_ops VZero (new_decoder []) = Ok None
   \<and> new_ops Map.empty (tuple_with array_type) = Ok array_tuple_ops
   \<and> Encode hc array_tuple_ops VZero e = Inl (Fatal ''can't encode'')"
proof (intro conjI)
  show "new_ops Map.empty (tuple_with map_type) = Ok map_tuple_ops" by code_simp
  show "new_ops Map.empty (tuple_with array_type) = Ok array_tuple_ops" by code_simp
  show "Encode hc map_tuple_ops VZero e = Ok e"
    by (simp add: Encode_def map_tuple_ops_def EncodeInternal.simps tuple_with_def new_type_def map_type_def)
  show "Encode hc array_tuple_ops VZero e = Inl (Fatal ''can't encode'')"
    by (simp add: Encode_def array_tuple_ops_def EncodeInternal.simps tuple_with_def new_type_def
        array_type_def EncodeDefaultBase_def)
  have "GetStart K_MAP (new_decoder []) = None" by code_simp
  then show "Decode hc map_tuple_ops VZero (new_decoder []) = Ok None"
    by (simp add: Decode_def map_tuple_ops_def DecodeInternal.simps tuple_with_def new_type_def
        map_type_def zip_flats_def)
qed

end
