(* ===== verification/Szl_Order.thy ===== *)
theory Szl_Order
  imports Szl_Wire_Props
begin

text \<open>
  The order on values.  \<open>SzlOps::Cmp\<close> compares values by kind, position and length; here
  every value of a type is given a key, a tree of integer lists, and the comparison is
  shown to be the comparison of the keys, which is a total order.  \<open>typed\<close> says which
  values belong to a \<open>SzlOps\<close> object; doubles that are not numbers are left out, because
  \<open>Cmp\<close> finds them equal to everything.
\<close>

section \<open>Keys\<close>

datatype okey = KInts "int list" | KList "okey list"

fun kcmp :: "okey \<Rightarrow> okey \<Rightarrow> int"
and kcmps :: "okey list \<Rightarrow> okey list \<Rightarrow> int" where
  "kcmp (KInts a) (KInts b) = CmpBaseT (<) a b"
| "kcmp (KInts a) (KList b) = - 1"
| "kcmp (KList a) (KInts b) = 1"
| "kcmp (KList a) (KList b) = kcmps a b"
| "kcmps [] [] = 0"
| "kcmps [] (y # ys) = - 1"
| "kcmps (x # xs) [] = 1"
| "kcmps (x # xs) (y # ys) = (if kcmp x y \<noteq> 0 then kcmp x y else kcmps xs ys)"

lemma kcmp_swap: "kcmp a b = - kcmp b a" "kcmps as bs = - kcmps bs as"
  by (induction a b and as bs rule: kcmp_kcmps.induct) (auto simp: CmpBaseT_def)

lemma kcmp_0 [simp]: "kcmp a b = 0 \<longleftrightarrow> a = b" "kcmps as bs = 0 \<longleftrightarrow> as = bs"
  by (induction a b and as bs rule: kcmp_kcmps.induct) (auto simp: CmpBaseT_def)

lemma kcmp_refl [simp]: "kcmp a a = 0" "kcmps as as = 0"
  by simp_all

lemma kcmp_range: "kcmp a b \<in> {- 1, 0, 1}" "kcmps as bs \<in> {- 1, 0, 1}"
  by (induction a b and as bs rule: kcmp_kcmps.induct) (auto simp: CmpBaseT_def)

lemma kcmp_trans:
  "kcmp a b < 0 \<Longrightarrow> kcmp b c < 0 \<Longrightarrow> kcmp a c < 0"
  "kcmps as bs < 0 \<Longrightarrow> kcmps bs cs < 0 \<Longrightarrow> kcmps as cs < 0"
proof (induction a b and as bs arbitrary: c and cs rule: kcmp_kcmps.induct)
  case (1 a b)
  then show ?case by (cases c) (auto simp: CmpBaseT_def split: if_splits)
next
  case (2 a b)
  then show ?case by (cases c) auto
next
  case (4 a b)
  then show ?case by (cases c) auto
next
  case (6 y ys)
  then show ?case by (cases cs) auto
next
  case (8 x xs y ys)
  then show ?case
    using kcmp_swap(1) [of x y] by (cases cs) (auto split: if_splits)
qed simp_all

instantiation okey :: linorder
begin

definition less_eq_okey :: "okey \<Rightarrow> okey \<Rightarrow> bool" where
  "less_eq_okey a b \<longleftrightarrow> kcmp a b \<le> 0"

definition less_okey :: "okey \<Rightarrow> okey \<Rightarrow> bool" where
  "less_okey a b \<longleftrightarrow> kcmp a b < 0"

instance
proof
  fix a b c :: okey
  show "a < b \<longleftrightarrow> a \<le> b \<and> \<not> b \<le> a"
    using kcmp_swap(1) [of a b] by (auto simp: less_eq_okey_def less_okey_def)
  show "a \<le> a" by (simp add: less_eq_okey_def)
  show "a \<le> b \<Longrightarrow> b \<le> c \<Longrightarrow> a \<le> c"
    using kcmp_trans(1) [of a b c] kcmp_0(1) [of a b] kcmp_0(1) [of b c]
    by (fastforce simp: less_eq_okey_def order.order_iff_strict)
  show "a \<le> b \<Longrightarrow> b \<le> a \<Longrightarrow> a = b"
    using kcmp_swap(1) [of a b] kcmp_0(1) [of a b] by (simp add: less_eq_okey_def)
  show "a \<le> b \<or> b \<le> a"
    using kcmp_swap(1) [of a b] by (auto simp: less_eq_okey_def)
qed

end

lemma kcmp_CmpBaseT: "kcmp a b = CmpBaseT (<) a b"
  using kcmp_range(1) [of a b] kcmp_swap(1) [of a b]
  by (auto simp: CmpBaseT_def less_okey_def)


section \<open>Values of a type\<close>

definition typed_base :: "szl_kind \<Rightarrow> szl_value \<Rightarrow> bool" where
  "typed_base k v =
     (case v of
        VZero \<Rightarrow> True
      | VInt _ \<Rightarrow> k \<in> {K_BOOL, K_FINGERPRINT, K_INT, K_TIME}
      | VFloat f \<Rightarrow> k = K_FLOAT \<and> \<not> is_nan f
      | VBuf _ \<Rightarrow> k \<in> {K_STRING, K_BYTES}
      | VVals _ \<Rightarrow> False)"

fun typed :: "szl_ops \<Rightarrow> szl_value \<Rightarrow> bool"
and typed_flat :: "szl_flat \<Rightarrow> szl_value \<Rightarrow> bool" where
  "typed (SzlOps t fl) v =
     (let k = ty_kind t in
      if BaseKind k then typed_base k v
      else case v of
        VZero \<Rightarrow> True
      | VVals vs \<Rightarrow> vs \<noteq> []
          \<and> (k = K_TUPLE \<longrightarrow> length vs = length fl)
          \<and> (k = K_MAP \<longrightarrow> even (length vs))
          \<and> (\<forall>(f, x) \<in> set (zip_flats fl vs). typed_flat f x)
      | _ \<Rightarrow> False)"
| "typed_flat (FlatOps k p) v = typed p v"
| "typed_flat (Flat k) v = typed_base k v"

declare typed.simps [simp del]

definition base_key :: "szl_kind \<Rightarrow> szl_value option \<Rightarrow> okey" where
  "base_key k v =
     (case v of
        Some (VInt i) \<Rightarrow> KInts [if k = K_INT then sint i else uint i]
      | Some (VFloat f) \<Rightarrow> KInts [dbl_int f]
      | Some (VBuf b) \<Rightarrow> KInts (map uint b)
      | _ \<Rightarrow> if k = K_STRING \<or> k = K_BYTES then KInts [] else KInts [0])"

fun vkey :: "szl_ops \<Rightarrow> szl_value option \<Rightarrow> okey"
and flat_key :: "szl_flat \<Rightarrow> szl_value option \<Rightarrow> okey" where
  "vkey (SzlOps t fl) v =
     (let k = ty_kind t in
      if BaseKind k then base_key k v
      else case v of
        Some (VVals vs) \<Rightarrow> KList (map (\<lambda>(f, x). flat_key f (Some x)) (zip_flats fl vs))
      | _ \<Rightarrow> if k = K_TUPLE then KList (map (\<lambda>f. flat_key f None) fl) else KList [])"
| "flat_key (FlatOps k p) v = vkey p v"
| "flat_key (Flat k) v = base_key k v"

declare vkey.simps [simp del]

lemma map_uint_less: "map uint (a :: bytes) < map uint b \<longleftrightarrow> a < b"
  by (induction a b rule: list_induct2') (auto simp: word_less_alt word_uint_eq_iff)

lemma Nil_less_iff [simp]: "[] < (b :: 'a::linorder list) \<longleftrightarrow> b \<noteq> []"
  by (cases b) auto

lemma prefix_then_length:
  fixes a b :: "'a::linorder list"
  defines "c \<equiv> CmpBaseT (<) (take (min (length a) (length b)) a) (take (min (length a) (length b)) b)"
  shows "(if c = 0 then CmpBaseT (<) (length a) (length b) else c) = CmpBaseT (<) a b"
  unfolding c_def
  by (induction a b rule: list_induct2') (auto simp: CmpBaseT_def split: if_splits)

lemma CmpStr_buf:
  "CmpStr (Some u) (Some v) = bind_res (get_buf u) (\<lambda>a. bind_res (get_buf v) (\<lambda>b. Ok (CmpBaseT (<) a b)))"
proof -
  have "(if length b < length a then length b else length a) = min (length a) (length b)" for a b :: bytes
    by simp
  then show ?thesis
    by (simp add: CmpStr_def memcmp_def Let_def if_distrib [of Ok, symmetric] prefix_then_length)
qed

lemma CmpStr_none:
  "CmpStr None (Some v) = bind_res (get_buf v) (\<lambda>b. Ok (CmpBaseT (<) [] b))"
  "CmpStr (Some v) None = bind_res (get_buf v) (\<lambda>b. Ok (CmpBaseT (<) b []))"
  "CmpStr None None = Ok 0"
  by (auto simp: CmpStr_def CmpBaseT_def cong: if_cong)

lemma CmpBaseT_key:
  "(\<And>x y. lt x y \<longleftrightarrow> key x < key y) \<Longrightarrow> CmpBaseT lt a b = CmpBaseT (<) (key a) (key b)"
  by (simp add: CmpBaseT_def)

lemma dbl_int_0 [simp]: "dbl_int 0 = 0"
  by (simp add: dbl_int_def dbl_mag_def dbl_low_def)

lemma not_nan_0 [simp]: "\<not> is_nan 0"
  by (simp add: is_nan_def dbl_low_def)

lemma CmpBase_key:
  assumes "BaseKind k" and "\<forall>v \<in> set_option x. typed_base k v" and "\<forall>v \<in> set_option y. typed_base k v"
  shows "CmpBase k x y = Ok (kcmp (base_key k x) (base_key k y))"
  using assms
  by (cases x; cases y) (auto simp: CmpBase_def typed_base_def base_key_def opt_get_def CmpStr_none
      CmpStr_buf CmpBaseT_def word_sless_alt word_less_alt map_uint_less dbl_lt_def split: szl_value.splits)

lemma kcmps_nil: "ys \<noteq> [] \<Longrightarrow> kcmps [] ys = - 1" "ys \<noteq> [] \<Longrightarrow> kcmps ys [] = 1"
  by (cases ys; simp)+

lemma kcmps_prefix:
  "kcmps xs ys = (let m = min (length xs) (length ys); c = kcmps (take m xs) (take m ys) in
     if c \<noteq> 0 then c else CmpBaseT (<) (length xs) (length ys))"
  by (induction xs ys rule: list_induct2') (auto simp: Let_def CmpBaseT_def split: if_splits)

lemma first_nz_kcmps:
  assumes "\<And>z. z \<in> set zs \<Longrightarrow> g z = Ok (kcmp (k0 z) (k1 z))"
  shows "first_nz g zs = Ok (kcmps (map k0 zs) (map k1 zs))"
  using assms by (induction zs) auto

definition elem_keys :: "szl_flat list \<Rightarrow> nat \<Rightarrow> szl_value list \<Rightarrow> okey list" where
  "elem_keys fl len vs = map (\<lambda>i. flat_key (fl ! (i mod length fl)) (opt_vals len vs ! i)) [0..<len]"

lemma elem_keys_zip:
  assumes "vs \<noteq> []" and "len \<le> length vs" and "fl \<noteq> []"
  shows "elem_keys fl len vs = take len (map (\<lambda>(f, x). flat_key f (Some x)) (zip_flats fl vs))"
  using assms by (auto simp: elem_keys_def zip_flats_def opt_vals_def intro!: nth_equalityI)

lemma elem_keys_none: "elem_keys fl (length fl) [] = map (\<lambda>f. flat_key f None) fl"
  by (auto simp: elem_keys_def opt_vals_def intro!: nth_equalityI)

lemma typed_opt_vals:
  assumes "wf_ops (SzlOps t fl)" and "\<not> BaseKind (ty_kind t)" and "\<forall>v \<in> set_option x. typed (SzlOps t fl) v"
  obtains vs n where "(case x of None \<Rightarrow> Ok [] | Some v \<Rightarrow> get_vals v) = Ok vs"
    and "n = (if ty_kind t = K_TUPLE then length fl else length vs)"
    and "ty_kind t = K_TUPLE \<Longrightarrow> vs = [] \<or> length vs = length fl"
    and "vkey (SzlOps t fl) x = KList (elem_keys fl n vs)"
    and "\<And>i v. i < length vs \<Longrightarrow> fl \<noteq> [] \<and> typed_flat (fl ! (i mod length fl)) (vs ! i)"
proof -
  have fl: "ty_kind t \<noteq> K_TUPLE \<Longrightarrow> fl \<noteq> []"
    using assms(1,2) by (auto simp: wf_ops.simps Let_def split: if_splits)
  have none: "elem_keys fl 0 [] = []" by (simp add: elem_keys_def)
  consider "x = None \<or> x = Some VZero" | vs where "x = Some (VVals vs)" "vs \<noteq> []"
    "ty_kind t = K_TUPLE \<Longrightarrow> length vs = length fl"
    "\<forall>(f, x) \<in> set (zip_flats fl vs). typed_flat f x"
    using assms(2,3) by (cases x) (auto simp: typed.simps Let_def simp del: BaseKind.simps split: szl_value.splits)
  then show thesis
  proof cases
    case 1
    then show ?thesis
      using assms(2) none elem_keys_none by (intro that) (auto simp: vkey.simps Let_def simp del: BaseKind.simps)
  next
    case 2
    then have ne: "fl \<noteq> []" using fl by (cases "ty_kind t = K_TUPLE") auto
    then have "typed_flat (fl ! (i mod length fl)) (vs ! i)" if "i < length vs" for i
      using 2(4) that by (auto simp: zip_flats_def)
    moreover have "length (zip_flats fl vs) = length vs" using ne by (simp add: zip_flats_def)
    ultimately show ?thesis
      using assms(2) 2 ne by (intro that) (auto simp: vkey.simps Let_def elem_keys_zip simp del: BaseKind.simps)
  qed
qed

lemma length_elem_keys [simp]: "length (elem_keys fl n vs) = n"
  by (simp add: elem_keys_def)

lemma take_elem_keys:
  "len \<le> length vs \<Longrightarrow> vs \<noteq> [] \<Longrightarrow> take len (elem_keys fl (length vs) vs) = elem_keys fl len vs"
  by (auto simp: elem_keys_def opt_vals_def intro!: nth_equalityI)

lemma kcmps_len: "kcmps xs ys = (if kcmps (take m xs) (take m ys) \<noteq> 0 then kcmps (take m xs) (take m ys)
     else CmpBaseT (<) (length xs) (length ys))" if "m = min (length xs) (length ys)"
  using kcmps_prefix [of xs ys] that by (simp add: Let_def)

lemma first_nz_flats:
  assumes "fl \<noteq> []"
    and "\<And>f a b. f \<in> set fl \<Longrightarrow> \<forall>v \<in> set_option a. typed_flat f v \<Longrightarrow> \<forall>v \<in> set_option b. typed_flat f v \<Longrightarrow>
      Cmp_flat f a b = Ok (kcmp (flat_key f a) (flat_key f b))"
    and "\<And>i v. i < len \<Longrightarrow> opt_vals len v0 ! i = Some v \<or> opt_vals len v1 ! i = Some v \<Longrightarrow>
      typed_flat (fl ! (i mod length fl)) v"
  shows "first_nz (\<lambda>(f, x, y). Cmp_flat f x y) (zip2_flats fl (opt_vals len v0) (opt_vals len v1) 0 len)
    = Ok (kcmps (elem_keys fl len v0) (elem_keys fl len v1))"
proof -
  have "Cmp_flat f a b = Ok (kcmp (flat_key f a) (flat_key f b))"
    if mem: "(f, a, b) \<in> set (zip2_flats fl (opt_vals len v0) (opt_vals len v1) 0 len)" for f a b
  proof -
    obtain i where i: "i < len" "f = fl ! (i mod length fl)" "a = opt_vals len v0 ! i" "b = opt_vals len v1 ! i"
      using mem assms(1) by (auto simp: zip2_flats_def)
    then show ?thesis using assms(1,3) by (intro assms(2)) auto
  qed
  then show ?thesis
    using assms(1) first_nz_kcmps [of "zip2_flats fl (opt_vals len v0) (opt_vals len v1) 0 len"
        "\<lambda>(f, x, y). Cmp_flat f x y" "\<lambda>(f, x, y). flat_key f x" "\<lambda>(f, x, y). flat_key f y"]
    by (fastforce simp: zip2_flats_def elem_keys_def comp_def)
qed

lemma Cmp_key:
  "wf_ops p \<Longrightarrow> \<forall>v \<in> set_option x. typed p v \<Longrightarrow> \<forall>v \<in> set_option y. typed p v \<Longrightarrow>
    Cmp p x y = Ok (kcmp (vkey p x) (vkey p y))"
  "wf_flat f \<Longrightarrow> \<forall>v \<in> set_option x. typed_flat f v \<Longrightarrow> \<forall>v \<in> set_option y. typed_flat f v \<Longrightarrow>
    Cmp_flat f x y = Ok (kcmp (flat_key f x) (flat_key f y))"
proof (induction p and f arbitrary: x y and x y rule: szl_ops.induct szl_flat.induct)
  case (SzlOps t fl)
  let ?k = "ty_kind t"
  show ?case
  proof (cases "BaseKind ?k")
    case True
    then show ?thesis using SzlOps.prems
      by (simp add: Cmp.simps Let_def CmpBase_key typed.simps vkey.simps del: BaseKind.simps)
  next
    case False
    obtain v0 n0 where x: "(case x of None \<Rightarrow> Ok [] | Some v \<Rightarrow> get_vals v) = Ok v0"
      "n0 = (if ?k = K_TUPLE then length fl else length v0)"
      "?k = K_TUPLE \<Longrightarrow> v0 = [] \<or> length v0 = length fl"
      "vkey (SzlOps t fl) x = KList (elem_keys fl n0 v0)"
      "\<And>i v. i < length v0 \<Longrightarrow> fl \<noteq> [] \<and> typed_flat (fl ! (i mod length fl)) (v0 ! i)"
      using typed_opt_vals [OF SzlOps.prems(1) False SzlOps.prems(2)] by metis
    obtain v1 n1 where y: "(case y of None \<Rightarrow> Ok [] | Some v \<Rightarrow> get_vals v) = Ok v1"
      "n1 = (if ?k = K_TUPLE then length fl else length v1)"
      "?k = K_TUPLE \<Longrightarrow> v1 = [] \<or> length v1 = length fl"
      "vkey (SzlOps t fl) y = KList (elem_keys fl n1 v1)"
      "\<And>i v. i < length v1 \<Longrightarrow> fl \<noteq> [] \<and> typed_flat (fl ! (i mod length fl)) (v1 ! i)"
      using typed_opt_vals [OF SzlOps.prems(1) False SzlOps.prems(3)] by metis
    define len where "len = (if ?k = K_MAP \<or> ?k = K_ARRAY then min (length v0) (length v1) else length fl)"
    have comp: "is_composite ?k" using wf_ops_kinds [OF SzlOps.prems(1)] False by simp
    show ?thesis
    proof (cases "v0 = [] \<and> v1 = [] \<or> ?k \<noteq> K_TUPLE \<and> (v0 = [] \<or> v1 = [])")
      case True
      then have "v0 = [] \<and> v1 = [] \<or> ?k \<noteq> K_TUPLE \<and> v0 = [] \<and> v1 \<noteq> []
          \<or> ?k \<noteq> K_TUPLE \<and> v0 \<noteq> [] \<and> v1 = []" by blast
      then show ?thesis
        using x(1,2,4) y(1,2,4) comp False
        by (auto simp: Cmp.simps Let_def is_composite_def kcmps_nil elem_keys_def simp del: BaseKind.simps)
    next
      case cont: False
      then have ne: "fl \<noteq> []" using x(5) y(5) by (metis length_greater_0_conv)
      have len: "0 < len" using cont comp x(3) y(3) ne by (auto simp: len_def is_composite_def)
      have "wf_flat f" if "f \<in> set fl" for f
        using SzlOps.prems(1) comp that by (auto simp: wf_ops.simps is_composite_def)
      then have fnz: "first_nz (\<lambda>(f, x, y). Cmp_flat f x y)
          (zip2_flats fl (opt_vals len v0) (opt_vals len v1) 0 len)
          = Ok (kcmps (elem_keys fl len v0) (elem_keys fl len v1))"
        using x(3,5) y(3,5) comp cont SzlOps.IH
        by (intro first_nz_flats) (auto simp: opt_vals_def len_def is_composite_def split: if_splits)
      show ?thesis
      proof (cases "?k = K_TUPLE")
        case True
        then show ?thesis using x y len fnz False cont
          by (auto simp: Cmp.simps Let_def is_composite_def len_def simp del: BaseKind.simps)
      next
        case tup: False
        then have m: "len = min (length v0) (length v1)" "len \<le> length v0" "len \<le> length v1" "v0 \<noteq> []" "v1 \<noteq> []"
          using comp cont by (auto simp: len_def is_composite_def)
        have "kcmp (vkey (SzlOps t fl) x) (vkey (SzlOps t fl) y) =
          (if kcmps (elem_keys fl len v0) (elem_keys fl len v1) \<noteq> 0
           then kcmps (elem_keys fl len v0) (elem_keys fl len v1) else CmpBaseT (<) (length v0) (length v1))"
          using x(2,4) y(2,4) tup m kcmps_len [of len "elem_keys fl n0 v0" "elem_keys fl n1 v1"]
          by (simp add: take_elem_keys del: kcmp_0)
        then show ?thesis using x(1) y(1) len fnz False cont tup comp m(1)
          by (auto simp: Cmp.simps Let_def is_composite_def simp del: BaseKind.simps kcmp_0)
      qed
    qed
  qed
next
  case (Flat k)
  then show ?case by (simp del: BaseKind.simps add: CmpBase_key)
next
  case (FlatOps k p)
  then show ?case by simp
qed


section \<open>Strict comparison\<close>

text \<open>The comparison as a relation, without the error path that typed values never take.\<close>

definition value_lt :: "szl_ops \<Rightarrow> szl_value \<Rightarrow> szl_value \<Rightarrow> bool" where
  "value_lt p a b = (Less p a b = Ok True)"

definition typed_for :: "szl_ops \<Rightarrow> szl_value \<Rightarrow> bool" where
  "typed_for p v = (wf_ops p \<and> typed p v)"

lemma value_lt_key:
  "typed_for p a \<Longrightarrow> typed_for p b \<Longrightarrow> value_lt p a b \<longleftrightarrow> vkey p (Some a) < vkey p (Some b)"
  by (simp add: value_lt_def typed_for_def Less_def Cmp_key less_okey_def)

lemma Less_value_lt: "typed_for p a \<Longrightarrow> typed_for p b \<Longrightarrow> Less p a b = Ok (value_lt p a b)"
  by (simp add: value_lt_def typed_for_def Less_def Cmp_key)

text \<open>What a comparison object has to promise to the structures that are kept in its
  order: on the values of the type, a strict weak order.\<close>

locale weight_order =
  fixes ok :: "'w \<Rightarrow> bool" and lt :: "'w \<Rightarrow> 'w \<Rightarrow> bool"
  assumes lt_asym: "ok a \<Longrightarrow> ok b \<Longrightarrow> lt a b \<Longrightarrow> \<not> lt b a"
    and lt_cotrans: "ok a \<Longrightarrow> ok b \<Longrightarrow> ok c \<Longrightarrow> lt a b \<Longrightarrow> lt a c \<or> lt c b"
begin

lemma lt_irrefl: "ok a \<Longrightarrow> \<not> lt a a"
  using lt_asym by blast

lemma lt_trans: "ok a \<Longrightarrow> ok b \<Longrightarrow> ok c \<Longrightarrow> lt a b \<Longrightarrow> lt b c \<Longrightarrow> lt a c"
  using lt_asym lt_cotrans by blast

lemma not_lt_trans: "ok a \<Longrightarrow> ok b \<Longrightarrow> ok c \<Longrightarrow> \<not> lt a b \<Longrightarrow> \<not> lt b c \<Longrightarrow> \<not> lt a c"
  using lt_cotrans by blast

end

interpretation by_less: weight_order "typed_for p" "value_lt p" for p
  by unfold_locales (auto simp: value_lt_key)

interpretation by_greater: weight_order "typed_for p" "\<lambda>a b. value_lt p b a" for p
  by unfold_locales (auto simp: value_lt_key)


section \<open>Properties\<close>


lemma pair_value_typed: "wf_ops pair_ops \<and> typed pair_ops pair_value \<and> typed pair_ops VZero"
  by (simp add: pair_ops_def pair_value_def pair_type_def new_type_def wf_ops.simps typed.simps
      zip_flats_def typed_base_def)


end
