(* ===== verification/Szl_Typed.thy ===== *)
theory Szl_Typed
  imports Szl_Order
begin

text \<open>
  The operations on values never abort on values of the type: clearing, memory accounting
  and assignment.  \<open>settle\<close> is what an assignment makes of its source: the same value,
  with every basic entry written out.
\<close>

section \<open>Induction over typed values\<close>

lemma wf_ops_flats: "wf_ops (SzlOps t fl) \<Longrightarrow> f \<in> set fl \<Longrightarrow> wf_flat f"
  by (auto simp: wf_ops.simps Let_def split: if_splits)

lemma wf_base_ops: "wf_ops (SzlOps t fl) \<Longrightarrow> BaseKind (ty_kind t) \<Longrightarrow> fl = [Flat (ty_kind t)]"
  by (simp add: wf_ops.simps del: BaseKind.simps)

lemma typed_cases:
  assumes "typed (SzlOps t fl) v" and "wf_ops (SzlOps t fl)" and "\<not> BaseKind (ty_kind t)"
  obtains "v = VZero"
  | vs where "v = VVals vs" "vs \<noteq> []" "ty_kind t = K_TUPLE \<Longrightarrow> length vs = length fl" "fl \<noteq> []"
      "\<And>f x. (f, x) \<in> set (zip_flats fl vs) \<Longrightarrow> typed_flat f x"
proof -
  have fl: "ty_kind t \<noteq> K_TUPLE \<Longrightarrow> fl \<noteq> []"
    using assms(2,3) by (auto simp: wf_ops.simps Let_def split: if_splits)
  consider "v = VZero" | vs where "v = VVals vs" "vs \<noteq> []" "ty_kind t = K_TUPLE \<longrightarrow> length vs = length fl"
      "\<forall>(f, x) \<in> set (zip_flats fl vs). typed_flat f x"
    using assms(1,3) by (auto simp: typed.simps Let_def simp del: BaseKind.simps split: szl_value.splits)
  then show thesis
  proof cases
    case 1
    then show thesis by (rule that(1))
  next
    case 2
    then have "fl \<noteq> []" using fl by (cases "ty_kind t = K_TUPLE") auto
    then show thesis using 2 by (intro that(2)) auto
  qed
qed

text \<open>The same as an inductive predicate, for its induction rule: a property of all typed
  values follows from the basic kinds, the empty values and the composite ones whose
  entries have it.\<close>

inductive tv :: "szl_ops \<Rightarrow> szl_value \<Rightarrow> bool" and tvf :: "szl_flat \<Rightarrow> szl_value \<Rightarrow> bool" where
  tv_base: "BaseKind (ty_kind t) \<Longrightarrow> typed_base (ty_kind t) v \<Longrightarrow> tv (SzlOps t [Flat (ty_kind t)]) v"
| tv_zero: "is_composite (ty_kind t) \<Longrightarrow> wf_ops (SzlOps t fl) \<Longrightarrow> tv (SzlOps t fl) VZero"
| tv_vals: "is_composite (ty_kind t) \<Longrightarrow> wf_ops (SzlOps t fl) \<Longrightarrow> typed (SzlOps t fl) (VVals vs) \<Longrightarrow>
    vs \<noteq> [] \<Longrightarrow> fl \<noteq> [] \<Longrightarrow> (ty_kind t = K_TUPLE \<longrightarrow> length vs = length fl) \<Longrightarrow>
    (\<And>f x. (f, x) \<in> set (zip_flats fl vs) \<Longrightarrow> tvf f x) \<Longrightarrow> tv (SzlOps t fl) (VVals vs)"
| tvf_flat: "BaseKind k \<Longrightarrow> typed_base k v \<Longrightarrow> tvf (Flat k) v"
| tvf_ops: "k = ty_kind (ops_type p) \<Longrightarrow> is_composite k \<Longrightarrow> tv p v \<Longrightarrow> tvf (FlatOps k p) v"

lemma typed_tv:
  "wf_ops p \<Longrightarrow> typed p v \<Longrightarrow> tv p v"
  "wf_flat f \<Longrightarrow> typed_flat f v \<Longrightarrow> tvf f v"
proof (induction p and f arbitrary: v and v rule: szl_ops.induct szl_flat.induct)
  case (SzlOps t fl)
  show ?case
  proof (cases "BaseKind (ty_kind t)")
    case True
    then show ?thesis
      using SzlOps.prems wf_base_ops [OF SzlOps.prems(1) True]
      by (simp add: typed.simps tv_base del: BaseKind.simps)
  next
    case False
    have comp: "is_composite (ty_kind t)" using wf_ops_kinds [OF SzlOps.prems(1)] False by simp
    show ?thesis
    proof (cases rule: typed_cases [OF SzlOps.prems(2,1) False])
      case 1
      then show ?thesis using comp SzlOps.prems(1) by (simp add: tv_zero)
    next
      case (2 vs)
      have "tvf f x" if "(f, x) \<in> set (zip_flats fl vs)" for f x
        using 2(5) that SzlOps.IH wf_ops_flats [OF SzlOps.prems(1)] zip_flats_mem [OF that] by blast
      then show ?thesis using 2 SzlOps.prems comp by (simp add: tv_vals)
    qed
  qed
qed (auto intro: tvf_flat tvf_ops)

lemma tv_typed:
  "tv p v \<Longrightarrow> wf_ops p \<and> typed p v"
  "tvf f v \<Longrightarrow> wf_flat f \<and> typed_flat f v"
proof (induction rule: tv_tvf.inducts)
  case (tv_base t v)
  then show ?case by (simp add: wf_ops.simps typed.simps del: BaseKind.simps)
next
  case (tv_zero t fl)
  then show ?case by (auto simp: typed.simps is_composite_def)
qed simp_all

lemma typed_for_iff: "typed_for p v \<longleftrightarrow> tv p v"
  using typed_tv(1) tv_typed(1) by (auto simp: typed_for_def)


section \<open>Clearing and memory\<close>

lemma base_kinds:
  "BaseKind k \<longleftrightarrow> IsSimpleBaseKind k \<or> k = K_STRING \<or> k = K_BYTES"
  "IsSimpleBaseKind k \<Longrightarrow> k \<noteq> K_STRING \<and> k \<noteq> K_BYTES"
  by (auto simp: IsSimpleBaseKind_def)

lemma composite_not_base: 
  "is_composite k \<Longrightarrow> \<not> IsSimpleBaseKind k \<and> k \<noteq> K_STRING \<and> k \<noteq> K_BYTES \<and> k \<noteq> K_FLOAT"
  by (auto simp: is_composite_def IsSimpleBaseKind_def)

lemma typed_base_get:
  "typed_base k v \<Longrightarrow> k = K_STRING \<or> k = K_BYTES \<Longrightarrow> \<exists>b. get_buf v = Ok b"
  "typed_base k v \<Longrightarrow> k = K_FLOAT \<Longrightarrow> \<exists>f. get_f v = Ok f \<and> \<not> is_nan f"
  "typed_base k v \<Longrightarrow> IsSimpleBaseKind k \<Longrightarrow> k \<noteq> K_FLOAT \<Longrightarrow> \<exists>i. get_i v = Ok i"
  by (cases v; auto simp: typed_base_def IsSimpleBaseKind_def)+

lemma map_res_flats_total:
  assumes "\<And>f x. (f, x) \<in> set zs \<Longrightarrow> \<exists>r. g f x = Ok r"
  shows "\<exists>rs. map_res (\<lambda>(f, x). g f x) zs = Ok rs"
  using map_res_Ok [of zs "\<lambda>(f, x). g f x" "\<lambda>(f, x). case g f x of Inr m \<Rightarrow> m"] assms by force

lemma Clear_typed:
  "tv p v \<Longrightarrow> Clear p v = Ok (if IsSimpleBaseKind (ty_kind (ops_type p)) then v else VZero)"
  "tvf f v \<Longrightarrow> Clear_flat f v = Ok (if IsSimpleBaseKind (flat_kind f) then v else VZero)"
proof (induction rule: tv_tvf.inducts)
  case (tv_base t v)
  then show ?case
    using typed_base_get(1) [of "ty_kind t" v] base_kinds [of "ty_kind t"] by (auto simp del: BaseKind.simps)
next
  case (tv_vals t fl vs)
  then have "\<exists>r. map_res (\<lambda>(f, x). Clear_flat f x) (zip_flats fl vs) = Ok r"
    by (intro map_res_flats_total) blast
  then show ?case using tv_vals composite_not_base by auto
next
  case (tvf_flat k v)
  then show ?case using typed_base_get(1) [of k v] base_kinds [of k] by (auto simp del: BaseKind.simps)
qed (auto simp: Let_def dest: composite_not_base)

lemma Memory_typed:
  "tv p v \<Longrightarrow> \<exists>m. Memory p v = Ok m"
  "tvf f v \<Longrightarrow> \<exists>m. Memory_flat f v = Ok m"
proof (induction rule: tv_tvf.inducts)
  case (tv_base t v)
  then show ?case
    using typed_base_get(1) [of "ty_kind t" v] base_kinds [of "ty_kind t"] by (auto simp del: BaseKind.simps)
next
  case (tv_vals t fl vs)
  then have "\<exists>r. map_res (\<lambda>(f, x). Memory_flat f x) (zip_flats fl vs) = Ok r"
    by (intro map_res_flats_total) blast
  then show ?case using tv_vals composite_not_base by auto
next
  case (tvf_flat k v)
  then show ?case using typed_base_get(1) [of k v] base_kinds [of k] by (auto simp del: BaseKind.simps)
qed (auto simp: Let_def dest: composite_not_base)


section \<open>Assignment\<close>

definition settle_base :: "szl_kind \<Rightarrow> szl_value \<Rightarrow> szl_value" where
  "settle_base k v =
     (case v of
        VZero \<Rightarrow> if k = K_FLOAT then VFloat 0 else if IsSimpleBaseKind k then VInt 0 else VZero
      | VBuf b \<Rightarrow> mk_buf b
      | _ \<Rightarrow> v)"

fun settle :: "szl_ops \<Rightarrow> szl_value \<Rightarrow> szl_value"
and settle_flat :: "szl_flat \<Rightarrow> szl_value \<Rightarrow> szl_value" where
  "settle (SzlOps t fl) v =
     (if BaseKind (ty_kind t) then settle_base (ty_kind t) v
      else case v of
        VVals vs \<Rightarrow> VVals (map (\<lambda>(f, x). settle_flat f x) (zip_flats fl vs))
      | _ \<Rightarrow> v)"
| "settle_flat (FlatOps k p) v = settle p v"
| "settle_flat (Flat k) v = settle_base k v"

declare settle.simps [simp del]

lemma assign_base:
  assumes "BaseKind k" and "typed_base k s" and "typed_base k d"
  shows "Assign_flat (Flat k) s d = Ok (settle_base k s)"
  using assms typed_base_get(1) [of k d]
  by (cases s) (auto simp: typed_base_def settle_base_def IsSimpleBaseKind_def ReplaceSzlValueBuf_def mk_buf_def)

lemma map_res_zip2:
  assumes "fl \<noteq> []" and "length vs = length ws"
    and "\<And>i. i < length vs \<Longrightarrow> g (fl ! (i mod length fl)) (vs ! i) (ws ! i) = Ok (h (fl ! (i mod length fl)) (vs ! i))"
  shows "map_res (\<lambda>(f, x, y). g f x y) (zip2_flats fl vs ws 0 (length vs))
    = Ok (map (\<lambda>(f, x). h f x) (zip_flats fl vs))"
proof -
  have "map_res (\<lambda>(f, x, y). g f x y) (zip2_flats fl vs ws 0 (length vs))
      = Ok (map (\<lambda>(f, x, y). h f x) (zip2_flats fl vs ws 0 (length vs)))"
    using assms by (intro map_res_Ok) (auto simp: zip2_flats_def)
  then show ?thesis using assms(1) by (simp add: zip2_flats_def zip_flats_def comp_def)
qed

lemma tv_slots:
  assumes "tv (SzlOps t fl) v" and "is_composite (ty_kind t)"
  obtains vs where "get_vals v = Ok vs" and "\<And>i. i < length vs \<Longrightarrow> tvf (fl ! (i mod length fl)) (vs ! i)"
    and "ty_kind t = K_TUPLE \<Longrightarrow> vs = [] \<or> length vs = length fl" and "vs = [] \<longleftrightarrow> v = VZero"
    and "vs \<noteq> [] \<Longrightarrow> v = VVals vs \<and> fl \<noteq> []"
  using assms(1)
proof cases
  case tv_base
  then show ?thesis using assms(2) composite_not_base base_kinds by blast
next
  case tv_zero
  then show ?thesis by (intro that [of "[]"]) auto
next
  case (tv_vals vs)
  then show ?thesis by (intro that [of vs]) (auto simp: zip_flats_def)
qed

lemma typed_VZero [simp]: "typed p VZero"
  by (cases p) (simp add: typed.simps typed_base_def Let_def)

lemma tvf_zero: "wf_flat f \<Longrightarrow> tvf f VZero"
  by (cases f) (auto simp: typed_base_def intro!: tvf_flat tvf_ops typed_tv(1))

lemma Assign_base_ops:
  "BaseKind (ty_kind t) \<Longrightarrow> Assign (SzlOps t fl) s d = Assign_flat (Flat (ty_kind t)) s d"
  by (auto simp: Assign.simps Let_def IsSimpleBaseKind_def)

text \<open>Assigning all entries of a composite value that is not empty.\<close>

lemma Assign_vals:
  assumes "is_composite (ty_kind t)" and "wf_ops (SzlOps t fl)" and "vs \<noteq> []" and "fl \<noteq> []"
    and "ty_kind t = K_TUPLE \<longrightarrow> length vs = length fl" and "tv (SzlOps t fl) d"
    and "\<And>f x y. (f, x) \<in> set (zip_flats fl vs) \<Longrightarrow> tvf f y \<Longrightarrow> Assign_flat f x y = Ok (h f x)"
  shows "Assign (SzlOps t fl) (VVals vs) d = Ok (VVals (map (\<lambda>(f, x). h f x) (zip_flats fl vs)))"
proof -
  note kinds = composite_not_base [OF assms(1)]
  obtain vd where d: "get_vals d = Ok vd" "\<And>i. i < length vd \<Longrightarrow> tvf (fl ! (i mod length fl)) (vd ! i)"
    "ty_kind t = K_TUPLE \<Longrightarrow> vd = [] \<or> length vd = length fl" "vd = [] \<longleftrightarrow> d = VZero"
    using tv_slots [OF assms(6,1)] by metis
  define ws where "ws = (if length vs \<noteq> length vd then [] else vd)"
  define dvals where "dvals = (if ws = [] then replicate (length vs) VZero else ws)"
  have clear: "bind_res (if length vs \<noteq> length vd then
      bind_res (check (ty_kind t \<noteq> K_TUPLE \<or> vs = [] \<or> vd = []))
        (\<lambda>_. bind_res (Clear (SzlOps t fl) d) get_vals) else Ok vd) g = g ws" for g :: "szl_value list \<Rightarrow> szl_value res"
    using d(3) assms(5) Clear_typed(1) [OF assms(6)] kinds by (auto simp: ws_def)
  have "length dvals = length vs" by (auto simp: dvals_def ws_def)
  moreover have "tvf (fl ! (i mod length fl)) (dvals ! i)" if "i < length vs" for i
    using d(2) that assms(4) tvf_zero wf_ops_flats [OF assms(2)] by (auto simp: dvals_def ws_def)
  moreover have "(fl ! (i mod length fl), vs ! i) \<in> set (zip_flats fl vs)" if "i < length vs" for i
    using that assms(4) by (auto simp: zip_flats_def)
  ultimately have "map_res (\<lambda>(f, x, y). Assign_flat f x y) (zip2_flats fl vs dvals 0 (length vs))
      = Ok (map (\<lambda>(f, x). h f x) (zip_flats fl vs))" and len: "length dvals = length vs"
    using assms(4,7) by (simp_all add: map_res_zip2)
  moreover have "zip_flats fl vs \<noteq> []" using assms(3,4) by (simp add: zip_flats_def)
  ultimately have "AssignRange (SzlOps t fl) (VVals vs) 0 (length vs) d
      = Ok (VVals (map (\<lambda>(f, x). h f x) (zip_flats fl vs)))"
    unfolding AssignRange.simps Let_def get_vals.simps d(1) bind_res_Ok clear
    using assms(1,3,5) len by (simp flip: dvals_def add: mk_vals_def)
  then show ?thesis using assms(1) kinds by (simp add: Assign.simps)
qed

lemma Assign_typed:
  "tv p s \<Longrightarrow> tv p d \<Longrightarrow> Assign p s d = Ok (settle p s)"
  "tvf f s \<Longrightarrow> tvf f d \<Longrightarrow> Assign_flat f s d = Ok (settle_flat f s)"
proof (induction arbitrary: d and d rule: tv_tvf.inducts)
  case (tv_base t s)
  then show ?case
    using assign_base [OF tv_base(1,2), of d] tv_typed(1) [OF tv_base(3)]
    by (simp add: Assign_base_ops settle.simps typed.simps Let_def del: BaseKind.simps Assign_flat.simps)
next
  case (tv_zero t fl)
  note kinds = composite_not_base [OF tv_zero(1)]
  obtain vd where "get_vals d = Ok vd" "vd = [] \<longleftrightarrow> d = VZero" using tv_slots [OF tv_zero(3,1)] by metis
  then show ?case using tv_zero(1) kinds Clear_typed(1) [OF tv_zero(3)] base_kinds(1) [of "ty_kind t"]
    by (auto simp: Assign.simps AssignRange.simps Let_def mk_vals_def settle.simps simp del: BaseKind.simps)
next
  case (tv_vals t fl vs)
  then have "Assign (SzlOps t fl) (VVals vs) d = Ok (VVals (map (\<lambda>(f, x). settle_flat f x) (zip_flats fl vs)))"
    by (intro Assign_vals) auto
  then show ?case
    using composite_not_base [OF tv_vals(1)] base_kinds(1) [of "ty_kind t"] by (simp add: settle.simps del: BaseKind.simps)
next
  case (tvf_flat k v)
  then show ?case
    using assign_base [OF tvf_flat(1,2)] tv_typed(2) [OF tvf_flat(3)] by (simp del: BaseKind.simps Assign_flat.simps)
next
  case (tvf_ops k p v)
  from tvf_ops.prems have "tv p d" by cases
  then show ?case using tvf_ops.IH by simp
qed

lemma zip_flats_map:
  "zip_flats fl (map (\<lambda>(f, x). h f x) (zip_flats fl vs)) = map (\<lambda>(f, x). (f, h f x)) (zip_flats fl vs)"
  by (auto simp: zip_flats_def intro!: nth_equalityI)

lemma settle_base_facts:
  assumes "BaseKind k" and "typed_base k v"
  shows "typed_base k (settle_base k v)" and "base_key k (Some (settle_base k v)) = base_key k (Some v)"
  using assms by (auto simp: typed_base_def settle_base_def base_key_def mk_buf_def IsSimpleBaseKind_def
      split: szl_value.splits)

lemma settle_typed:
  "tv p v \<Longrightarrow> tv p (settle p v) \<and> vkey p (Some (settle p v)) = vkey p (Some v)"
  "tvf f v \<Longrightarrow> tvf f (settle_flat f v) \<and> flat_key f (Some (settle_flat f v)) = flat_key f (Some v)"
proof (induction rule: tv_tvf.inducts)
  case (tv_base t v)
  then show ?case
    using settle_base_facts [OF tv_base] by (simp add: settle.simps vkey.simps tv_tvf.tv_base del: BaseKind.simps)
next
  case (tv_zero t fl)
  then show ?case using composite_not_base [OF tv_zero(1)] base_kinds(1) [of "ty_kind t"]
    by (simp add: settle.simps tv_tvf.tv_zero del: BaseKind.simps)
next
  case (tv_vals t fl vs)
  let ?ws = "map (\<lambda>(f, x). settle_flat f x) (zip_flats fl vs)"
  have nb: "\<not> BaseKind (ty_kind t)" using composite_not_base [OF tv_vals(1)] base_kinds(1) by blast
  have s: "settle (SzlOps t fl) (VVals vs) = VVals ?ws" using nb by (simp add: settle.simps del: BaseKind.simps)
  have len: "length (zip_flats fl vs) = length vs" using tv_vals(5) by (simp add: zip_flats_def)
  have mem: "tvf f x \<and> (\<exists>y. x = settle_flat f y \<and> (f, y) \<in> set (zip_flats fl vs))"
    if "(f, x) \<in> set (zip_flats fl ?ws)" for f x
    using that tv_vals.IH by (auto simp: zip_flats_map)
  have "typed (SzlOps t fl) (VVals ?ws)"
    using tv_vals(3,4,6) nb len mem tv_typed(2) by (fastforce simp: typed.simps Let_def simp del: BaseKind.simps)
  then have "tv (SzlOps t fl) (VVals ?ws)" using tv_vals(2) by (simp add: typed_tv(1))
  moreover have "map (\<lambda>(f, x). flat_key f (Some x)) (zip_flats fl ?ws) = map (\<lambda>(f, x). flat_key f (Some x)) (zip_flats fl vs)"
    using tv_vals.IH by (auto simp: zip_flats_map)
  ultimately show ?case using s nb by (simp add: vkey.simps del: BaseKind.simps)
next
  case (tvf_flat k v)
  then show ?case using settle_base_facts [OF tvf_flat] by (simp add: tv_tvf.tvf_flat del: BaseKind.simps)
next
  case (tvf_ops k p v)
  then show ?case by (simp add: tv_tvf.tvf_ops)
qed


section \<open>Properties\<close>

text \<open>C30. Assignment copies: it never aborts on values of the type, what the destination held
  before does not matter, and the copy is a value of the type that compares equal to the
  source.\<close>

theorem Assign_copies:
  assumes "wf_ops p" and "typed p s" and "typed p d"
  shows "\<exists>r. Assign p s d = Ok r \<and> Assign p s VZero = Ok r \<and> typed p r \<and> Eq p s r = Ok True"
proof -
  have tv: "tv p s" "tv p d" "tv p VZero" using assms typed_tv(1) by auto
  then have "typed p (settle p s)" "vkey p (Some (settle p s)) = vkey p (Some s)"
    using settle_typed(1) tv_typed(1) by blast+
  then show ?thesis using tv assms Assign_typed(1) [of p s] by (auto simp: Eq_def Cmp_key)
qed

theorem Assign_copies_witness:
  "\<exists>r. Assign pair_ops pair_value VZero = Ok r \<and> typed pair_ops r \<and> Eq pair_ops pair_value r = Ok True"
  using Assign_copies [of pair_ops pair_value VZero] pair_value_typed by blast

end
