(* ===== verification/Szl_Entry.thy ===== *)
theory Szl_Entry
  imports Szl_Typed "HOL-Library.Multiset"
begin

text \<open>
  The interface of the tables, \<open>SzlTabEntry\<close> and \<open>SzlTabWriter\<close> of
  src/src/public/szltabentry.h, and the contract its implementations keep: an entry stands
  for the multiset of the elements added to it, and merging the flushed state of another
  entry adds that entry's elements.  From the contract follows what the program needs of a
  table: however the input is split into shards, flushing every shard's entry and merging
  the results gives an entry for the whole input.
\<close>

section \<open>Writers\<close>

record szl_tab_writer =
  tw_param :: int
  tw_has_indices :: bool
  tw_has_weight :: bool
  tw_aggregates :: bool
  tw_filters :: bool
  tw_element_ops :: szl_ops
  tw_weight_ops :: szl_ops

definition new_tab_writer :: "registry \<Rightarrow> szl_type \<Rightarrow> bool \<Rightarrow> bool \<Rightarrow> szl_tab_writer res" where
  "new_tab_writer reg t aggregates filters =
     (case ty_element t of
        None \<Rightarrow> Inl Null_deref
      | Some el \<Rightarrow>
          bind_res (new_ops reg (fd_type el)) (\<lambda>eops.
          bind_res (new_ops reg (case ty_weight t of Some w \<Rightarrow> fd_type w | None \<Rightarrow> kInt)) (\<lambda>wops.
          Ok \<lparr>tw_param = ty_param t, tw_has_indices = (indices_size t \<noteq> 0),
              tw_has_weight = (ty_weight t \<noteq> None), tw_aggregates = aggregates, tw_filters = filters,
              tw_element_ops = eops, tw_weight_ops = wops\<rparr>)))"

text \<open>A creator gives a writer or an error message; the registry maps table kinds to creators.\<close>

type_synonym 'w creator = "szl_type \<Rightarrow> (string + 'w) res"

definition CreateSzlTabWriter :: "(string \<rightharpoonup> 'w creator) option \<Rightarrow> szl_type \<Rightarrow> (string + 'w) res" where
  "CreateSzlTabWriter creators t =
     (case creators of
        None \<Rightarrow> Ok (Inl ''no SzlTabWriters are registered'')
      | Some cs \<Rightarrow>
          if ty_kind t \<noteq> K_TABLE then Ok (Inl ''the SzlType is not of type table'')
          else case cs (ty_table t) of
            None \<Rightarrow> Ok (Inl ''unknown szl table type'')
          | Some creator \<Rightarrow> creator t)"

text \<open>The operations an entry does not override abort.\<close>

definition default_AddElem :: "'s \<Rightarrow> bytes \<Rightarrow> (int \<times> 's) res" where
  "default_AddElem s elem = Inl (Fatal ''Call to AddElem() for a table that does not support it.'')"

definition default_AddWeightedElem :: "'s \<Rightarrow> bytes \<Rightarrow> szl_value \<Rightarrow> (int \<times> 's) res" where
  "default_AddWeightedElem s elem weight =
     Inl (Fatal ''Call to AddWeightedElem() for a table that does not support it.'')"


section \<open>The contract of an entry\<close>

datatype merge_status = MergeOk | MergeError

locale tab_entry =
  fixes fits :: "'e multiset \<Rightarrow> bool"
    and rep :: "'e multiset \<Rightarrow> 's \<Rightarrow> bool"
    and init :: 's
    and add :: "'e \<Rightarrow> 's \<Rightarrow> 's res"
    and flush :: "'s \<Rightarrow> (bytes \<times> 's) res"
    and merge :: "bytes \<Rightarrow> 's \<Rightarrow> (merge_status \<times> 's) res"
  assumes fits_sub: "fits (M + N) \<Longrightarrow> fits M"
    and rep_init: "rep {#} init"
    and rep_add: "rep M s \<Longrightarrow> fits (add_mset e M) \<Longrightarrow> \<exists>s'. add e s = Ok s' \<and> rep (add_mset e M) s'"
    and rep_flush: "rep M s \<Longrightarrow> fits M \<Longrightarrow> \<exists>b s'. flush s = Ok (b, s') \<and> rep {#} s'"
    and rep_merge: "rep M s \<Longrightarrow> flush s = Ok (b, s') \<Longrightarrow> rep N t \<Longrightarrow> fits (M + N) \<Longrightarrow>
      \<exists>t'. merge b t = Ok (MergeOk, t') \<and> rep (M + N) t'"
begin

lemma fits_subset: "fits M \<Longrightarrow> N \<subseteq># M \<Longrightarrow> fits N"
  using fits_sub by (metis subset_mset.add_diff_inverse)

lemma add_list:
  "rep M s \<Longrightarrow> fits (mset es + M) \<Longrightarrow> \<exists>s'. fold_res add es s = Ok s' \<and> rep (mset es + M) s'"
proof (induction es arbitrary: M s)
  case (Cons e es)
  have "add_mset e M \<subseteq># mset (e # es) + M" by simp
  then have "fits (add_mset e M)" by (rule fits_subset [OF Cons.prems(2)])
  then obtain s1 where s1: "add e s = Ok s1" "rep (add_mset e M) s1" using rep_add Cons.prems(1) by blast
  have "fits (mset es + add_mset e M)" using Cons.prems(2) by simp
  from Cons.IH [OF s1(2) this] show ?case using s1(1) by auto
qed simp

text \<open>One shard after the other is run on a fresh entry, flushed and merged.\<close>

definition merge_shard :: "'e list \<Rightarrow> 's \<Rightarrow> 's res" where
  "merge_shard es t =
     bind_res (fold_res add es init) (\<lambda>s.
     bind_res (flush s) (\<lambda>(b, _).
     bind_res (merge b t) (\<lambda>(st, t'). if st = MergeOk then Ok t' else Inl Check_failed)))"

lemma merge_shard_rep:
  assumes "rep N t" and "fits (mset es + N)"
  shows "\<exists>t'. merge_shard es t = Ok t' \<and> rep (mset es + N) t'"
proof -
  have "fits (mset es)" using fits_subset [OF assms(2)] by simp
  then obtain s where s: "fold_res add es init = Ok s" "rep (mset es) s"
    using add_list [OF rep_init, of es] by auto
  obtain b s' where f: "flush s = Ok (b, s')" using rep_flush [OF s(2) \<open>fits (mset es)\<close>] by blast
  obtain t' where "merge b t = Ok (MergeOk, t')" "rep (mset es + N) t'"
    using rep_merge [OF s(2) f assms(1,2)] by blast
  then show ?thesis using s(1) f by (simp add: merge_shard_def)
qed

lemma sharding:
  "rep N t \<Longrightarrow> fits (mset (concat shards) + N) \<Longrightarrow>
    \<exists>t'. fold_res merge_shard shards t = Ok t' \<and> rep (mset (concat shards) + N) t'"
proof (induction shards arbitrary: N t)
  case (Cons es shards)
  have "fits (mset es + N)" by (rule fits_subset [OF Cons.prems(2)]) simp
  then obtain t1 where t1: "merge_shard es t = Ok t1" "rep (mset es + N) t1"
    using merge_shard_rep [OF Cons.prems(1)] by blast
  have "fits (mset (concat shards) + (mset es + N))" using Cons.prems(2) by (simp add: ac_simps)
  from Cons.IH [OF t1(2) this] show ?case using t1(1) by (auto simp: ac_simps)
qed simp

lemma sharding_init:
  "fits (mset (concat shards)) \<Longrightarrow>
    \<exists>t. fold_res merge_shard shards init = Ok t \<and> rep (mset (concat shards)) t"
  using sharding [OF rep_init, of shards] by simp

end


section \<open>Encoded elements\<close>

text \<open>\<open>e\<close> is the encoding of \<open>v\<close>, a value in the form the decoder builds.\<close>

definition encodes :: "host_config \<Rightarrow> szl_ops \<Rightarrow> szl_value \<Rightarrow> bytes \<Rightarrow> bool" where
  "encodes hc p v e \<longleftrightarrow> canon p v \<and> wf_ops p \<and> wired (Encode hc p v) (ops_Skip p) (Decode hc p VZero) v e"

lemma encodes_exists: "wf_ops p \<Longrightarrow> canon p v \<Longrightarrow> \<exists>e. encodes hc p v e"
  using values_wired(1) [of p v True hc] by (auto simp: encodes_def wired_def Encode_def ops_Skip_def Decode_def)

lemma encodesD:
  assumes "encodes hc p v e"
  shows "Encode hc p v enc = Ok (AppendEncoding e enc)"
    and "cur d = e @ r \<Longrightarrow> ops_Skip p d = Some (adv (length e) d)"
    and "cur d = e @ r \<Longrightarrow> Decode hc p VZero d = Ok (Some (v, adv (length e) d))"
  using assms by (auto simp: encodes_def wired_def)

lemma encodes_unique: "encodes hc p v e \<Longrightarrow> encodes hc p v e' \<Longrightarrow> e = e'"
proof -
  assume "encodes hc p v e" "encodes hc p v e'"
  then have "AppendEncoding e new_encoder = AppendEncoding e' new_encoder" by (metis encodesD(1) Inr_inject)
  then have "enc_data (AppendEncoding e new_encoder) = enc_data (AppendEncoding e' new_encoder)" by simp
  then show ?thesis by simp
qed

lemma enc_data_new [simp]: "enc_data new_encoder = []"
  by (simp add: new_encoder_def SetVersion_def)

lemma int_enc_nonempty [simp]: "int_enc v \<noteq> []"
  by (simp add: int_enc_def p8_enc_def n8_enc_def)

lemma parse_encoded: "encodes hc p v e \<Longrightarrow> ParseFromArray hc p e VZero = Ok (Some v)"
  using encodesD(3) [of hc p v e "new_decoder e" "[]"] by (simp add: ParseFromArray_def)


section \<open>Decoding over an old value\<close>

text \<open>What a variable held before does not change what is decoded into it.\<close>

lemma decode_seq_ext:
  assumes "\<And>f x d. (f, x) \<in> set zs \<Longrightarrow> g f x d = g f VZero d"
  shows "decode_seq g zs d = decode_seq g (map (\<lambda>(f, x). (f, VZero)) zs) d"
  using assms
proof (induction zs arbitrary: d)
  case (Cons z zs)
  obtain f x where z: "z = (f, x)" by (cases z)
  then have "g f x d = g f VZero d" using Cons.prems by simp
  moreover have "decode_seq g zs = decode_seq g (map (\<lambda>(f, x). (f, VZero)) zs)"
    using Cons.IH Cons.prems by auto
  ultimately show ?case by (simp add: z)
qed simp

lemma zip_flats_zero:
  "map (\<lambda>(f, x). (f, VZero)) (zip_flats fl vs) = zip_flats fl (replicate (length vs) VZero)"
  by (auto simp: zip_flats_def)

lemma SzlOpsDoDecode_over:
  "typed_base k v \<Longrightarrow> SzlOpsDoDecode hc k d v = SzlOpsDoDecode hc k d VZero"
  using typed_base_get(1) [of k v] by (auto simp: SzlOpsDoDecode_def ReplaceSzlValueBuf_def cong: if_cong)

lemma resize_vals_tv:
  assumes "tv (SzlOps t fl) (VVals vs)" and "is_composite (ty_kind t)" and "vs \<noteq> []"
  shows "resize_vals (SzlOps t fl) len (VVals vs) = Ok (if len = length vs then vs else replicate len VZero)"
    and "resize_vals (SzlOps t fl) len VZero = Ok (replicate len VZero)"
proof -
  have "tv (SzlOps t fl) VZero" using tv_typed(1) [OF assms(1)] by (simp add: typed_tv(1))
  then show "resize_vals (SzlOps t fl) len (VVals vs) = Ok (if len = length vs then vs else replicate len VZero)"
    and "resize_vals (SzlOps t fl) len VZero = Ok (replicate len VZero)"
    using Clear_typed(1) [OF assms(1)] Clear_typed(1) [of "SzlOps t fl" VZero] composite_not_base [OF assms(2)] assms(3)
    by (auto simp: resize_vals_def simp del: Clear.simps)
qed

lemma Decode_over:
  "tv p u \<Longrightarrow> DecodeInternal hc p lev u d = DecodeInternal hc p lev VZero d"
  "tvf f u \<Longrightarrow> Decode_flat hc f u d = Decode_flat hc f VZero d"
proof (induction arbitrary: lev d and d rule: tv_tvf.inducts)
  case (tv_base t v)
  then show ?case
    using SzlOpsDoDecode_over [OF tv_base(2)] kind_distinct [OF tv_base(1)]
    by (simp add: DecodeInternal.simps Let_def del: BaseKind.simps)
next
  case (tv_vals t fl vs)
  have tv: "tv (SzlOps t fl) (VVals vs)"
    using tv_vals by (intro tv_tvf.tv_vals) auto
  have seq: "decode_seq (\<lambda>f v d. Decode_flat hc f v d) (zip_flats fl vs) d =
      decode_seq (\<lambda>f v d. Decode_flat hc f v d) (zip_flats fl (replicate (length vs) VZero)) d" for d
    using decode_seq_ext [of "zip_flats fl vs" "\<lambda>f v d. Decode_flat hc f v d"] tv_vals.IH
    by (simp add: zip_flats_zero)
  show ?case
  proof (cases "ty_kind t = K_TUPLE")
    case True
    then show ?thesis using seq tv_vals(4,6) by (simp add: DecodeInternal.simps Let_def cong: option.case_cong)
  next
    case False
    then have "ty_kind t = K_MAP \<or> ty_kind t = K_ARRAY" using tv_vals(1) by (auto simp: is_composite_def)
    moreover have "bind_res (resize_vals (SzlOps t fl) len (VVals vs))
          (\<lambda>vs. bind_res (decode_seq (\<lambda>f v d. Decode_flat hc f v d) (zip_flats fl vs) d) g) =
        bind_res (resize_vals (SzlOps t fl) len VZero)
          (\<lambda>vs. bind_res (decode_seq (\<lambda>f v d. Decode_flat hc f v d) (zip_flats fl vs) d) g)"
      for len d and g :: "(szl_value list \<times> szl_decoder) option \<Rightarrow> (szl_value \<times> szl_decoder) option res"
      using resize_vals_tv [OF tv tv_vals(1,4)] seq by simp
    ultimately show ?thesis using False by (simp add: DecodeInternal.simps Let_def cong: option.case_cong)
  qed
next
  case (tvf_flat k v)
  then show ?case using SzlOpsDoDecode_over by (simp del: BaseKind.simps)
qed simp_all

end
