(* ===== verification/Szl_Arith.thy ===== *)
theory Szl_Arith
  imports Szl_Value
begin

text \<open>
  Negation, addition and subtraction of values (\<open>Negate\<close>, \<open>Add\<close>, \<open>Sub\<close> of \<open>SzlOps\<close>).
  Integers wrap around at 64 bits; doubles follow \<open>Szl_Float\<close>.  The sum of two maps is
  computed as in the code: a first pass over the two sorted key sequences decides where
  every pair goes, a second pass moves and adds the pairs.
\<close>

section \<open>Negation\<close>

lemma zip_zip2_flats_size [termination_simp]:
  "(i, f, x, y) \<in> set (zip is (zip2_flats fl xs ys a b)) \<Longrightarrow> size f < Suc (size_list size fl)"
  by (rule zip2_flats_size [OF set_zip_rightD])

fun Negate :: "szl_ops \<Rightarrow> szl_value \<Rightarrow> szl_value \<Rightarrow> szl_value res"
and Negate_flat :: "szl_flat \<Rightarrow> szl_value \<Rightarrow> szl_value \<Rightarrow> szl_value res" where
  "Negate (SzlOps t fl) s d =
     (let k = ty_kind t in
      if k = K_FLOAT then bind_res (get_f s) (\<lambda>f. Ok (VFloat (dbl_neg f)))
      else if IsSimpleBaseKind k then bind_res (get_i s) (\<lambda>i. Ok (VInt (- i)))
      else if is_composite k then
        bind_res (get_vals s) (\<lambda>vs.
        bind_res (get_vals d) (\<lambda>vd.
        bind_res (if length vs \<noteq> length vd then
            bind_res (check (k \<noteq> K_TUPLE \<or> vs = [] \<or> vd = [])) (\<lambda>_.
            bind_res (Clear (SzlOps t fl) d) get_vals)
          else Ok vd) (\<lambda>vd.
        if vs = [] then Ok (mk_vals vd)
        else
          let dvals = (if vd = [] then replicate (length vs) VZero else vd) in
          bind_res (check (length dvals = length vs)) (\<lambda>_.
          bind_res (check (k \<noteq> K_MAP \<or> length fl = 2)) (\<lambda>_.
          bind_res (map_res (\<lambda>(i, f, x, y).
              if even i \<and> k = K_MAP then Assign_flat f x y else Negate_flat f x y)
            (zip [0..<length vs] (zip2_flats fl vs dvals 0 (length vs)))) (\<lambda>xs. Ok (mk_vals xs)))))))
      else Inl (Fatal ''can't negate''))"
| "Negate_flat (FlatOps k p) x y = Negate p x y"
| "Negate_flat (Flat k) x y =
     (if k = K_FLOAT then bind_res (get_f x) (\<lambda>f. Ok (VFloat (dbl_neg f)))
      else if IsSimpleBaseKind k then bind_res (get_i x) (\<lambda>i. Ok (VInt (- i)))
      else Inl (Fatal ''can't negate''))"

declare Negate.simps [simp del]


section \<open>Addition\<close>

text \<open>The keys of a map value: \<open>vals[0]\<close>, \<open>vals[2]\<close>, and so on.\<close>

definition keys_of :: "szl_value list \<Rightarrow> szl_value list" where
  "keys_of vs = map (\<lambda>i. vs ! (2 * i)) [0..<(length vs + 1) div 2]"

text \<open>The first pass: for every source pair its place in the sum and whether it is to be
  copied (\<open>s_target_i\<close>, \<open>s_target_copy\<close>), for every destination pair its place
  (\<open>d_target_i\<close>), and the number of pairs of the sum.\<close>

fun first_pass :: "('a \<Rightarrow> 'a \<Rightarrow> int res) \<Rightarrow> 'a list \<Rightarrow> 'a list \<Rightarrow> nat
    \<Rightarrow> ((nat \<times> bool) list \<times> nat list \<times> nat) res" where
  "first_pass cmp (s # ss) (d # ds) target =
     bind_res (cmp s d) (\<lambda>cmp_res.
       if cmp_res < 0 then
         bind_res (first_pass cmp ss (d # ds) (target + 1)) (\<lambda>(st, dt, n).
           Ok ((target, True) # st, dt, n))
       else if cmp_res = 0 then
         bind_res (first_pass cmp ss ds (target + 1)) (\<lambda>(st, dt, n).
           Ok ((target, False) # st, target # dt, n))
       else
         bind_res (first_pass cmp (s # ss) ds (target + 1)) (\<lambda>(st, dt, n).
           Ok (st, target # dt, n)))"
| "first_pass cmp (s # ss) [] target =
     bind_res (first_pass cmp ss [] (target + 1)) (\<lambda>(st, dt, n). Ok ((target, True) # st, dt, n))"
| "first_pass cmp [] (d # ds) target =
     bind_res (first_pass cmp [] ds (target + 1)) (\<lambda>(st, dt, n). Ok (st, target # dt, n))"
| "first_pass cmp [] [] target = Ok ([], [], target)"

text \<open>Moving the destination pairs into the new array.\<close>

definition move_pair :: "szl_value list \<Rightarrow> nat \<times> nat \<Rightarrow> szl_value list \<Rightarrow> szl_value list" where
  "move_pair vd = (\<lambda>(i, target) new_vals.
     new_vals[2 * target := vd ! (2 * i), 2 * target + 1 := vd ! (2 * i + 1)])"

definition move_pairs :: "nat list \<Rightarrow> nat \<Rightarrow> szl_value list \<Rightarrow> szl_value list" where
  "move_pairs d_target_i n vd =
     (if 2 * n > length vd then
        fold (move_pair vd) (zip [0..<length d_target_i] d_target_i) (replicate (2 * n) VZero)
      else vd)"

text \<open>The second pass: one source pair copied to, or its value added at, its place.\<close>

definition put_pair :: "szl_flat \<Rightarrow> szl_flat \<Rightarrow> (szl_value \<Rightarrow> szl_value \<Rightarrow> szl_value res)
    \<Rightarrow> szl_value list \<Rightarrow> nat \<times> nat \<times> bool \<Rightarrow> szl_value list \<Rightarrow> szl_value list res" where
  "put_pair kf vf add vs = (\<lambda>(i, target, copy) vals.
     if copy then
       bind_res (Assign_flat kf (vs ! (2 * i)) (vals ! (2 * target))) (\<lambda>x.
       bind_res (Assign_flat vf (vs ! (2 * i + 1)) (vals ! (2 * target + 1))) (\<lambda>y.
       Ok (vals[2 * target := x, 2 * target + 1 := y])))
     else
       bind_res (add (vs ! (2 * i + 1)) (vals ! (2 * target + 1))) (\<lambda>y.
       Ok (vals[2 * target + 1 := y])))"

definition AddMaps :: "szl_flat \<Rightarrow> szl_flat \<Rightarrow> (szl_value \<Rightarrow> szl_value \<Rightarrow> szl_value res)
    \<Rightarrow> szl_value list \<Rightarrow> szl_value list \<Rightarrow> szl_value list res" where
  "AddMaps kf vf add vs vd =
     bind_res (first_pass (\<lambda>a b. Cmp_flat kf (Some a) (Some b)) (keys_of vs) (keys_of vd) 0)
       (\<lambda>(st, dt, n).
     bind_res (check (length st * 2 = length vs)) (\<lambda>_.
     bind_res (check (length dt * 2 = length vd)) (\<lambda>_.
     fold_res (put_pair kf vf add vs) (zip [0..<length st] st) (move_pairs dt n vd))))"

lemma put_pair_cong:
  "(\<And>x y. add x y = add' x y) \<Longrightarrow> put_pair kf vf add vs = put_pair kf vf add' vs"
  by (simp add: put_pair_def fun_eq_iff cong: if_cong)

fun Add :: "szl_ops \<Rightarrow> szl_value \<Rightarrow> szl_value \<Rightarrow> szl_value res"
and Add_flat :: "szl_flat \<Rightarrow> szl_value \<Rightarrow> szl_value \<Rightarrow> szl_value res" where
  "Add (SzlOps t fl) s d =
     (let k = ty_kind t in
      if k = K_FLOAT then
        bind_res (get_f s) (\<lambda>x. bind_res (get_f d) (\<lambda>y. Ok (VFloat (dbl_add y x))))
      else if IsSimpleBaseKind k then
        bind_res (get_i s) (\<lambda>x. bind_res (get_i d) (\<lambda>y. Ok (VInt (y + x))))
      else if k = K_TUPLE then
        bind_res (get_vals s) (\<lambda>vs. bind_res (get_vals d) (\<lambda>vd.
          if vs = [] then Ok d
          else if vd = [] then Assign (SzlOps t fl) s d
          else bind_res (check (length vs = length fl)) (\<lambda>_.
            if length vd \<noteq> length fl then Inl Out_of_range
            else bind_res (map_res (\<lambda>(f, x, y). Add_flat f x y) (zip2_flats fl vs vd 0 (length fl)))
              (\<lambda>xs. Ok (mk_vals xs)))))
      else if k = K_MAP then
        bind_res (get_vals s) (\<lambda>vs. bind_res (get_vals d) (\<lambda>vd.
          if vs = [] then Ok d
          else if vd = [] then Assign (SzlOps t fl) s d
          else if indices_size t \<noteq> 1 then Inl (Fatal ''maps with multiple keys are not supported'')
          else case fl of
            [kf, vf] \<Rightarrow> bind_res (AddMaps kf vf (\<lambda>x y. Add_flat vf x y) vs vd) (\<lambda>xs. Ok (mk_vals xs))
          | _ \<Rightarrow> Inl (Fatal ''unexpected number of key/value types'')))
      else Inl (Fatal ''can't add''))"
| "Add_flat (FlatOps k p) x y = Add p x y"
| "Add_flat (Flat k) s d =
     (if k = K_FLOAT then
        bind_res (get_f s) (\<lambda>x. bind_res (get_f d) (\<lambda>y. Ok (VFloat (dbl_add y x))))
      else if IsSimpleBaseKind k then
        bind_res (get_i s) (\<lambda>x. bind_res (get_i d) (\<lambda>y. Ok (VInt (y + x))))
      else Inl (Fatal ''can't add''))"

declare Add.simps [simp del]


section \<open>Subtraction\<close>

fun Sub :: "szl_ops \<Rightarrow> szl_value \<Rightarrow> szl_value \<Rightarrow> szl_value res"
and Sub_flat :: "szl_flat \<Rightarrow> szl_value \<Rightarrow> szl_value \<Rightarrow> szl_value res" where
  "Sub (SzlOps t fl) s d =
     (let k = ty_kind t in
      if k = K_FLOAT then
        bind_res (get_f s) (\<lambda>x. bind_res (get_f d) (\<lambda>y. Ok (VFloat (dbl_sub y x))))
      else if IsSimpleBaseKind k then
        bind_res (get_i s) (\<lambda>x. bind_res (get_i d) (\<lambda>y. Ok (VInt (y - x))))
      else if k = K_TUPLE then
        bind_res (get_vals s) (\<lambda>vs. bind_res (get_vals d) (\<lambda>vd.
          if vs = [] then Ok d
          else bind_res (check (length vs = length fl)) (\<lambda>_.
            if vd = [] then Negate (SzlOps t fl) s d
            else if length vd \<noteq> length fl then Inl Out_of_range
            else bind_res (map_res (\<lambda>(f, x, y). Sub_flat f x y) (zip2_flats fl vs vd 0 (length fl)))
              (\<lambda>xs. Ok (mk_vals xs)))))
      else Inl (Fatal ''can't sub''))"
| "Sub_flat (FlatOps k p) x y = Sub p x y"
| "Sub_flat (Flat k) s d =
     (if k = K_FLOAT then
        bind_res (get_f s) (\<lambda>x. bind_res (get_f d) (\<lambda>y. Ok (VFloat (dbl_sub y x))))
      else bind_res (get_i s) (\<lambda>x. bind_res (get_i d) (\<lambda>y. Ok (VInt (y - x)))))"

declare Sub.simps [simp del]

end
