(* ===== verification/Szl_Sum.thy ===== *)
theory Szl_Sum
  imports Szl_Entry Szl_Arith
begin

text \<open>
  Sum tables (src/src/emitters/szlsum.cc and szlsumresults.cc).  An entry keeps the number
  of its elements and their sum.  The memory an entry reports is modelled as it is computed,
  but for the size of the entry object itself, which depends on the compiler.
\<close>

section \<open>The entry\<close>

record sum_entry =
  sum_tot :: i64
  sum_sum :: szl_value
  sum_memory :: int

definition sum_Create :: "registry \<Rightarrow> szl_type \<Rightarrow> (string + szl_tab_writer) res" where
  "sum_Create reg t =
     (case ty_element t of
        None \<Rightarrow> Inl Null_deref
      | Some el \<Rightarrow>
          bind_res (IsAddable (fd_type el)) (\<lambda>a.
            if \<not> a then
              bind_res (KindName (kind_num (ty_kind t))) (\<lambda>n. Ok (Inl (''can't add elements of type '' @ n)))
            else bind_res (new_tab_writer reg t True False) (\<lambda>w. Ok (Inr w))))"

definition sum_Clear :: "szl_ops \<Rightarrow> sum_entry \<Rightarrow> sum_entry res" where
  "sum_Clear p s =
     bind_res (AssignZero p (sum_sum s)) (\<lambda>z.
     bind_res (Clear p z) (\<lambda>z'.
     Ok \<lparr>sum_tot = 0, sum_sum = z', sum_memory = 0\<rparr>))"

definition new_sum :: "szl_ops \<Rightarrow> sum_entry res" where
  "new_sum p = sum_Clear p \<lparr>sum_tot = 0, sum_sum = VZero, sum_memory = 0\<rparr>"

definition sum_AddElem :: "host_config \<Rightarrow> szl_ops \<Rightarrow> bytes \<Rightarrow> sum_entry \<Rightarrow> (int \<times> sum_entry) res" where
  "sum_AddElem hc p elem s =
     (let tot = sum_tot s + 1 in
      if tot = 1 then
        bind_res (ParseFromArray hc p elem (sum_sum s)) (\<lambda>r.
        case r of None \<Rightarrow> Inl Check_failed
        | Some v \<Rightarrow>
            bind_res (Memory p v) (\<lambda>m.
            Ok (m - sizeof_value, \<lparr>sum_tot = tot, sum_sum = v, sum_memory = m\<rparr>)))
      else
        bind_res (ParseFromArray hc p elem VZero) (\<lambda>r.
        case r of None \<Rightarrow> Inl Check_failed
        | Some elemv \<Rightarrow>
            bind_res (Add p elemv (sum_sum s)) (\<lambda>v.
            bind_res (Clear p elemv) (\<lambda>_.
            bind_res (Memory p v) (\<lambda>m.
            Ok (m - sum_memory s, \<lparr>sum_tot = tot, sum_sum = v, sum_memory = m\<rparr>))))))"

definition sum_Flush :: "host_config \<Rightarrow> szl_ops \<Rightarrow> sum_entry \<Rightarrow> (bytes \<times> sum_entry) res" where
  "sum_Flush hc p s =
     (if sum_tot s = 0 then Ok ([], s)
      else
        bind_res (Encode hc p (sum_sum s) (PutInt (sum_tot s) new_encoder)) (\<lambda>enc.
        bind_res (sum_Clear p s) (\<lambda>s'.
        Ok (fst (enc_Swap enc), s'))))"

definition sum_FlushForDisplay :: "host_config \<Rightarrow> szl_ops \<Rightarrow> sum_entry \<Rightarrow> bytes list res" where
  "sum_FlushForDisplay hc p s =
     (if sum_tot s = 0 then Ok [[]]
      else bind_res (Encode hc p (sum_sum s) new_encoder) (\<lambda>enc. Ok [fst (enc_Swap enc)]))"

definition sum_Merge :: "host_config \<Rightarrow> szl_ops \<Rightarrow> bytes \<Rightarrow> sum_entry \<Rightarrow> (merge_status \<times> sum_entry) res" where
  "sum_Merge hc p val s =
     (if val = [] then Ok (MergeOk, s)
      else
        case GetInt (new_decoder val) of
          None \<Rightarrow> Ok (MergeError, s)
        | Some (extra, d) \<Rightarrow>
            if sint extra \<le> 0 then Ok (MergeError, s)
            else bind_res (Decode hc p VZero d) (\<lambda>r. case r of
              None \<Rightarrow> Ok (MergeError, s)
            | Some (sm, d) \<Rightarrow>
                if \<not> dec_done d then bind_res (Clear p sm) (\<lambda>_. Ok (MergeError, s))
                else
                  bind_res (Add p sm (sum_sum s)) (\<lambda>v.
                  bind_res (Clear p sm) (\<lambda>_.
                  Ok (MergeOk, s\<lparr>sum_sum := v, sum_tot := sum_tot s + extra\<rparr>)))))"


section \<open>The reader\<close>

record sum_results =
  sr_sum :: "bytes list"
  sr_totElems :: i64

definition sumres_Validate :: "registry \<Rightarrow> szl_type \<Rightarrow> string option res" where
  "sumres_Validate reg t =
     (case ty_element t of
        None \<Rightarrow> Inl Null_deref
      | Some el \<Rightarrow>
          bind_res (IsAddable (fd_type el)) (\<lambda>a.
            if \<not> a then bind_res (type_PPrint reg (fd_type el)) (\<lambda>s. Ok (Some (''cannot sum elements of type '' @ s)))
            else Ok None))"

text \<open>The value of \<open>totElems_\<close> stays when the rest cannot be read.\<close>

definition sumres_ParseFromString :: "szl_ops \<Rightarrow> bytes \<Rightarrow> bool \<times> sum_results" where
  "sumres_ParseFromString p val =
     (if val = [] then (True, \<lparr>sr_sum = [], sr_totElems = 0\<rparr>)
      else
        case GetInt (new_decoder val) of
          None \<Rightarrow> (False, \<lparr>sr_sum = [], sr_totElems = 0\<rparr>)
        | Some (tot, d) \<Rightarrow>
            if sint tot \<le> 0 then (False, \<lparr>sr_sum = [], sr_totElems = tot\<rparr>)
            else case ops_Skip p d of
              None \<Rightarrow> (False, \<lparr>sr_sum = [], sr_totElems = tot\<rparr>)
            | Some d' \<Rightarrow>
                if \<not> dec_done d' then (False, \<lparr>sr_sum = [], sr_totElems = tot\<rparr>)
                else (True, \<lparr>sr_sum = [take (pos d' - pos d) (cur d)], sr_totElems = tot\<rparr>))"


section \<open>Sums of integers\<close>

text \<open>The types whose sums do not depend on the order of the additions: integers, times and
  tuples of them.  \<open>ints\<close> lists the numbers of a value.\<close>

definition int_kind :: "szl_kind \<Rightarrow> bool" where
  "int_kind k \<longleftrightarrow> k = K_INT \<or> k = K_TIME"

fun int_ops :: "szl_ops \<Rightarrow> bool" where
  "int_ops (SzlOps t fl) \<longleftrightarrow> wf_ops (SzlOps t fl) \<and>
     (int_kind (ty_kind t) \<or> ty_kind t = K_TUPLE \<and> (\<forall>f \<in> set fl. \<exists>k. f = Flat k \<and> int_kind k))"

definition int_of_value :: "szl_value \<Rightarrow> i64" where
  "int_of_value v = (case v of VInt i \<Rightarrow> i | _ \<Rightarrow> 0)"

fun ints :: "szl_ops \<Rightarrow> szl_value \<Rightarrow> i64 list" where
  "ints (SzlOps t fl) v =
     (if ty_kind t = K_TUPLE then
        (case v of VVals vs \<Rightarrow> map int_of_value vs | _ \<Rightarrow> replicate (length fl) 0)
      else [int_of_value v])"

definition nints :: "szl_ops \<Rightarrow> nat" where
  "nints p = (if ty_kind (ops_type p) = K_TUPLE then length (ops_flats p) else 1)"

lemma tvf_int: "tvf (Flat k) x \<Longrightarrow> int_kind k \<Longrightarrow> get_i x = Ok (int_of_value x) \<and> (x = VZero \<or> (\<exists>i. x = VInt i))"
  using tv_typed(2) [of "Flat k" x]
  by (cases x) (auto simp: typed_base_def int_kind_def int_of_value_def)

lemma int_kind_simple: "int_kind k \<Longrightarrow> IsSimpleBaseKind k \<and> BaseKind k \<and> k \<noteq> K_FLOAT \<and> k \<noteq> K_TUPLE"
  by (auto simp: int_kind_def IsSimpleBaseKind_def)

lemma length_ints: "tv p v \<Longrightarrow> length (ints p v) = nints p"
  using tv_typed(1) [of p v] by (cases p; cases v) (auto simp: nints_def typed.simps Let_def)

text \<open>The sum, and that it is in the decoder's form where both operands are.\<close>

lemma map_res_add_ints:
  assumes "\<And>f x y. (f, x, y) \<in> set zs \<Longrightarrow> (\<exists>k. f = Flat k \<and> int_kind k) \<and> tvf f x \<and> tvf f y"
  shows "map_res (\<lambda>(f, x, y). Add_flat f x y) zs
    = Ok (map (\<lambda>(f, x, y). VInt (int_of_value y + int_of_value x)) zs)"
proof (rule map_res_Ok)
  fix z assume "z \<in> set zs"
  moreover obtain f x y where z: "z = (f, x, y)" by (cases z)
  ultimately obtain k where k: "f = Flat k" "int_kind k" "tvf f x" "tvf f y" using assms by blast
  show "(\<lambda>(f, x, y). Add_flat f x y) z = Ok ((\<lambda>(f, x, y). VInt (int_of_value y + int_of_value x)) z)"
    using tvf_int [of k x] tvf_int [of k y] int_kind_simple [OF k(2)] k by (simp add: z)
qed

lemma int_tuple:
  assumes "ty_kind t = K_TUPLE" and "int_ops (SzlOps t fl)" and "length is = length fl" and "fl \<noteq> []"
  shows "tv (SzlOps t fl) (VVals (map VInt is)) \<and> canon (SzlOps t fl) (VVals (map VInt is))
    \<and> ints (SzlOps t fl) (VVals (map VInt is)) = is"
proof -
  have "typed_flat f x \<and> canon_flat f x" if "(f, x) \<in> set (zip_flats fl (map VInt is))" for f x
  proof -
    have "f \<in> set fl" "\<exists>i. x = VInt i" using zip_flats_mem [OF that] by auto
    then show ?thesis using assms(1,2) int_kind_simple
      by (fastforce simp: int_kind_def typed_base_def canon_base_def)
  qed
  moreover have "is \<noteq> []" using assms(3,4) by auto
  ultimately show ?thesis
    using assms by (auto simp: typed.simps canon.simps int_of_value_def comp_def intro!: typed_tv(1))
qed

lemma Add_ints_tuple:
  assumes "ty_kind t = K_TUPLE" and "int_ops (SzlOps t fl)" and "tv (SzlOps t fl) s" and "tv (SzlOps t fl) d"
    and "p = SzlOps t fl"
  shows "\<exists>r. Add p s d = Ok r \<and> tv p r \<and> ints p r = map2 (+) (ints p d) (ints p s) \<and> (canon p s \<longrightarrow> canon p r)"
proof -
  have comp: "is_composite (ty_kind t)" using assms(1) by (simp add: is_composite_def)
  obtain vs where s: "get_vals s = Ok vs" "\<And>i. i < length vs \<Longrightarrow> tvf (fl ! (i mod length fl)) (vs ! i)"
    "vs = [] \<or> length vs = length fl" "vs = [] \<longleftrightarrow> s = VZero" "vs \<noteq> [] \<Longrightarrow> s = VVals vs \<and> fl \<noteq> []"
    using tv_slots [OF assms(3) comp] assms(1) by metis
  obtain vd where d: "get_vals d = Ok vd" "\<And>i. i < length vd \<Longrightarrow> tvf (fl ! (i mod length fl)) (vd ! i)"
    "vd = [] \<or> length vd = length fl" "vd = [] \<longleftrightarrow> d = VZero" "vd \<noteq> [] \<Longrightarrow> d = VVals vd \<and> fl \<noteq> []"
    using tv_slots [OF assms(4) comp] assms(1) by metis
  have fl: "\<exists>k. f = Flat k \<and> int_kind k" if "f \<in> set fl" for f
    using assms(1,2) that int_kind_simple by fastforce
  have add: "Add p s d = (if vs = [] then Ok d else if vd = [] then Assign p s d
      else bind_res (map_res (\<lambda>(f, x, y). Add_flat f x y) (zip2_flats fl vs vd 0 (length fl))) (\<lambda>xs. Ok (mk_vals xs)))"
    using s(1,3) d(1,3) assms(1,5) by (auto simp: Add.simps Let_def IsSimpleBaseKind_def)
  consider "vs = []" | "vs \<noteq> []" "vd = []" | "vs \<noteq> []" "vd \<noteq> []" by blast
  then show ?thesis
  proof cases
    case 1
    have "canon p s \<Longrightarrow> canon p d" using 1 s(4) d(3,4) assms(1,5) by (auto simp: canon.simps)
    moreover have "ints p d = map2 (+) (ints p d) (ints p s)"
      using 1 s(4) assms(1,5) length_ints [OF assms(4)] by (auto intro!: nth_equalityI simp: nints_def)
    ultimately show ?thesis using add 1 assms(4,5) by auto
  next
    case 2
    have vs: "s = VVals vs" "fl \<noteq> []" "length vs = length fl" using 2 s(3,5) by auto
    have "settle_flat (fl ! i) (vs ! i) = VInt (int_of_value (vs ! i))" if il: "i < length vs" for i
    proof -
      obtain k where k: "fl ! i = Flat k" "int_kind k" using fl [of "fl ! i"] il vs by auto
      moreover have "tvf (fl ! i) (vs ! i)" using s(2) [OF il] il vs by simp
      ultimately show ?thesis
        using tvf_int [of k "vs ! i"] int_kind_simple [OF k(2)]
        by (auto simp: settle_base_def int_of_value_def simp del: BaseKind.simps)
    qed
    then have "settle p s = VVals (map VInt (map int_of_value vs))"
      using vs assms(1,5) by (auto simp: settle.simps zip_flats_def intro!: nth_equalityI)
    moreover have "ints p d = replicate (length fl) 0" "ints p s = map int_of_value vs"
      using 2 d(4) vs(1) assms(1,5) by auto
    moreover have "map2 (+) (replicate (length fl) 0) (map int_of_value vs) = map int_of_value vs"
      using vs(3) by (auto intro!: nth_equalityI)
    ultimately show ?thesis
      using add 2 vs Assign_typed(1) [OF assms(3,4)] assms(5) int_tuple [OF assms(1,2), of "map int_of_value vs"] by simp
  next
    case 3
    have vs: "s = VVals vs" "d = VVals vd" "fl \<noteq> []" "length vs = length fl" "length vd = length fl"
      using 3 s(3,5) d(3,5) by auto
    let ?is = "map2 (+) (map int_of_value vd) (map int_of_value vs)"
    have "(\<exists>k. f = Flat k \<and> int_kind k) \<and> tvf f x \<and> tvf f y"
      if "(f, x, y) \<in> set (zip2_flats fl vs vd 0 (length fl))" for f x y
      using that vs fl s(2) d(2) by (fastforce simp: zip2_flats_def)
    then have "map_res (\<lambda>(f, x, y). Add_flat f x y) (zip2_flats fl vs vd 0 (length fl))
        = Ok (map (\<lambda>(f, x, y). VInt (int_of_value y + int_of_value x)) (zip2_flats fl vs vd 0 (length fl)))"
      by (rule map_res_add_ints)
    moreover have "map (\<lambda>(f, x, y). VInt (int_of_value y + int_of_value x)) (zip2_flats fl vs vd 0 (length fl))
        = map VInt ?is"
      using vs by (auto simp: zip2_flats_def intro!: nth_equalityI)
    moreover have "map VInt ?is \<noteq> []" using vs by (cases vs; cases vd) auto
    ultimately have "Add p s d = Ok (VVals (map VInt ?is))" using add 3 by (simp add: mk_vals_def)
    then show ?thesis using int_tuple [OF assms(1,2), of ?is] vs assms(1,5) by auto
  qed
qed

lemma Add_ints:
  assumes "int_ops p" and "tv p s" and "tv p d"
  shows "\<exists>r. Add p s d = Ok r \<and> tv p r \<and> ints p r = map2 (+) (ints p d) (ints p s) \<and> (canon p s \<longrightarrow> canon p r)"
proof -
  obtain t fl where p: "p = SzlOps t fl" by (cases p)
  show ?thesis
  proof (cases "ty_kind t = K_TUPLE")
    case False
    then have k: "int_kind (ty_kind t)" using assms(1) p by simp
    then have fl: "fl = [Flat (ty_kind t)]"
      using assms(1) p wf_base_ops [of t fl] int_kind_simple [OF k] by (simp del: BaseKind.simps)
    have "tvf (Flat (ty_kind t)) x" if "tv p x" for x
      using tv_typed(1) [OF that] int_kind_simple [OF k] p
      by (intro tvf_flat) (auto simp: typed.simps)
    then have g: "get_i s = Ok (int_of_value s)" "get_i d = Ok (int_of_value d)"
      using tvf_int k assms(2,3) by blast+
    have "tv p (VInt i)" for i
      using k p fl int_kind_simple [OF k] by (auto simp: int_kind_def typed_base_def intro!: tv_base)
    moreover have "canon p (VInt i)" for i using k p by (auto simp: canon.simps canon_base_def int_kind_def)
    ultimately show ?thesis using g k p False int_kind_simple [OF k]
      by (auto simp: Add.simps int_of_value_def)
  next
    case True
    then show ?thesis using assms p by (intro Add_ints_tuple) simp_all
  qed
qed


section \<open>The contract\<close>

definition sum_value :: "host_config \<Rightarrow> szl_ops \<Rightarrow> bytes \<Rightarrow> szl_value" where
  "sum_value hc p e = (case ParseFromArray hc p e VZero of Inr (Some v) \<Rightarrow> v | _ \<Rightarrow> VZero)"

text \<open>The entry stands for the elements \<open>M\<close>: it counts them and holds the sum of each of their
  numbers, modulo \<open>2^64\<close>.\<close>

definition sum_rep :: "host_config \<Rightarrow> szl_ops \<Rightarrow> bytes multiset \<Rightarrow> sum_entry \<Rightarrow> bool" where
  "sum_rep hc p M s \<longleftrightarrow> (int_ops p \<longrightarrow>
     tv p (sum_sum s) \<and> sum_tot s = of_nat (size M) \<and> (M \<noteq> {#} \<longrightarrow> canon p (sum_sum s))
     \<and> (\<forall>i < nints p. ints p (sum_sum s) ! i = (\<Sum>e\<in>#M. ints p (sum_value hc p e) ! i)))"

definition sum_fits :: "host_config \<Rightarrow> szl_ops \<Rightarrow> bytes multiset \<Rightarrow> bool" where
  "sum_fits hc p M \<longleftrightarrow> int_ops p \<and> size M < 2 ^ 63 \<and> (\<forall>e \<in># M. \<exists>v. encodes hc p v e)"

definition sum_init :: "szl_ops \<Rightarrow> sum_entry" where
  "sum_init p = (case new_sum p of Inr s \<Rightarrow> s | Inl _ \<Rightarrow> \<lparr>sum_tot = 0, sum_sum = VZero, sum_memory = 0\<rparr>)"

definition sum_add :: "host_config \<Rightarrow> szl_ops \<Rightarrow> bytes \<Rightarrow> sum_entry \<Rightarrow> sum_entry res" where
  "sum_add hc p e s = bind_res (sum_AddElem hc p e s) (\<lambda>(m, s'). Ok s')"

lemma canon_tv_int: "int_ops p \<Longrightarrow> canon p v \<Longrightarrow> tv p v"
proof -
  assume p: "int_ops p" and c: "canon p v"
  obtain t fl where pq: "p = SzlOps t fl" by (cases p)
  show "tv p v"
  proof (cases "ty_kind t = K_TUPLE")
    case True
    have "typed_flat f x" if m: "(f, x) \<in> set (zip_flats fl vs)" "canon_flat f x" for f x vs
    proof -
      obtain k where "f = Flat k" "int_kind k" using zip_flats_mem [OF m(1)] p pq True int_kind_simple by fastforce
      then show ?thesis using m(2) by (auto simp: canon_base_def typed_base_def int_kind_def split: szl_value.splits)
    qed
    then have "typed p v" using c True pq by (auto simp: canon.simps typed.simps split: szl_value.splits)
    then show ?thesis using p pq by (simp add: typed_tv(1))
  next
    case False
    then have "int_kind (ty_kind t)" using p pq by simp
    then have "typed p v"
      using c pq by (auto simp: canon.simps typed.simps canon_base_def typed_base_def int_kind_def split: szl_value.splits)
    then show ?thesis using p pq by (simp add: typed_tv(1))
  qed
qed

lemma AssignZero_Clear_int:
  assumes "int_ops p" and "tv p v"
  shows "\<exists>z z'. AssignZero p v = Ok z \<and> Clear p z = Ok z' \<and> tv p z' \<and> ints p z' = replicate (nints p) 0"
proof -
  obtain t fl where p: "p = SzlOps t fl" by (cases p)
  show ?thesis
  proof (cases "ty_kind t = K_TUPLE")
    case False
    then have k: "int_kind (ty_kind t)" using assms(1) p by simp
    have "tv p (VInt 0)"
      using k p assms(1) by (auto simp: int_kind_def typed_base_def typed.simps intro!: typed_tv(1))
    then show ?thesis
      using k p False int_kind_simple [OF k] by (auto simp: int_of_value_def nints_def Let_def)
  next
    case True
    have comp: "is_composite (ty_kind t)" using True by (simp add: is_composite_def)
    obtain vs where s: "get_vals v = Ok vs" "vs = [] \<or> length vs = length fl"
      using tv_slots [OF assms(2) [unfolded p] comp] True by metis
    let ?ws = "if vs = [] then replicate (length fl) VZero else vs"
    have "map_res (\<lambda>(f, x). zero_flat f x) (zip_flats fl ?ws) = Ok (map (\<lambda>_. VInt 0) (zip_flats fl ?ws))"
    proof (rule map_res_Ok)
      fix z assume "z \<in> set (zip_flats fl ?ws)"
      moreover obtain f x where "z = (f, x)" by (cases z)
      ultimately obtain k where "z = (Flat k, x)" "int_kind k"
        using zip_flats_mem [of f x fl ?ws] assms(1) p True int_kind_simple by fastforce
      then show "(\<lambda>(f, x). zero_flat f x) z = Ok (VInt 0)"
        using int_kind_simple [of k] by (auto simp: zero_flat_def int_kind_def)
    qed
    moreover have "map (\<lambda>_. VInt 0) (zip_flats fl ?ws) = map VInt (replicate (length fl) 0)"
      using s(2) by (auto simp: zip_flats_def intro!: nth_equalityI)
    ultimately have "AssignZero p v = Ok (mk_vals (map VInt (replicate (length fl) 0)))"
      using s True p by (auto simp: Let_def IsSimpleBaseKind_def)
    moreover have "tv p (mk_vals (map VInt (replicate (length fl) 0)))"
      using int_tuple [OF True assms(1) [unfolded p], of "replicate (length fl) 0"] assms(1) p
      by (cases "fl = []") (auto simp: mk_vals_def intro!: typed_tv(1))
    moreover from this have "Clear p (mk_vals (map VInt (replicate (length fl) 0))) = Ok VZero"
      using Clear_typed(1) p composite_not_base [OF comp] by (simp del: Clear.simps)
    moreover have "tv p VZero" using assms(1) p by (intro typed_tv(1)) auto
    ultimately show ?thesis using p True by (auto simp: nints_def)
  qed
qed

lemma sum_Clear_rep: "int_ops p \<Longrightarrow> tv p (sum_sum s) \<Longrightarrow> \<exists>s'. sum_Clear p s = Ok s' \<and> sum_rep hc p {#} s'"
  using AssignZero_Clear_int [of p "sum_sum s"] by (force simp: sum_Clear_def sum_rep_def)

lemma sum_value_encodes: "encodes hc p v e \<Longrightarrow> sum_value hc p e = v"
  by (simp add: sum_value_def parse_encoded)

text \<open>Adding one value to the sum, as \<open>AddElem\<close> and \<open>Merge\<close> do.\<close>

lemma sum_rep_add:
  assumes "sum_rep hc p N s" and "int_ops p" and "tv p v" and "canon p v" and "M \<noteq> {#}"
    and "\<And>i. i < nints p \<Longrightarrow> ints p v ! i = (\<Sum>e\<in>#M. ints p (sum_value hc p e) ! i)"
  shows "\<exists>r. Add p v (sum_sum s) = Ok r
    \<and> (\<forall>m. sum_rep hc p (M + N) \<lparr>sum_tot = sum_tot s + of_nat (size M), sum_sum = r, sum_memory = m\<rparr>)"
proof -
  have s: "tv p (sum_sum s)" "sum_tot s = of_nat (size N)"
    "\<And>i. i < nints p \<Longrightarrow> ints p (sum_sum s) ! i = (\<Sum>e\<in>#N. ints p (sum_value hc p e) ! i)"
    using assms(1,2) by (auto simp: sum_rep_def)
  obtain r where r: "Add p v (sum_sum s) = Ok r" "tv p r" "canon p r"
    "ints p r = map2 (+) (ints p (sum_sum s)) (ints p v)"
    using Add_ints [OF assms(2,3) s(1)] assms(4) by blast
  have "ints p r ! i = (\<Sum>e\<in>#M + N. ints p (sum_value hc p e) ! i)" if "i < nints p" for i
    using r(4) that length_ints [OF assms(3)] length_ints [OF s(1)] s(3) assms(6) by simp
  then show ?thesis using r s(2) by (simp add: sum_rep_def)
qed

lemma small_count:
  assumes "n < 2 ^ 63"
  shows "(of_nat n :: i64) = 0 \<longleftrightarrow> n = 0" and "sint (of_nat n :: i64) = int n"
proof -
  show "(of_nat n :: i64) = 0 \<longleftrightarrow> n = 0"
    using assms by (auto simp: word_of_nat_eq_0_iff dest: dvd_imp_le)
  show "sint (of_nat n :: i64) = int n"
    using assms by (simp add: signed_of_nat signed_take_bit_int_eq_self)
qed

lemma sum_AddElem_rep:
  assumes "sum_rep hc p M s" and "sum_fits hc p (add_mset e M)"
  shows "\<exists>s'. sum_add hc p e s = Ok s' \<and> sum_rep hc p (add_mset e M) s'"
proof -
  obtain v where p: "int_ops p" and v: "encodes hc p v e" and sz: "size M < 2 ^ 63 - 1"
    using assms(2) by (auto simp: sum_fits_def)
  have tv: "tv p v" "canon p v" using v p canon_tv_int by (auto simp: encodes_def)
  have s: "tv p (sum_sum s)" "sum_tot s = of_nat (size M)" using assms(1) p by (auto simp: sum_rep_def)
  obtain m where m: "Memory p v = Ok m" using Memory_typed(1) [OF tv(1)] by blast
  have parse: "ParseFromArray hc p e u = Ok (Some v)" if "tv p u" for u
    using parse_encoded [OF v] Decode_over(1) [OF that] by (simp add: ParseFromArray_def Decode_def)
  have one: "sum_tot s + 1 = 1 \<longleftrightarrow> M = {#}"
    using s(2) sz small_count(1) [of "size M"] by simp
  show ?thesis
  proof (cases "M = {#}")
    case True
    then have "sum_add hc p e s = Ok \<lparr>sum_tot = sum_tot s + 1, sum_sum = v, sum_memory = m\<rparr>"
      using one parse [OF s(1)] m by (simp add: sum_add_def sum_AddElem_def Let_def)
    then show ?thesis using True s(2) tv sum_value_encodes [OF v] by (simp add: sum_rep_def)
  next
    case False
    obtain r where r: "Add p v (sum_sum s) = Ok r"
      "\<And>m. sum_rep hc p ({#e#} + M) \<lparr>sum_tot = sum_tot s + of_nat (size {#e#}), sum_sum = r, sum_memory = m\<rparr>"
      using sum_rep_add [OF assms(1) p tv, of "{#e#}"] sum_value_encodes [OF v] by auto
    have "tv p r" using r(2) p by (auto simp: sum_rep_def)
    then obtain m' where "Memory p r = Ok m'" using Memory_typed(1) by blast
    moreover have "tv p VZero" using tv_typed(1) [OF tv(1)] by (simp add: typed_tv(1))
    ultimately show ?thesis
      using one False parse r Clear_typed(1) [OF tv(1)]
      by (simp add: sum_add_def sum_AddElem_def Let_def del: Clear.simps)
  qed
qed

lemma sum_Flush_rep:
  assumes "sum_rep hc p M s" and "sum_fits hc p M"
  shows "\<exists>s'. sum_rep hc p {#} s' \<and>
    (if M = {#} then sum_Flush hc p s = Ok ([], s')
     else \<exists>e. encodes hc p (sum_sum s) e \<and> sum_Flush hc p s = Ok (int_enc (sum_tot s) @ e, s'))"
proof -
  have p: "int_ops p" "size M < 2 ^ 63" using assms(2) by (auto simp: sum_fits_def)
  have s: "tv p (sum_sum s)" "sum_tot s = of_nat (size M)" "M \<noteq> {#} \<Longrightarrow> canon p (sum_sum s)"
    using assms(1) p by (auto simp: sum_rep_def)
  have z: "sum_tot s = 0 \<longleftrightarrow> M = {#}" using s(2) small_count(1) [OF p(2)] by simp
  show ?thesis
  proof (cases "M = {#}")
    case True
    then show ?thesis using z assms(1) by (auto simp: sum_Flush_def)
  next
    case False
    obtain e where e: "encodes hc p (sum_sum s) e"
      using encodes_exists [of p "sum_sum s" hc] s(3) [OF False] tv_typed(1) [OF s(1)] by blast
    obtain s' where "sum_Clear p s = Ok s'" "sum_rep hc p {#} s'" using sum_Clear_rep [OF p(1) s(1)] by blast
    then show ?thesis
      using False z e encodesD(1) [OF e] by (auto simp: sum_Flush_def PutInt_eq enc_Swap_def)
  qed
qed

lemma sum_Merge_rep:
  assumes "sum_rep hc p M s" and "sum_Flush hc p s = Ok (b, s')" and "sum_rep hc p N t" and "sum_fits hc p (M + N)"
  shows "\<exists>t'. sum_Merge hc p b t = Ok (MergeOk, t') \<and> sum_rep hc p (M + N) t'"
proof -
  have fits: "sum_fits hc p M" "int_ops p" "size M < 2 ^ 63" using assms(4) by (auto simp: sum_fits_def)
  show ?thesis
  proof (cases "M = {#}")
    case True
    then show ?thesis using sum_Flush_rep [OF assms(1) fits(1)] assms(2,3) by (auto simp: sum_Merge_def)
  next
    case False
    let ?v = "sum_sum s" let ?n = "sum_tot s"
    obtain e where e: "encodes hc p ?v e" "b = int_enc ?n @ e"
      using sum_Flush_rep [OF assms(1) fits(1)] assms(2) False by auto
    let ?d = "adv (length (int_enc ?n)) (new_decoder b)"
    have v: "tv p ?v" "canon p ?v" "?n = of_nat (size M)"
      "\<And>i. i < nints p \<Longrightarrow> ints p ?v ! i = (\<Sum>e\<in>#M. ints p (sum_value hc p e) ! i)"
      using assms(1) fits(2) False by (auto simp: sum_rep_def)
    obtain r where r: "Add p ?v (sum_sum t) = Ok r"
      "\<And>m. sum_rep hc p (M + N) \<lparr>sum_tot = sum_tot t + of_nat (size M), sum_sum = r, sum_memory = m\<rparr>"
      using sum_rep_add [OF assms(3) fits(2) v(1,2) False v(4)] by blast
    have "GetInt (new_decoder b) = Some (?n, ?d)" using e(2) by (intro GetInt_int_enc) simp
    moreover have c: "cur ?d = e @ []" using e(2) by (simp add: cur_adv)
    moreover have "Decode hc p VZero ?d = Ok (Some (?v, adv (length e) ?d))" by (rule encodesD(3) [OF e(1) c])
    moreover have "dec_done (adv (length e) ?d)" using e(2) by (simp add: dec_done_def adv_def new_decoder_def)
    moreover have "0 < sint ?n" using v(3) small_count(2) [OF fits(3)] False by (simp add: nonempty_has_size)
    moreover have "b \<noteq> []" using e(2) by simp
    moreover have "t\<lparr>sum_sum := r, sum_tot := sum_tot t + ?n\<rparr> =
        \<lparr>sum_tot = sum_tot t + of_nat (size M), sum_sum = r, sum_memory = sum_memory t\<rparr>"
      using v(3) by (cases t) simp
    ultimately show ?thesis
      using r Clear_typed(1) [OF v(1)] by (simp add: sum_Merge_def del: Clear.simps)
  qed
qed

interpretation sum_table: tab_entry "sum_fits hc p" "sum_rep hc p" "sum_init p" "sum_add hc p"
  "sum_Flush hc p" "sum_Merge hc p" for hc p
proof
  show "sum_rep hc p {#} (sum_init p)"
  proof (cases "int_ops p")
    case True
    then have "tv p VZero" by (cases p) (auto intro!: typed_tv(1))
    then show ?thesis
      using sum_Clear_rep [OF True, where s = "\<lparr>sum_tot = 0, sum_sum = VZero, sum_memory = 0\<rparr>" and hc = hc]
      by (auto simp: sum_init_def new_sum_def)
  qed (simp add: sum_rep_def)
next
  fix M :: "bytes multiset" and s assume "sum_rep hc p M s" "sum_fits hc p M"
  from sum_Flush_rep [OF this] show "\<exists>b s'. sum_Flush hc p s = Ok (b, s') \<and> sum_rep hc p {#} s'"
    by (metis (full_types))
qed (use sum_AddElem_rep sum_Merge_rep in \<open>auto simp: sum_fits_def\<close>)


section \<open>Properties\<close>

text \<open>C10. However the encoded elements of a sum table of integers, times or tuples of them are
  split into shards, running every shard on an entry of its own, flushing it and merging
  the results never fails, and the merged entry counts all elements and displays a value
  whose numbers are the sums, modulo \<open>2^64\<close>, of the numbers of the elements.\<close>

theorem sum_sharding:
  assumes "int_ops p" and "length (concat shards) < 2 ^ 63" and "\<forall>e \<in> set (concat shards). \<exists>v. encodes hc p v e"
  shows "\<exists>t. fold_res (tab_entry.merge_shard (sum_init p) (sum_add hc p) (sum_Flush hc p) (sum_Merge hc p))
        shards (sum_init p) = Ok t
    \<and> sum_tot t = of_nat (length (concat shards))
    \<and> (\<forall>i < nints p. ints p (sum_sum t) ! i = (\<Sum>e\<leftarrow>concat shards. ints p (sum_value hc p e) ! i))
    \<and> (concat shards \<noteq> [] \<longrightarrow> (\<exists>e. encodes hc p (sum_sum t) e \<and> sum_FlushForDisplay hc p t = Ok [e]))"
proof -
  have "sum_fits hc p (mset (concat shards))" using assms by (simp add: sum_fits_def)
  from sum_table.sharding_init [OF this] obtain t where
    t: "fold_res (tab_entry.merge_shard (sum_init p) (sum_add hc p) (sum_Flush hc p) (sum_Merge hc p))
        shards (sum_init p) = Ok t" "sum_rep hc p (mset (concat shards)) t" by blast
  have s: "sum_tot t = of_nat (length (concat shards))" "tv p (sum_sum t)"
    "concat shards \<noteq> [] \<Longrightarrow> canon p (sum_sum t)"
    "\<forall>i < nints p. ints p (sum_sum t) ! i = (\<Sum>e\<leftarrow>concat shards. ints p (sum_value hc p e) ! i)"
    using t(2) assms(1) unfolding sum_rep_def by (auto simp: sum_mset_sum_list simp flip: mset_map)
  have "\<exists>e. encodes hc p (sum_sum t) e \<and> sum_FlushForDisplay hc p t = Ok [e]" if ne: "concat shards \<noteq> []"
  proof -
    obtain e where e: "encodes hc p (sum_sum t) e"
      using encodes_exists s(3) [OF ne] tv_typed(1) [OF s(2)] by blast
    moreover have "sum_tot t \<noteq> 0" using s(1) small_count(1) [OF assms(2)] ne by auto
    ultimately show ?thesis
      using encodesD(1) [OF e] by (auto simp: sum_FlushForDisplay_def enc_Swap_def)
  qed
  then show ?thesis using t(1) s(1,4) by blast
qed

definition int_sum_ops :: szl_ops where
  "int_sum_ops = SzlOps kInt [Flat K_INT]"

lemma int_sum_ops_ok: "int_ops int_sum_ops"
  by (simp add: int_sum_ops_def int_kind_def kInt_def new_type_def wf_ops.simps)

theorem sum_sharding_witness:
  "\<exists>t. fold_res (tab_entry.merge_shard (sum_init int_sum_ops) (sum_add (good_config Big) int_sum_ops)
      (sum_Flush (good_config Big) int_sum_ops) (sum_Merge (good_config Big) int_sum_ops))
        [[int_enc 5], [], [int_enc 7, int_enc (- 1)]] (sum_init int_sum_ops) = Ok t \<and> sum_tot t = 3"
proof -
  have "encodes (good_config Big) int_sum_ops (VInt i) (int_enc i)" for i
    by (auto simp: encodes_def int_sum_ops_def kInt_def new_type_def canon.simps canon_base_def wf_ops.simps
        wired_def Encode_def EncodeInternal.simps SzlOpsDoEncode_def PutInt_eq ops_Skip_def SkipInternal.simps
        Skip_int_enc Decode_def DecodeInternal.simps SzlOpsDoDecode_def opt_value_def GetInt_int_enc)
  then show ?thesis
    using sum_sharding [OF int_sum_ops_ok, of "[[int_enc 5], [], [int_enc 7, int_enc (- 1)]]" "good_config Big"]
    by auto
qed

end
