(* ===== verification/Szl_Sift.thy ===== *)
theory Szl_Sift
  imports Szl_Order "HOL-Library.Multiset"
begin

text \<open>
  The array heap that the maximum and top tables share (\<open>FixHeapUp\<close>, \<open>FixHeapDown\<close>,
  \<open>FixHeap\<close>, \<open>Sort\<close>, \<open>ReHeap\<close>, \<open>IsHeap\<close> of src/src/emitters/szlheap.cc).  The loops are
  written over any element type, with the comparison \<open>less_->Cmp\<close> of two elements'
  weights as an argument.  Indices are natural numbers; every access is in range where the
  code's assertion holds, and the operations fail where it does not.
\<close>

section \<open>Moving an element\<close>

function FixHeapUp_loop :: "('e \<Rightarrow> 'e \<Rightarrow> bool) \<Rightarrow> 'e \<Rightarrow> nat \<Rightarrow> 'e list \<Rightarrow> 'e list" where
  "FixHeapUp_loop lt e h heap =
     (if h \<noteq> 0 then
        let parent = (h - 1) div 2; pe = heap ! parent in
        if \<not> lt e pe then heap[h := e]
        else FixHeapUp_loop lt e parent (heap[h := pe])
      else heap[h := e])"
  by pat_completeness auto
termination
  by (relation "measure (\<lambda>(_, _, h, _). h)") auto

declare FixHeapUp_loop.simps [simp del]

definition FixHeapUp :: "('e \<Rightarrow> 'e \<Rightarrow> bool) \<Rightarrow> nat \<Rightarrow> 'e list \<Rightarrow> 'e list res" where
  "FixHeapUp lt h heap =
     bind_res (check (h < length heap)) (\<lambda>_. Ok (FixHeapUp_loop lt (heap ! h) h heap))"

text \<open>The smaller of the two kids of a position, the left one when they are tied.\<close>

definition min_kid :: "('e \<Rightarrow> 'e \<Rightarrow> bool) \<Rightarrow> nat \<Rightarrow> nat \<Rightarrow> 'e list \<Rightarrow> nat" where
  "min_kid lt h nheap heap =
     (let kid = 2 * h + 1 in
      if kid + 1 < nheap \<and> lt (heap ! (kid + 1)) (heap ! kid) then kid + 1 else kid)"

function FixHeapDown_loop :: "('e \<Rightarrow> 'e \<Rightarrow> bool) \<Rightarrow> 'e \<Rightarrow> nat \<Rightarrow> nat \<Rightarrow> 'e list \<Rightarrow> 'e list" where
  "FixHeapDown_loop lt e h nheap heap =
     (if nheap \<le> 2 * h + 1 then heap[h := e]
      else
        let kid = min_kid lt h nheap heap; ke = heap ! kid in
        if lt e ke then heap[h := e]
        else FixHeapDown_loop lt e kid nheap (heap[h := ke]))"
  by pat_completeness auto
termination
  by (relation "measure (\<lambda>(_, _, h, nheap, _). nheap - h)") (auto simp: min_kid_def Let_def)

declare FixHeapDown_loop.simps [simp del]

definition FixHeapDown :: "('e \<Rightarrow> 'e \<Rightarrow> bool) \<Rightarrow> nat \<Rightarrow> nat \<Rightarrow> 'e list \<Rightarrow> 'e list res" where
  "FixHeapDown lt h nheap heap =
     bind_res (check (h < nheap)) (\<lambda>_.
       if length heap < nheap then Inl Out_of_range
       else Ok (FixHeapDown_loop lt (heap ! h) h nheap heap))"

definition FixHeap :: "('e \<Rightarrow> 'e \<Rightarrow> bool) \<Rightarrow> nat \<Rightarrow> 'e list \<Rightarrow> 'e list res" where
  "FixHeap lt h heap =
     bind_res (check (h < length heap)) (\<lambda>_.
       if h \<noteq> 0 \<and> lt (heap ! h) (heap ! ((h - 1) div 2)) then FixHeapUp lt h heap
       else FixHeapDown lt h (length heap) heap)"

definition IsHeap :: "('e \<Rightarrow> 'e \<Rightarrow> bool) \<Rightarrow> 'e list \<Rightarrow> bool" where
  "IsHeap lt heap = list_all (\<lambda>i. \<not> lt (heap ! i) (heap ! ((i - 1) div 2))) [1..<length heap]"


section \<open>Sorting\<close>

text \<open>\<open>ne\<close> counts down before the test of \<open>while (--ne > 0)\<close>.\<close>

fun Sort_loop :: "('e \<Rightarrow> 'e \<Rightarrow> bool) \<Rightarrow> nat \<Rightarrow> 'e list \<Rightarrow> 'e list res" where
  "Sort_loop lt 0 heap = Ok heap"
| "Sort_loop lt (Suc ne) heap =
     (if ne > 0 then
        bind_res (FixHeapDown lt 0 ne (heap[0 := heap ! ne, ne := heap ! 0])) (Sort_loop lt ne)
      else Ok heap)"

definition Sort :: "('e \<Rightarrow> 'e \<Rightarrow> bool) \<Rightarrow> 'e list \<Rightarrow> 'e list res" where
  "Sort lt heap = (if heap = [] then Ok heap else Sort_loop lt (length heap) heap)"

definition swap_ends :: "nat \<Rightarrow> nat \<Rightarrow> 'e list \<Rightarrow> 'e list" where
  "swap_ends ne i heap = heap[i := heap ! (ne - 1 - i), ne - 1 - i := heap ! i]"

definition ReHeap :: "('e \<Rightarrow> 'e \<Rightarrow> bool) \<Rightarrow> 'e list \<Rightarrow> 'e list res" where
  "ReHeap lt heap =
     (let heap' = fold (swap_ends (length heap)) [0..<length heap div 2] heap in
      bind_res (check (IsHeap lt heap')) (\<lambda>_. Ok heap'))"


section \<open>Correctness\<close>

definition heap_upto :: "('e \<Rightarrow> 'e \<Rightarrow> bool) \<Rightarrow> nat \<Rightarrow> 'e list \<Rightarrow> bool" where
  "heap_upto lt n xs \<longleftrightarrow> (\<forall>i. 0 < i \<and> i < n \<longrightarrow> \<not> lt (xs ! i) (xs ! ((i - 1) div 2)))"

lemma IsHeap_iff: "IsHeap lt xs \<longleftrightarrow> heap_upto lt (length xs) xs"
  by (auto simp: IsHeap_def heap_upto_def list_all_iff Suc_le_eq)

text \<open>All pairs are in order but those at the hole \<open>h\<close>.\<close>

definition hole_ok :: "('e \<Rightarrow> 'e \<Rightarrow> bool) \<Rightarrow> nat \<Rightarrow> nat \<Rightarrow> 'e list \<Rightarrow> bool" where
  "hole_ok lt n h xs \<longleftrightarrow>
     (\<forall>i. 0 < i \<and> i < n \<and> i \<noteq> h \<and> (i - 1) div 2 \<noteq> h \<longrightarrow> \<not> lt (xs ! i) (xs ! ((i - 1) div 2))) \<and>
     (\<forall>i. 0 < i \<and> i < n \<and> (i - 1) div 2 = h \<and> h \<noteq> 0 \<longrightarrow> \<not> lt (xs ! i) (xs ! ((h - 1) div 2)))"

lemma parent_less: "0 < i \<Longrightarrow> (i - 1) div 2 < (i :: nat)"
  by auto

lemma mset_move_hole:
  assumes "h < length xs" and "j < length xs" and "h \<noteq> j"
  shows "mset (xs[h := xs ! j, j := e]) = mset (xs[h := e])"
proof -
  have "xs[h := xs ! j, j := e] = (xs[h := e])[j := xs[h := e] ! h, h := xs[h := e] ! j]"
    using assms by (auto intro!: nth_equalityI simp: nth_list_update)
  then show ?thesis using mset_swap [of h "xs[h := e]" j] assms by simp
qed

lemma length_FixHeapUp_loop [simp]: "length (FixHeapUp_loop lt e h xs) = length xs"
  by (induction lt e h xs rule: FixHeapUp_loop.induct) (subst FixHeapUp_loop.simps, simp add: Let_def)

lemma mset_FixHeapUp_loop:
  "h < length xs \<Longrightarrow> mset (FixHeapUp_loop lt e h xs) = mset (xs[h := e])"
proof (induction lt e h xs rule: FixHeapUp_loop.induct)
  case (1 lt e h xs)
  have "mset (FixHeapUp_loop lt e ((h - 1) div 2) (xs[h := xs ! ((h - 1) div 2)])) = mset (xs[h := e])"
    if "h \<noteq> 0" "lt e (xs ! ((h - 1) div 2))"
  proof -
    have "(h - 1) div 2 < h" using that by auto
    then have a: "(h - 1) div 2 < length xs" "h \<noteq> (h - 1) div 2" using 1(2) by linarith+
    show ?thesis
      using 1(1) [OF that(1) refl refl] that mset_move_hole [OF 1(2) a(1) a(2), of e] a by simp
  qed
  then show ?case by (subst FixHeapUp_loop.simps) (simp add: Let_def)
qed

lemma min_kid_bounds:
  assumes "\<not> n \<le> 2 * h + 1"
  shows "h < min_kid lt h n xs" and "min_kid lt h n xs < n" and "(min_kid lt h n xs - 1) div 2 = h"
  using assms by (auto simp: min_kid_def Let_def)

lemma length_FixHeapDown_loop [simp]: "length (FixHeapDown_loop lt e h n xs) = length xs"
  by (induction lt e h n xs rule: FixHeapDown_loop.induct) (subst FixHeapDown_loop.simps, simp add: Let_def)

lemma mset_FixHeapDown_loop:
  "h < n \<Longrightarrow> n \<le> length xs \<Longrightarrow> mset (FixHeapDown_loop lt e h n xs) = mset (xs[h := e])"
proof (induction lt e h n xs rule: FixHeapDown_loop.induct)
  case (1 lt e h n xs)
  let ?k = "min_kid lt h n xs"
  have "mset (FixHeapDown_loop lt e ?k n (xs[h := xs ! ?k])) = mset (xs[h := e])"
    if "\<not> n \<le> 2 * h + 1" "\<not> lt e (xs ! ?k)"
    using 1(1) [OF that(1) refl refl that(2)] min_kid_bounds [OF that(1), of lt xs]
      mset_move_hole [of h xs ?k e] 1(2,3) by simp
  then show ?case by (subst FixHeapDown_loop.simps) (simp add: Let_def)
qed

lemma FixHeapDown_loop_tail:
  "h < n \<Longrightarrow> n \<le> i \<Longrightarrow> FixHeapDown_loop lt e h n xs ! i = xs ! i"
proof (induction lt e h n xs rule: FixHeapDown_loop.induct)
  case (1 lt e h n xs)
  let ?k = "min_kid lt h n xs"
  have "FixHeapDown_loop lt e ?k n (xs[h := xs ! ?k]) ! i = xs ! i"
    if "\<not> n \<le> 2 * h + 1" "\<not> lt e (xs ! ?k)"
    using 1(1) [OF that(1) refl refl that(2)] min_kid_bounds [OF that(1), of lt xs] 1(2,3) by simp
  then show ?case using 1(2,3) by (subst FixHeapDown_loop.simps) (simp add: Let_def)
qed

lemma hole_stop:
  assumes "hole_ok lt n h xs" and "h < length xs"
    and "h \<noteq> 0 \<Longrightarrow> \<not> lt e (xs ! ((h - 1) div 2))"
    and "\<And>i. 0 < i \<Longrightarrow> i < n \<Longrightarrow> (i - 1) div 2 = h \<Longrightarrow> \<not> lt (xs ! i) e"
  shows "heap_upto lt n (xs[h := e])"
  unfolding heap_upto_def
proof (intro allI impI)
  fix i assume i: "0 < i \<and> i < n"
  then have "(i - 1) div 2 < i" by auto
  then consider "i = h" "(i - 1) div 2 \<noteq> h" | "i \<noteq> h" "(i - 1) div 2 = h" | "i \<noteq> h" "(i - 1) div 2 \<noteq> h"
    by linarith
  then show "\<not> lt (xs[h := e] ! i) (xs[h := e] ! ((i - 1) div 2))"
    using assms i by cases (auto simp: hole_ok_def)
qed

context weight_order
begin

lemma FixHeapUp_loop_heap:
  "h < length xs \<Longrightarrow> h < n \<Longrightarrow> list_all ok (e # xs) \<Longrightarrow> hole_ok lt n h xs \<Longrightarrow> n \<le> length xs \<Longrightarrow>
    \<forall>i. 0 < i \<and> i < n \<and> (i - 1) div 2 = h \<longrightarrow> \<not> lt (xs ! i) e \<Longrightarrow>
    heap_upto lt n (FixHeapUp_loop lt e h xs)"
proof (induction h arbitrary: xs rule: less_induct)
  case (less h)
  let ?p = "(h - 1) div 2"
  show ?case
  proof (cases "h \<noteq> 0 \<and> lt e (xs ! ?p)")
    case False
    then have "FixHeapUp_loop lt e h xs = xs[h := e]" by (subst FixHeapUp_loop.simps) (auto simp: Let_def)
    then show ?thesis using False less.prems by (auto intro: hole_stop)
  next
    case True
    then have p: "?p < h" "?p < length xs" "?p < n" using less.prems by auto
    let ?xs = "xs[h := xs ! ?p]"
    have okn: "ok (xs ! i)" if "i < n" for i
      using less.prems(3,5) that by (simp add: list_all_iff)
    have h1: "\<not> lt (xs ! i) (xs ! ((i - 1) div 2))" if "0 < i" "i < n" "i \<noteq> h" "(i - 1) div 2 \<noteq> h" for i
      using less.prems(4) that by (auto simp: hole_ok_def)
    have h2: "\<not> lt (xs ! i) (xs ! ?p)" if "0 < i" "i < n" "(i - 1) div 2 = h" for i
      using less.prems(4) that True by (auto simp: hole_ok_def)
    have e: "ok e" "\<not> lt (xs ! ?p) e"
      using less.prems(3) True lt_asym [of e "xs ! ?p"] okn [OF p(3)] by auto
    have kids: "\<not> lt (?xs ! i) (xs ! ?p)" if "0 < i" "i < n" "(i - 1) div 2 = ?p" for i
      using h1 [of i] that p lt_irrefl okn [OF p(3)] less.prems(1) by (cases "i = h") auto
    have okx: "ok (?xs ! i)" if "i < n" for i
      using okn [OF that] okn [OF p(3)] less.prems(1) by (cases "i = h") auto
    have "hole_ok lt n ?p ?xs"
      unfolding hole_ok_def
    proof (intro conjI allI impI)
      fix i assume i: "0 < i \<and> i < n \<and> i \<noteq> ?p \<and> (i - 1) div 2 \<noteq> ?p"
      then have "i \<noteq> h" "(i - 1) div 2 < i" by auto
      then show "\<not> lt (?xs ! i) (?xs ! ((i - 1) div 2))"
        using h1 [of i] h2 [of i] i less.prems(1) by (cases "(i - 1) div 2 = h") auto
    next
      fix i assume i: "0 < i \<and> i < n \<and> (i - 1) div 2 = ?p \<and> ?p \<noteq> 0"
      then have q: "(?p - 1) div 2 < ?p" by (intro parent_less) simp
      have "\<not> lt (xs ! ?p) (xs ! ((?p - 1) div 2))" using i p q by (intro h1) linarith+
      moreover have "?xs ! ((?p - 1) div 2) = xs ! ((?p - 1) div 2)" using p q by (intro nth_list_update_neq) linarith
      moreover have "(?p - 1) div 2 < n" using p q by linarith
      ultimately show "\<not> lt (?xs ! i) (?xs ! ((?p - 1) div 2))"
        using not_lt_trans [OF okx okn okn] kids i p(3) by metis
    qed
    moreover have "\<forall>i. 0 < i \<and> i < n \<and> (i - 1) div 2 = ?p \<longrightarrow> \<not> lt (?xs ! i) e"
      using not_lt_trans [OF okx okn e(1), of _ ?p] kids e(2) p(3) by blast
    moreover have "list_all ok (e # ?xs)" using less.prems(3) okn [OF p(3)]
      by (auto simp: list_all_iff dest!: set_update_subset_insert [THEN subsetD])
    ultimately have "heap_upto lt n (FixHeapUp_loop lt e ?p ?xs)"
      using p less.prems(2,5) by (intro less.IH) simp_all
    moreover have "FixHeapUp_loop lt e h xs = FixHeapUp_loop lt e ?p ?xs"
      using True by (subst FixHeapUp_loop.simps) (simp add: Let_def)
    ultimately show ?thesis by simp
  qed
qed

lemma min_kid_least:
  assumes "\<not> n \<le> 2 * h + 1" and "0 < i" and "i < n" and "(i - 1) div 2 = h"
    and "\<And>i. i < n \<Longrightarrow> ok (xs ! i)"
  shows "\<not> lt (xs ! i) (xs ! min_kid lt h n xs)"
proof -
  have "i = 2 * h + 1 \<or> i = 2 * h + 2" using assms(2,4) by (cases i) auto
  then show ?thesis
  proof
    assume "i = 2 * h + 1"
    then show ?thesis
      using assms(1,3) lt_irrefl [OF assms(5), of i] lt_asym [OF assms(5) assms(5), of "i + 1" i]
      by (simp add: min_kid_def Let_def)
  next
    assume "i = 2 * h + 2"
    then show ?thesis
      using assms(3) lt_irrefl [OF assms(5), of i] by (simp add: min_kid_def Let_def)
  qed
qed

lemma FixHeapDown_loop_heap:
  "h < n \<Longrightarrow> list_all ok (e # xs) \<Longrightarrow> hole_ok lt n h xs \<Longrightarrow> n \<le> length xs \<Longrightarrow>
    h \<noteq> 0 \<longrightarrow> \<not> lt e (xs ! ((h - 1) div 2)) \<Longrightarrow>
    heap_upto lt n (FixHeapDown_loop lt e h n xs)"
proof (induction "n - h" arbitrary: h xs rule: less_induct)
  case less
  let ?k = "min_kid lt h n xs"
  let ?xs = "xs[h := xs ! ?k]"
  have okn: "ok (xs ! i)" if "i < n" for i
    using less.prems(2,4) that by (simp add: list_all_iff)
  have e: "ok e" using less.prems(2) by simp
  show ?case
  proof (cases "n \<le> 2 * h + 1 \<or> lt e (xs ! ?k)")
    case True
    then have "FixHeapDown_loop lt e h n xs = xs[h := e]"
      by (subst FixHeapDown_loop.simps) (auto simp: Let_def)
    moreover have "\<not> lt (xs ! i) e" if "0 < i" "i < n" "(i - 1) div 2 = h" for i
    proof -
      have n: "\<not> n \<le> 2 * h + 1" using that by auto
      then have "\<not> lt (xs ! ?k) e" using True lt_asym [OF e okn] min_kid_bounds(2) [OF n] by auto
      then show ?thesis
        using min_kid_least [OF n that(1,2,3) okn] not_lt_trans [OF okn okn e, of i ?k] that
          min_kid_bounds(2) [OF n] by blast
    qed
    ultimately show ?thesis using less.prems by (auto intro: hole_stop)
  next
    case False
    then have n: "\<not> n \<le> 2 * h + 1" and ge: "\<not> lt e (xs ! ?k)" by auto
    note k = min_kid_bounds [OF n, of lt xs]
    have h1: "\<not> lt (xs ! i) (xs ! ((i - 1) div 2))" if "0 < i" "i < n" "i \<noteq> h" "(i - 1) div 2 \<noteq> h" for i
      using less.prems(3) that by (auto simp: hole_ok_def)
    have h2: "\<not> lt (xs ! i) (xs ! ((h - 1) div 2))" if "0 < i" "i < n" "(i - 1) div 2 = h" "h \<noteq> 0" for i
      using less.prems(3) that by (auto simp: hole_ok_def)
    have "hole_ok lt n ?k ?xs"
      unfolding hole_ok_def
    proof (intro conjI allI impI)
      fix i assume i: "0 < i \<and> i < n \<and> i \<noteq> ?k \<and> (i - 1) div 2 \<noteq> ?k"
      then have par: "(i - 1) div 2 < i" by (intro parent_less) simp
      have hx: "h < length xs" using less.prems(1,4) by simp
      consider "i = h" | "i \<noteq> h" "(i - 1) div 2 = h" | "i \<noteq> h" "(i - 1) div 2 \<noteq> h" by blast
      then show "\<not> lt (?xs ! i) (?xs ! ((i - 1) div 2))"
      proof cases
        case 1
        then show ?thesis using h2 [OF _ k(2,3)] k(1) i par hx by simp
      next
        case 2
        then show ?thesis using min_kid_least [OF n _ _ _ okn, of i] i hx by simp
      next
        case 3
        then show ?thesis using h1 [of i] i by simp
      qed
    next
      fix i assume i: "0 < i \<and> i < n \<and> (i - 1) div 2 = ?k \<and> ?k \<noteq> 0"
      then have "?k < i" using parent_less [of i] by simp
      then show "\<not> lt (?xs ! i) (?xs ! ((?k - 1) div 2))"
        using h1 [of i] i k less.prems(1,4) by simp
    qed
    moreover have "list_all ok (e # ?xs)" using less.prems(2) okn [OF k(2)]
      by (auto simp: list_all_iff dest!: set_update_subset_insert [THEN subsetD])
    ultimately have "heap_upto lt n (FixHeapDown_loop lt e ?k n ?xs)"
      using k ge less.prems(1,4) by (intro less.hyps) auto
    moreover have "FixHeapDown_loop lt e h n xs = FixHeapDown_loop lt e ?k n ?xs"
      using n ge by (subst FixHeapDown_loop.simps) (simp add: Let_def)
    ultimately show ?thesis by simp
  qed
qed

lemma heap_root_least:
  assumes "heap_upto lt n xs" and "\<And>i. i < n \<Longrightarrow> ok (xs ! i)"
  shows "i < n \<Longrightarrow> \<not> lt (xs ! i) (xs ! 0)"
proof (induction i rule: less_induct)
  case (less i)
  show ?case
  proof (cases "i = 0")
    case True
    then show ?thesis using lt_irrefl assms(2) less.prems by simp
  next
    case False
    let ?p = "(i - 1) div 2"
    have p: "?p < i" "?p < n" "0 < n" using False parent_less [of i] less.prems by simp_all
    then have "\<not> lt (xs ! ?p) (xs ! 0)" by (intro less.IH)
    moreover have "\<not> lt (xs ! i) (xs ! ?p)" using assms(1) False less.prems by (auto simp: heap_upto_def)
    ultimately show ?thesis
      using not_lt_trans [OF assms(2) assms(2) assms(2), of i ?p 0] less.prems p by blast
  qed
qed

lemma FixHeapUp_push:
  assumes "IsHeap lt xs" and "list_all ok (e # xs)"
  shows "\<exists>ys. FixHeapUp lt (length xs) (xs @ [e]) = Ok ys \<and> IsHeap lt ys \<and> mset ys = mset (e # xs)"
proof -
  let ?n = "length xs" let ?xs = "xs @ [e]" let ?ys = "FixHeapUp_loop lt e ?n ?xs"
  have par: "(i - 1) div 2 < ?n" if "0 < i" "i < Suc ?n" for i
    using parent_less [OF that(1)] that(2) by linarith
  then have "hole_ok lt (Suc ?n) ?n ?xs"
    using assms(1) by (fastforce simp: hole_ok_def IsHeap_iff heap_upto_def nth_append)
  then have "heap_upto lt (Suc ?n) ?ys"
    using assms(2) by (intro FixHeapUp_loop_heap) auto
  moreover have "mset ?ys = mset (e # xs)" by (simp add: mset_FixHeapUp_loop)
  ultimately show ?thesis by (simp add: FixHeapUp_def IsHeap_iff)
qed

lemma FixHeapDown_root:
  assumes "heap_upto lt n xs" and "0 < n" and "n \<le> length xs" and "list_all ok (e # xs)"
  shows "\<exists>ys. FixHeapDown lt 0 n (xs[0 := e]) = Ok ys \<and> heap_upto lt n ys \<and> mset ys = mset (xs[0 := e])
    \<and> drop n ys = drop n xs \<and> length ys = length xs"
proof -
  let ?xs = "xs[0 := e]" let ?ys = "FixHeapDown_loop lt e 0 n ?xs"
  have "list_all ok (e # ?xs)"
    using assms(4) by (auto simp: list_all_iff dest!: set_update_subset_insert [THEN subsetD])
  moreover have "hole_ok lt n 0 ?xs" using assms(1) by (auto simp: hole_ok_def heap_upto_def)
  ultimately have "heap_upto lt n ?ys" using assms by (intro FixHeapDown_loop_heap) auto
  moreover have "drop n ?ys = drop n xs"
    using assms(2,3) FixHeapDown_loop_tail [OF assms(2), of _ lt e ?xs] by (auto intro!: nth_equalityI)
  moreover have "?xs ! 0 = e" using assms(2,3) by (cases xs) simp_all
  moreover have "mset ?ys = mset ?xs" using assms by (simp add: mset_FixHeapDown_loop)
  ultimately show ?thesis using assms by (simp add: FixHeapDown_def)
qed

lemma FixHeap_changed:
  assumes "IsHeap lt xs" and "h < length xs" and "list_all ok (e # xs)"
  shows "\<exists>ys. FixHeap lt h (xs[h := e]) = Ok ys \<and> IsHeap lt ys \<and> mset ys = mset (xs[h := e])"
proof -
  let ?n = "length xs" let ?p = "(h - 1) div 2" let ?xs = "xs[h := e]"
  have okx: "list_all ok (e # ?xs)"
    using assms(3) by (auto simp: list_all_iff dest!: set_update_subset_insert [THEN subsetD])
  have okn: "ok (xs ! i)" if "i < ?n" for i using assms(3) that by (simp add: list_all_iff)
  have hp: "\<not> lt (xs ! i) (xs ! ((i - 1) div 2))" if "0 < i" "i < ?n" for i
    using assms(1) that by (auto simp: IsHeap_iff heap_upto_def)
  have hole: "hole_ok lt ?n h ?xs"
    unfolding hole_ok_def
  proof (intro conjI allI impI)
    fix i assume "0 < i \<and> i < ?n \<and> i \<noteq> h \<and> (i - 1) div 2 \<noteq> h"
    then show "\<not> lt (?xs ! i) (?xs ! ((i - 1) div 2))" using hp [of i] by simp
  next
    fix i assume i: "0 < i \<and> i < ?n \<and> (i - 1) div 2 = h \<and> h \<noteq> 0"
    then have "h < i" "?p < h" using parent_less [of i] parent_less [of h] by auto
    then show "\<not> lt (?xs ! i) (?xs ! ?p)"
      using hp [of i] hp [of h] not_lt_trans [OF okn okn okn, of i h ?p] i assms(2) by auto
  qed
  show ?thesis
  proof (cases "h \<noteq> 0 \<and> lt e (?xs ! ?p)")
    case True
    have p: "?p < h" "?p < ?n" using True assms(2) parent_less [of h] by auto
    have "\<not> lt (?xs ! i) e" if i: "0 < i \<and> i < ?n \<and> (i - 1) div 2 = h" for i
    proof -
      have "h < i" using i parent_less [of i] by auto
      moreover have "\<not> lt (?xs ! i) (?xs ! ?p)" using hole i True by (auto simp: hole_ok_def)
      moreover have "\<not> lt (xs ! ?p) e" using True p lt_asym [of e "xs ! ?p"] okn okx by auto
      ultimately show ?thesis using not_lt_trans [of "xs ! i" "xs ! ?p" e] okn i p okx by auto
    qed
    then have "heap_upto lt ?n (FixHeapUp_loop lt e h ?xs)"
      using assms(2) okx hole by (intro FixHeapUp_loop_heap) auto
    then show ?thesis
      using True assms(2) by (simp add: FixHeap_def FixHeapUp_def mset_FixHeapUp_loop IsHeap_iff)
  next
    case False
    then have "heap_upto lt ?n (FixHeapDown_loop lt e h ?n ?xs)"
      using assms(2) okx hole by (intro FixHeapDown_loop_heap) auto
    then show ?thesis
      using False assms(2)
      by (auto simp: FixHeap_def FixHeapDown_def mset_FixHeapDown_loop IsHeap_iff)
  qed
qed

text \<open>While sorting, the part from \<open>n\<close> on is in its final, descending order, and nothing in
  front of it is smaller.\<close>

definition sorting :: "nat \<Rightarrow> 'w list \<Rightarrow> bool" where
  "sorting n xs \<longleftrightarrow> n \<le> length xs \<and> list_all ok xs \<and> heap_upto lt n xs
     \<and> sorted_wrt (\<lambda>a b. \<not> lt a b) (drop n xs)
     \<and> (\<forall>a \<in> set (take n xs). \<forall>b \<in> set (drop n xs). \<not> lt a b)"

lemma sorting_step:
  assumes "sorting (Suc n) xs" and "0 < n"
  shows "\<exists>ys. FixHeapDown lt 0 n (xs[0 := xs ! n, n := xs ! 0]) = Ok ys \<and> sorting n ys
    \<and> mset ys = mset xs \<and> length ys = length xs"
proof -
  let ?zs = "xs[n := xs ! 0]"
  have s: "n < length xs" "list_all ok xs" "heap_upto lt (Suc n) xs"
    "sorted_wrt (\<lambda>a b. \<not> lt a b) (drop (Suc n) xs)"
    "\<And>a b. a \<in> set (take (Suc n) xs) \<Longrightarrow> b \<in> set (drop (Suc n) xs) \<Longrightarrow> \<not> lt a b"
    using assms(1) by (auto simp: sorting_def)
  have least: "\<not> lt (xs ! i) (xs ! 0)" if "i < Suc n" for i
    using heap_root_least [OF s(3), of i] s(1,2) that by (auto simp: list_all_length)
  have "heap_upto lt n ?zs" using s(3) parent_less by (auto simp: heap_upto_def)
  moreover have "ok (xs ! 0)" using s(1,2) by (cases xs) auto
  then have "list_all ok (xs ! n # ?zs)" using s(1,2)
    by (auto simp: list_all_iff dest!: set_update_subset_insert [THEN subsetD])
  ultimately obtain ys where ys: "FixHeapDown lt 0 n (?zs[0 := xs ! n]) = Ok ys" "heap_upto lt n ys"
    "mset ys = mset (?zs[0 := xs ! n])" "drop n ys = drop n ?zs" "length ys = length ?zs"
    using FixHeapDown_root [of n ?zs "xs ! n"] assms(2) s(1) by auto
  have sw: "?zs[0 := xs ! n] = xs[0 := xs ! n, n := xs ! 0]" using assms(2) by (simp add: list_update_swap)
  then have m: "mset ys = mset xs" using ys(3) mset_swap [of n xs 0] s(1) by (cases "xs = []") simp_all
  have d: "drop n ys = xs ! 0 # drop (Suc n) xs"
    using ys(4) s(1) by (simp add: Cons_nth_drop_Suc [symmetric])
  have "mset (take n ys) + mset (drop n ys) = mset (take (Suc n) xs) + mset (drop (Suc n) xs)"
    using m by (simp flip: mset_append)
  then have "mset (take (Suc n) xs) = add_mset (xs ! 0) (mset (take n ys))" using d by simp
  then have "set (take n ys) \<subseteq> set (take (Suc n) xs)"
    by (metis mset_subset_eq_add_right add_mset_add_single mset_subset_eq_add_left set_mset_mono set_mset_mset)
  moreover have "\<not> lt a (xs ! 0)" if "a \<in> set (take (Suc n) xs)" for a
    using least that by (auto simp: in_set_conv_nth)
  moreover have "xs ! 0 \<in> set (take (Suc n) xs)" using s(1) by (cases xs) auto
  moreover have "list_all ok ys" using s(2) mset_eq_setD [OF m] by (simp add: list_all_iff)
  ultimately have "sorting n ys" using d s(1,4,5) ys(2,5) by (auto simp: sorting_def)
  then show ?thesis using ys(1,5) sw m by auto
qed

lemma Sort_loop_sorts:
  "sorting n xs \<Longrightarrow> \<exists>ys. Sort_loop lt n xs = Ok ys \<and> mset ys = mset xs \<and> sorted_wrt (\<lambda>a b. \<not> lt a b) ys"
proof (induction n arbitrary: xs)
  case 0
  then show ?case by (simp add: sorting_def)
next
  case (Suc n)
  show ?case
  proof (cases "n = 0")
    case True
    then have "sorted_wrt (\<lambda>a b. \<not> lt a b) (take 1 xs @ drop 1 xs)"
      using Suc.prems by (cases xs) (auto simp: sorting_def)
    then show ?thesis using True by (simp del: sorted_wrt_append)
  next
    case False
    then obtain ys where ys: "FixHeapDown lt 0 n (xs[0 := xs ! n, n := xs ! 0]) = Ok ys" "sorting n ys"
      "mset ys = mset xs" using sorting_step [OF Suc.prems] by auto
    then show ?thesis using Suc.IH [OF ys(2)] False by auto
  qed
qed

lemma Sort_sorts:
  assumes "IsHeap lt xs" and "list_all ok xs"
  shows "\<exists>ys. Sort lt xs = Ok ys \<and> mset ys = mset xs \<and> sorted_wrt (\<lambda>a b. \<not> lt a b) ys"
  using Sort_loop_sorts [of "length xs" xs] assms
  by (auto simp: Sort_def sorting_def IsHeap_iff)

end

lemma fold_swap_ends:
  assumes "k \<le> length xs div 2"
  shows "length (fold (swap_ends (length xs)) [0..<k] xs) = length xs
    \<and> (\<forall>j < length xs. fold (swap_ends (length xs)) [0..<k] xs ! j =
         (if j < k \<or> length xs - k \<le> j then xs ! (length xs - 1 - j) else xs ! j))"
  using assms
proof (induction k)
  case (Suc k)
  let ?n = "length xs" let ?ys = "fold (swap_ends (length xs)) [0..<k] xs"
  have k: "k < ?n - 1 - k" "\<not> ?n - k \<le> k" using Suc.prems by linarith+
  have len: "length ?ys = ?n"
    and ys: "\<And>j. j < ?n \<Longrightarrow> ?ys ! j = (if j < k \<or> ?n - k \<le> j then xs ! (?n - 1 - j) else xs ! j)"
    using Suc.IH Suc.prems by simp_all
  have "swap_ends ?n k ?ys ! j = (if j < Suc k \<or> ?n - Suc k \<le> j then xs ! (?n - 1 - j) else xs ! j)"
    if "j < ?n" for j
  proof -
    consider "j = k" | "j = ?n - 1 - k" | "j \<noteq> k" "j \<noteq> ?n - 1 - k" by blast
    then show ?thesis
    proof cases
      case 3
      then have "j < k \<or> ?n - k \<le> j \<longleftrightarrow> j < Suc k \<or> ?n - Suc k \<le> j" using k by linarith
      then show ?thesis using 3 ys [OF that] by (simp add: swap_ends_def)
    qed (use k that len ys [of k] ys [of "?n - 1 - k"] in \<open>simp_all add: swap_ends_def nth_list_update\<close>)
  qed
  moreover have "length (swap_ends ?n k ?ys) = ?n" using len by (simp add: swap_ends_def)
  ultimately show ?case by simp
qed simp

lemma swap_ends_rev: "fold (swap_ends (length xs)) [0..<length xs div 2] xs = rev xs"
proof (rule nth_equalityI)
  fix j assume "j < length (fold (swap_ends (length xs)) [0..<length xs div 2] xs)"
  then have "j < length xs" using fold_swap_ends [of "length xs div 2" xs] by simp
  moreover have "\<not> (j < length xs div 2 \<or> length xs - length xs div 2 \<le> j) \<Longrightarrow> length xs - 1 - j = j"
    using \<open>j < length xs\<close> by linarith
  ultimately show "fold (swap_ends (length xs)) [0..<length xs div 2] xs ! j = rev xs ! j"
    using fold_swap_ends [of "length xs div 2" xs] by (auto simp: rev_nth)
qed (use fold_swap_ends [of "length xs div 2" xs] in simp)

lemma ReHeap_sorted:
  assumes "sorted_wrt (\<lambda>a b. \<not> lt a b) xs"
  shows "ReHeap lt xs = Ok (rev xs) \<and> IsHeap lt (rev xs)"
proof -
  have "sorted_wrt (\<lambda>a b. \<not> lt b a) (rev xs)" using assms by (simp add: sorted_wrt_rev)
  then have "IsHeap lt (rev xs)"
    using parent_less by (auto simp: IsHeap_iff heap_upto_def sorted_wrt_iff_nth_less)
  then show ?thesis by (simp add: ReHeap_def swap_ends_rev Let_def)
qed

end
