(* ===== verification/Szl_Heap.thy ===== *)
theory Szl_Heap
  imports Szl_Sift Szl_Typed
begin

text \<open>
  \<open>SzlHeap\<close> of src/src/emitters/szlheap.cc: the structure the maximum and minimum tables
  keep their elements in, at most \<open>maxElems\<close> of them with the smallest weight at the top.
  The weights are compared by one of the two classes derived from \<open>SzlValueCmp\<close>.
\<close>

section \<open>Comparison objects\<close>

datatype szl_value_cmp = SzlValueLess | SzlValueGreater

fun cmp_lt :: "szl_ops \<Rightarrow> szl_value_cmp \<Rightarrow> szl_value \<Rightarrow> szl_value \<Rightarrow> bool" where
  "cmp_lt p SzlValueLess a b = (SzlValueLess_Cmp p a b = Ok True)"
| "cmp_lt p SzlValueGreater a b = (SzlValueGreater_Cmp p a b = Ok True)"

text \<open>The order of the keys that belongs to a comparison object.\<close>

fun key_le :: "szl_value_cmp \<Rightarrow> okey \<Rightarrow> okey \<Rightarrow> bool" where
  "key_le SzlValueLess a b = (a \<le> b)"
| "key_le SzlValueGreater a b = (b \<le> a)"

lemma key_le_trans: "key_le c x y \<Longrightarrow> key_le c y z \<Longrightarrow> key_le c x z"
  by (cases c) auto

lemma key_le_total: "key_le c x y \<or> key_le c y x"
  by (cases c) auto

lemma cmp_lt_key:
  "tv p a \<Longrightarrow> tv p b \<Longrightarrow> cmp_lt p c a b \<longleftrightarrow> \<not> key_le c (vkey p (Some b)) (vkey p (Some a))"
  using value_lt_key [of p a b] value_lt_key [of p b a]
  by (cases c) (auto simp: SzlValueLess_Cmp_def SzlValueGreater_Cmp_def value_lt_def typed_for_iff)


section \<open>The heap\<close>

record heap_elem =
  el_value :: bytes
  el_weight :: szl_value

record szl_heap =
  hp_elems :: "heap_elem list"
  hp_maxElems :: int

definition elem_lt :: "szl_ops \<Rightarrow> szl_value_cmp \<Rightarrow> heap_elem \<Rightarrow> heap_elem \<Rightarrow> bool" where
  "elem_lt p c a b = cmp_lt p c (el_weight a) (el_weight b)"

definition new_heap :: "int \<Rightarrow> szl_heap" where
  "new_heap maxElems = \<lparr>hp_elems = [], hp_maxElems = maxElems\<rparr>"

definition heap_nElems :: "szl_heap \<Rightarrow> int" where
  "heap_nElems h = int (length (hp_elems h))"

definition heap_Clear :: "szl_ops \<Rightarrow> szl_heap \<Rightarrow> szl_heap res" where
  "heap_Clear p h =
     bind_res (map_res (\<lambda>e. Clear p (el_weight e)) (hp_elems h)) (\<lambda>_. Ok (h\<lparr>hp_elems := []\<rparr>))"

text \<open>\<open>base\<close> is \<open>sizeof(SzlHeap) + sizeof(*heap_)\<close> and \<open>each\<close> is \<open>sizeof(Elem) + sizeof(Elem*)\<close>,
  which depend on the compiler.\<close>

definition heap_Memory :: "int \<Rightarrow> int \<Rightarrow> szl_ops \<Rightarrow> szl_heap \<Rightarrow> int res" where
  "heap_Memory base each p h =
     fold_res (\<lambda>e mem. bind_res (Memory p (el_weight e)) (\<lambda>m.
         Ok (mem + (each - sizeof_value + m + int (length (el_value e))))))
       (hp_elems h) base"

definition heap_AddElem :: "szl_ops \<Rightarrow> szl_value_cmp \<Rightarrow> bytes \<Rightarrow> szl_value \<Rightarrow> szl_heap
    \<Rightarrow> (int \<times> szl_heap) res" where
  "heap_AddElem p c value w h =
     (let heap = hp_elems h in
      if heap_nElems h < hp_maxElems h then
        bind_res (Assign p w VZero) (\<lambda>ew.
        bind_res (FixHeapUp (elem_lt p c) (length heap) (heap @ [\<lparr>el_value = value, el_weight = ew\<rparr>])) (\<lambda>heap'.
        bind_res (Memory p w) (\<lambda>m.
        Ok (int (length value) + m - sizeof_value, h\<lparr>hp_elems := heap'\<rparr>))))
      else if hp_maxElems h \<noteq> 0 then
        (case heap of
           [] \<Rightarrow> Inl Out_of_range
         | smallest # _ \<Rightarrow>
             if cmp_lt p c (el_weight smallest) w then
               bind_res (Memory p (el_weight smallest)) (\<lambda>ms.
               let mem = int (length (el_value smallest)) + ms in
               bind_res (Assign p w (el_weight smallest)) (\<lambda>ew.
               bind_res (FixHeapDown (elem_lt p c) 0 (length heap)
                   (heap[0 := \<lparr>el_value = value, el_weight = ew\<rparr>])) (\<lambda>heap'.
               bind_res (Memory p w) (\<lambda>m.
               Ok (int (length value) + m - mem, h\<lparr>hp_elems := heap'\<rparr>)))))
             else Ok (0, h))
      else Ok (0, h))"

definition heap_Sort :: "szl_ops \<Rightarrow> szl_value_cmp \<Rightarrow> szl_heap \<Rightarrow> szl_heap res" where
  "heap_Sort p c h = bind_res (Sort (elem_lt p c) (hp_elems h)) (\<lambda>xs. Ok (h\<lparr>hp_elems := xs\<rparr>))"

definition heap_ReHeap :: "szl_ops \<Rightarrow> szl_value_cmp \<Rightarrow> szl_heap \<Rightarrow> szl_heap res" where
  "heap_ReHeap p c h = bind_res (ReHeap (elem_lt p c) (hp_elems h)) (\<lambda>xs. Ok (h\<lparr>hp_elems := xs\<rparr>))"

interpretation elem_order: weight_order "\<lambda>e. tv p (el_weight e)" "elem_lt p c" for p c
  using key_le_total key_le_trans by unfold_locales (auto simp: elem_lt_def cmp_lt_key)


section \<open>What the heap keeps\<close>

text \<open>A string with the key of its weight.\<close>

definition elem_key :: "szl_ops \<Rightarrow> heap_elem \<Rightarrow> bytes \<times> okey" where
  "elem_key p e = (el_value e, vkey p (Some (el_weight e)))"

text \<open>The heap holds a part of what was added, \<open>xs\<close>, and nothing it has dropped is ahead of
  anything it holds.\<close>

definition keeps :: "szl_ops \<Rightarrow> szl_value_cmp \<Rightarrow> (bytes \<times> okey) multiset \<Rightarrow> szl_heap \<Rightarrow> bool" where
  "keeps p c xs h \<longleftrightarrow>
     list_all (\<lambda>e. tv p (el_weight e)) (hp_elems h) \<and> IsHeap (elem_lt p c) (hp_elems h)
     \<and> 0 \<le> hp_maxElems h \<and> length (hp_elems h) = min (nat (hp_maxElems h)) (size xs)
     \<and> (\<exists>dropped. xs = mset (map (elem_key p) (hp_elems h)) + dropped
          \<and> (\<forall>d \<in># dropped. \<forall>e \<in> set (hp_elems h). key_le c (snd d) (snd (elem_key p e))))"

lemma keepsD:
  assumes "keeps p c xs h"
  shows "list_all (\<lambda>e. tv p (el_weight e)) (hp_elems h)" and "IsHeap (elem_lt p c) (hp_elems h)"
    and "heap_upto (elem_lt p c) (length (hp_elems h)) (hp_elems h)"
  using assms unfolding keeps_def IsHeap_iff by blast+

lemma keeps_new: "0 \<le> n \<Longrightarrow> keeps p c {#} (new_heap n)"
  by (simp add: keeps_def new_heap_def IsHeap_def)

lemma image_mset_eq: "mset xs = mset ys \<Longrightarrow> mset (map f xs) = mset (map f ys)"
  by (metis mset_map)

lemma AddElem_room:
  assumes "keeps p c xs h" and "tv p w" and "heap_nElems h < hp_maxElems h"
  shows "\<exists>m h'. heap_AddElem p c v w h = Ok (m, h') \<and> keeps p c (add_mset (v, vkey p (Some w)) xs) h'
    \<and> hp_maxElems h' = hp_maxElems h
    \<and> set (hp_elems h') \<subseteq> insert \<lparr>el_value = v, el_weight = settle p w\<rparr> (set (hp_elems h))"
proof -
  let ?e = "\<lparr>el_value = v, el_weight = settle p w\<rparr>"
  have tvz: "tv p VZero" using tv_typed(1) [OF assms(2)] by (simp add: typed_tv(1))
  have k: "list_all (\<lambda>e. tv p (el_weight e)) (?e # hp_elems h)" "IsHeap (elem_lt p c) (hp_elems h)"
    using assms(1,2) settle_typed(1) by (auto simp: keeps_def)
  obtain ys where ys: "FixHeapUp (elem_lt p c) (length (hp_elems h)) (hp_elems h @ [?e]) = Ok ys"
    "IsHeap (elem_lt p c) ys" "mset ys = mset (?e # hp_elems h)"
    using elem_order.FixHeapUp_push [OF k(2,1)] by blast
  have sz: "size xs = length (hp_elems h)" "length (hp_elems h) < nat (hp_maxElems h)"
    using assms(1,3) by (auto simp: keeps_def heap_nElems_def)
  then have xs: "xs = mset (map (elem_key p) (hp_elems h))" using assms(1) by (auto simp: keeps_def)
  have "elem_key p ?e = (v, vkey p (Some w))" using settle_typed(1) [OF assms(2)] by (simp add: elem_key_def)
  then have "mset (map (elem_key p) ys) = add_mset (v, vkey p (Some w)) xs"
    using image_mset_eq [OF ys(3), of "elem_key p"] xs by simp
  moreover have "set ys = set (?e # hp_elems h)" using mset_eq_setD [OF ys(3)] .
  moreover have "length ys = Suc (length (hp_elems h))" using mset_eq_length [OF ys(3)] by simp
  ultimately have "keeps p c (add_mset (v, vkey p (Some w)) xs) (h\<lparr>hp_elems := ys\<rparr>)"
      "set ys \<subseteq> insert ?e (set (hp_elems h))"
    using ys(2) k(1) sz assms(1) by (auto simp: keeps_def list_all_iff)
  then show ?thesis
    using assms(3) ys(1) Assign_typed(1) [OF assms(2) tvz] Memory_typed(1) [OF assms(2)]
    by (auto simp: heap_AddElem_def)
qed

lemma heap_top_least:
  assumes "keeps p c xs h" and "hp_elems h = s # es" and "e \<in> set (hp_elems h)"
  shows "key_le c (snd (elem_key p s)) (snd (elem_key p e))"
proof -
  have ok: "\<And>i. i < length (hp_elems h) \<Longrightarrow> tv p (el_weight (hp_elems h ! i))"
    and hu: "heap_upto (elem_lt p c) (length (hp_elems h)) (hp_elems h)"
    using keepsD [OF assms(1)] by (simp_all add: list_all_length)
  obtain i where i: "i < length (hp_elems h)" "e = hp_elems h ! i" using assms(3) by (auto simp: in_set_conv_nth)
  have "\<not> elem_lt p c e s"
    using elem_order.heap_root_least [OF hu ok i(1)] i(2) assms(2) by simp
  moreover have "tv p (el_weight e)" "tv p (el_weight s)" using ok [OF i(1)] ok [of 0] i(2) assms(2) by simp_all
  ultimately show ?thesis by (simp add: elem_lt_def cmp_lt_key elem_key_def)
qed

lemma AddElem_full:
  assumes "keeps p c xs h" and "tv p w" and "\<not> heap_nElems h < hp_maxElems h"
  shows "\<exists>m h'. heap_AddElem p c v w h = Ok (m, h') \<and> keeps p c (add_mset (v, vkey p (Some w)) xs) h'
    \<and> hp_maxElems h' = hp_maxElems h
    \<and> set (hp_elems h') \<subseteq> insert \<lparr>el_value = v, el_weight = settle p w\<rparr> (set (hp_elems h))"
proof (cases "hp_elems h")
  case Nil
  then have "hp_maxElems h = 0" using assms(1,3) by (auto simp: keeps_def heap_nElems_def)
  then show ?thesis using Nil assms(1) by (auto simp: heap_AddElem_def heap_nElems_def keeps_def)
next
  case (Cons s es)
  let ?new = "(v, vkey p (Some w))"
  have n0: "hp_maxElems h \<noteq> 0" using assms(1) Cons by (auto simp: keeps_def)
  have s: "tv p (el_weight s)" using assms(1) Cons by (auto simp: keeps_def)
  obtain dropped where d: "xs = mset (map (elem_key p) (hp_elems h)) + dropped"
    "\<And>d e. d \<in># dropped \<Longrightarrow> e \<in> set (hp_elems h) \<Longrightarrow> key_le c (snd d) (snd (elem_key p e))"
    using assms(1) by (auto simp: keeps_def)
  have top: "key_le c (snd (elem_key p s)) (snd (elem_key p e))" if "e \<in> set (hp_elems h)" for e
    using heap_top_least [OF assms(1) Cons that] .
  have len: "length (hp_elems h) = nat (hp_maxElems h)" "nat (hp_maxElems h) \<le> size xs"
    using assms(1,3) by (auto simp: keeps_def heap_nElems_def)
  show ?thesis
  proof (cases "cmp_lt p c (el_weight s) w")
    case False
    then have "key_le c (snd ?new) (snd (elem_key p s))" using s assms(2) by (simp add: cmp_lt_key elem_key_def)
    then have "keeps p c (add_mset ?new xs) h"
      using assms(1) d len top key_le_trans
      by (auto simp: keeps_def intro!: exI [of _ "add_mset ?new dropped"])
    then show ?thesis using False Cons n0 assms(3) by (auto simp: heap_AddElem_def)
  next
    case True
    then have lt: "key_le c (snd (elem_key p s)) (snd ?new)"
      using s assms(2) key_le_total by (auto simp: cmp_lt_key elem_key_def)
    let ?e = "\<lparr>el_value = v, el_weight = settle p w\<rparr>"
    have k: "list_all (\<lambda>e. tv p (el_weight e)) (?e # hp_elems h)"
        "heap_upto (elem_lt p c) (length (hp_elems h)) (hp_elems h)"
      using keepsD [OF assms(1)] settle_typed(1) [OF assms(2)] by simp_all
    obtain ys where ys: "FixHeapDown (elem_lt p c) 0 (length (hp_elems h)) ((hp_elems h)[0 := ?e]) = Ok ys"
      "IsHeap (elem_lt p c) ys" "mset ys = mset (?e # es)" "length ys = length (hp_elems h)"
    proof -
      have "0 < length (hp_elems h)" using Cons by simp
      from elem_order.FixHeapDown_root [OF k(2) this order.refl k(1)] show thesis
        using Cons by (elim exE conjE) (rule that, simp_all add: IsHeap_iff)
    qed
    have ek: "elem_key p ?e = ?new" using settle_typed(1) [OF assms(2)] by (simp add: elem_key_def)
    have "set ys = set (?e # es)" using mset_eq_setD [OF ys(3)] .
    moreover have "add_mset ?new xs = mset (map (elem_key p) ys) + add_mset (elem_key p s) dropped"
      using image_mset_eq [OF ys(3), of "elem_key p"] d(1) Cons ek by simp
    moreover have "key_le c (snd b) (snd (elem_key p e))"
      if "b \<in># add_mset (elem_key p s) dropped" "e \<in> set (?e # es)" for b e
    proof -
      have "key_le c (snd b) (snd (elem_key p s))"
        using that(1) d(2) [of b s] Cons top [of s] by auto
      moreover have "key_le c (snd (elem_key p s)) (snd (elem_key p e))"
        using that(2) lt ek top [of e] Cons by auto
      ultimately show ?thesis by (rule key_le_trans)
    qed
    ultimately have "keeps p c (add_mset ?new xs) (h\<lparr>hp_elems := ys\<rparr>)" "set ys \<subseteq> insert ?e (set (hp_elems h))"
      using ys(2,4) k(1) len assms(1) Cons by (auto simp: keeps_def list_all_iff)
    then show ?thesis
      using assms(3) ys(1) True Cons n0 Assign_typed(1) [OF assms(2) s]
        Memory_typed(1) [OF assms(2)] Memory_typed(1) [OF s]
      by (auto simp: heap_AddElem_def)
  qed
qed

definition heap_AddAll :: "szl_ops \<Rightarrow> szl_value_cmp \<Rightarrow> (bytes \<times> szl_value) list \<Rightarrow> szl_heap \<Rightarrow> szl_heap res" where
  "heap_AddAll p c xs h =
     fold_res (\<lambda>(v, w) h. bind_res (heap_AddElem p c v w h) (\<lambda>(m, h'). Ok h')) xs h"

lemma heap_AddAll_keeps:
  "keeps p c ys h \<Longrightarrow> \<forall>(v, w) \<in> set xs. tv p w \<Longrightarrow>
    \<exists>h'. heap_AddAll p c xs h = Ok h'
      \<and> keeps p c (mset (map (\<lambda>(v, w). (v, vkey p (Some w))) xs) + ys) h' \<and> hp_maxElems h' = hp_maxElems h"
proof (induction xs arbitrary: ys h)
  case Nil
  then show ?case by (simp add: heap_AddAll_def)
next
  case (Cons x xs)
  obtain v w where x: "x = (v, w)" "tv p w" using Cons.prems(2) by (cases x) auto
  obtain m h1 where h1: "heap_AddElem p c v w h = Ok (m, h1)"
    "keeps p c (add_mset (v, vkey p (Some w)) ys) h1" "hp_maxElems h1 = hp_maxElems h"
    using AddElem_room [OF Cons.prems(1) x(2)] AddElem_full [OF Cons.prems(1) x(2)] by metis
  have "\<forall>(v, w) \<in> set xs. tv p w" using Cons.prems(2) by simp
  from Cons.IH [OF h1(2) this] show ?case using x h1(1,3) by (auto simp: heap_AddAll_def)
qed


section \<open>Properties\<close>





end
