(* ===== verification/Szl_Maximum.thy ===== *)
theory Szl_Maximum
  imports Szl_Heap Szl_Entry
begin

text \<open>
  Maximum and minimum tables (src/src/emitters/szlmaximum.cc and szlmaximumresults.cc).  An
  entry keeps the elements with the biggest (or smallest) weights in a \<open>SzlHeap\<close>.

  \<open>SzlMaximumEntry\<close> declares a counter \<open>tot_elems_\<close> of its own, which hides that of the base
  class and which no constructor sets: a new entry starts with whatever the memory holds,
  the argument \<open>junk\<close> of \<open>new_max\<close>.
\<close>

section \<open>The entry\<close>

record max_entry =
  mx_heap :: szl_heap
  mx_tot :: i64

definition max_cmp :: "szl_type \<Rightarrow> szl_value_cmp" where
  "max_cmp t = (if ty_table t = ''maximum'' then SzlValueLess else SzlValueGreater)"

definition max_Create :: "registry \<Rightarrow> szl_type \<Rightarrow> (string + szl_tab_writer \<times> szl_value_cmp) res" where
  "max_Create reg t =
     (case ty_weight t of
        None \<Rightarrow> Inl Null_deref
      | Some w \<Rightarrow>
          if \<not> IsOrdered (fd_type w) then Ok (Inl ''can't compare weights'')
          else bind_res (new_tab_writer reg t True False) (\<lambda>tw. Ok (Inr (tw, max_cmp t))))"

definition new_max :: "i64 \<Rightarrow> int \<Rightarrow> max_entry" where
  "new_max junk param = \<lparr>mx_heap = new_heap param, mx_tot = junk\<rparr>"

definition max_AddWeightedElem :: "szl_ops \<Rightarrow> szl_value_cmp \<Rightarrow> bytes \<Rightarrow> szl_value \<Rightarrow> max_entry
    \<Rightarrow> (int \<times> max_entry) res" where
  "max_AddWeightedElem p c elem weight s =
     bind_res (heap_AddElem p c elem weight (mx_heap s)) (\<lambda>(m, h).
       Ok (m, \<lparr>mx_heap = h, mx_tot = mx_tot s + 1\<rparr>))"

definition max_AddElem :: "szl_ops \<Rightarrow> szl_value_cmp \<Rightarrow> bytes \<Rightarrow> max_entry \<Rightarrow> (int \<times> max_entry) res" where
  "max_AddElem p c elem s = max_AddWeightedElem p c elem (VInt 1) s"

definition max_Clear :: "szl_ops \<Rightarrow> max_entry \<Rightarrow> max_entry res" where
  "max_Clear p s = bind_res (heap_Clear p (mx_heap s)) (\<lambda>h. Ok \<lparr>mx_heap = h, mx_tot = 0\<rparr>)"

definition max_TupleCount :: "max_entry \<Rightarrow> int" where
  "max_TupleCount s = heap_nElems (mx_heap s)"

definition put_elem :: "host_config \<Rightarrow> szl_ops \<Rightarrow> heap_elem \<Rightarrow> szl_encoder \<Rightarrow> szl_encoder res" where
  "put_elem hc p e enc = Encode hc p (el_weight e) (PutBytes (el_value e) enc)"

definition max_Flush :: "host_config \<Rightarrow> szl_ops \<Rightarrow> szl_value_cmp \<Rightarrow> max_entry \<Rightarrow> (bytes \<times> max_entry) res" where
  "max_Flush hc p c s =
     (let h = mx_heap s; n = word_of_int (heap_nElems h) in
      if heap_nElems h = 0 then Ok ([], s)
      else
        bind_res (heap_Sort p c h) (\<lambda>h1.
        bind_res (fold_res (put_elem hc p) (hp_elems h1)
            (PutInt n (PutInt (mx_tot s - n) new_encoder))) (\<lambda>enc.
        bind_res (max_Clear p (s\<lparr>mx_heap := h1\<rparr>)) (\<lambda>s'.
        Ok (fst (enc_Swap enc), s')))))"

definition max_FlushForDisplay :: "host_config \<Rightarrow> szl_ops \<Rightarrow> szl_value_cmp \<Rightarrow> max_entry
    \<Rightarrow> (bytes list \<times> max_entry) res" where
  "max_FlushForDisplay hc p c s =
     (let h = mx_heap s in
      if heap_nElems h = 0 then Ok ([[]], s)
      else
        bind_res (heap_Sort p c h) (\<lambda>h1.
        bind_res (map_res (\<lambda>e. bind_res (Encode hc p (el_weight e) new_encoder) (\<lambda>enc.
            Ok (el_value e @ fst (enc_Swap enc)))) (hp_elems h1)) (\<lambda>out.
        bind_res (heap_ReHeap p c h1) (\<lambda>h2.
        Ok (out, s\<lparr>mx_heap := h2\<rparr>)))))"

text \<open>The first loop of \<open>Merge\<close>, over \<open>n\<close> strings with their weights.\<close>

fun skip_pairs :: "szl_ops \<Rightarrow> nat \<Rightarrow> szl_decoder \<Rightarrow> szl_decoder option" where
  "skip_pairs p 0 d = Some d"
| "skip_pairs p (Suc n) d =
     (case Skip K_BYTES d of None \<Rightarrow> None
      | Some d \<Rightarrow> (case ops_Skip p d of None \<Rightarrow> None | Some d \<Rightarrow> skip_pairs p n d))"

text \<open>The second loop; \<open>w\<close> is the variable the weights are decoded into.\<close>

fun merge_pairs :: "host_config \<Rightarrow> szl_ops \<Rightarrow> (bytes \<Rightarrow> szl_value \<Rightarrow> 's \<Rightarrow> (int \<times> 's) res) \<Rightarrow> nat
    \<Rightarrow> szl_decoder \<Rightarrow> szl_value \<Rightarrow> 's \<Rightarrow> ((merge_status \<times> szl_value) \<times> 's) res" where
  "merge_pairs hc p add 0 d w s = Ok ((MergeOk, w), s)"
| "merge_pairs hc p add (Suc n) d w s =
     (case GetBytes d of
        None \<Rightarrow> Ok ((MergeError, w), s)
      | Some (v, d) \<Rightarrow>
          bind_res (Decode hc p w d) (\<lambda>r. case r of
            None \<Rightarrow> Ok ((MergeError, w), s)
          | Some (w, d) \<Rightarrow> bind_res (add v w s) (\<lambda>(m, s'). merge_pairs hc p add n d w s')))"

definition max_Merge :: "host_config \<Rightarrow> szl_ops \<Rightarrow> szl_value_cmp \<Rightarrow> bytes \<Rightarrow> max_entry
    \<Rightarrow> (merge_status \<times> max_entry) res" where
  "max_Merge hc p c val s =
     (if val = [] then Ok (MergeOk, s)
      else
        case GetInt (new_decoder val) of
          None \<Rightarrow> Ok (MergeError, s)
        | Some (extra, d) \<Rightarrow>
            (case GetInt d of
               None \<Rightarrow> Ok (MergeError, s)
             | Some (nvals, d) \<Rightarrow>
                 let maxElems = hp_maxElems (mx_heap s); n = nat (sint nvals) in
                 if sint nvals > maxElems \<or> sint nvals < maxElems \<and> extra \<noteq> 0 then Ok (MergeError, s)
                 else
                   case skip_pairs p n d of
                     None \<Rightarrow> Ok (MergeError, s)
                   | Some d1 \<Rightarrow>
                       if \<not> dec_done d1 then Ok (MergeError, s)
                       else
                         case Skip K_INT (Restart d1) of
                           None \<Rightarrow> Ok (MergeError, s)
                         | Some d2 \<Rightarrow>
                             (case Skip K_INT d2 of
                                None \<Rightarrow> Ok (MergeError, s)
                              | Some d3 \<Rightarrow>
                                  bind_res (merge_pairs hc p (max_AddWeightedElem p c) n d3 VZero s) (\<lambda>((st, w), s').
                                    if st = MergeError then Ok (MergeError, s')
                                    else bind_res (Clear p w) (\<lambda>_.
                                      Ok (MergeOk, s'\<lparr>mx_tot := mx_tot s' + extra\<rparr>))))))"


section \<open>The reader\<close>

record max_results =
  mr_elems :: "bytes list"
  mr_totElems :: i64

definition maxres_Validate :: "szl_type \<Rightarrow> string option res" where
  "maxres_Validate t =
     (case ty_weight t of
        None \<Rightarrow> Inl Null_deref
      | Some w \<Rightarrow> Ok (if \<not> IsOrdered (fd_type w) then Some ''can't compare weights'' else None))"

text \<open>The second loop: each string with its weight, which is copied as it is encoded.\<close>

fun read_pairs :: "szl_ops \<Rightarrow> nat \<Rightarrow> szl_decoder \<Rightarrow> bytes list res" where
  "read_pairs p 0 d = Ok []"
| "read_pairs p (Suc n) d =
     (case GetBytes d of
        None \<Rightarrow> Inl Check_failed
      | Some (s, d) \<Rightarrow>
          (case ops_Skip p d of
             None \<Rightarrow> Inl Check_failed
           | Some d' \<Rightarrow>
               bind_res (read_pairs p n d') (\<lambda>rest. Ok ((s @ take (pos d' - pos d) (cur d)) # rest))))"

definition maxres_ParseFromString :: "szl_ops \<Rightarrow> int \<Rightarrow> bytes \<Rightarrow> (bool \<times> max_results) res" where
  "maxres_ParseFromString p maxElems val =
     (let fail = Ok (False, \<lparr>mr_elems = [], mr_totElems = 0\<rparr>) in
      if val = [] then Ok (True, \<lparr>mr_elems = [], mr_totElems = 0\<rparr>)
      else
        case GetInt (new_decoder val) of
          None \<Rightarrow> fail
        | Some (extra, d) \<Rightarrow>
            (case GetInt d of
               None \<Rightarrow> fail
             | Some (nvals, d) \<Rightarrow>
                 let n = nat (sint nvals) in
                 if sint nvals > maxElems \<or> sint nvals < maxElems \<and> extra \<noteq> 0 then fail
                 else
                   case skip_pairs p n d of
                     None \<Rightarrow> fail
                   | Some d1 \<Rightarrow>
                       if \<not> dec_done d1 then fail
                       else
                         case Skip K_INT (Restart d1) of
                           None \<Rightarrow> Inl Check_failed
                         | Some d2 \<Rightarrow>
                             (case Skip K_INT d2 of
                                None \<Rightarrow> Inl Check_failed
                              | Some d3 \<Rightarrow>
                                  bind_res (read_pairs p n d3) (\<lambda>es.
                                    Ok (True, \<lparr>mr_elems = es, mr_totElems = extra + nvals\<rparr>)))))"


section \<open>Strings with weights on the wire\<close>

definition wenc :: "host_config \<Rightarrow> szl_ops \<Rightarrow> szl_value \<Rightarrow> bytes" where
  "wenc hc p w = (case AppendToString hc p w of Inr b \<Rightarrow> b | Inl _ \<Rightarrow> [])"

definition pairs_enc :: "host_config \<Rightarrow> szl_ops \<Rightarrow> heap_elem list \<Rightarrow> bytes" where
  "pairs_enc hc p es = concat (map (\<lambda>e. bytes_enc (el_value e) @ wenc hc p (el_weight e)) es)"

lemma pairs_enc_simps [simp]:
  "pairs_enc hc p [] = []"
  "pairs_enc hc p (e # es) = bytes_enc (el_value e) @ wenc hc p (el_weight e) @ pairs_enc hc p es"
  by (simp_all add: pairs_enc_def)

lemma encodes_wenc: "wf_ops p \<Longrightarrow> canon p w \<Longrightarrow> encodes hc p w (wenc hc p w)"
  using encodes_exists [of p w hc] encodesD(1) [of hc p w _ new_encoder]
  by (auto simp: wenc_def AppendToString_def enc_Swap_def)

lemma put_elems:
  "wf_ops p \<Longrightarrow> \<forall>e \<in> set es. canon p (el_weight e) \<Longrightarrow>
    fold_res (put_elem hc p) es enc = Ok (AppendEncoding (pairs_enc hc p es) enc)"
  by (induction es arbitrary: enc)
    (simp_all add: put_elem_def PutBytes_eq encodesD(1) [OF encodes_wenc] AppendEncoding_append AppendEncoding_nil)

lemma skip_pairs_enc:
  "wf_ops p \<Longrightarrow> \<forall>e \<in> set es. canon p (el_weight e) \<Longrightarrow> cur d = pairs_enc hc p es @ r \<Longrightarrow>
    skip_pairs p (length es) d = Some (adv (length (pairs_enc hc p es)) d)"
proof (induction es arbitrary: d)
  case (Cons e es)
  let ?b = "bytes_enc (el_value e)" let ?w = "wenc hc p (el_weight e)"
  let ?d1 = "adv (length ?b) d" let ?d2 = "adv (length ?w) ?d1"
  have "Skip K_BYTES d = Some ?d1" using Cons.prems by (intro bytes_c.skip_enc) auto
  moreover have "cur ?d1 = ?w @ pairs_enc hc p es @ r" using Cons.prems by simp
  then have "ops_Skip p ?d1 = Some ?d2" using Cons.prems by (intro encodesD(2) [OF encodes_wenc]) auto
  moreover have "skip_pairs p (length es) ?d2 = Some (adv (length (pairs_enc hc p es)) ?d2)"
    using Cons.prems by (intro Cons.IH) auto
  ultimately show ?case by (simp add: add.assoc)
qed simp

lemma merge_pairs_enc:
  "wf_ops p \<Longrightarrow> \<forall>e \<in> set es. canon p (el_weight e) \<and> tv p (el_weight e) \<Longrightarrow> cur d = pairs_enc hc p es @ r \<Longrightarrow>
    tv p w \<Longrightarrow> fold_res (\<lambda>e s. bind_res (add (el_value e) (el_weight e) s) (\<lambda>(m, s'). Ok s')) es s = Ok s' \<Longrightarrow>
    \<exists>w'. merge_pairs hc p add (length es) d w s = Ok ((MergeOk, w'), s') \<and> tv p w'"
proof (induction es arbitrary: d w s)
  case (Cons e es)
  let ?b = "bytes_enc (el_value e)" let ?w = "wenc hc p (el_weight e)"
  let ?d1 = "adv (length ?b) d" let ?d2 = "adv (length ?w) ?d1"
  obtain m s1 where s1: "add (el_value e) (el_weight e) s = Ok (m, s1)"
    "fold_res (\<lambda>e s. bind_res (add (el_value e) (el_weight e) s) (\<lambda>(m, s'). Ok s')) es s1 = Ok s'"
    using Cons.prems(5) by (auto simp: bind_res_eq_Ok)
  have "GetBytes d = Some (el_value e, ?d1)" using Cons.prems by (intro bytes_c.get_enc) auto
  moreover have c: "cur ?d1 = ?w @ pairs_enc hc p es @ r" using Cons.prems by simp
  then have "Decode hc p VZero ?d1 = Ok (Some (el_weight e, ?d2))"
    using Cons.prems by (intro encodesD(3) [OF encodes_wenc]) auto
  then have "Decode hc p w ?d1 = Ok (Some (el_weight e, ?d2))"
    using Decode_over(1) [OF Cons.prems(4)] by (simp add: Decode_def)
  moreover have "\<exists>w'. merge_pairs hc p add (length es) ?d2 (el_weight e) s1 = Ok ((MergeOk, w'), s') \<and> tv p w'"
    using Cons.prems s1(2) by (intro Cons.IH) auto
  ultimately show ?case using s1(1) by auto
qed auto

text \<open>Assigning a value in the decoder's form keeps it as it is.\<close>

lemma canon_settle:
  "tv p v \<Longrightarrow> canon p v \<longrightarrow> settle p v = v"
  "tvf f v \<Longrightarrow> canon_flat f v \<longrightarrow> settle_flat f v = v"
proof (induction rule: tv_tvf.inducts)
  case (tv_base t v)
  then show ?case
    by (auto simp: canon.simps settle.simps canon_base_def settle_base_def mk_buf_def IsSimpleBaseKind_def
        split: szl_value.splits)
next
  case (tv_zero t fl)
  then show ?case using composite_not_base [OF tv_zero(1)] base_kinds(1) by (auto simp: settle.simps simp del: BaseKind.simps)
next
  case (tv_vals t fl vs)
  have nb: "\<not> BaseKind (ty_kind t)" using composite_not_base [OF tv_vals(1)] base_kinds(1) by blast
  have "map (\<lambda>(f, x). settle_flat f x) (zip_flats fl vs) = map snd (zip_flats fl vs)"
    if "canon (SzlOps t fl) (VVals vs)"
    using that nb tv_vals.IH by (intro map_cong refl) (auto simp: canon.simps Let_def simp del: BaseKind.simps)
  moreover have "map snd (zip_flats fl vs) = vs"
    using tv_vals(5) by (auto simp: zip_flats_def intro!: nth_equalityI)
  ultimately show ?case using nb by (simp add: settle.simps del: BaseKind.simps)
next
  case (tvf_flat k v)
  then show ?case
    by (auto simp: canon_base_def settle_base_def mk_buf_def IsSimpleBaseKind_def split: szl_value.splits)
qed simp_all


section \<open>The contract\<close>

definition weigh :: "szl_ops \<Rightarrow> (bytes \<times> szl_value) multiset \<Rightarrow> (bytes \<times> okey) multiset" where
  "weigh p M = image_mset (\<lambda>(v, w). (v, vkey p (Some w))) M"

definition max_ok :: "szl_ops \<Rightarrow> int \<Rightarrow> bool" where
  "max_ok p n \<longleftrightarrow> wf_ops p \<and> 0 < n \<and> n < 2 ^ 31"

definition max_rep :: "szl_ops \<Rightarrow> szl_value_cmp \<Rightarrow> int \<Rightarrow> (bytes \<times> szl_value) multiset \<Rightarrow> max_entry \<Rightarrow> bool" where
  "max_rep p c n M s \<longleftrightarrow> (max_ok p n \<longrightarrow>
     keeps p c (weigh p M) (mx_heap s) \<and> hp_maxElems (mx_heap s) = n \<and> mx_tot s = of_nat (size M)
     \<and> (\<forall>e \<in> set (hp_elems (mx_heap s)). canon p (el_weight e)))"

definition max_fits :: "szl_ops \<Rightarrow> int \<Rightarrow> (bytes \<times> szl_value) multiset \<Rightarrow> bool" where
  "max_fits p n M \<longleftrightarrow> max_ok p n \<and> size M < 2 ^ 63 \<and> (\<forall>(v, w) \<in># M. canon p w \<and> typed p w)"

definition max_add :: "szl_ops \<Rightarrow> szl_value_cmp \<Rightarrow> bytes \<times> szl_value \<Rightarrow> max_entry \<Rightarrow> max_entry res" where
  "max_add p c = (\<lambda>(v, w) s. bind_res (max_AddWeightedElem p c v w s) (\<lambda>(m, s'). Ok s'))"

lemma max_add_rep:
  assumes "max_rep p c n M s" and "max_ok p n" and "canon p w" and "tv p w"
  shows "\<exists>s'. max_add p c (v, w) s = Ok s' \<and> max_rep p c n (add_mset (v, w) M) s'"
proof -
  have s: "keeps p c (weigh p M) (mx_heap s)" "hp_maxElems (mx_heap s) = n" "mx_tot s = of_nat (size M)"
    "\<forall>e \<in> set (hp_elems (mx_heap s)). canon p (el_weight e)"
    using assms(1,2) by (auto simp: max_rep_def)
  obtain m h where h: "heap_AddElem p c v w (mx_heap s) = Ok (m, h)"
    "keeps p c (add_mset (v, vkey p (Some w)) (weigh p M)) h" "hp_maxElems h = hp_maxElems (mx_heap s)"
    "set (hp_elems h) \<subseteq> insert \<lparr>el_value = v, el_weight = settle p w\<rparr> (set (hp_elems (mx_heap s)))"
    using AddElem_room [OF s(1) assms(4)] AddElem_full [OF s(1) assms(4)] by metis
  have "\<forall>e \<in> set (hp_elems h). canon p (el_weight e)"
    using h(4) s(4) canon_settle(1) [OF assms(4)] assms(3) by auto
  then have "max_rep p c n (add_mset (v, w) M) \<lparr>mx_heap = h, mx_tot = mx_tot s + 1\<rparr>"
    using h(2,3) s(2,3) by (simp add: max_rep_def weigh_def)
  then show ?thesis using h(1) by (simp add: max_add_def max_AddWeightedElem_def)
qed

lemma heap_Clear_typed:
  "list_all (\<lambda>e. tv p (el_weight e)) (hp_elems h) \<Longrightarrow> heap_Clear p h = Ok (h\<lparr>hp_elems := []\<rparr>)"
  using map_res_Ok [of "hp_elems h" "\<lambda>e. Clear p (el_weight e)"
      "\<lambda>e. if IsSimpleBaseKind (ty_kind (ops_type p)) then el_weight e else VZero"] Clear_typed(1)
  by (simp add: heap_Clear_def list_all_iff)

text \<open>What a flush writes: the elements the heap holds, sorted, behind the two counts.\<close>

lemma max_Flush_rep:
  assumes "max_rep p c n M s" and "max_ok p n"
  shows "\<exists>s'. max_rep p c n {#} s' \<and>
    (if M = {#} then max_Flush hc p c s = Ok ([], s')
     else \<exists>es. mset es = mset (hp_elems (mx_heap s)) \<and> max_Flush hc p c s =
       Ok (int_enc (mx_tot s - of_nat (length es)) @ int_enc (of_nat (length es)) @ pairs_enc hc p es, s'))"
proof -
  let ?h = "mx_heap s"
  have s: "keeps p c (weigh p M) ?h" "hp_maxElems ?h = n" "mx_tot s = of_nat (size M)"
    "\<forall>e \<in> set (hp_elems ?h). canon p (el_weight e)"
    using assms by (auto simp: max_rep_def)
  have n0: "heap_nElems ?h = 0 \<longleftrightarrow> M = {#}"
    using s(1,2) assms(2)
    by (auto simp: keeps_def heap_nElems_def weigh_def max_ok_def min_def split: if_splits)
  show ?thesis
  proof (cases "M = {#}")
    case True
    then show ?thesis using n0 assms(1) by (auto simp: max_Flush_def Let_def)
  next
    case False
    obtain es where es: "Sort (elem_lt p c) (hp_elems ?h) = Ok es" "mset es = mset (hp_elems ?h)"
      using elem_order.Sort_sorts [OF keepsD(2,1) [OF s(1)]] by blast
    have set: "set es = set (hp_elems ?h)" using mset_eq_setD [OF es(2)] .
    have len: "heap_nElems ?h = int (length es)" using mset_eq_length [OF es(2)] by (simp add: heap_nElems_def)
    have "max_Clear p (s\<lparr>mx_heap := ?h\<lparr>hp_elems := es\<rparr>\<rparr>) = Ok \<lparr>mx_heap = ?h\<lparr>hp_elems := []\<rparr>, mx_tot = 0\<rparr>"
      using heap_Clear_typed [of p "?h\<lparr>hp_elems := es\<rparr>"] keepsD(1) [OF s(1)] set
      by (simp add: max_Clear_def list_all_iff)
    moreover have "fold_res (put_elem hc p) es enc = Ok (AppendEncoding (pairs_enc hc p es) enc)" for enc
      using put_elems [of p es] s(4) set assms(2) by (simp add: max_ok_def)
    moreover have "max_rep p c n {#} \<lparr>mx_heap = ?h\<lparr>hp_elems := []\<rparr>, mx_tot = 0\<rparr>"
      using s(2) assms(2) by (auto simp: max_rep_def keeps_def weigh_def IsHeap_def max_ok_def)
    ultimately show ?thesis
      using False n0 es len by (auto simp: max_Flush_def Let_def heap_Sort_def PutInt_eq enc_Swap_def)
  qed
qed

text \<open>Adding what a full heap has kept is as good as adding everything it was given.\<close>

lemma keeps_more:
  assumes "keeps p c (A + N) h" and "D \<noteq> {#} \<Longrightarrow> size A = nat (hp_maxElems h)"
    and "\<forall>d \<in># D. \<forall>a \<in># A. key_le c (snd d) (snd a)"
  shows "keeps p c (A + D + N) h"
proof (cases "D = {#}")
  case True
  then show ?thesis using assms(1) by simp
next
  case False
  let ?H = "mset (map (elem_key p) (hp_elems h))"
  obtain E where E: "A + N = ?H + E" "\<forall>d \<in># E. \<forall>e \<in> set (hp_elems h). key_le c (snd d) (snd (elem_key p e))"
    using assms(1) by (auto simp: keeps_def)
  have sz: "size ?H = size A" using assms(1,2) False by (simp add: keeps_def)
  have "key_le c (snd d) (snd (elem_key p e))" if de: "d \<in># D" "e \<in> set (hp_elems h)" for d e
  proof (cases "A \<subseteq># ?H")
    case True
    then have "A = ?H" using sz by (metis mset_subset_size subset_mset.le_imp_less_or_eq nat_less_le)
    then have "elem_key p e \<in># A" using de(2) by simp
    then show ?thesis using assms(3) de(1) by blast
  next
    case False
    then obtain a where "count ?H a < count A a" by (auto simp: subseteq_mset_def not_le)
    then have "a \<in># A" "a \<in># E"
      using arg_cong [OF E(1), of "\<lambda>M. count M a"] by (auto simp flip: count_greater_zero_iff)
    then have "key_le c (snd d) (snd a)" "key_le c (snd a) (snd (elem_key p e))"
      using assms(3) E(2) de by auto
    then show ?thesis by (rule key_le_trans)
  qed
  then show ?thesis
    using assms(1) E sz assms(2) False unfolding keeps_def
    by (auto simp: ac_simps intro!: exI [of _ "E + D"])
qed

definition elem_pair :: "heap_elem \<Rightarrow> bytes \<times> szl_value" where
  "elem_pair e = (el_value e, el_weight e)"

lemma max_add_list:
  "max_rep p c n N t \<Longrightarrow> max_ok p n \<Longrightarrow> \<forall>e \<in> set es. canon p (el_weight e) \<and> tv p (el_weight e) \<Longrightarrow>
    \<exists>t'. fold_res (\<lambda>e s. bind_res (max_AddWeightedElem p c (el_value e) (el_weight e) s) (\<lambda>(m, s'). Ok s')) es t = Ok t'
      \<and> max_rep p c n (mset (map elem_pair es) + N) t'"
proof (induction es arbitrary: N t)
  case (Cons e es)
  obtain t1 where t1: "max_add p c (elem_pair e) t = Ok t1" "max_rep p c n (add_mset (elem_pair e) N) t1"
    using max_add_rep [OF Cons.prems(1,2), of "el_weight e" "el_value e"] Cons.prems(3) by (auto simp: elem_pair_def)
  have "\<forall>e \<in> set es. canon p (el_weight e) \<and> tv p (el_weight e)" using Cons.prems(3) by simp
  from Cons.IH [OF t1(2) Cons.prems(2) this] show ?case using t1(1) by (auto simp: max_add_def elem_pair_def)
qed simp

lemma max_Merge_wire:
  assumes "max_ok p n" and "\<forall>e \<in> set es. canon p (el_weight e) \<and> tv p (el_weight e)"
    and "hp_maxElems (mx_heap t) = n" and "int (length es) \<le> n" and "int (length es) < n \<Longrightarrow> extra = 0"
    and "fold_res (\<lambda>e s. bind_res (max_AddWeightedElem p c (el_value e) (el_weight e) s) (\<lambda>(m, s'). Ok s')) es t = Ok t'"
  shows "max_Merge hc p c (int_enc extra @ int_enc (of_nat (length es)) @ pairs_enc hc p es) t
    = Ok (MergeOk, t'\<lparr>mx_tot := mx_tot t' + extra\<rparr>)"
proof -
  let ?n = "of_nat (length es) :: i64" let ?ps = "pairs_enc hc p es"
  let ?b = "int_enc extra @ int_enc ?n @ ?ps"
  let ?d1 = "adv (length (int_enc extra)) (new_decoder ?b)" let ?d2 = "adv (length (int_enc ?n)) ?d1"
  have wf: "wf_ops p" using assms(1) by (simp add: max_ok_def)
  have sn: "sint ?n = int (length es)"
    using assms(1,4) by (simp add: max_ok_def signed_of_nat signed_take_bit_int_eq_self)
  have "GetInt (new_decoder ?b) = Some (extra, ?d1)" "Skip K_INT (new_decoder ?b) = Some ?d1"
    by (rule GetInt_int_enc Skip_int_enc, simp)+
  moreover have "GetInt ?d1 = Some (?n, ?d2)" "Skip K_INT ?d1 = Some ?d2"
    by (rule GetInt_int_enc Skip_int_enc, simp)+
  moreover have c: "cur ?d2 = ?ps @ []" by simp
  have "skip_pairs p (length es) ?d2 = Some (adv (length ?ps) ?d2)"
    by (rule skip_pairs_enc [OF wf _ c]) (use assms(2) in blast)
  moreover have "Restart (adv (length ?ps) ?d2) = new_decoder ?b"
    by (simp add: Restart_def adv_def new_decoder_def)
  moreover have "dec_done (adv (length ?ps) ?d2)" by (simp add: dec_done_iff)
  moreover have "tv p VZero" using wf by (simp add: typed_tv(1))
  from merge_pairs_enc [OF wf assms(2) c this assms(6)]
  obtain w where w: "merge_pairs hc p (max_AddWeightedElem p c) (length es) ?d2 VZero t = Ok ((MergeOk, w), t')" "tv p w"
    by blast
  moreover have "\<not> (n < sint ?n \<or> sint ?n < n \<and> extra \<noteq> 0)" using sn assms(4,5) by linarith
  ultimately show ?thesis
    using assms(3) sn Clear_typed(1) [OF w(2)]
    by (simp add: max_Merge_def Let_def del: Clear.simps adv_adv skip_pairs.simps merge_pairs.simps)
qed

lemma max_Merge_rep:
  assumes "max_rep p c n M s" and "max_Flush hc p c s = Ok (b, s')" and "max_rep p c n N t" and "max_fits p n (M + N)"
  shows "\<exists>t'. max_Merge hc p c b t = Ok (MergeOk, t') \<and> max_rep p c n (M + N) t'"
proof (cases "M = {#}")
  case True
  then show ?thesis
    using max_Flush_rep [OF assms(1), of hc] assms(2-4) by (auto simp: max_Merge_def max_fits_def)
next
  case False
  let ?h = "mx_heap s"
  have ok: "max_ok p n" "size M < 2 ^ 63" using assms(4) by (auto simp: max_fits_def)
  obtain es where es: "mset es = mset (hp_elems ?h)"
    "b = int_enc (mx_tot s - of_nat (length es)) @ int_enc (of_nat (length es)) @ pairs_enc hc p es"
    using max_Flush_rep [OF assms(1) ok(1), of hc] assms(2) False by auto
  have s: "keeps p c (weigh p M) ?h" "hp_maxElems ?h = n" "mx_tot s = of_nat (size M)"
    "\<forall>e \<in> set (hp_elems ?h). canon p (el_weight e)"
    using assms(1) ok(1) by (auto simp: max_rep_def)
  have good: "\<forall>e \<in> set es. canon p (el_weight e) \<and> tv p (el_weight e)"
    using s(4) keepsD(1) [OF s(1)] mset_eq_setD [OF es(1)] by (simp add: list_all_iff)
  have len: "length es = min (nat n) (size M)"
    using s(1,2) mset_eq_length [OF es(1)] by (simp add: keeps_def weigh_def)
  obtain D where D: "weigh p M = mset (map (elem_key p) (hp_elems ?h)) + D"
    "\<forall>d \<in># D. \<forall>e \<in> set (hp_elems ?h). key_le c (snd d) (snd (elem_key p e))"
    using s(1) by (auto simp: keeps_def)
  obtain t' where t': "fold_res (\<lambda>e s. bind_res (max_AddWeightedElem p c (el_value e) (el_weight e) s)
      (\<lambda>(m, s'). Ok s')) es t = Ok t'" "max_rep p c n (mset (map elem_pair es) + N) t'"
    using max_add_list [OF assms(3) ok(1) good] by blast
  have A: "weigh p (mset (map elem_pair es)) = mset (map (elem_key p) (hp_elems ?h))"
  proof -
    have "weigh p (mset (map elem_pair es)) = mset (map (elem_key p) es)"
      by (simp add: weigh_def elem_pair_def elem_key_def [abs_def] multiset.map_comp comp_def)
    then show ?thesis using image_mset_eq [OF es(1), of "elem_key p"] by simp
  qed
  let ?t = "t'\<lparr>mx_tot := mx_tot t' + (mx_tot s - of_nat (length es))\<rparr>"
  have "keeps p c (weigh p (mset (map elem_pair es)) + weigh p N) (mx_heap t')"
    using t'(2) ok(1) by (simp add: max_rep_def weigh_def)
  then have "keeps p c (mset (map (elem_key p) (hp_elems ?h)) + D + weigh p N) (mx_heap t')"
  proof (intro keeps_more)
    assume "D \<noteq> {#}"
    then have "length es < size M"
      using arg_cong [OF D(1), of size] mset_eq_length [OF es(1)] by (simp add: weigh_def nonempty_has_size)
    then show "size (mset (map (elem_key p) (hp_elems ?h))) = nat (hp_maxElems (mx_heap t'))"
      using len t'(2) ok(1) mset_eq_length [OF es(1)] by (simp add: max_rep_def)
  qed (use A D(2) in auto)
  then have "keeps p c (weigh p (M + N)) (mx_heap t')" using D(1) by (simp add: weigh_def)
  then have "max_rep p c n (M + N) ?t" using t'(2) s(3) by (auto simp: max_rep_def)
  moreover have "max_Merge hc p c b t = Ok (MergeOk, ?t)"
    using len ok(1) assms(3) s(3) unfolding es(2)
    by (intro max_Merge_wire [OF ok(1) good _ _ _ t'(1)]) (auto simp: max_rep_def max_ok_def min_def split: if_splits)
  ultimately show ?thesis by blast
qed

interpretation max_table: tab_entry "max_fits p n" "max_rep p c n" "new_max 0 n" "max_add p c"
  "max_Flush hc p c" "max_Merge hc p c" for p n c hc
proof
  show "max_rep p c n {#} (new_max 0 n)"
    using keeps_new [of n p c] by (simp add: max_rep_def new_max_def weigh_def max_ok_def new_heap_def)
next
  fix M s and e :: "bytes \<times> szl_value" assume "max_rep p c n M s" "max_fits p n (add_mset e M)"
  then show "\<exists>s'. max_add p c e s = Ok s' \<and> max_rep p c n (add_mset e M) s'"
    using max_add_rep [of p c n M s "snd e" "fst e"] by (cases e) (auto simp: max_fits_def max_ok_def typed_tv(1))
next
  fix M s assume "max_rep p c n M s" "max_fits p n M"
  then show "\<exists>b s'. max_Flush hc p c s = Ok (b, s') \<and> max_rep p c n {#} s'"
    using max_Flush_rep [of p c n M s hc] by (metis (full_types) max_fits_def)
qed (use max_Merge_rep in \<open>auto simp: max_fits_def\<close>)


section \<open>Properties\<close>

text \<open>C9. Provided the memory of an entry is zero where the constructor leaves the counter
  \<open>tot_elems_\<close> as it is, however the weighted elements of a maximum or minimum table for \<open>n\<close>
  elements are split into shards, flushing and merging the shards never fails, and the merged entry
  counts all of them and keeps the best \<open>n\<close>: nothing that was dropped, on a shard or in the merge,
  is ahead of anything that is kept.  The weights are without NaN and in the form that the decoder
  builds.\<close>

theorem max_sharding:
  assumes zeroed: "junk = 0" and "wf_ops p" and "0 < n" and "n < 2 ^ 31" and "length (concat shards) < 2 ^ 63"
    and "\<forall>(v, w) \<in> set (concat shards). canon p w \<and> typed p w"
  shows "\<exists>t. fold_res (tab_entry.merge_shard (new_max junk n) (max_add p c) (max_Flush hc p c) (max_Merge hc p c))
        shards (new_max junk n) = Ok t
    \<and> mx_tot t = of_nat (length (concat shards))
    \<and> max_TupleCount t = min n (int (length (concat shards)))
    \<and> (\<exists>dropped. mset (map (\<lambda>(v, w). (v, vkey p (Some w))) (concat shards))
          = mset (map (elem_key p) (hp_elems (mx_heap t))) + dropped
        \<and> (\<forall>d \<in># dropped. \<forall>e \<in> set (hp_elems (mx_heap t)). key_le c (snd d) (snd (elem_key p e))))"
  unfolding zeroed
proof -
  have ok: "max_ok p n" using assms by (simp add: max_ok_def)
  then have "max_fits p n (mset (concat shards))" using assms by (simp add: max_fits_def)
  from max_table.sharding_init [OF this] obtain t where
    t: "fold_res (tab_entry.merge_shard (new_max 0 n) (max_add p c) (max_Flush hc p c) (max_Merge hc p c))
        shards (new_max 0 n) = Ok t" "max_rep p c n (mset (concat shards)) t" by blast
  have "max_TupleCount t = min n (int (length (concat shards)))"
    using t(2) ok assms(3) by (simp add: max_rep_def keeps_def weigh_def max_TupleCount_def heap_nElems_def)
  then show "\<exists>t. fold_res (tab_entry.merge_shard (new_max 0 n) (max_add p c) (max_Flush hc p c) (max_Merge hc p c))
        shards (new_max 0 n) = Ok t
    \<and> mx_tot t = of_nat (length (concat shards))
    \<and> max_TupleCount t = min n (int (length (concat shards)))
    \<and> (\<exists>dropped. mset (map (\<lambda>(v, w). (v, vkey p (Some w))) (concat shards))
          = mset (map (elem_key p) (hp_elems (mx_heap t))) + dropped
        \<and> (\<forall>d \<in># dropped. \<forall>e \<in> set (hp_elems (mx_heap t)). key_le c (snd d) (snd (elem_key p e))))"
    using t ok by (simp add: max_rep_def keeps_def weigh_def flip: mset_map)
qed

theorem max_sharding_witness:
  "\<exists>t. fold_res (tab_entry.merge_shard (new_max 0 1) (max_add pair_ops SzlValueLess)
      (max_Flush (good_config Big) pair_ops SzlValueLess) (max_Merge (good_config Big) pair_ops SzlValueLess))
        [[([1], pair_value)], [([2], pair_value)]] (new_max 0 1) = Ok t \<and> mx_tot t = 2"
  using max_sharding [of 0 pair_ops 1 "[[([1], pair_value)], [([2], pair_value)]]" SzlValueLess "good_config Big"]
    pair_value_typed pair_value_canon by auto

text \<open>The counter of a maximum entry is never set before it is counted up, and what it
  happens to hold decides whether the entry's own flushed state can be merged: a fresh
  entry for two elements with one element added is accepted when its memory was 0, and
  refused with \<open>MergeError\<close> when it was anything else.\<close>

theorem max_uninitialised_counter:
  "\<exists>s1 b s2. max_add pair_ops c ([1], pair_value) (new_max junk 2) = Ok s1 \<and> max_Flush hc pair_ops c s1 = Ok (b, s2)
    \<and> (if junk = 0 then \<exists>t. max_Merge hc pair_ops c b (new_max 0 2) = Ok (MergeOk, t)
       else max_Merge hc pair_ops c b (new_max 0 2) = Ok (MergeError, new_max 0 2))"
proof -
  let ?e = "\<lparr>el_value = [1], el_weight = pair_value\<rparr>" let ?p = pair_ops
  have p: "tv ?p pair_value" "tv ?p VZero" "canon ?p pair_value" "wf_ops ?p"
    using pair_value_typed pair_value_canon typed_tv(1) by auto
  have add: "heap_AddElem ?p c [1] pair_value (new_heap 2) = Ok (m, (new_heap 2)\<lparr>hp_elems := [?e]\<rparr>)"
    if "Memory ?p pair_value = Ok (m - 1 + sizeof_value)" for m
    using that Assign_typed(1) [OF p(1,2)] canon_settle(1) [OF p(1)] p(3)
    by (simp add: heap_AddElem_def new_heap_def heap_nElems_def FixHeapUp_def FixHeapUp_loop.simps)
  let ?s1 = "\<lparr>mx_heap = (new_heap 2)\<lparr>hp_elems := [?e]\<rparr>, mx_tot = junk + 1\<rparr>"
  obtain m where "Memory ?p pair_value = Ok m" using Memory_typed(1) [OF p(1)] by blast
  then have "max_add ?p c ([1], pair_value) (new_max junk 2) = Ok ?s1"
    using add [of "m + 1 - sizeof_value"]
    by (simp add: max_add_def max_AddWeightedElem_def new_max_def)
  moreover let ?b = "int_enc junk @ int_enc (of_nat (length [?e])) @ pairs_enc hc ?p [?e]"
  have "\<exists>s2. max_Flush hc ?p c ?s1 = Ok (?b, s2)"
    using put_elems [of ?p "[?e]" hc] p heap_Clear_typed [of ?p "(new_heap 2)\<lparr>hp_elems := [?e]\<rparr>"]
    by (simp add: max_Flush_def heap_nElems_def new_heap_def heap_Sort_def Sort_def max_Clear_def PutInt_eq
        enc_Swap_def del: fold_res.simps)
  moreover have "max_Merge hc ?p c ?b (new_max 0 2) = Ok (MergeError, new_max 0 2)" if "junk \<noteq> 0"
    using that GetInt_int_enc [of "new_decoder ?b" junk "int_enc 1 @ pairs_enc hc ?p [?e]"]
      GetInt_int_enc [of "adv (length (int_enc junk)) (new_decoder ?b)" 1 "pairs_enc hc ?p [?e]"]
    by (simp add: max_Merge_def Let_def new_max_def new_heap_def)
  moreover have "\<exists>t. max_Merge hc ?p c ?b (new_max 0 2) = Ok (MergeOk, t)" if "junk = 0"
  proof -
    have ok: "max_ok ?p 2" "max_rep ?p c 2 {#} (new_max 0 2)"
      using p(4) max_table.rep_init by (auto simp: max_ok_def)
    have good: "\<forall>e \<in> set [?e]. canon ?p (el_weight e) \<and> tv ?p (el_weight e)" using p by simp
    from max_add_list [OF ok(2,1) good] obtain t where t: "fold_res (\<lambda>e s. bind_res (max_AddWeightedElem ?p c (el_value e)
        (el_weight e) s) (\<lambda>(m, s'). Ok s')) [?e] (new_max 0 2) = Ok t" by blast
    show ?thesis
      using max_Merge_wire [OF ok(1) good _ _ _ t, of 0] that by (simp add: new_max_def new_heap_def)
  qed
  ultimately show ?thesis by (metis (full_types))
qed

end
