(* ===== verification/Szl_Set.thy ===== *)
theory Szl_Set
  imports Szl_Entry
begin

text \<open>
  Set tables (src/src/emitters/szlset.cc and szlsetresults.cc): the distinct elements of an
  entry, in their encoded form, unless there are more than \<open>maxElems\<close> of them.  A
  \<open>std::set<string>\<close> is a set of byte strings, walked in their lexicographic order.
\<close>

section \<open>The entry\<close>

record set_entry =
  st_set :: "bytes set"
  st_tot :: i64

definition new_set :: set_entry where
  "new_set = \<lparr>st_set = {}, st_tot = 0\<rparr>"

text \<open>\<open>set_.size() > maxElems_\<close> compares as unsigned numbers, so it is false for a negative limit.\<close>

definition set_over :: "int \<Rightarrow> set_entry \<Rightarrow> bool" where
  "set_over maxElems s \<longleftrightarrow> 0 \<le> maxElems \<and> maxElems < int (card (st_set s))"

text \<open>\<open>node\<close> is \<open>kNodeSize\<close>, a sum of sizes the compiler chooses.\<close>

definition set_AddElem :: "int \<Rightarrow> int \<Rightarrow> bytes \<Rightarrow> set_entry \<Rightarrow> int \<times> set_entry" where
  "set_AddElem node maxElems elem s =
     (let s = s\<lparr>st_tot := st_tot s + 1\<rparr> in
      if set_over maxElems s then (0, s)
      else if elem \<notin> st_set s then (node + int (length elem), s\<lparr>st_set := insert elem (st_set s)\<rparr>)
      else (0, s))"

definition set_Clear :: "set_entry \<Rightarrow> set_entry" where
  "set_Clear s = \<lparr>st_set = {}, st_tot = 0\<rparr>"

definition set_Memory :: "int \<Rightarrow> int \<Rightarrow> set_entry \<Rightarrow> int" where
  "set_Memory entry_size node s =
     entry_size + (1 + int (card (st_set s))) * node + (\<Sum>e\<leftarrow>sorted_list_of_set (st_set s). int (length e))"

definition set_TupleCount :: "set_entry \<Rightarrow> int" where
  "set_TupleCount s = int (card (st_set s))"

definition set_Flush :: "int \<Rightarrow> set_entry \<Rightarrow> bytes \<times> set_entry" where
  "set_Flush maxElems s =
     (let n = of_nat (card (st_set s)) in
      if set_over maxElems s \<or> card (st_set s) = 0 then ([], s)
      else
        (fst (enc_Swap (PutInt n (PutInt (st_tot s - n) new_encoder)))
           @ concat (sorted_list_of_set (st_set s)), set_Clear s))"

definition set_FlushForDisplay :: "int \<Rightarrow> set_entry \<Rightarrow> bytes list" where
  "set_FlushForDisplay maxElems s =
     (if set_over maxElems s then []
      else if card (st_set s) = 0 then [[]]
      else sorted_list_of_set (st_set s))"

fun set_merge_loop :: "szl_ops \<Rightarrow> int \<Rightarrow> int \<Rightarrow> nat \<Rightarrow> szl_decoder \<Rightarrow> set_entry \<Rightarrow> merge_status \<times> set_entry" where
  "set_merge_loop p node maxElems 0 d s = (MergeOk, s)"
| "set_merge_loop p node maxElems (Suc n) d s =
     (case ops_Skip p d of
        None \<Rightarrow> (MergeError, s)
      | Some d' \<Rightarrow>
          set_merge_loop p node maxElems n d'
            (snd (set_AddElem node maxElems (take (pos d' - pos d) (cur d)) s)))"

definition set_Merge :: "szl_ops \<Rightarrow> int \<Rightarrow> int \<Rightarrow> bytes \<Rightarrow> set_entry \<Rightarrow> merge_status \<times> set_entry" where
  "set_Merge p node maxElems val s =
     (if val = [] then (MergeOk, s)
      else
        case GetInt (new_decoder val) of
          None \<Rightarrow> (MergeError, s)
        | Some (extra, d) \<Rightarrow>
            (case GetInt d of
               None \<Rightarrow> (MergeError, s)
             | Some (nvals, d) \<Rightarrow>
                 (case set_merge_loop p node maxElems (nat (sint nvals)) d s of
                    (MergeError, s') \<Rightarrow> (MergeError, s')
                  | (MergeOk, s') \<Rightarrow> (MergeOk, s'\<lparr>st_tot := st_tot s' + extra\<rparr>))))"


section \<open>The reader\<close>

record set_results =
  sr_elems :: "bytes list"
  sr_tot :: "32 word"

fun skip_n :: "szl_ops \<Rightarrow> nat \<Rightarrow> szl_decoder \<Rightarrow> szl_decoder option" where
  "skip_n p 0 d = Some d"
| "skip_n p (Suc n) d = (case ops_Skip p d of None \<Rightarrow> None | Some d' \<Rightarrow> skip_n p n d')"

fun read_n :: "szl_ops \<Rightarrow> nat \<Rightarrow> szl_decoder \<Rightarrow> bytes list res" where
  "read_n p 0 d = Ok []"
| "read_n p (Suc n) d =
     (case ops_Skip p d of
        None \<Rightarrow> Inl Check_failed
      | Some d' \<Rightarrow> bind_res (read_n p n d') (\<lambda>es. Ok (take (pos d' - pos d) (cur d) # es)))"

definition setres_ParseFromString :: "szl_ops \<Rightarrow> int \<Rightarrow> bytes \<Rightarrow> (bool \<times> set_results) res" where
  "setres_ParseFromString p maxElems val =
     (let fail = Ok (False, \<lparr>sr_elems = [], sr_tot = 0\<rparr>) in
      if val = [] then Ok (True, \<lparr>sr_elems = [], sr_tot = 0\<rparr>)
      else
        case GetInt (new_decoder val) of
          None \<Rightarrow> fail
        | Some (delta, d) \<Rightarrow>
            (case GetInt d of
               None \<Rightarrow> fail
             | Some (nvals, d) \<Rightarrow>
                 let n = nat (sint nvals) in
                 if sint nvals > maxElems + 1 \<or> sint nvals < 0 then fail
                 else
                   case skip_n p n d of
                     None \<Rightarrow> fail
                   | Some d1 \<Rightarrow>
                       if \<not> dec_done d1 then fail
                       else
                         case Skip K_INT (Restart d1) of
                           None \<Rightarrow> Inl Check_failed
                         | Some d2 \<Rightarrow>
                             (case Skip K_INT d2 of
                                None \<Rightarrow> Inl Check_failed
                              | Some d3 \<Rightarrow>
                                  bind_res (read_n p n d3) (\<lambda>es.
                                    Ok (True, \<lparr>sr_elems = (if 0 \<le> maxElems \<and> maxElems < int (length es) then [] else es),
                                               sr_tot = ucast (delta + nvals)\<rparr>)))))"


section \<open>The contract\<close>

definition set_ok :: "szl_ops \<Rightarrow> int \<Rightarrow> bool" where
  "set_ok p maxElems \<longleftrightarrow> wf_ops p \<and> 0 \<le> maxElems \<and> maxElems < 2 ^ 31"

definition set_rep :: "host_config \<Rightarrow> szl_ops \<Rightarrow> int \<Rightarrow> bytes multiset \<Rightarrow> set_entry \<Rightarrow> bool" where
  "set_rep hc p maxElems M s \<longleftrightarrow>
     st_set s = set_mset M \<and> st_tot s = of_nat (size M) \<and> int (card (set_mset M)) \<le> max 0 maxElems
     \<and> (\<forall>e \<in># M. \<exists>v. encodes hc p v e)"

definition set_fits :: "host_config \<Rightarrow> szl_ops \<Rightarrow> int \<Rightarrow> bytes multiset \<Rightarrow> bool" where
  "set_fits hc p maxElems M \<longleftrightarrow> set_ok p maxElems \<and> int (card (set_mset M)) \<le> maxElems \<and> size M < 2 ^ 63
     \<and> (\<forall>e \<in># M. \<exists>v. encodes hc p v e)"

lemma set_fits_sub: "set_fits hc p m (M + N) \<Longrightarrow> set_fits hc p m M"
proof -
  assume f: "set_fits hc p m (M + N)"
  have "card (set_mset M) \<le> card (set_mset (M + N))" by (intro card_mono) auto
  then show ?thesis using f by (auto simp: set_fits_def)
qed

lemma set_add_rep:
  assumes "set_rep hc p m M s" and "set_fits hc p m (add_mset e M)"
  shows "set_rep hc p m (add_mset e M) (snd (set_AddElem node m e s))"
proof -
  have "card (set_mset M) \<le> card (set_mset (add_mset e M))" by (intro card_mono) auto
  then have "\<not> set_over m (s\<lparr>st_tot := st_tot s + 1\<rparr>)"
    using assms by (auto simp: set_rep_def set_fits_def set_over_def)
  then show ?thesis
    using assms by (auto simp: set_AddElem_def set_rep_def set_fits_def Let_def)
qed

lemma set_merge_loop_enc:
  "set_rep hc p m N t \<Longrightarrow> set_fits hc p m (mset es + N) \<Longrightarrow> cur d = concat es @ r \<Longrightarrow>
    \<exists>t'. set_merge_loop p node m (length es) d t = (MergeOk, t') \<and> set_rep hc p m (mset es + N) t'"
proof (induction es arbitrary: N t d)
  case (Cons e es)
  obtain v where v: "encodes hc p v e" using Cons.prems(2) by (auto simp: set_fits_def)
  have c: "cur d = e @ concat es @ r" using Cons.prems(3) by simp
  let ?d = "adv (length e) d" let ?t = "snd (set_AddElem node m e t)"
  have sk: "ops_Skip p d = Some ?d" by (rule encodesD(2) [OF v c])
  have el: "take (pos ?d - pos d) (cur d) = e" using c by (simp add: adv_def)
  have "set_fits hc p m (add_mset e N + mset es)" using Cons.prems(2) by (simp add: ac_simps)
  then have "set_rep hc p m (add_mset e N) ?t" by (intro set_add_rep Cons.prems(1)) (rule set_fits_sub)
  moreover have "set_fits hc p m (mset es + add_mset e N)" using Cons.prems(2) by simp
  moreover have "cur ?d = concat es @ r" using c by simp
  ultimately show ?case using Cons.IH [of "add_mset e N" ?t ?d] sk el by simp
qed simp

lemma set_Flush_rep:
  assumes "set_rep hc p m M s" and "set_fits hc p m M"
  shows "set_rep hc p m {#} (snd (set_Flush m s)) \<and>
    fst (set_Flush m s) = (if M = {#} then [] else
      int_enc (of_nat (size M) - of_nat (card (set_mset M))) @ int_enc (of_nat (card (set_mset M)))
        @ concat (sorted_list_of_set (set_mset M)))"
  using assms
  by (auto simp: set_rep_def set_fits_def set_Flush_def set_over_def Let_def set_Clear_def PutInt_eq enc_Swap_def)

lemma set_Merge_rep:
  assumes "set_rep hc p m M s" and "set_rep hc p m N t" and "set_fits hc p m (M + N)"
  shows "\<exists>t'. set_Merge p node m (fst (set_Flush m s)) t = (MergeOk, t') \<and> set_rep hc p m (M + N) t'"
proof (cases "M = {#}")
  case True
  then show ?thesis
    using set_Flush_rep [OF assms(1) set_fits_sub [OF assms(3)]] assms(2) by (simp add: set_Merge_def)
next
  case False
  let ?es = "sorted_list_of_set (set_mset M)" let ?n = "of_nat (card (set_mset M)) :: i64"
  let ?x = "of_nat (size M) - ?n" let ?b = "int_enc ?x @ int_enc ?n @ concat ?es"
  have b: "fst (set_Flush m s) = ?b" using set_Flush_rep [OF assms(1) set_fits_sub [OF assms(3)]] False by simp
  let ?d1 = "adv (length (int_enc ?x)) (new_decoder ?b)" let ?d2 = "adv (length (int_enc ?n)) ?d1"
  have g: "GetInt (new_decoder ?b) = Some (?x, ?d1)" "GetInt ?d1 = Some (?n, ?d2)"
    by (rule GetInt_int_enc, simp)+
  have sub: "mset ?es \<subseteq># M"
    by (metis mset_sorted_list_of_multiset sorted_list_of_mset_set mset_set_set_mset_msubset)
  have "int (card (set_mset M)) \<le> m" "m < 2 ^ 31"
    using set_fits_sub [OF assms(3)] by (auto simp: set_fits_def set_ok_def)
  then have sn: "sint ?n = int (length ?es)" by (simp add: signed_of_nat signed_take_bit_int_eq_self)
  obtain K where "M = mset ?es + K" using sub by (metis subset_mset.add_diff_inverse)
  then have eq: "M + N = (mset ?es + N) + K" by (metis add.assoc add.commute)
  have "set_fits hc p m (mset ?es + N)" using assms(3) unfolding eq by (rule set_fits_sub)
  moreover have "cur ?d2 = concat ?es @ []" by simp
  ultimately obtain t' where t': "set_merge_loop p node m (length ?es) ?d2 t = (MergeOk, t')"
    "set_rep hc p m (mset ?es + N) t'"
    using set_merge_loop_enc [OF assms(2)] by metis
  have "set_rep hc p m (M + N) (t'\<lparr>st_tot := st_tot t' + ?x\<rparr>)"
    using t'(2) assms(1,3) by (auto simp: set_rep_def set_fits_def set_ok_def)
  then show ?thesis using b g sn t'(1) by (simp add: set_Merge_def)
qed

definition set_add :: "int \<Rightarrow> int \<Rightarrow> bytes \<Rightarrow> set_entry \<Rightarrow> set_entry res" where
  "set_add node m e s = Ok (snd (set_AddElem node m e s))"

interpretation set_table: tab_entry "set_fits hc p m" "set_rep hc p m" new_set "set_add node m"
  "\<lambda>s. Ok (set_Flush m s)" "\<lambda>b t. Ok (set_Merge p node m b t)" for hc p m node
proof
  fix M s b s' N t
  assume "set_rep hc p m M s" "Ok (set_Flush m s) = Ok (b, s')" "set_rep hc p m N t" "set_fits hc p m (M + N)"
  then show "\<exists>t'. Ok (set_Merge p node m b t) = Ok (MergeOk, t') \<and> set_rep hc p m (M + N) t'"
    using set_Merge_rep [of hc p m M s N t node] by (metis Inr_inject fst_conv)
next
  fix M s assume "set_rep hc p m M s" "set_fits hc p m M"
  then show "\<exists>b s'. Ok (set_Flush m s) = Ok (b, s') \<and> set_rep hc p m {#} s'"
    using set_Flush_rep [of hc p m M s] by (cases "set_Flush m s") auto
next
  show "set_rep hc p m {#} new_set" by (simp add: set_rep_def new_set_def)
qed (auto simp: set_fits_sub set_add_def set_add_rep)


section \<open>Properties\<close>

text \<open>C11. A set table whose elements fit into it, all shards together, is computed correctly
  from any split into shards: nothing fails, and the merged entry counts all elements and
  displays the distinct ones, each once and in order.\<close>

theorem set_sharding:
  assumes "wf_ops p" and "m < 2 ^ 31" and "int (card (set (concat shards))) \<le> m"
    and "length (concat shards) < 2 ^ 63" and "concat shards \<noteq> []"
    and "\<forall>e \<in> set (concat shards). \<exists>v. encodes hc p v e"
  shows "\<exists>t. fold_res (tab_entry.merge_shard new_set (set_add node m) (\<lambda>s. Ok (set_Flush m s))
        (\<lambda>b t. Ok (set_Merge p node m b t))) shards new_set = Ok t
    \<and> st_tot t = of_nat (length (concat shards))
    \<and> set_FlushForDisplay m t = sorted_list_of_set (set (concat shards))"
proof -
  have "set_fits hc p m (mset (concat shards))" using assms by (auto simp: set_fits_def set_ok_def)
  from set_table.sharding_init [OF this] obtain t where
    t: "fold_res (tab_entry.merge_shard new_set (set_add node m) (\<lambda>s. Ok (set_Flush m s))
        (\<lambda>b t. Ok (set_Merge p node m b t))) shards new_set = Ok t"
      "set_rep hc p m (mset (concat shards)) t" by blast
  have "st_set t = set (concat shards)" "st_tot t = of_nat (length (concat shards))"
    using t(2) by (simp_all add: set_rep_def)
  moreover have "card (set (concat shards)) \<noteq> 0" using assms(5) by (simp only: card_eq_0_iff) simp
  ultimately have "set_FlushForDisplay m t = sorted_list_of_set (set (concat shards))"
    using assms(3) by (simp only: set_FlushForDisplay_def set_over_def not_less [symmetric] if_False simp_thms)
  then show ?thesis using t(1) \<open>st_tot t = _\<close> by blast
qed

definition int_set_ops :: szl_ops where
  "int_set_ops = SzlOps kInt [Flat K_INT]"

lemma int_set_encodes: "encodes hc int_set_ops (VInt i) (int_enc i)"
  by (auto simp: encodes_def int_set_ops_def kInt_def new_type_def canon.simps canon_base_def wf_ops.simps
      wired_def Encode_def EncodeInternal.simps SzlOpsDoEncode_def PutInt_eq ops_Skip_def SkipInternal.simps
      Skip_int_enc Decode_def DecodeInternal.simps SzlOpsDoDecode_def opt_value_def GetInt_int_enc)

theorem set_sharding_witness:
  "\<exists>t. fold_res (tab_entry.merge_shard new_set (set_add 0 2) (\<lambda>s. Ok (set_Flush 2 s))
      (\<lambda>b t. Ok (set_Merge int_set_ops 0 2 b t))) [[int_enc 1], [int_enc 5, int_enc 1]] new_set = Ok t
    \<and> set_FlushForDisplay 2 t = sorted_list_of_set {int_enc 1, int_enc 5}"
proof -
  have "card {int_enc 1, int_enc 5} \<le> 2" by (rule card_insert_le_m1) auto
  then show ?thesis
    using set_sharding [of int_set_ops 2 "[[int_enc 1], [int_enc 5, int_enc 1]]" "good_config Big" 0]
      int_set_encodes [of "good_config Big"] by (auto simp: encodes_def insert_commute)
qed

text \<open>A set that overflows on a shard is lost in the merge instead of making the merged set
  overflow: with room for one element, the elements \<open>a\<close>, \<open>b\<close>, \<open>c\<close> in one entry display
  nothing, but with \<open>a\<close> and \<open>b\<close> on a shard of their own the merged entry displays \<open>c\<close> alone.\<close>

theorem set_overflow_lost:
  assumes "a \<noteq> b" and "encodes hc p v c"
  shows "\<exists>whole t1. fold_res (set_add node 1) [a, b, c] new_set = Ok whole
    \<and> set_FlushForDisplay 1 whole = []
    \<and> fold_res (tab_entry.merge_shard new_set (set_add node 1) (\<lambda>s. Ok (set_Flush 1 s))
        (\<lambda>b t. Ok (set_Merge p node 1 b t))) [[a, b], [c]] new_set = Ok t1
    \<and> set_FlushForDisplay 1 t1 = [c]"
proof -
  let ?ab = "\<lparr>st_set = {a, b}, st_tot = 2\<rparr>"
  have ab: "fold_res (set_add node 1) [a, b] new_set = Ok ?ab"
    using assms(1) by (auto simp: set_add_def set_AddElem_def set_over_def new_set_def Let_def)
  have over: "set_over 1 (?ab\<lparr>st_tot := x\<rparr>)" for x using assms(1) by (simp add: set_over_def)
  then have whole: "fold_res (set_add node 1) [a, b, c] new_set = Ok (?ab\<lparr>st_tot := 3\<rparr>)"
    using ab by (auto simp: set_add_def set_AddElem_def Let_def bind_res_eq_Ok)
  have flush: "set_Flush 1 ?ab = ([], ?ab)" using over [of 2] by (simp add: set_Flush_def)
  have "set_fits hc p 1 (mset [c])" using assms(2) by (auto simp: set_fits_def set_ok_def encodes_def)
  then obtain t where t: "tab_entry.merge_shard new_set (set_add node 1) (\<lambda>s. Ok (set_Flush 1 s))
      (\<lambda>b t. Ok (set_Merge p node 1 b t)) [c] new_set = Ok t" "set_rep hc p 1 (mset [c] + {#}) t"
    using set_table.merge_shard_rep [OF set_table.rep_init, of hc p 1 "[c]" node] by auto
  have "tab_entry.merge_shard new_set (set_add node 1) (\<lambda>s. Ok (set_Flush 1 s))
      (\<lambda>b t. Ok (set_Merge p node 1 b t)) [a, b] new_set = Ok new_set"
    unfolding set_table.merge_shard_def ab by (simp add: flush set_Merge_def)
  moreover have "set_FlushForDisplay 1 t = [c]" using t(2) by (simp add: set_rep_def set_FlushForDisplay_def set_over_def)
  moreover have "set_FlushForDisplay 1 (?ab\<lparr>st_tot := 3\<rparr>) = []" using over by (simp add: set_FlushForDisplay_def)
  ultimately have "fold_res (tab_entry.merge_shard new_set (set_add node 1) (\<lambda>s. Ok (set_Flush 1 s))
      (\<lambda>b t. Ok (set_Merge p node 1 b t))) [[a, b], [c]] new_set = Ok t"
    "set_FlushForDisplay 1 (?ab\<lparr>st_tot := 3\<rparr>) = []" "set_FlushForDisplay 1 t = [c]"
    using t(1) by simp_all
  then show ?thesis using whole by blast
qed

theorem set_overflow_lost_witness:
  "\<exists>whole. fold_res (set_add 0 1) [int_enc 1, [], int_enc 5] new_set = Ok whole \<and> set_FlushForDisplay 1 whole = []"
  using set_overflow_lost [OF _ int_set_encodes, of "int_enc 1" "[]" 0 5] by auto

end
