(* ===== verification/Szl_Unique.thy ===== *)
theory Szl_Unique
  imports Szl_Heap Szl_Entry
begin

text \<open>
  The \<open>unique\<close> table (src/src/emitters/szlunique.cc) and its reader
  (src/src/emitters/szluniqueresults.cc): an estimate of the number of distinct elements
  from the \<open>maxElems_\<close> smallest of their hashes.  The hashes are kept in a heap with the
  biggest on top, next to a hash set of the same hashes.

  Parameters: \<open>md5\<close> is the digest of the OpenSSL library; \<open>unique_env\<close> collects what the
  source leaves to the compiler and to the hash set of the C++ library (sizes, how the
  bucket count grows) and the contents of memory that is read before it is written (the
  value returned by the path of \<open>AddHash\<close> without a \<open>return\<close>, the tails of the two buffers
  of which only the first eight bytes are filled).
\<close>

record unique_env =
  ue_size :: int                       \<comment> \<open>\<open>sizeof(SzlUniqueEntry)\<close>\<close>
  ue_buckets :: int                    \<comment> \<open>buckets of \<open>exists_(10)\<close>\<close>
  ue_grow :: "int \<Rightarrow> nat \<Rightarrow> int"       \<comment> \<open>buckets after an insertion, from those before and the new size\<close>
  ue_junk :: int                       \<comment> \<open>what a missing \<open>return\<close> yields\<close>
  ue_pad :: bytes                      \<comment> \<open>bytes 8 to 23 of \<open>buf\<close> in \<open>Flush\<close>\<close>
  ue_tail :: bytes                     \<comment> \<open>bytes 8 to 15 of \<open>unpacked\<close> in \<open>Estimate\<close>\<close>

record unique_entry =
  uq_heap :: "u64 list"
  uq_exists :: "u64 set"
  uq_buckets :: int
  uq_isSorted :: bool
  uq_tot :: i64

definition kHashSize :: nat where
  "kHashSize = 24"

definition MD5_DIGEST_LENGTH :: nat where
  "MD5_DIGEST_LENGTH = 16"

definition new_unique :: "unique_env \<Rightarrow> unique_entry" where
  "new_unique env =
     \<lparr>uq_heap = [], uq_exists = {}, uq_buckets = ue_buckets env, uq_isSorted = False, uq_tot = 0\<rparr>"


section \<open>Hashes\<close>

definition PackUniqueHash :: "bytes \<Rightarrow> u64" where
  "PackUniqueHash mem =
     (let hhi = ((push_bit 24 (ucast (mem ! 0)) OR push_bit 16 (ucast (mem ! 1)))
                  OR push_bit 8 (ucast (mem ! 2))) OR ucast (mem ! 3) :: u32;
          hlo = ((push_bit 24 (ucast (mem ! 4)) OR push_bit 16 (ucast (mem ! 5)))
                  OR push_bit 8 (ucast (mem ! 6))) OR ucast (mem ! 7) :: u32
      in push_bit 32 (ucast hhi) OR ucast hlo)"

text \<open>The first eight bytes of \<open>mem\<close> are overwritten.\<close>

definition UnpackUniqueHash :: "u64 \<Rightarrow> bytes \<Rightarrow> bytes" where
  "UnpackUniqueHash hash mem =
     (let hhi = ucast (drop_bit 32 hash) :: u32; hlo = ucast hash :: u32
      in [ucast (drop_bit 24 hhi), ucast (drop_bit 16 hhi), ucast (drop_bit 8 hhi), ucast hhi,
          ucast (drop_bit 24 hlo), ucast (drop_bit 16 hlo), ucast (drop_bit 8 hlo), ucast hlo]
         @ drop 8 mem)"


section \<open>The heap\<close>

text \<open>Unlike \<open>SzlHeap\<close> the sift stops at a kid that is equal.\<close>

function uniq_FixHeapDown_loop :: "u64 \<Rightarrow> nat \<Rightarrow> nat \<Rightarrow> u64 list \<Rightarrow> u64 list" where
  "uniq_FixHeapDown_loop e h nheap heap =
     (if nheap \<le> 2 * h + 1 then heap[h := e]
      else
        let kid = min_kid (>) h nheap heap; ke = heap ! kid in
        if \<not> ke > e then heap[h := e]
        else uniq_FixHeapDown_loop e kid nheap (heap[h := ke]))"
  by pat_completeness auto
termination
  by (relation "measure (\<lambda>(_, h, nheap, _). nheap - h)") (auto simp: min_kid_def Let_def)

declare uniq_FixHeapDown_loop.simps [simp del]

text \<open>An index out of range only prints a message.\<close>

definition uniq_FixHeapDown :: "nat \<Rightarrow> nat \<Rightarrow> u64 list \<Rightarrow> u64 list" where
  "uniq_FixHeapDown h nheap heap =
     (if h < nheap then uniq_FixHeapDown_loop (heap ! h) h nheap heap else heap)"

definition uniq_FixHeapUp :: "nat \<Rightarrow> u64 list \<Rightarrow> u64 list" where
  "uniq_FixHeapUp h heap =
     (if h < length heap then FixHeapUp_loop (>) (heap ! h) h heap else heap)"

definition uniq_IsHeap :: "bool \<Rightarrow> u64 list \<Rightarrow> bool" where
  "uniq_IsHeap isSorted heap =
     list_all (\<lambda>i. \<not> heap ! i \<ge> heap ! (if isSorted then i - 1 else (i - 1) div 2)) [1..<length heap]"

fun uniq_Sort_loop :: "nat \<Rightarrow> u64 list \<Rightarrow> u64 list" where
  "uniq_Sort_loop 0 heap = heap"
| "uniq_Sort_loop (Suc ne) heap =
     (if ne > 0 then
        uniq_Sort_loop ne (uniq_FixHeapDown 0 ne (heap[0 := heap ! ne, ne := heap ! 0]))
      else heap)"

definition uniq_Sort :: "u64 list \<Rightarrow> u64 list" where
  "uniq_Sort heap = (if heap = [] then heap else uniq_Sort_loop (length heap) heap)"

text \<open>The check that follows the reversal only prints a message.\<close>

definition uniq_ReHeap :: "u64 list \<Rightarrow> u64 list" where
  "uniq_ReHeap heap = fold (swap_ends (length heap)) [0..<length heap div 2] heap"

definition MakeSortedHeap :: "unique_entry \<Rightarrow> unique_entry" where
  "MakeSortedHeap s =
     (if \<not> uq_isSorted s then s\<lparr>uq_heap := uniq_ReHeap (uniq_Sort (uq_heap s)), uq_isSorted := True\<rparr> else s)"


section \<open>The entry\<close>

definition uniq_Memory :: "unique_env \<Rightarrow> unique_entry \<Rightarrow> int" where
  "uniq_Memory env s =
     ue_size env + uq_buckets s * 8 + int (card (uq_exists s)) * 8 + int (length (uq_heap s)) * 8"

definition uniq_insert :: "unique_env \<Rightarrow> u64 \<Rightarrow> unique_entry \<Rightarrow> unique_entry" where
  "uniq_insert env hash s =
     (let ex = insert hash (uq_exists s)
      in s\<lparr>uq_exists := ex, uq_buckets := ue_grow env (uq_buckets s) (card ex)\<rparr>)"

text \<open>\<open>heap_.size() < maxElems_\<close> compares as unsigned, after \<open>maxElems_ <= 0\<close> has been excluded.\<close>

definition AddHash :: "unique_env \<Rightarrow> int \<Rightarrow> u64 \<Rightarrow> unique_entry \<Rightarrow> int \<times> unique_entry" where
  "AddHash env maxElems hash s =
     (let s = s\<lparr>uq_tot := uq_tot s + 1\<rparr>; heap = uq_heap s in
      if maxElems \<le> 0 then (0, s)
      else if hash \<in> uq_exists s then (0, s)
      else if int (length heap) < maxElems then
        let memory = uniq_Memory env s;
            s = uniq_insert env hash
              (s\<lparr>uq_isSorted := False, uq_heap := uniq_FixHeapUp (length heap) (heap @ [hash])\<rparr>)
        in (uniq_Memory env s - memory, s)
      else if hash < heap ! 0 then
        (0, uniq_insert env hash
              (s\<lparr>uq_isSorted := False, uq_exists := uq_exists s - {heap ! 0},
                 uq_heap := uniq_FixHeapDown 0 (length heap) (heap[0 := hash])\<rparr>))
      else (ue_junk env, s))"

definition uniq_AddElem :: "unique_env \<Rightarrow> (bytes \<Rightarrow> bytes) \<Rightarrow> int \<Rightarrow> bytes \<Rightarrow> unique_entry
    \<Rightarrow> int \<times> unique_entry" where
  "uniq_AddElem env md5 maxElems elem = AddHash env maxElems (PackUniqueHash (md5 elem))"

definition uniq_Clear :: "unique_entry \<Rightarrow> unique_entry" where
  "uniq_Clear s = s\<lparr>uq_tot := 0, uq_heap := [], uq_exists := {}\<rparr>"

definition uniq_TupleCount :: "unique_entry \<Rightarrow> int" where
  "uniq_TupleCount s = 1"

text \<open>The scaled quotient both estimates end with.  Comparisons are unsigned, the shift of the
  total is arithmetic.\<close>

definition rescale :: "u64 \<Rightarrow> int \<Rightarrow> i64 \<Rightarrow> i64 res" where
  "rescale r renorm tot =
     (if renorm < 0 then
        if renorm \<le> - 64 then Inl Bad_shift
        else let r = drop_bit (nat (- renorm)) r in Ok (if r > tot then tot else r)
      else if 64 \<le> renorm then Inl Bad_shift
      else if r > signed_drop_bit (nat renorm) tot then Ok tot
      else let r = push_bit (nat renorm) r in Ok (if r > tot then tot else r))"

definition uniq_Estimate :: "unique_env \<Rightarrow> int \<Rightarrow> unique_entry \<Rightarrow> i64 res" where
  "uniq_Estimate env maxElems s =
     (let heap = uq_heap s; size = of_nat (length heap) :: u64 in
      if maxElems \<le> 0 then Ok 0
      else if int (length heap) < maxElems then Ok size
      else
        let unpacked = UnpackUniqueHash (heap ! 0) (replicate 8 0 @ ue_tail env);
            z = length (takeWhile (\<lambda>b. b = 0) (take MD5_DIGEST_LENGTH unpacked))
        in if MD5_DIGEST_LENGTH \<le> z + 3 then Inl Out_of_range
        else
          let big = unpackUint32 (drop z unpacked);
              biggestsmall = (if big = 0 then 1 else big);
              msbnum = Log2Int size;
              r = push_bit 32 (push_bit (nat (31 - msbnum)) size) div ucast biggestsmall;
              renorm = int z * 8 - (31 - msbnum)
          in rescale r renorm (uq_tot s))"

definition uniq_Flush :: "unique_env \<Rightarrow> unique_entry \<Rightarrow> bytes \<times> unique_entry" where
  "uniq_Flush env s =
     (let ne = of_nat (length (uq_heap s)) in
      if uq_heap s = [] then ([], s)
      else
        let enc = PutInt ne (PutInt (uq_tot s - ne) new_encoder);
            s = MakeSortedHeap s;
            enc = fold (\<lambda>h. PutBytes (UnpackUniqueHash h (replicate 8 0 @ ue_pad env))) (uq_heap s) enc
        in (fst (enc_Swap enc), uniq_Clear s))"

definition uniq_FlushForDisplay :: "unique_env \<Rightarrow> int \<Rightarrow> unique_entry \<Rightarrow> bytes list res" where
  "uniq_FlushForDisplay env maxElems s =
     (if uq_tot s = 0 then Ok [[]]
      else bind_res (uniq_Estimate env maxElems s) (\<lambda>estimate.
        Ok [fst (enc_Swap (PutInt estimate new_encoder))]))"

fun uniq_merge_loop :: "unique_env \<Rightarrow> int \<Rightarrow> nat \<Rightarrow> szl_decoder \<Rightarrow> unique_entry
    \<Rightarrow> (szl_decoder option \<times> unique_entry)" where
  "uniq_merge_loop env maxElems 0 d s = (Some d, s)"
| "uniq_merge_loop env maxElems (Suc n) d s =
     (if peek d \<noteq> K_BYTES then (None, s)
      else case GetBytes d of
        None \<Rightarrow> (None, s)
      | Some (b, d') \<Rightarrow>
          if length b \<noteq> kHashSize then (None, s)
          else uniq_merge_loop env maxElems n d' (snd (AddHash env maxElems (PackUniqueHash b) s)))"

definition uniq_Merge :: "unique_env \<Rightarrow> int \<Rightarrow> bytes \<Rightarrow> unique_entry \<Rightarrow> merge_status \<times> unique_entry" where
  "uniq_Merge env maxElems val s =
     (if val = [] then (MergeOk, s)
      else
        case GetInt (new_decoder val) of
          None \<Rightarrow> (MergeError, s)
        | Some (extra, d) \<Rightarrow>
            (case GetInt d of
               None \<Rightarrow> (MergeError, s)
             | Some (nvals, d) \<Rightarrow>
                 if nvals = 0 then (MergeOk, s)
                 else
                   case uniq_merge_loop env maxElems (nat (sint nvals)) d s of
                     (None, s') \<Rightarrow> (MergeError, s')
                   | (Some d', s') \<Rightarrow>
                       if \<not> dec_done d' then (MergeError, s')
                       else (MergeOk, s'\<lparr>uq_tot := uq_tot s' + extra\<rparr>)))"


section \<open>The reader\<close>

record unique_results =
  ur_uniques :: "bytes list"
  ur_tot :: i64

definition kUniqueLen :: nat where
  "kUniqueLen = 8"

text \<open>\<open>for ( ; !(n & (1 << msbnum)); --msbnum)\<close>; below bit 0 the shift is undefined.\<close>

fun msb_from :: "u32 \<Rightarrow> nat \<Rightarrow> int res" where
  "msb_from n m =
     (if n AND push_bit m 1 \<noteq> 0 then Ok (int m)
      else case m of 0 \<Rightarrow> Inl Bad_shift | Suc m' \<Rightarrow> msb_from n m')"

declare msb_from.simps [simp del]

definition res_Estimate :: "i64 \<Rightarrow> int \<Rightarrow> i64 \<Rightarrow> bytes \<Rightarrow> i64 res" where
  "res_Estimate nelems maxElems totElems bigsmall =
     (if sint nelems < maxElems then Ok nelems
      else
        let z = length (takeWhile (\<lambda>b. b = 0) (take (kUniqueLen - 4) bigsmall));
            big = unpackUint32 (drop z bigsmall);
            biggestsmall = (if big = 0 then 1 else big);
            n = ucast nelems :: u32
        in bind_res (msb_from n 31) (\<lambda>msbnum.
          let r = push_bit 32 (ucast (push_bit (nat (31 - msbnum)) n)) div ucast biggestsmall;
              renorm = int z * 8 - (31 - msbnum)
          in rescale r renorm totElems))"

fun uniq_check_loop :: "nat \<Rightarrow> szl_decoder \<Rightarrow> szl_decoder option" where
  "uniq_check_loop 0 d = Some d"
| "uniq_check_loop (Suc n) d =
     (if peek d \<noteq> K_BYTES then None
      else case GetBytes d of
        None \<Rightarrow> None
      | Some (b, d') \<Rightarrow> if length b \<noteq> kUniqueLen then None else uniq_check_loop n d')"

text \<open>The value returned and \<open>totElems_\<close>.\<close>

definition UnpackAndEstimate :: "int \<Rightarrow> bytes \<Rightarrow> (i64 \<times> i64) res" where
  "UnpackAndEstimate maxUniques val =
     (if val = [] then Ok (0, 0)
      else
        case GetInt (new_decoder val) of
          None \<Rightarrow> Ok (- 1, 0)
        | Some (extra, d) \<Rightarrow>
            (case GetInt d of
               None \<Rightarrow> Ok (- 1, 0)
             | Some (nvals, d) \<Rightarrow>
                 if sint nvals > maxUniques then Ok (- 1, 0)
                 else
                   case uniq_check_loop (nat (sint nvals)) d of
                     None \<Rightarrow> Ok (- 1, 0)
                   | Some d1 \<Rightarrow>
                       if \<not> dec_done d1 then Ok (- 1, 0)
                       else
                         let tot = nvals + extra in
                         if nvals = 0 then Ok (0, tot)
                         else
                           case Skip K_INT (Restart d1) of
                             None \<Rightarrow> Inl Check_failed
                           | Some d2 \<Rightarrow>
                               (case Skip K_INT d2 of
                                  None \<Rightarrow> Inl Check_failed
                                | Some d3 \<Rightarrow>
                                    (case GetBytes d3 of
                                       None \<Rightarrow> Inl Check_failed
                                     | Some (b, _) \<Rightarrow>
                                         if length b \<noteq> kUniqueLen then Inl Check_failed
                                         else bind_res (res_Estimate nvals maxUniques tot b) (\<lambda>e. Ok (e, tot))))))"

definition uniqres_ParseFromString :: "int \<Rightarrow> bytes \<Rightarrow> unique_results \<Rightarrow> (bool \<times> unique_results) res" where
  "uniqres_ParseFromString maxUniques val r =
     bind_res (UnpackAndEstimate maxUniques val) (\<lambda>(unique, tot).
       if sint unique < 0 then Ok (False, r\<lparr>ur_tot := tot\<rparr>)
       else Ok (True, \<lparr>ur_uniques = [enc_data (PutInt unique new_encoder)], ur_tot = tot\<rparr>))"


section \<open>The smallest elements of a set\<close>

definition least :: "nat \<Rightarrow> 'a::linorder set \<Rightarrow> 'a list" where
  "least m X = take m (sorted_list_of_set X)"

lemma least_sorted [simp]: "sorted (least m X)" "distinct (least m X)"
  by (simp_all add: least_def sorted_wrt_take distinct_take)

lemma length_least: "length (least m X) = min m (card X)"
  by (simp add: least_def)

lemma set_least_subset: "finite X \<Longrightarrow> set (least m X) \<subseteq> X"
  by (metis least_def set_sorted_list_of_set set_take_subset)

lemma least_set [simp]: "least m (set (least m X)) = least m X"
  using sorted_list_of_set.idem_if_sorted_distinct [of "least m X"] by (simp add: least_def)

lemma least_below:
  assumes "finite X" and "x \<in> X" and "x \<notin> set (least m X)" and "y \<in> set (least m X)"
  shows "y < x"
proof -
  let ?xs = "sorted_list_of_set X"
  have "sorted (take m ?xs @ drop m ?xs)" "x \<in> set (take m ?xs @ drop m ?xs)" using assms(1,2) by simp_all
  then have "y \<le> x" "x \<noteq> y" using assms(3,4) by (auto simp: least_def sorted_append simp del: append_take_drop_id)
  then show ?thesis by simp
qed

lemma take_insort:
  "sorted xs \<Longrightarrow> take m (insort x (take m xs)) = take m (insort x xs)"
proof (induction xs arbitrary: m)
  case (Cons y xs)
  show ?case
  proof (cases m)
    case (Suc k)
    have "take (Suc k) (insort x (y # take k xs)) = take (Suc k) (insort x (y # xs))"
      using Cons.IH [of k] Cons.prems by (simp add: take_Cons')
    then show ?thesis using Suc by simp
  qed simp
qed simp

lemma take_insort_above:
  assumes "\<forall>y \<in> set xs. y < x" and "m \<le> length xs"
  shows "take m (insort x xs) = take m xs"
  using assms by (induction xs arbitrary: m) (auto simp: take_Cons')

lemma least_insert:
  assumes "finite X"
  shows "least m (insert x X) = least m (insert x (set (least m X)))"
proof (cases "x \<in> X")
  case True
  show ?thesis
  proof (cases "x \<in> set (least m X)")
    case False
    have "set (least m X) \<noteq> X" using True False by auto
    then have "m < card X"
      using assms by (metis least_def not_le sorted_list_of_set.length_sorted_key_list_of_set
          set_sorted_list_of_set take_all)
    then have "m \<le> length (least m X)" by (simp add: length_least)
    then have "take m (insort x (least m X)) = take m (least m X)"
      using least_below [OF assms True False] by (intro take_insort_above) blast+
    then have "least m (insert x (set (least m X))) = least m X"
      using False sorted_list_of_set.idem_if_sorted_distinct [of "least m X"]
      by (simp add: least_def)
    then show ?thesis using True by (simp add: insert_absorb)
  qed (use True in \<open>simp add: insert_absorb\<close>)
next
  case False
  then have "x \<notin> set (least m X)" using set_least_subset [OF assms] by blast
  then show ?thesis
    using False assms take_insort [of "sorted_list_of_set X" m x]
      sorted_list_of_set.idem_if_sorted_distinct [of "least m X"]
    by (simp add: least_def)
qed

lemma least_union:
  assumes "finite A" and "finite B"
  shows "least m (A \<union> B) = least m (set (least m A) \<union> B)"
  using assms(2)
proof (induction B)
  case (insert b B)
  have "least m (A \<union> insert b B) = least m (insert b (set (least m (A \<union> B))))"
    using least_insert [of "A \<union> B" m b] assms(1) insert.hyps by simp
  also have "\<dots> = least m (set (least m A) \<union> insert b B)"
    using least_insert [of "set (least m A) \<union> B" m b] insert by simp
  finally show ?case .
qed simp

section \<open>The heap is the generic one\<close>

interpretation hash_order: weight_order "\<lambda>_ :: u64. True" "(>)"
  by unfold_locales auto

lemma uniq_FixHeapDown_loop_eq:
  "distinct (heap[h := e]) \<Longrightarrow> h < nheap \<Longrightarrow> nheap \<le> length heap \<Longrightarrow>
    uniq_FixHeapDown_loop e h nheap heap = FixHeapDown_loop (>) e h nheap heap"
proof (induction e h nheap heap rule: uniq_FixHeapDown_loop.induct)
  case (1 e h n xs)
  let ?k = "min_kid (>) h n xs"
  show ?case
  proof (cases "n \<le> 2 * h + 1")
    case True
    then show ?thesis by (simp add: uniq_FixHeapDown_loop.simps FixHeapDown_loop.simps)
  next
    case False
    note k = min_kid_bounds [OF False, of "(>)" xs]
    have lk: "h < length xs" "?k < length xs" "h \<noteq> ?k" using k 1(3,4) by auto
    have "xs[h := e] ! h \<noteq> xs[h := e] ! ?k" using 1(2) lk nth_eq_iff_index_eq [of "xs[h := e]" h ?k] by auto
    then have ne: "e \<noteq> xs ! ?k" using lk by simp
    have "distinct (xs[h := xs ! ?k, ?k := e])"
      using 1(2) mset_eq_imp_distinct_iff [OF mset_move_hole [OF lk]] by simp
    then have "\<not> \<not> xs ! ?k > e \<Longrightarrow> uniq_FixHeapDown_loop e ?k n (xs[h := xs ! ?k])
        = FixHeapDown_loop (>) e ?k n (xs[h := xs ! ?k])"
      using 1(1) [OF False refl refl] k 1(4) by simp
    then show ?thesis
      using False ne by (auto simp: uniq_FixHeapDown_loop.simps [of e h n xs] FixHeapDown_loop.simps [of _ e h n xs] Let_def)
  qed
qed

lemma uniq_FixHeapDown_eq:
  assumes "distinct heap" and "h < nheap" and "nheap \<le> length heap"
  shows "FixHeapDown (>) h nheap heap = Ok (uniq_FixHeapDown h nheap heap)"
  using assms uniq_FixHeapDown_loop_eq [of heap h "heap ! h" nheap]
  by (simp add: FixHeapDown_def uniq_FixHeapDown_def)

lemma distinct_swap [simp]:
  "i < length xs \<Longrightarrow> j < length xs \<Longrightarrow> distinct (xs[i := xs ! j, j := xs ! i]) = distinct xs"
  by (rule mset_eq_imp_distinct_iff) (rule mset_swap)

lemma uniq_Sort_loop_eq:
  "distinct heap \<Longrightarrow> n \<le> length heap \<Longrightarrow> Sort_loop (>) n heap = Ok (uniq_Sort_loop n heap)"
proof (induction n arbitrary: heap)
  case (Suc n)
  let ?xs = "heap[0 := heap ! n, n := heap ! 0]"
  have dist: "distinct ?xs" using Suc.prems by (subst distinct_swap) auto
  have "distinct (uniq_FixHeapDown 0 n ?xs) \<and> length (uniq_FixHeapDown 0 n ?xs) = length heap" if "n > 0"
  proof -
    have "mset (uniq_FixHeapDown 0 n ?xs) = mset (?xs[0 := ?xs ! 0])"
      using that Suc.prems(2) uniq_FixHeapDown_eq [OF dist, of 0 n] mset_FixHeapDown_loop [of 0 n ?xs "(>)" "?xs ! 0"]
      by (simp add: FixHeapDown_def)
    then have "mset (uniq_FixHeapDown 0 n ?xs) = mset ?xs" by (simp only: list_update_id)
    from mset_eq_imp_distinct_iff [OF this] mset_eq_length [OF this]
    show ?thesis using dist by simp
  qed
  then show ?case
    using Suc uniq_FixHeapDown_eq [OF dist, of 0 n] by auto
qed simp

lemma MakeSortedHeap_heap:
  assumes "IsHeap (>) (uq_heap s)" and "distinct (uq_heap s)"
  shows "mset (uq_heap (MakeSortedHeap s)) = mset (uq_heap s)"
    and "\<not> uq_isSorted s \<Longrightarrow> sorted_wrt (>) (uq_heap (MakeSortedHeap s))"
proof -
  let ?h = "uq_heap s"
  obtain ys where ys: "Sort (>) ?h = Ok ys" "mset ys = mset ?h" "sorted_wrt (\<lambda>a b. \<not> a > b) ys"
    using hash_order.Sort_sorts [of ?h] assms(1) by (auto simp: list_all_iff)
  have u: "uniq_Sort ?h = ys" using ys(1) uniq_Sort_loop_eq [OF assms(2), of "length ?h"]
    by (auto simp: Sort_def uniq_Sort_def split: if_splits)
  have "distinct ys" using ys(2) assms(2) mset_eq_imp_distinct_iff by blast
  then have "sorted_wrt (<) ys" using ys(3) strict_sorted_iff [of ys] by (simp add: not_less)
  then have "sorted_wrt (>) (rev ys)" by (simp add: sorted_wrt_rev)
  then show "mset (uq_heap (MakeSortedHeap s)) = mset (uq_heap s)"
    and "\<not> uq_isSorted s \<Longrightarrow> sorted_wrt (>) (uq_heap (MakeSortedHeap s))"
    using ys(2) by (simp_all add: MakeSortedHeap_def uniq_ReHeap_def swap_ends_rev u)
qed

section \<open>What an entry stands for\<close>

text \<open>After \<open>n\<close> additions of the hashes \<open>H\<close> the entry keeps the \<open>m\<close> smallest of \<open>H\<close>.\<close>

definition urep :: "int \<Rightarrow> u64 set \<Rightarrow> nat \<Rightarrow> unique_entry \<Rightarrow> bool" where
  "urep m H n s \<longleftrightarrow> mset (uq_heap s) = mset (least (nat m) H) \<and> IsHeap (>) (uq_heap s)
     \<and> uq_exists s = set (uq_heap s) \<and> uq_tot s = of_nat n"

lemma urepD:
  assumes "urep m H n s"
  shows "set (uq_heap s) = set (least (nat m) H)" and "distinct (uq_heap s)"
    and "length (uq_heap s) = min (nat m) (card H)"
  using assms mset_eq_setD mset_eq_imp_distinct_iff [of "uq_heap s"] mset_eq_length [of "uq_heap s"]
  by (auto simp: urep_def length_least)

lemma least_insert_new:
  assumes "finite H" and "h \<notin> set (least m H)"
  shows "least m (insert h H) = take m (insort h (least m H))"
  unfolding least_insert [OF assms(1)]
  using assms(2) sorted_list_of_set.idem_if_sorted_distinct [of "least m H"] by (simp add: least_def)

lemma insort_snoc: "h < l \<Longrightarrow> insort h (xs @ [l]) = insort h xs @ [l]"
  by (induction xs) auto

lemma heap_root_Max:
  assumes "IsHeap (>) (xs :: u64 list)" and "xs \<noteq> []" and "mset xs = mset ys" and "sorted ys"
  shows "xs ! 0 = last ys"
proof -
  have "x \<le> xs ! 0" if "x \<in> set xs" for x
    using hash_order.heap_root_least [of "length xs" xs] assms(1) that
    by (auto simp: IsHeap_iff in_set_conv_nth not_less)
  moreover have "x \<le> last ys" if "x \<in> set ys" for x
    using assms(4) that by (cases ys rule: rev_cases) (auto simp: sorted_append)
  moreover have "set xs = set ys" "ys \<noteq> []" using assms(2,3) mset_eq_setD by auto
  ultimately show ?thesis using assms(2) by (metis order_antisym last_in_set length_greater_0_conv nth_mem)
qed

lemma insort_full:
  assumes "length K = m" and "K \<noteq> []" and "h < last K"
  shows "take m (insort h K) = insort h (butlast K)"
proof -
  have "insort h K = insort h (butlast K) @ [last K]" using insort_snoc [OF assms(3), of "butlast K"] assms(2) by simp
  moreover have "length (insort h (butlast K)) = m" using assms(1,2) by (cases K) auto
  ultimately show ?thesis by simp
qed

lemma replace_root:
  assumes "mset x = mset K" and "K \<noteq> []" and "x ! 0 = last K" and "distinct x"
  shows "mset (x[0 := h]) = add_mset h (mset (butlast K))" and "set (x[0 := h]) = insert h (set x - {x ! 0})"
proof -
  obtain a xs where x: "x = a # xs" using assms(1,2) by (cases x) auto
  have "add_mset (last K) (mset (butlast K)) = mset K"
    using assms(2) by (cases K rule: rev_cases) simp_all
  then show "mset (x[0 := h]) = add_mset h (mset (butlast K))" using assms(1,3) x
    by (metis add_mset_add_single add_right_imp_eq list_update_code(2) mset.simps(2) nth_Cons_0)
  show "set (x[0 := h]) = insert h (set x - {x ! 0})" using assms(4) x by simp
qed

lemma AddHash_replace:
  assumes "urep m H n s" and "finite H" and "0 < m" and "m \<le> int (length (uq_heap s))"
    and "h \<notin> set (uq_heap s)" and "h < uq_heap s ! 0"
  shows "urep m (insert h H) (Suc n) (snd (AddHash env m h s))"
proof -
  let ?x = "uq_heap s" let ?K = "least (nat m) H" let ?y = "?x[0 := h]"
  note r = urepD [OF assms(1)]
  have x: "mset ?x = mset ?K" "IsHeap (>) ?x" "uq_exists s = set ?x" "uq_tot s = of_nat n"
    using assms(1) by (auto simp: urep_def)
  have len: "length ?K = nat m" "?K \<noteq> []" "?x \<noteq> []"
    using r(3) assms(3,4) by (auto simp: length_least simp flip: length_greater_0_conv)
  have root: "?x ! 0 = last ?K" using heap_root_Max [OF x(2) len(3) x(1)] by simp
  note y = replace_root [OF x(1) len(2) root r(2), of h]
  have "least (nat m) (insert h H) = insort h (butlast ?K)"
    using least_insert_new [OF assms(2), of h "nat m"] insort_full [OF len(1,2)] assms(5,6) root r(1) by simp
  then have m': "mset (least (nat m) (insert h H)) = mset ?y" using y(1) by simp
  have "distinct ?y" using mset_eq_imp_distinct_iff [OF m'] by simp
  then have "FixHeapDown (>) 0 (length ?x) ?y = Ok (uniq_FixHeapDown 0 (length ?x) ?y)"
    using uniq_FixHeapDown_eq [of ?y 0 "length ?x"] len(3) by simp
  moreover obtain ys where "FixHeapDown (>) 0 (length ?x) ?y = Ok ys" "heap_upto (>) (length ?x) ys"
    "mset ys = mset ?y" "length ys = length ?x"
    using hash_order.FixHeapDown_root [of "length ?x" ?x h] x(2) len(3) by (auto simp: IsHeap_iff list_all_iff)
  ultimately have ys: "IsHeap (>) (uniq_FixHeapDown 0 (length ?x) ?y)"
    "mset (uniq_FixHeapDown 0 (length ?x) ?y) = mset ?y" by (auto simp: IsHeap_iff)
  show ?thesis
    using assms(3-6) x ys m' y(2) mset_eq_setD [OF ys(2)]
    by (simp add: AddHash_def urep_def Let_def uniq_insert_def)
qed

lemma AddHash_urep:
  assumes "0 < m" and "finite H" and "urep m H n s"
  shows "urep m (insert h H) (Suc n) (snd (AddHash env m h s))"
proof -
  let ?x = "uq_heap s" let ?K = "least (nat m) H"
  note r = urepD [OF assms(3)]
  have x: "mset ?x = mset ?K" "IsHeap (>) ?x" "uq_exists s = set ?x" "uq_tot s = of_nat n"
    using assms(3) by (auto simp: urep_def)
  show ?thesis
  proof (cases "h \<in> set ?x")
    case True
    then have "h \<in> H" using r(1) set_least_subset [OF assms(2)] by blast
    then show ?thesis using True x assms(1) by (simp add: AddHash_def urep_def Let_def insert_absorb)
  next
    case new: False
    then have K': "least (nat m) (insert h H) = take (nat m) (insort h ?K)"
      using least_insert_new [OF assms(2)] r(1) by blast
    show ?thesis
    proof (cases "int (length ?x) < m")
      case True
      then have "length (insort h ?K) \<le> nat m" using r(3) by (simp add: length_least)
      then have m': "mset (least (nat m) (insert h H)) = add_mset h (mset ?x)" using K' x(1) by simp
      obtain ys where ys: "FixHeapUp (>) (length ?x) (?x @ [h]) = Ok ys" "IsHeap (>) ys" "mset ys = mset (h # ?x)"
        using hash_order.FixHeapUp_push [OF x(2), of h] by (auto simp: list_all_iff)
      then have "uniq_FixHeapUp (length ?x) (?x @ [h]) = ys"
        by (simp add: FixHeapUp_def uniq_FixHeapUp_def)
      then show ?thesis
        using True new x ys m' assms(1) mset_eq_setD [OF ys(3)]
        by (simp add: AddHash_def urep_def Let_def uniq_insert_def)
    next
      case full: False
      then have len: "length ?K = nat m" "?x \<noteq> []"
        using r(3) assms(1) by (auto simp: length_least simp flip: length_greater_0_conv)
      have root: "?x ! 0 = last ?K" using heap_root_Max [OF x(2) len(2) x(1)] by simp
      show ?thesis
      proof (cases "h < ?x ! 0")
        case True
        then show ?thesis using AddHash_replace [OF assms(3,2,1)] full new by simp
      next
        case False
        have "y < h" if "y \<in> set ?K" for y
        proof -
          have "y \<le> last ?K" using that least_sorted(1) [of "nat m" H]
            by (cases ?K rule: rev_cases) (auto simp: sorted_append)
          moreover have "y \<noteq> h" using that new r(1) by auto
          ultimately show ?thesis using False root by auto
        qed
        then have "least (nat m) (insert h H) = ?K" using K' len(1) by (simp add: take_insort_above)
        then show ?thesis using full new x False assms(1) by (simp add: AddHash_def urep_def Let_def)
      qed
    qed
  qed
qed

section \<open>Flushing and merging\<close>

lemma unpackUint32_foldl:
  "unpackUint32 (a # b # c # d # r) = foldl shl8_or 0 [a, b, c, d]"
  by (simp add: unpackUint32_def shl8_or_def push_bit_or push_bit_push_bit)

lemma unat_unpackUint32: "4 \<le> length p \<Longrightarrow> unat (unpackUint32 p) = be_nat (take 4 p)"
proof -
  assume "4 \<le> length p"
  then obtain a b c d r where p: "p = a # b # c # d # r"
    by (metis (no_types, opaque_lifting) Suc_le_length_iff numeral_eq_Suc pred_numeral_simps(2,3) semiring_norm(26,27) numeral_One)
  show ?thesis using unat_foldl_shl8_or_exact [of "[a, b, c, d]", where 'a = 32]
    unfolding p unpackUint32_foldl by simp
qed

lemma unat_unpackUint64:
  assumes "8 \<le> length p"
  shows "unat (unpackUint64 p) = be_nat (take 8 p)"
proof -
  let ?h = "unpackUint32 p" let ?l = "unpackUint32 (drop 4 p)"
  have l: "unat ?l < 2 ^ 32" "unat ?h < 2 ^ 32" 
    using unsigned_less [of ?l, where 'a = nat]  unsigned_less [of ?h, where 'a = nat] by simp_all
  have c: "unat (ucast w :: u64) = unat w" for w :: u32
    using unsigned_less [of w, where 'a = nat] by (simp add: unsigned_ucast_eq take_bit_nat_eq_self)
  have "unat ?h * 2 ^ 32 < 2 ^ 64" using l by simp
  then have "unat (unpackUint64 p) = push_bit 32 (unat ?h) OR unat ?l"
    by (simp add: unpackUint64_def unsigned_or_eq unat_push_bit c del: push_bit_numeral) (simp add: push_bit_eq_mult)
  also have "\<dots> = unat ?h * 2 ^ 32 + unat ?l" using l(1) by (rule nat_push_bit_or_add)
  also have "\<dots> = be_nat (take 4 p) * 256 ^ 4 + be_nat (take 4 (drop 4 p))"
    using assms by (simp add: unat_unpackUint32)
  also have "\<dots> = be_nat (take 4 p @ take 4 (drop 4 p))" using assms by (subst be_nat_append) simp
  also have "take 4 p @ take 4 (drop 4 p) = take 8 p" using take_add [of 4 4 p] by simp
  finally show ?thesis .
qed

lemma PackUniqueHash_eq: "8 \<le> length mem \<Longrightarrow> PackUniqueHash mem = unpackUint64 mem"
  by (simp add: PackUniqueHash_def unpackUint64_def unpackUint32_def Let_def add.commute)

lemma UnpackUniqueHash_eq: "UnpackUniqueHash h mem = be_bytes64 h @ drop 8 mem"
  unfolding packUint64_be_bytes64 [symmetric]
  by (simp add: UnpackUniqueHash_def packUint64_def packUint32_def Let_def)

lemma PackUniqueHash_Unpack: "PackUniqueHash (UnpackUniqueHash h mem) = h"
proof -
  have "unat (PackUniqueHash (UnpackUniqueHash h mem)) = unat h"
    by (simp add: PackUniqueHash_eq UnpackUniqueHash_eq unat_unpackUint64 be_nat_be_bytes64)
  then show ?thesis by (rule unsigned_word_eqI)
qed

text \<open>The buffers have the sizes they are declared with.\<close>

definition env_ok :: "unique_env \<Rightarrow> bool" where
  "env_ok env \<longleftrightarrow> length (ue_pad env) = kHashSize - 8 \<and> length (ue_tail env) = MD5_DIGEST_LENGTH - 8"

definition hash_enc :: "unique_env \<Rightarrow> u64 \<Rightarrow> bytes" where
  "hash_enc env h = bytes_enc (UnpackUniqueHash h (replicate 8 0 @ ue_pad env))"

lemma put_hashes:
  "fold (\<lambda>h. PutBytes (UnpackUniqueHash h (replicate 8 0 @ ue_pad env))) hs enc
     = AppendEncoding (concat (map (hash_enc env) hs)) enc"
  by (induction hs arbitrary: enc) (simp_all add: AppendEncoding_nil PutBytes_eq hash_enc_def AppendEncoding_append)

lemma bytes_enc_read:
  assumes "cur d = bytes_enc b @ r"
  shows "peek d = K_BYTES" and "GetBytes d = Some (b, adv (length (bytes_enc b)) d)"
  using assms cur_nonempty [of d] bytes_c.get_enc [of d b r]
  by (auto simp: peek_def bytes_enc_def cur_tag_def tag_defs tbl_dec_kind_def Let_def)

lemma uniq_merge_loop_enc:
  assumes "env_ok env" and "0 < m"
  shows "finite H \<Longrightarrow> urep m H n s \<Longrightarrow> cur d = concat (map (hash_enc env) hs) @ r \<Longrightarrow>
    \<exists>s'. uniq_merge_loop env m (length hs) d s = (Some (adv (length (concat (map (hash_enc env) hs))) d), s')
      \<and> urep m (set hs \<union> H) (n + length hs) s'"
proof (induction hs arbitrary: H n s d)
  case (Cons h hs)
  let ?b = "UnpackUniqueHash h (replicate 8 0 @ ue_pad env)"
  have c: "cur d = bytes_enc ?b @ concat (map (hash_enc env) hs) @ r" using Cons.prems(3) by (simp add: hash_enc_def [of env h])
  note g = bytes_enc_read [OF c]
  have "length ?b = kHashSize" using assms(1) by (simp add: UnpackUniqueHash_eq env_ok_def kHashSize_def)
  moreover have "cur (adv (length (bytes_enc ?b)) d) = concat (map (hash_enc env) hs) @ r" using c by simp
  from Cons.IH [OF _ AddHash_urep [OF assms(2) Cons.prems(1,2)] this, of h env] Cons.prems(1)
  obtain s' where "uniq_merge_loop env m (length hs) (adv (length (bytes_enc ?b)) d) (snd (AddHash env m h s))
      = (Some (adv (length (concat (map (hash_enc env) hs))) (adv (length (bytes_enc ?b)) d)), s')"
    "urep m (set hs \<union> insert h H) (Suc n + length hs) s'" by auto
  ultimately show ?case using g by (simp add: PackUniqueHash_Unpack hash_enc_def [of env h])
qed simp

lemma uniq_Flush_urep:
  assumes "finite H" and "urep m H n s" and "env_ok env"
  shows "\<exists>hs. mset hs = mset (least (nat m) H)
    \<and> fst (uniq_Flush env s) = (if hs = [] then [] else int_enc (of_nat n - of_nat (length hs))
         @ int_enc (of_nat (length hs)) @ concat (map (hash_enc env) hs))
    \<and> (0 < m \<longrightarrow> (n = 0 \<longleftrightarrow> H = {}) \<longrightarrow> urep m {} 0 (snd (uniq_Flush env s)))"
proof -
  let ?hs = "uq_heap (MakeSortedHeap s)"
  have m: "mset ?hs = mset (uq_heap s)" using MakeSortedHeap_heap(1) urepD(2) assms(2) by (auto simp: urep_def)
  then have l: "length ?hs = length (uq_heap s)" by (rule mset_eq_length)
  have hs: "mset ?hs = mset (least (nat m) H)" using m assms(2) by (simp add: urep_def)
  have "fst (uniq_Flush env s) = (if ?hs = [] then [] else int_enc (of_nat n - of_nat (length ?hs))
         @ int_enc (of_nat (length ?hs)) @ concat (map (hash_enc env) ?hs))"
    using assms(2) l m by (auto simp: uniq_Flush_def Let_def put_hashes PutInt_eq enc_Swap_def urep_def)
  moreover have "urep m {} 0 (snd (uniq_Flush env s))" if "0 < m" "n = 0 \<longleftrightarrow> H = {}"
  proof (cases "uq_heap s = []")
    case True
    then have "H = {}" using urepD(3) [OF assms(2)] that(1) assms(1) by (auto simp: min_def split: if_splits)
    then show ?thesis using assms(2) that True by (simp add: uniq_Flush_def)
  next
    case False
    then show ?thesis by (simp add: uniq_Flush_def Let_def uniq_Clear_def urep_def least_def IsHeap_def)
  qed
  ultimately show ?thesis using hs by blast
qed

lemma least_empty: "0 < m \<Longrightarrow> finite H \<Longrightarrow> least (nat m) H = [] \<longleftrightarrow> H = {}"
  using length_least [of "nat m" H] by (auto simp: min_def simp flip: length_0_conv split: if_splits)

lemma uniq_Merge_urep:
  assumes "env_ok env" and "0 < m" and "m < 2 ^ 31" and "finite H" and "finite G"
    and "urep m H n s" and "urep m G k t" and "n = 0 \<longleftrightarrow> H = {}"
  shows "\<exists>t'. uniq_Merge env m (fst (uniq_Flush env s)) t = (MergeOk, t') \<and> urep m (H \<union> G) (n + k) t'"
proof -
  obtain hs where hs: "mset hs = mset (least (nat m) H)"
    and b: "fst (uniq_Flush env s) = (if hs = [] then [] else int_enc (of_nat n - of_nat (length hs))
         @ int_enc (of_nat (length hs)) @ concat (map (hash_enc env) hs))"
    using uniq_Flush_urep [OF assms(4,6,1)] by blast
  show ?thesis
  proof (cases "hs = []")
    case True
    then have "H = {}" using hs least_empty [OF assms(2,4)] by simp
    then show ?thesis using b True assms(7,8) by (simp add: uniq_Merge_def)
  next
    case False
    let ?n = "of_nat (length hs) :: i64" let ?x = "of_nat n - ?n" let ?c = "concat (map (hash_enc env) hs)"
    let ?v = "int_enc ?x @ int_enc ?n @ ?c"
    let ?d1 = "adv (length (int_enc ?x)) (new_decoder ?v)" let ?d2 = "adv (length (int_enc ?n)) ?d1"
    have g: "GetInt (new_decoder ?v) = Some (?x, ?d1)" "GetInt ?d1 = Some (?n, ?d2)"
      by (rule GetInt_int_enc, simp)+
    have "length hs \<le> nat m" using mset_eq_length [OF hs] by (simp add: length_least)
    then have lt: "int (length hs) < 2 ^ 31" using assms(2,3) by linarith
    then have sn: "sint ?n = int (length hs)" by (simp add: signed_of_nat signed_take_bit_int_eq_self)
    then have n0: "?n \<noteq> 0" using False by auto
    obtain t' where t': "uniq_merge_loop env m (length hs) ?d2 t = (Some (adv (length ?c) ?d2), t')"
      "urep m (set hs \<union> G) (k + length hs) t'"
      using uniq_merge_loop_enc [OF assms(1,2,5,7), of ?d2 hs "[]"] by auto
    have "set hs = set (least (nat m) H)" using mset_eq_setD [OF hs] .
    then have "least (nat m) (set hs \<union> G) = least (nat m) (H \<union> G)" using least_union [OF assms(4,5)] by simp
    then have "urep m (H \<union> G) (n + k) (t'\<lparr>uq_tot := uq_tot t' + ?x\<rparr>)"
      using t'(2) by (simp add: urep_def)
    moreover have "dec_done (adv (length ?c) ?d2)" by (simp add: dec_done_iff)
    ultimately show ?thesis using b g sn n0 t'(1) False by (simp add: uniq_Merge_def)
  qed
qed

definition elem_hash :: "(bytes \<Rightarrow> bytes) \<Rightarrow> bytes \<Rightarrow> u64" where
  "elem_hash md5 e = PackUniqueHash (md5 e)"

definition uniq_rep :: "(bytes \<Rightarrow> bytes) \<Rightarrow> int \<Rightarrow> bytes multiset \<Rightarrow> unique_entry \<Rightarrow> bool" where
  "uniq_rep md5 m M s \<longleftrightarrow> urep m (elem_hash md5 ` set_mset M) (size M) s"

definition uniq_fits :: "unique_env \<Rightarrow> int \<Rightarrow> bytes multiset \<Rightarrow> bool" where
  "uniq_fits env m M \<longleftrightarrow> env_ok env \<and> 0 < m \<and> m < 2 ^ 31"

definition uniq_add :: "unique_env \<Rightarrow> (bytes \<Rightarrow> bytes) \<Rightarrow> int \<Rightarrow> bytes \<Rightarrow> unique_entry \<Rightarrow> unique_entry res" where
  "uniq_add env md5 m e s = Ok (snd (uniq_AddElem env md5 m e s))"

interpretation unique_table: tab_entry "uniq_fits env m" "uniq_rep md5 m" "new_unique env" "uniq_add env md5 m"
  "\<lambda>s. Ok (uniq_Flush env s)" "\<lambda>b t. Ok (uniq_Merge env m b t)" for env md5 m
proof
  show "uniq_rep md5 m {#} (new_unique env)"
    by (simp add: uniq_rep_def urep_def new_unique_def least_def IsHeap_def)
next
  fix M s e assume "uniq_rep md5 m M s" "uniq_fits env m (add_mset e M)"
  then show "\<exists>s'. uniq_add env md5 m e s = Ok s' \<and> uniq_rep md5 m (add_mset e M) s'"
    using AddHash_urep [of m "elem_hash md5 ` set_mset M" "size M" s "elem_hash md5 e" env]
    by (simp add: uniq_rep_def uniq_fits_def uniq_add_def uniq_AddElem_def elem_hash_def)
next
  fix M s assume "uniq_rep md5 m M s" "uniq_fits env m M"
  then show "\<exists>b s'. Ok (uniq_Flush env s) = Ok (b, s') \<and> uniq_rep md5 m {#} s'"
    using uniq_Flush_urep [of "elem_hash md5 ` set_mset M" m "size M" s env]
    by (cases "uniq_Flush env s") (auto simp: uniq_rep_def uniq_fits_def)
next
  fix M s b s' N t
  assume "uniq_rep md5 m M s" "Ok (uniq_Flush env s) = Ok (b, s')" "uniq_rep md5 m N t" "uniq_fits env m (M + N)"
  then show "\<exists>t'. Ok (uniq_Merge env m b t) = Ok (MergeOk, t') \<and> uniq_rep md5 m (M + N) t'"
    using uniq_Merge_urep [of env m "elem_hash md5 ` set_mset M" "elem_hash md5 ` set_mset N" "size M" s "size N" t]
    by (auto simp: uniq_rep_def uniq_fits_def image_Un)
qed (simp add: uniq_fits_def)

section \<open>The estimate\<close>

lemma unat_drop: "unat (drop_bit i (w :: 'a::len word)) = unat w div 2 ^ i"
  unfolding unat_drop_bit_eq by (simp add: drop_bit_eq_div)

lemma signed_drop_bit_nonneg:
  fixes w :: u64 
  assumes "unat w < 2 ^ 63"
  shows "signed_drop_bit i w = drop_bit i w"
proof -
  have "\<not> bit (unat w) 63" using assms by (simp add: bit_iff_odd)
  then have "\<not> bit w 63" by (simp add: bit_unsigned_iff)
  then show ?thesis by (intro bit_word_eqI) (auto simp: bit_simps dest: bit_imp_le_length)
qed

lemma rescale_bounds:
  fixes r tot :: u64
  assumes "unat tot < 2 ^ 63" and "n \<le> unat tot" and "n * 2 ^ a \<le> unat r" and "a \<le> 31" and "z \<le> 7"
  shows "\<exists>e. rescale r (int z * 8 - int a) tot = Ok e \<and> n \<le> unat e \<and> unat e \<le> unat tot"
proof (cases "8 * z < a")
  case True
  define k where "k = a - 8 * z"
  have k: "nat (- (int z * 8 - int a)) = k" "k \<le> a" "k < 64" using True assms(4) by (auto simp: k_def)
  have "n * 2 ^ k \<le> n * 2 ^ a" using k(2) by (simp add: power_increasing)
  then have "n * 2 ^ k div 2 ^ k \<le> unat r div 2 ^ k" using assms(3) by (intro div_le_mono) linarith
  then have "n \<le> unat (drop_bit k r)" by (simp add: unat_drop)
  then show ?thesis using True k assms(2) by (auto simp: rescale_def Let_def word_less_nat_alt)
next
  case False
  define k where "k = 8 * z - a"
  have k: "nat (int z * 8 - int a) = k" "k < 64" using False assms(5) by (auto simp: k_def)
  show ?thesis
  proof (cases "r > signed_drop_bit k tot")
    case True
    then show ?thesis using False k assms(2) by (auto simp: rescale_def)
  next
    case le: False
    then have "unat r \<le> unat tot div 2 ^ k"
      using signed_drop_bit_nonneg [OF assms(1)] by (simp add: word_less_nat_alt unat_drop)
    then have "unat r * 2 ^ k \<le> unat tot div 2 ^ k * 2 ^ k" by (rule mult_right_mono) simp
    also have "\<dots> \<le> unat tot" by simp
    finally have top: "unat r * 2 ^ k \<le> unat tot" .
    then have p: "unat (push_bit k r) = unat r * 2 ^ k" using assms(1) by (simp add: unat_push_bit)
    have "n * 1 \<le> n * 2 ^ a * 2 ^ k" unfolding mult.assoc by (intro mult_le_mono2) simp
    moreover have "n * 2 ^ a * 2 ^ k \<le> unat r * 2 ^ k" using assms(3) by (rule mult_right_mono) simp
    ultimately have "n \<le> unat r * 2 ^ k" by linarith
    then show ?thesis using False le k top p by (auto simp: rescale_def Let_def word_less_nat_alt)
  qed
qed

lemma Log2Int_bounds:
  assumes "x \<noteq> 0"
  shows "\<exists>k. Log2Int x = int k \<and> 2 ^ k \<le> unat x \<and> unat x < 2 ^ Suc k"
proof -
  have nz: "unat x \<noteq> 0" using assms by (simp add: unat_gt_0)
  then obtain k where "bit_length (unat x) = Suc k" using bit_length_rec by blast
  then show ?thesis using bit_length_bounds [OF nz] by (intro exI [of _ k]) (simp add: Log2Int_def Log2Int_loop_spec)
qed

lemma be_nat_zeros: "\<forall>b \<in> set bs. b = 0 \<Longrightarrow> be_nat bs = 0"
  by (induction bs) auto

lemma leading_zeros:
  assumes "(h :: u64) \<noteq> 0"
  shows "length (takeWhile (\<lambda>b. b = 0) (be_bytes64 h @ r)) \<le> 7"
proof -
  have "\<not> (\<forall>b \<in> set (be_bytes64 h). b = 0)"
    using assms be_nat_zeros [of "be_bytes64 h"] be_nat_be_bytes64 [of h] by (auto simp: unat_eq_zero)
  then obtain b where "b \<in> set (be_bytes64 h)" "b \<noteq> 0" by blast
  then have "takeWhile (\<lambda>b. b = 0) (be_bytes64 h @ r) = takeWhile (\<lambda>b. b = 0) (be_bytes64 h)"
    by (intro takeWhile_append1) auto
  moreover have "length (takeWhile (\<lambda>b. b = 0) (be_bytes64 h)) < length (be_bytes64 h)"
    using \<open>b \<in> set (be_bytes64 h)\<close> \<open>b \<noteq> 0\<close> by (metis le_neq_trans length_takeWhile_le set_takeWhileD takeWhile_eq_take take_all order_refl)
  ultimately show ?thesis by simp
qed

lemma scaled_quotient:
  fixes size :: u64 and big :: u32
  assumes "size \<noteq> 0" and "unat size < 2 ^ 32" and "big \<noteq> 0"
  shows "\<exists>a. 31 - Log2Int size = int a \<and> a \<le> 31
    \<and> unat size * 2 ^ a \<le> unat (push_bit 32 (push_bit (nat (31 - Log2Int size)) size) div ucast big :: u64)"
proof -
  obtain k where k: "Log2Int size = int k" "2 ^ k \<le> unat size" "unat size < 2 ^ Suc k"
    using Log2Int_bounds [OF assms(1)] by blast
  then have "(2 :: nat) ^ k < 2 ^ 32" using assms(2) by linarith
  then have "k < 32" by (simp only: power_strict_increasing_iff)
  define a where "a = 31 - k"
  let ?X = "unat size * 2 ^ a"
  have ka: "Suc k + a = 32" "31 - Log2Int size = int a" using \<open>k < 32\<close> k(1) by (auto simp: a_def)
  have "?X < 2 ^ Suc k * 2 ^ a" using k(3) by (rule mult_strict_right_mono) simp
  also have "\<dots> = (2 :: nat) ^ 32" by (simp only: power_add [symmetric] ka)
  finally have X: "?X < 2 ^ 32" .
  have p: "unat (push_bit a size) = ?X" using X by (simp add: unat_push_bit)
  have q: "unat (push_bit 32 (push_bit a size)) = ?X * 2 ^ 32" using X unfolding unat_push_bit [of 32] p by simp
  have c: "unat (ucast big :: u64) = unat big"
    using unsigned_less [of big, where 'a = nat] by (simp add: unsigned_ucast_eq take_bit_nat_eq_self)
  have "?X * unat big \<le> ?X * 2 ^ 32" using unsigned_less [of big, where 'a = nat] by (intro mult_left_mono) auto
  then have "?X \<le> ?X * 2 ^ 32 div unat big" using assms(3) by (simp add: less_eq_div_iff_mult_less_eq unat_gt_0)
  then have "?X \<le> unat (push_bit 32 (push_bit (nat (31 - Log2Int size)) size) div ucast big :: u64)"
    unfolding ka(2) nat_int unat_div_distrib q c .
  moreover have "a \<le> 31" by (simp add: a_def)
  ultimately show ?thesis using ka(2) by blast
qed

lemma uniq_Estimate_bounds:
  assumes "env_ok env" and "0 < m" and "m < 2 ^ 31" and "int (length (uq_heap s)) = m" and "uq_heap s ! 0 \<noteq> 0"
    and "unat (uq_tot s) < 2 ^ 63" and "nat m \<le> unat (uq_tot s)"
  shows "\<exists>e. uniq_Estimate env m s = Ok e \<and> nat m \<le> unat e \<and> unat e \<le> unat (uq_tot s)"
proof -
  let ?u = "UnpackUniqueHash (uq_heap s ! 0) (replicate 8 0 @ ue_tail env)"
  let ?z = "length (takeWhile (\<lambda>b. b = 0) (take MD5_DIGEST_LENGTH ?u))"
  let ?size = "of_nat (length (uq_heap s)) :: u64" let ?b = "unpackUint32 (drop ?z ?u)"
  let ?big = "if ?b = 0 then 1 else ?b"
  have u: "take MD5_DIGEST_LENGTH ?u = be_bytes64 (uq_heap s ! 0) @ ue_tail env"
    using assms(1) by (simp add: UnpackUniqueHash_eq env_ok_def MD5_DIGEST_LENGTH_def)
  have z: "?z \<le> 7" unfolding u by (rule leading_zeros [OF assms(5)])
  have "unat ?size = length (uq_heap s)" using assms(3,4) by (simp add: unat_of_nat)
  then have size: "unat ?size = nat m" using assms(4) by simp
  have "?size \<noteq> 0" "unat ?size < 2 ^ 32" using size assms(2,3) by (auto simp: unat_eq_zero [symmetric])
  moreover have "?big \<noteq> 0" by simp
  ultimately obtain a where a: "31 - Log2Int ?size = int a" "a \<le> 31"
    "unat ?size * 2 ^ a \<le> unat (push_bit 32 (push_bit (nat (31 - Log2Int ?size)) ?size) div ucast ?big :: u64)"
    using scaled_quotient [of ?size ?big] by blast
  have "\<not> MD5_DIGEST_LENGTH \<le> ?z + 3" using z by (simp add: MD5_DIGEST_LENGTH_def)
  then show ?thesis
    using rescale_bounds [OF assms(6,7) a(3) [unfolded size] a(2) z] assms(2,4) a(1)
    by (auto simp: uniq_Estimate_def Let_def)
qed


section \<open>Properties\<close>

lemma length_uniq_FixHeapDown_loop [simp]: "length (uniq_FixHeapDown_loop e h n xs) = length xs"
  by (induction e h n xs rule: uniq_FixHeapDown_loop.induct) (subst uniq_FixHeapDown_loop.simps, simp add: Let_def)

lemma length_uniq_Sort_loop [simp]: "length (uniq_Sort_loop n xs) = length xs"
  by (induction n xs rule: uniq_Sort_loop.induct) (simp_all add: uniq_FixHeapDown_def)

lemma length_MakeSortedHeap [simp]: "length (uq_heap (MakeSortedHeap s)) = length (uq_heap s)"
  by (simp add: MakeSortedHeap_def uniq_ReHeap_def swap_ends_rev uniq_Sort_def)

lemma sint_small: "n < 2 ^ 63 \<Longrightarrow> sint (of_nat n :: i64) = int n"
  by (simp add: signed_of_nat signed_take_bit_int_eq_self)

lemma sint_unat_small: "unat (w :: i64) < 2 ^ 63 \<Longrightarrow> sint w = int (unat w)"
  using sint_small [of "unat w"] by simp

text \<open>C19. A \<open>unique\<close> table computes the same from any split of the emits into shards: nothing
  fails, and the merged entry keeps the \<open>m\<close> smallest distinct hashes of all the elements,
  in a heap, and counts all of them.\<close>

theorem unique_sharding:
  assumes "env_ok env" and "0 < m" and "m < 2 ^ 31"
  shows "\<exists>t. fold_res (tab_entry.merge_shard (new_unique env) (uniq_add env md5 m)
        (\<lambda>s. Ok (uniq_Flush env s)) (\<lambda>b t. Ok (uniq_Merge env m b t))) shards (new_unique env) = Ok t
    \<and> mset (uq_heap t) = mset (least (nat m) (elem_hash md5 ` set (concat shards)))
    \<and> IsHeap (>) (uq_heap t) \<and> uq_exists t = set (uq_heap t)
    \<and> uq_tot t = of_nat (length (concat shards))"
proof -
  have "uniq_fits env m (mset (concat shards))" using assms by (simp add: uniq_fits_def)
  from unique_table.sharding_init [OF this, of md5] show ?thesis by (auto simp: uniq_rep_def urep_def)
qed

definition sample_env :: unique_env where
  "sample_env = \<lparr>ue_size = 0, ue_buckets = 10, ue_grow = (\<lambda>b _. b), ue_junk = 0,
     ue_pad = replicate 16 7, ue_tail = replicate 8 7\<rparr>"

lemma sample_env_ok [simp]: "env_ok sample_env"
  by (simp add: env_ok_def sample_env_def kHashSize_def MD5_DIGEST_LENGTH_def)

theorem unique_sharding_witness:
  "\<exists>t. fold_res (tab_entry.merge_shard (new_unique sample_env) (uniq_add sample_env (\<lambda>e. e @ replicate 16 0) 2)
        (\<lambda>s. Ok (uniq_Flush sample_env s)) (\<lambda>b t. Ok (uniq_Merge sample_env 2 b t)))
        [[[1], [2]], [[3]]] (new_unique sample_env) = Ok t \<and> uq_tot t = 3"
  using unique_sharding [of sample_env 2 "\<lambda>e. e @ replicate 16 0" "[[[1], [2]], [[3]]]"] by auto

text \<open>C20. What a \<open>unique\<close> table displays, however the emits are split into shards: the exact
  number of distinct hashes while there are fewer than \<open>m\<close>, and from then on an estimate that
  is never below \<open>m\<close> and never above the number of emits.\<close>

theorem unique_estimate:
  assumes "env_ok env" and "1 < m" and "m < 2 ^ 31" and "concat shards \<noteq> []"
    and "length (concat shards) < 2 ^ 63"
  shows "\<exists>t e. fold_res (tab_entry.merge_shard (new_unique env) (uniq_add env md5 m)
        (\<lambda>s. Ok (uniq_Flush env s)) (\<lambda>b t. Ok (uniq_Merge env m b t))) shards (new_unique env) = Ok t
    \<and> uniq_FlushForDisplay env m t = Ok [int_enc e]
    \<and> (let D = card (elem_hash md5 ` set (concat shards)) in
        (if int D < m then sint e = int D else m \<le> sint e) \<and> sint e \<le> int (length (concat shards)))"
proof -
  let ?N = "length (concat shards)" let ?H = "elem_hash md5 ` set (concat shards)"
  have "uniq_fits env m (mset (concat shards))" using assms by (simp add: uniq_fits_def)
  from unique_table.sharding_init [OF this, of md5] obtain t where
    t: "fold_res (tab_entry.merge_shard (new_unique env) (uniq_add env md5 m)
        (\<lambda>s. Ok (uniq_Flush env s)) (\<lambda>b t. Ok (uniq_Merge env m b t))) shards (new_unique env) = Ok t"
      "urep m ?H ?N t" by (auto simp: uniq_rep_def)
  have tot: "uq_tot t = of_nat ?N" using t(2) by (simp add: urep_def)
  then have u: "unat (uq_tot t) = ?N" using assms(5) by (simp add: unat_of_nat)
  then have nz: "uq_tot t \<noteq> 0" using assms(4) by (metis length_0_conv unat_0)
  note r = urepD [OF t(2)]
  have D: "card ?H \<le> ?N" by (rule order_trans [OF card_image_le card_length]) simp
  show ?thesis
  proof (cases "int (card ?H) < m")
    case True
    then have "length (uq_heap t) = card ?H" using r(3) by simp
    then have "uniq_FlushForDisplay env m t = Ok [int_enc (of_nat (card ?H))]"
      using nz True assms(2) by (simp add: uniq_FlushForDisplay_def uniq_Estimate_def PutInt_eq enc_Swap_def)
    moreover have "sint (of_nat (card ?H) :: i64) = int (card ?H)" using D assms(5) by (intro sint_small) linarith
    ultimately show ?thesis using t(1) D True by (intro exI [of _ t] exI [of _ "of_nat (card ?H)"]) (simp add: Let_def)
  next
    case False
    then have len: "length (uq_heap t) = nat m" using r(3) assms(2) by simp
    have "uq_heap t ! 0 \<noteq> 0"
    proof
      assume "uq_heap t ! 0 = 0"
      moreover have "uq_heap t ! 1 \<le> uq_heap t ! 0"
        using t(2) hash_order.heap_root_least [of "length (uq_heap t)" "uq_heap t" 1] len assms(2)
        by (simp add: urep_def IsHeap_iff)
      ultimately have "uq_heap t ! 1 = uq_heap t ! 0" by simp
      then show False using r(2) len assms(2) nth_eq_iff_index_eq [of "uq_heap t" 1 0] by simp
    qed
    moreover have "nat m \<le> ?N" using False D by linarith
    ultimately obtain e where
      e: "uniq_Estimate env m t = Ok e" "nat m \<le> unat e" "unat e \<le> ?N"
      using uniq_Estimate_bounds [of env m t] assms(1,2,3,5) len u by auto
    then have "sint e = int (unat e)" using assms(5) by (intro sint_unat_small) simp
    then have "m \<le> sint e" "sint e \<le> int ?N" using e(2,3) by linarith+
    then show ?thesis
      using t(1) e(1) nz False
      by (intro exI [of _ t] exI [of _ e]) (auto simp: uniq_FlushForDisplay_def PutInt_eq enc_Swap_def Let_def)
  qed
qed

theorem unique_estimate_witness:
  "\<exists>t e. fold_res (tab_entry.merge_shard (new_unique sample_env) (uniq_add sample_env (\<lambda>e. e @ replicate 16 0) 2)
        (\<lambda>s. Ok (uniq_Flush sample_env s)) (\<lambda>b t. Ok (uniq_Merge sample_env 2 b t)))
        [[[1], [2]], [[3]]] (new_unique sample_env) = Ok t
    \<and> uniq_FlushForDisplay sample_env 2 t = Ok [int_enc e] \<and> sint e \<le> 3"
  using unique_estimate [of sample_env 2 "[[[1], [2]], [[3]]]" "\<lambda>e. e @ replicate 16 0"] by (force simp: Let_def)

text \<open>C35. No flushed \<open>unique\<close> entry can be read back by the results reader: \<open>Flush\<close> writes
  every hash into 24 bytes, most of them never initialised, and the reader accepts 8.\<close>

theorem unique_flush_unreadable:
  assumes "env_ok env" and "uq_heap s \<noteq> []" and "length (uq_heap s) < 2 ^ 31"
  shows "uniqres_ParseFromString maxUniques (fst (uniq_Flush env s)) r = Ok (False, r\<lparr>ur_tot := 0\<rparr>)"
proof -
  let ?hs = "uq_heap (MakeSortedHeap s)" let ?n = "of_nat (length ?hs) :: i64" let ?x = "uq_tot s - ?n"
  obtain h hs where hs: "?hs = h # hs" using assms(2) length_MakeSortedHeap [of s] by (cases ?hs) auto
  let ?b = "UnpackUniqueHash h (replicate 8 0 @ ue_pad env)"
  let ?c = "bytes_enc ?b @ concat (map (hash_enc env) hs)" let ?v = "int_enc ?x @ int_enc ?n @ ?c"
  have v: "fst (uniq_Flush env s) = ?v"
    using assms(2) hs length_MakeSortedHeap [of s, symmetric]
    by (simp add: uniq_Flush_def Let_def put_hashes PutInt_eq enc_Swap_def hash_enc_def [of env h]
        del: length_MakeSortedHeap)
  let ?d1 = "adv (length (int_enc ?x)) (new_decoder ?v)" let ?d2 = "adv (length (int_enc ?n)) ?d1"
  have g: "GetInt (new_decoder ?v) = Some (?x, ?d1)" "GetInt ?d1 = Some (?n, ?d2)"
    by (rule GetInt_int_enc, simp)+
  have "sint ?n = int (length ?hs)" using assms(3) by (intro sint_small) simp
  then have n: "nat (sint ?n) = Suc (length hs)" using hs by simp
  have "cur ?d2 = bytes_enc ?b @ concat (map (hash_enc env) hs)" by simp
  note rd = bytes_enc_read [OF this]
  have "length ?b = 24" using assms(1) by (simp add: UnpackUniqueHash_eq env_ok_def kHashSize_def)
  then have "uniq_check_loop (nat (sint ?n)) ?d2 = None" unfolding n using rd by (simp add: kUniqueLen_def)
  then show ?thesis unfolding v using g by (simp add: uniqres_ParseFromString_def UnpackAndEstimate_def)
qed

theorem unique_flush_unreadable_witness:
  "uniqres_ParseFromString 5 (fst (uniq_Flush sample_env
     (snd (uniq_AddElem sample_env (\<lambda>e. e @ replicate 16 0) 5 [1] (new_unique sample_env)))))
     \<lparr>ur_uniques = [[]], ur_tot = 0\<rparr> = Ok (False, \<lparr>ur_uniques = [[]], ur_tot = 0\<rparr>)"
  by (subst unique_flush_unreadable)
    (simp_all add: uniq_AddElem_def AddHash_def Let_def new_unique_def uniq_insert_def uniq_FixHeapUp_def
      FixHeapUp_loop.simps)

lemma and_bit: "n AND push_bit i 1 \<noteq> 0 \<longleftrightarrow> odd (unat (n :: 'a::len word) div 2 ^ i)"
proof -
  have "n AND push_bit i 1 \<noteq> 0 \<longleftrightarrow> bit n i" by (simp add: push_bit_of_1 and_exp_eq_0_iff_not_bit)
  also have "\<dots> \<longleftrightarrow> bit (unat n) i" by (auto simp: bit_unsigned_iff dest: bit_imp_le_length)
  finally show ?thesis by (simp add: bit_iff_odd)
qed

lemma msb_from_eq:
  assumes "2 ^ k \<le> unat n" and "unat n < 2 ^ Suc k" and "k \<le> j"
  shows "msb_from n j = Ok (int k)"
  using assms(3)
proof (induction j)
  case 0
  have "unat n div 2 ^ k = 1" using assms(1,2) by (intro div_nat_eqI) auto
  then have "n AND push_bit 0 1 \<noteq> 0" using 0 unfolding and_bit by simp
  then show ?case using 0 by (subst msb_from.simps) simp
next
  case (Suc j)
  show ?case
  proof (cases "k = Suc j")
    case True
    have "unat n div 2 ^ k = 1" using assms(1,2) by (intro div_nat_eqI) auto
    then have "n AND push_bit k 1 \<noteq> 0" unfolding and_bit by simp
    then show ?thesis using True by (subst msb_from.simps) simp
  next
    case False
    then have "(2 :: nat) ^ Suc k \<le> 2 ^ Suc j" using Suc.prems by (intro power_increasing) auto
    then have "unat n div 2 ^ Suc j = 0" using assms(2) by (intro div_less) linarith
    then have "n AND push_bit (Suc j) 1 = 0" using and_bit [of n "Suc j"] by simp
    then show ?thesis using Suc False by (subst msb_from.simps) simp
  qed
qed

lemma length_takeWhile_take: "length (takeWhile P (take n xs)) = min n (length (takeWhile P xs))"
  by (induction xs arbitrary: n) (auto simp: take_Cons' split: nat.split)

lemma leading_zeros4:
  assumes "2 ^ 24 \<le> unat h"
  shows "length (takeWhile (\<lambda>b. b = 0) (be_bytes64 h @ r)) \<le> 4"
proof -
  let ?b = "be_bytes64 h" let ?u = "?b @ r"
  have ex: "\<exists>i < 5. ?b ! i \<noteq> 0"
  proof (rule ccontr)
    assume "\<not> (\<exists>i < 5. ?b ! i \<noteq> 0)"
    then have "\<forall>b \<in> set (take 5 ?b). b = 0" by (auto simp: in_set_conv_nth)
    then have "be_nat (take 5 ?b) = 0" by (rule be_nat_zeros)
    moreover have "be_nat ?b = be_nat (take 5 ?b) * 256 ^ 3 + be_nat (drop 5 ?b)" using be_nat_take_drop [of ?b 5] by simp
    moreover have "be_nat (drop 5 ?b) < 256 ^ 3" using be_nat_less [of "drop 5 ?b"] by simp
    ultimately show False using assms(1) by (simp add: be_nat_be_bytes64)
  qed
  show ?thesis
  proof (rule ccontr)
    assume z: "\<not> length (takeWhile (\<lambda>b. b = 0) ?u) \<le> 4"
    from ex obtain i where i: "i < 5" "?b ! i \<noteq> 0" by blast
    then have "takeWhile (\<lambda>b. b = 0) ?u ! i = ?b ! i" using z by (subst takeWhile_nth) (auto simp: nth_append)
    moreover have "takeWhile (\<lambda>b. b = 0) ?u ! i \<in> set (takeWhile (\<lambda>b. b = 0) ?u)" using z i(1) by (intro nth_mem) simp
    ultimately show False using i(2) set_takeWhileD by metis
  qed
qed

text \<open>The entry and the reader estimate alike: given the same full table, the same total and the
  eight bytes of its biggest hash, the two formulas agree, provided one of the five leading bytes of
  that hash is not zero.  (Below that the entry goes on into bytes it never wrote.)\<close>

theorem unique_estimates_agree:
  assumes "env_ok env" and "0 < m" and "m < 2 ^ 31" and "int (length (uq_heap s)) = m"
    and "2 ^ 24 \<le> unat (uq_heap s ! 0)"
  shows "res_Estimate (of_nat (length (uq_heap s))) m (uq_tot s) (be_bytes64 (uq_heap s ! 0)) = uniq_Estimate env m s"
proof -
  let ?b = "be_bytes64 (uq_heap s ! 0)" let ?u = "?b @ ue_tail env" let ?l = "length (uq_heap s)"
  let ?z = "length (takeWhile (\<lambda>b. b = 0) ?u)"
  have l: "?l < 2 ^ 31" "0 < ?l" using assms(2-4) by auto
  have u: "UnpackUniqueHash (uq_heap s ! 0) (replicate 8 0 @ ue_tail env) = ?u" "length ?u = 16"
    using assms(1) by (simp_all add: UnpackUniqueHash_eq env_ok_def MD5_DIGEST_LENGTH_def)
  have z: "?z \<le> 4" by (rule leading_zeros4 [OF assms(5)])
  have z': "length (takeWhile (\<lambda>b. b = 0) (take 4 ?b)) = ?z"
    using z length_takeWhile_take [of "\<lambda>b. b = 0" 4 ?u] by simp
  have un: "unat (of_nat ?l :: u64) = ?l" "unat (of_nat ?l :: u32) = ?l" using l by (simp_all add: unat_of_nat)
  have "(of_nat ?l :: u64) \<noteq> 0" using un(1) l(2) by auto
  then obtain k where k: "Log2Int (of_nat ?l) = int k" "2 ^ k \<le> ?l" "?l < 2 ^ Suc k"
    using Log2Int_bounds [of "of_nat ?l"] un(1) by auto
  have "(2 :: nat) ^ k < 2 ^ 31" using k(2) l(1) by linarith
  then have k31: "k < 31" by (simp only: power_strict_increasing_iff)
  have p: "unpackUint32 (drop ?z ?b) = unpackUint32 (drop ?z ?u)"
    using z by (auto simp: unpackUint32_def nth_append)
  have "?l * 2 ^ (31 - k) < 2 ^ Suc k * 2 ^ (31 - k)" using k(3) by (rule mult_strict_right_mono) simp
  also have "\<dots> = (2 :: nat) ^ 32" using k31 by (simp flip: power_add power_Suc)
  finally have "?l * 2 ^ (31 - k) < 2 ^ 32" .
  then have e: "ucast (push_bit (31 - k) (of_nat ?l :: u32)) = push_bit (31 - k) (of_nat ?l :: u64)"
    by (intro unsigned_word_eqI [where 'a = nat]) (simp add: unsigned_ucast_eq unat_push_bit un take_bit_nat_eq_self)
  have n: "ucast (of_nat ?l :: i64) = (of_nat ?l :: u32)"
    using l by (intro unsigned_word_eqI [where 'a = nat]) (simp add: unsigned_ucast_eq un take_bit_nat_eq_self)
  have m: "msb_from (of_nat ?l) 31 = Ok (int k)" using k k31 by (intro msb_from_eq) (simp_all add: un)
  let ?B = "unpackUint32 (drop ?z ?u)"
  let ?r = "\<lambda>x :: u64. rescale (push_bit 32 x div ucast (if ?B = 0 then 1 else ?B)) (int ?z * 8 - (31 - int k)) (uq_tot s)"
  have k': "nat (31 - int k) = 31 - k" by simp
  have "res_Estimate (of_nat ?l) m (uq_tot s) ?b = ?r (ucast (push_bit (31 - k) (of_nat ?l :: u32)))"
    using assms(4) l sint_small [of ?l] by (simp add: res_Estimate_def kUniqueLen_def z' p n m k' Let_def del: drop_append)
  moreover have "uniq_Estimate env m s = ?r (push_bit (31 - k) (of_nat ?l))"
    using assms(2,4) z u(2) by (simp add: uniq_Estimate_def u(1) MD5_DIGEST_LENGTH_def k(1) k' Let_def del: drop_append)
  ultimately show ?thesis by (simp only: e)
qed

theorem unique_estimates_agree_witness:
  "res_Estimate 1 1 5 (be_bytes64 (2 ^ 40)) = uniq_Estimate sample_env 1
     \<lparr>uq_heap = [2 ^ 40], uq_exists = {2 ^ 40}, uq_buckets = 0, uq_isSorted = True, uq_tot = 5\<rparr>"
  using unique_estimates_agree [of sample_env 1
    "\<lparr>uq_heap = [2 ^ 40], uq_exists = {2 ^ 40}, uq_buckets = 0, uq_isSorted = True, uq_tot = 5\<rparr>"] by simp

end
