(* ===== verification/Szl_Random.thy ===== *)
theory Szl_Random
  imports Szl_Prelude
begin

text \<open>
  The pseudo-random generators of src/src/utilities: the abstract base with its rejection
  sampling (random_base.cc), the multiplicative generator \<open>SzlACMRandom\<close> (acmrandom.cc,
  acmrandom.h) that the sample table uses, and the Mersenne twister \<open>MTRandom\<close>
  (mt_random.cc).  A generator is a state and operations that return the state after the call.

  A rejection loop need not end, so it is a \<open>partial_function\<close> into \<open>option\<close> and its
  termination is proved.  What the seeding functions read from the operating system (the host
  name, the process id, the clocks) is an argument.
\<close>

type_synonym i32 = "32 word"
type_synonym u16 = "16 word"


section \<open>The base class\<close>

definition Word32At :: "bytes \<Rightarrow> u32" where
  "Word32At p = ucast (p ! 0) + push_bit 8 (ucast (p ! 1)) + push_bit 16 (ucast (p ! 2)) + push_bit 24 (ucast (p ! 3))"

text \<open>The mixing function, which acmrandom.cc repeats with its arguments by value.\<close>

definition mix :: "u32 \<Rightarrow> u32 \<Rightarrow> u32 \<Rightarrow> u32 \<times> u32 \<times> u32" where
  "mix a b c =
     (let a = a - b; a = a - c; a = a XOR drop_bit 13 c;
          b = b - c; b = b - a; b = b XOR push_bit 8 a;
          c = c - a; c = c - b; c = c XOR drop_bit 13 b;
          a = a - b; a = a - c; a = a XOR drop_bit 12 c;
          b = b - c; b = b - a; b = b XOR push_bit 16 a;
          c = c - a; c = c - b; c = c XOR drop_bit 5 b;
          a = a - b; a = a - c; a = a XOR drop_bit 3 c;
          b = b - c; b = b - a; b = b XOR push_bit 10 a;
          c = c - a; c = c - b; c = c XOR drop_bit 15 b
      in (a, b, c))"

text \<open>The loop takes twelve bytes at a time; \<open>len\<close> bytes are in front of the zeros.\<close>

function weak_seed_loop :: "bytes \<Rightarrow> nat \<Rightarrow> nat \<Rightarrow> u32 \<times> u32 \<times> u32 \<Rightarrow> u32 \<times> u32 \<times> u32" where
  "weak_seed_loop buf len i abc =
     (if i < len then
        let (a, b, c) = abc; (a, b, c) = mix a b c
        in weak_seed_loop buf len (i + 12)
             (a + Word32At (drop i buf), b + Word32At (drop (i + 4) buf), c + Word32At (drop (i + 8) buf))
      else abc)"
  by pat_completeness auto
termination
  by (relation "measure (\<lambda>(_, len, i, _). len - i)") auto

declare weak_seed_loop.simps [simp del]

definition PATH_MAX :: nat where
  "PATH_MAX = 4096"

text \<open>\<open>seed\<close> is what \<open>WeakSeed\<close> put into the buffer.\<close>

definition WeakSeed32 :: "bytes \<Rightarrow> u32 res" where
  "WeakSeed32 seed =
     bind_res (check (PATH_MAX + 12 - length seed > 12)) (\<lambda>_.
       let buf = seed @ replicate 12 0;
           (a, b, c) = weak_seed_loop buf (length seed) 8 (Word32At buf, Word32At (drop 4 buf), 0);
           (a, b, c) = mix a b (c + of_nat (length seed))
       in Ok c)"

fun rand_bytes :: "('s \<Rightarrow> byte \<times> 's) \<Rightarrow> nat \<Rightarrow> 's \<Rightarrow> bytes \<times> 's" where
  "rand_bytes rand8 0 s = ([], s)"
| "rand_bytes rand8 (Suc n) s =
     (let (b, s) = rand8 s; (bs, s) = rand_bytes rand8 n s in (b # bs, s))"

definition RandString :: "('s \<Rightarrow> byte \<times> 's) \<Rightarrow> int \<Rightarrow> 's \<Rightarrow> (bytes \<times> 's) res" where
  "RandString rand8 desired_len s =
     bind_res (check (0 \<le> desired_len)) (\<lambda>_. Ok (rand_bytes rand8 (nat desired_len) s))"

text \<open>\<open>do rnd = \<dots>; while (bad(rnd))\<close>\<close>

partial_function (option) reject :: "('s \<Rightarrow> 'w \<times> 's) \<Rightarrow> ('w \<Rightarrow> bool) \<Rightarrow> 's \<Rightarrow> ('w \<times> 's) option" where
  "reject rand bad s = (case rand s of (r, s') \<Rightarrow> if bad r then reject rand bad s' else Some (r, s'))"

text \<open>\<open>None\<close>: the loop does not end.\<close>

definition UnbiasedUniform :: "('s \<Rightarrow> u32 \<times> 's) \<Rightarrow> i32 \<Rightarrow> 's \<Rightarrow> (i32 \<times> 's) option res" where
  "UnbiasedUniform rand32 n s =
     bind_res (check (0 \<le>s n)) (\<lambda>_. Ok (
       if n = 0 then (case rand32 s of (r, s') \<Rightarrow> Some (r * n, s'))
       else if n AND (n - 1) = 0 then (case rand32 s of (r, s') \<Rightarrow> Some (r AND (n - 1), s'))
       else
         let rem = (- 1) mod n + 1
         in case reject rand32 (\<lambda>r. r < rem) s of None \<Rightarrow> None | Some (r, s') \<Rightarrow> Some (r mod n, s')))"

definition UnbiasedUniform64 :: "('s \<Rightarrow> u64 \<times> 's) \<Rightarrow> u64 \<Rightarrow> 's \<Rightarrow> (u64 \<times> 's) option" where
  "UnbiasedUniform64 rand64 n s =
     (if n = 0 then (case rand64 s of (r, s') \<Rightarrow> Some (r * n, s'))
      else if n AND (n - 1) = 0 then (case rand64 s of (r, s') \<Rightarrow> Some (r AND (n - 1), s'))
      else
        let rem = (- 1) mod n + 1
        in case reject rand64 (\<lambda>r. r < rem) s of None \<Rightarrow> None | Some (r, s') \<Rightarrow> Some (r mod n, s'))"


section \<open>The multiplicative generator\<close>

definition ACM_M :: u32 where
  "ACM_M = 2147483647"

type_synonym acm = u32

definition acm_Reset :: "i32 \<Rightarrow> acm" where
  "acm_Reset s = (let seed = s AND 0x7fffffff in if seed = 0 \<or> seed = ACM_M then 1 else seed)"

definition acm_Next :: "acm \<Rightarrow> i32 \<times> acm" where
  "acm_Next seed =
     (let product = ucast seed * 16807 :: u64;
          s = ucast (drop_bit 31 product + (product AND ucast ACM_M)) :: u32;
          s = (if s > ACM_M then s - ACM_M else s)
      in (s, s))"

text \<open>C++ leaves open which of the two calls of \<open>Next\<close> comes first.\<close>

definition acm_Next64 :: "bool \<Rightarrow> acm \<Rightarrow> i64 \<times> acm" where
  "acm_Next64 left_first s =
     (let (x, s) = acm_Next s; (y, s) = acm_Next s;
          (hi, lo) = (if left_first then (x, y) else (y, x))
      in ((scast hi - 1) * ucast (ACM_M - 1) + scast lo, s))"

definition acm_Rand8 :: "acm \<Rightarrow> byte \<times> acm" where
  "acm_Rand8 s = (case acm_Next s of (x, s) \<Rightarrow> (ucast (signed_drop_bit 1 x AND 0x000000ff), s))"

definition acm_Rand16 :: "acm \<Rightarrow> u16 \<times> acm" where
  "acm_Rand16 s = (case acm_Next s of (x, s) \<Rightarrow> (ucast (signed_drop_bit 1 x AND 0x0000ffff), s))"

definition acm_Rand32 :: "acm \<Rightarrow> u32 \<times> acm" where
  "acm_Rand32 s = (case acm_Next s of (x, s) \<Rightarrow> (x - 1, s))"

definition acm_Rand64 :: "bool \<Rightarrow> acm \<Rightarrow> u64 \<times> acm" where
  "acm_Rand64 left_first s = (case acm_Next64 left_first s of (x, s) \<Rightarrow> (x - 1, s))"

text \<open>\<open>%\<close> of a positive number by \<open>n\<close>, which may be negative.\<close>

definition acm_Uniform :: "i32 \<Rightarrow> acm \<Rightarrow> i32 \<times> acm" where
  "acm_Uniform n s =
     (case acm_Next s of (x, s) \<Rightarrow> (if n = 0 then x * 0 else word_of_int (sint x mod \<bar>sint n\<bar>), s))"

text \<open>The condition of the rejection loop, with \<open>range = M - 2\<close> and \<open>rem = range % n\<close>.\<close>

definition acm_rejects :: "i32 \<Rightarrow> u32 \<Rightarrow> bool" where
  "acm_rejects n rnd \<longleftrightarrow> rnd \<le> (ACM_M - 2) mod n"

text \<open>\<open>CHECK_LE\<close> compares the signed \<open>n\<close> with the unsigned range as unsigned numbers.\<close>

definition acm_UnbiasedUniform :: "i32 \<Rightarrow> acm \<Rightarrow> (i32 \<times> acm) option res" where
  "acm_UnbiasedUniform n s =
     bind_res (check (n \<le> ACM_M - 2)) (\<lambda>_. Ok (
       if n = 0 then (case acm_Next s of (x, s) \<Rightarrow> Some (x * 0, s))
       else case reject acm_Next (acm_rejects n) s of None \<Rightarrow> None | Some (r, s') \<Rightarrow> Some (r mod n, s')))"

text \<open>The seed from the host: \<open>mix\<close> is called in the loop, but its result is not used.\<close>

fun host_seed_loop :: "bytes \<Rightarrow> nat \<Rightarrow> u32 \<times> u32 \<times> u32 \<Rightarrow> u32 \<times> u32 \<times> u32" where
  "host_seed_loop p 0 abc = abc"
| "host_seed_loop p (Suc k) (a, b, c) =
     host_seed_loop (drop 12 p) k (a + Word32At p, b + Word32At (drop 4 p), c + Word32At (drop 8 p))"

definition HostnamePidTimeSeed :: "bytes \<Rightarrow> u32 \<Rightarrow> u64 \<Rightarrow> i32" where
  "HostnamePidTimeSeed name pid clock =
     (let namelen = length name;
          (a, b, c) = host_seed_loop (name @ replicate 12 0) ((namelen + 11) div 12) (pid, ucast clock, 0)
      in snd (snd (mix a b (c + of_nat namelen))))"


section \<open>The Mersenne twister\<close>

record mt_context =
  mt_buffer :: "u32 list"
  mt_randcnt :: nat
  mt_pool :: u32
  mt_poolsize :: nat

definition kMTNumWords :: nat where
  "kMTNumWords = 624"

definition kMT_M :: nat where
  "kMT_M = 397"

definition mt_zero :: mt_context where
  "mt_zero = \<lparr>mt_buffer = replicate kMTNumWords 0, mt_randcnt = 0, mt_pool = 0, mt_poolsize = 0\<rparr>"

definition twist :: "u32 \<Rightarrow> u32 \<Rightarrow> u32" where
  "twist a b =
     drop_bit 1 ((a AND 0x80000000) OR (b AND 0x7fffffff)) XOR (if b AND 1 = 0 then 0 else 0x9908b0df)"

definition mix30 :: "u32 \<Rightarrow> u32" where
  "mix30 a = a XOR drop_bit 30 a"

text \<open>Two loops and a last step, which index the array without wrapping around.\<close>

definition mt_Cycle :: "mt_context \<Rightarrow> mt_context" where
  "mt_Cycle c =
     (let x = mt_buffer c;
          x = fold (\<lambda>i x. x[i := x ! (i + kMT_M) XOR twist (x ! i) (x ! (i + 1))]) [0..<kMTNumWords - kMT_M] x;
          x = fold (\<lambda>i x. x[i := x ! (i - (kMTNumWords - kMT_M)) XOR twist (x ! i) (x ! (i + 1))])
                [kMTNumWords - kMT_M..<kMTNumWords - 1] x;
          i = kMTNumWords - 1;
          x = x[i := x ! (i - (kMTNumWords - kMT_M)) XOR twist (x ! i) (x ! 0)]
      in c\<lparr>mt_buffer := x, mt_randcnt := 0\<rparr>)"

definition mt_InitRaw :: "u32 list \<Rightarrow> mt_context \<Rightarrow> mt_context res" where
  "mt_InitRaw seed c =
     bind_res (check (length seed = kMTNumWords)) (\<lambda>_. Ok (c\<lparr>mt_buffer := seed, mt_randcnt := kMTNumWords\<rparr>))"

text \<open>\<open>mt[i] = a * mix30(mt[i-1]) + i\<close> from the first word on.\<close>

definition mt_fill :: "u32 \<Rightarrow> u32 \<Rightarrow> u32 list \<Rightarrow> u32 list" where
  "mt_fill a x0 mt = fold (\<lambda>i mt. mt[i := a * mix30 (mt ! (i - 1)) + of_nat i]) [1..<kMTNumWords] (mt[0 := x0])"

definition mt_InitSeed :: "u32 \<Rightarrow> mt_context \<Rightarrow> mt_context" where
  "mt_InitSeed seed c =
     c\<lparr>mt_pool := 0, mt_buffer := mt_fill 1664525 seed (mt_buffer c), mt_randcnt := kMTNumWords\<rparr>"

text \<open>\<open>if (++i >= kMTNumWords) { mt[0] = mt[kMTNumWords - 1]; i = 1; }\<close>\<close>

definition mt_advance :: "nat \<times> u32 list \<Rightarrow> nat \<times> u32 list" where
  "mt_advance = (\<lambda>(i, mt). if kMTNumWords \<le> i + 1 then (1, mt[0 := mt ! (kMTNumWords - 1)]) else (i + 1, mt))"

fun mt_seed_loop :: "u32 list \<Rightarrow> nat \<Rightarrow> nat \<Rightarrow> nat \<times> u32 list \<Rightarrow> nat \<times> u32 list" where
  "mt_seed_loop seed 0 j st = st"
| "mt_seed_loop seed (Suc k) j (i, mt) =
     mt_seed_loop seed k ((j + 1) mod length seed)
       (mt_advance (i, mt[i := (mt ! i XOR (mix30 (mt ! (i - 1)) * 1664525)) + seed ! j + of_nat j]))"

fun mt_final_loop :: "nat \<Rightarrow> nat \<times> u32 list \<Rightarrow> nat \<times> u32 list" where
  "mt_final_loop 0 st = st"
| "mt_final_loop (Suc k) (i, mt) =
     mt_final_loop k (mt_advance (i, mt[i := (mt ! i XOR (mix30 (mt ! (i - 1)) * 1566083941)) - of_nat i]))"

definition mt_InitArray :: "u32 list \<Rightarrow> mt_context \<Rightarrow> mt_context res" where
  "mt_InitArray seed c =
     bind_res (check (length seed > 0)) (\<lambda>_.
       let mt = mt_fill 1812433253 19650218 (mt_buffer c);
           st = mt_seed_loop seed (max kMTNumWords (length seed)) 0 (1, mt);
           mt = snd (mt_final_loop (kMTNumWords - 1) st)
       in Ok (c\<lparr>mt_pool := 0, mt_buffer := mt[0 := 0x80000000], mt_randcnt := kMTNumWords\<rparr>))"

definition mt_Rand32 :: "mt_context \<Rightarrow> u32 \<times> mt_context" where
  "mt_Rand32 c =
     (let c = (if kMTNumWords \<le> mt_randcnt c then mt_Cycle c else c);
          y = mt_buffer c ! mt_randcnt c;
          y = y XOR drop_bit 11 y;
          y = y XOR (push_bit 7 y AND 0x9d2c5680);
          y = y XOR (push_bit 15 y AND 0xefc60000);
          y = y XOR drop_bit 18 y
      in (y, c\<lparr>mt_randcnt := mt_randcnt c + 1\<rparr>))"

definition mt_Rand8 :: "mt_context \<Rightarrow> byte \<times> mt_context" where
  "mt_Rand8 c =
     (let c = (if mt_poolsize c = 0 then (case mt_Rand32 c of (r, c) \<Rightarrow> c\<lparr>mt_pool := r, mt_poolsize := 3\<rparr>)
               else c\<lparr>mt_pool := drop_bit 8 (mt_pool c), mt_poolsize := mt_poolsize c - 1\<rparr>)
      in (ucast (mt_pool c AND 0x000000ff), c))"

definition mt_Rand16 :: "mt_context \<Rightarrow> u16 \<times> mt_context" where
  "mt_Rand16 c =
     (let (rv, c) = mt_Rand8 c; (b, c) = mt_Rand8 c in (push_bit 8 (ucast rv) OR ucast b, c))"

definition mt_Rand64 :: "mt_context \<Rightarrow> u64 \<times> mt_context" where
  "mt_Rand64 c =
     (let (rv, c) = mt_Rand32 c; (w, c) = mt_Rand32 c in (push_bit 32 (ucast rv) OR ucast w, c))"

definition new_mt :: "u32 \<Rightarrow> mt_context" where
  "new_mt seed = mt_InitSeed seed mt_zero"

text \<open>The bytes of the seed string are copied into words; \<open>word_of\<close> reads a word of the host.
  \<open>seed[num_words - 1] = 0\<close> is a write in front of the array for the empty string.\<close>

definition new_mt_string :: "(bytes \<Rightarrow> u32) \<Rightarrow> bytes \<Rightarrow> mt_context res" where
  "new_mt_string word_of seed_str =
     (let num_words = (length seed_str + 4 - 1) div 4; padded = seed_str @ replicate 4 0 in
      if num_words = 0 then Inl Out_of_range
      else mt_InitArray (map (\<lambda>i. word_of (take 4 (drop (4 * i) padded))) [0..<num_words]) mt_zero)"

definition new_mt_raw :: "u32 list \<Rightarrow> mt_context res" where
  "new_mt_raw seed = mt_InitRaw seed mt_zero"


section \<open>The multiplicative generator computes powers modulo a prime\<close>

definition M31 :: nat where
  "M31 = 2147483647"

definition acm_ok :: "acm \<Rightarrow> bool" where
  "acm_ok s \<longleftrightarrow> 0 < unat s \<and> unat s < M31"

lemma unat_ACM_M [simp]: "unat ACM_M = M31"
  by (simp add: ACM_M_def M31_def)

lemma coprime_A_M: "coprime (16807 :: nat) M31"
proof -
  have "gcd M31 7 = gcd 7 (M31 mod 7)" by (rule gcd_red_nat)
  then have "coprime 7 M31" by (simp add: M31_def coprime_iff_gcd_eq_1 gcd.commute)
  then have "coprime (7 ^ 5) M31" by (subst coprime_power_left_iff) simp
  then show ?thesis by simp
qed

lemma unat_and_mask: "m = mask n \<Longrightarrow> unat (x AND m) = unat x mod 2 ^ n"
  by (simp only: take_bit_eq_mask [symmetric] unsigned_take_bit_eq) (simp only: take_bit_eq_mod)

lemma fold_mod_M31:
  fixes q r :: nat
  assumes "q + r < 2 * M31" and "(q * 2 ^ 31 + r) mod M31 \<noteq> 0"
  shows "(q * 2 ^ 31 + r) mod M31 = (if M31 < q + r then q + r - M31 else q + r)"
proof -
  have "q * 2 ^ 31 + r = q * M31 + (q + r)" by (simp add: M31_def)
  then have eq: "(q * 2 ^ 31 + r) mod M31 = (q + r) mod M31" by (metis mod_mult_self3)
  have "q + r \<noteq> M31" using assms(2) eq by auto
  then show ?thesis using assms(1) eq by (auto simp: le_mod_geq)
qed

lemma acm_Next_mod:
  assumes "acm_ok s"
  shows "acm_Next s = (of_nat (unat s * 16807 mod M31), of_nat (unat s * 16807 mod M31))"
    and "acm_ok (of_nat (unat s * 16807 mod M31))"
    and "unat (of_nat (unat s * 16807 mod M31) :: u32) = unat s * 16807 mod M31"
proof -
  let ?p = "unat s * 16807" let ?q = "?p div 2 ^ 31" let ?r = "?p mod 2 ^ 31"
  let ?P = "ucast s * 16807 :: u64"
  have s: "0 < unat s" "unat s < 2147483647" using assms by (auto simp: acm_ok_def M31_def)
  have "\<not> M31 dvd ?p" using coprime_A_M s coprime_dvd_mult_left_iff [of M31 16807 "unat s"]
    by (auto simp: coprime_commute M31_def dest: dvd_imp_le)
  then have nz: "?p mod M31 \<noteq> 0" by (simp add: dvd_eq_mod_eq_0)
  have "unat (ucast s :: u64) = unat s"
    using unsigned_less [of s, where 'a = nat] by (simp add: unsigned_ucast_eq take_bit_nat_eq_self)
  then have P: "unat ?P = ?p" using s by (simp add: unat_mult_lem [THEN iffD1])
  have hi: "unat (drop_bit 31 ?P) = ?q" unfolding unat_drop_bit_eq P by (simp add: drop_bit_eq_div)
  have "(ucast ACM_M :: u64) = mask 31" by (simp add: ACM_M_def mask_eq_exp_minus_1)
  then have lo: "unat (?P AND ucast ACM_M) = ?r"
    using unat_and_mask [of _ 31 ?P] P by simp
  have q: "?q < 16807" "?r < 2 ^ 31" using s by auto
  then have sum: "unat (drop_bit 31 ?P + (?P AND ucast ACM_M)) = ?q + ?r"
    using hi lo by (simp add: unat_add_lem [THEN iffD1])
  let ?s = "ucast (drop_bit 31 ?P + (?P AND ucast ACM_M)) :: u32"
  have s': "unat ?s = ?q + ?r" using q sum by (simp add: unsigned_ucast_eq take_bit_nat_eq_self)
  have "unat (if ?s > ACM_M then ?s - ACM_M else ?s) = (if M31 < ?q + ?r then ?q + ?r - M31 else ?q + ?r)"
    by (simp add: word_less_nat_alt s' unat_sub_if')
  also have "\<dots> = ?p mod M31"
    using fold_mod_M31 [of ?q ?r] nz q by (simp add: M31_def)
  finally have u: "unat (if ?s > ACM_M then ?s - ACM_M else ?s) = ?p mod M31" .
  have lt: "?p mod M31 < M31" by (simp add: M31_def)
  then show u2: "unat (of_nat (unat s * 16807 mod M31) :: u32) = unat s * 16807 mod M31"
    by (simp add: unat_of_nat M31_def)
  then have "(if ?s > ACM_M then ?s - ACM_M else ?s) = of_nat (?p mod M31)"
    using u by (intro unsigned_word_eqI [where 'a = nat]) simp
  then show "acm_Next s = (of_nat (unat s * 16807 mod M31), of_nat (unat s * 16807 mod M31))"
    by (simp add: acm_Next_def Let_def)
  show "acm_ok (of_nat (unat s * 16807 mod M31))" using u2 nz lt by (simp add: acm_ok_def)
qed

lemma acm_Reset_ok: "acm_ok (acm_Reset s)"
proof -
  have "(0x7fffffff :: u32) = mask 31" by (simp add: mask_eq_exp_minus_1)
  then have "unat (s AND 0x7fffffff) = unat s mod 2 ^ 31"
    by (rule unat_and_mask)
  then have "unat (s AND 0x7fffffff) < 2 ^ 31" by simp
  then have "unat (s AND 0x7fffffff) \<le> M31" by (simp add: M31_def)
  moreover have "s AND 0x7fffffff \<noteq> ACM_M \<Longrightarrow> unat (s AND 0x7fffffff) \<noteq> M31" 
    by (metis unat_ACM_M unsigned_word_eqI)
  ultimately show ?thesis
    by (auto simp: acm_Reset_def acm_ok_def Let_def unat_gt_0 M31_def)
qed

section \<open>Rejection ends\<close>

lemma reject_step: "reject rand bad s = (if bad (fst (rand s)) then reject rand bad (snd (rand s)) else Some (rand s))"
  by (subst reject.simps) (simp add: case_prod_beta)

lemma reject_returns:
  "\<not> bad (fst (rand (((\<lambda>s. snd (rand s)) ^^ k) s))) \<Longrightarrow>
    \<exists>j \<le> k. reject rand bad s = Some (rand (((\<lambda>s. snd (rand s)) ^^ j) s))
      \<and> \<not> bad (fst (rand (((\<lambda>s. snd (rand s)) ^^ j) s)))"
proof (induction k arbitrary: s)
  case (Suc k)
  show ?case
  proof (cases "bad (fst (rand s))")
    case True
    from Suc.prems have "\<not> bad (fst (rand (((\<lambda>s. snd (rand s)) ^^ k) (snd (rand s)))))"
      by (simp add: funpow_Suc_right del: funpow.simps)
    from Suc.IH [OF this] obtain j where j: "j \<le> k"
      "reject rand bad (snd (rand s)) = Some (rand (((\<lambda>s. snd (rand s)) ^^ j) (snd (rand s))))"
      "\<not> bad (fst (rand (((\<lambda>s. snd (rand s)) ^^ j) (snd (rand s)))))" by blast
    then show ?thesis using True
      by (subst reject_step) (auto simp: funpow_Suc_right simp del: funpow.simps intro!: exI [of _ "Suc j"])
  next
    case False
    then show ?thesis by (intro exI [of _ 0]) (simp add: reject_step [of rand bad s])
  qed
qed (subst reject_step, simp)

lemma acm_iterate:
  assumes "acm_ok s"
  shows "acm_ok (((\<lambda>s. snd (acm_Next s)) ^^ k) s)
    \<and> unat (((\<lambda>s. snd (acm_Next s)) ^^ k) s) = unat s * 16807 ^ k mod M31"
proof (induction k)
  case 0
  then show ?case using assms by (simp add: acm_ok_def)
next
  case (Suc k)
  then have ok: "acm_ok (((\<lambda>s. snd (acm_Next s)) ^^ k) s)" and
    u: "unat (((\<lambda>s. snd (acm_Next s)) ^^ k) s) = unat s * 16807 ^ k mod M31" by blast+
  have "(unat s * 16807 ^ k mod M31) * 16807 mod M31 = unat s * 16807 ^ Suc k mod M31"
    by (metis mod_mult_left_eq mult.assoc power_Suc2)
  then show ?case using acm_Next_mod [OF ok] u by simp
qed

text \<open>\<open>16807 ^ (2 ^ k - 1)\<close> modulo the prime, by squaring; at \<open>k = 30\<close> it is \<open>- 1\<close>.\<close>

definition A_square :: "int \<Rightarrow> int" where
  "A_square r = (r * r mod 2147483647) * 16807 mod 2147483647"

primrec A_pow :: "nat \<Rightarrow> int" where
  "A_pow 0 = 1"
| "A_pow (Suc k) = A_square (A_pow k)"

lemma A_pow: "16807 ^ (2 ^ k - 1) mod 2147483647 = A_pow k"
proof (induction k)
  case (Suc k)
  let ?x = "16807 ^ (2 ^ k - 1) :: int"
  have "1 \<le> (2 :: nat) ^ k" by simp
  then have e: "2 ^ Suc k - 1 = (2 ^ k - 1) + (2 ^ k - 1) + (1 :: nat)" unfolding power_Suc mult_2 by linarith
  have "(16807 :: int) ^ (2 ^ Suc k - 1) mod 2147483647 = ?x * ?x * 16807 mod 2147483647"
    unfolding e by (simp only: power_add power_one_right)
  also have "\<dots> = (?x * ?x mod 2147483647) * 16807 mod 2147483647" by (simp only: mod_mult_left_eq)
  also have "?x * ?x mod 2147483647 = (?x mod 2147483647) * (?x mod 2147483647) mod 2147483647"
    by (simp only: mod_mult_eq)
  finally show ?case unfolding Suc by (simp add: A_square_def)
qed simp

definition half_period :: nat where
  "half_period = 2 ^ 30 - 1"

lemma A_half: "16807 ^ half_period mod M31 = M31 - 1"
proof -
  have "A_pow 30 = 2147483646" by code_simp
  then have "16807 ^ half_period mod 2147483647 = (2147483646 :: int)"
    using A_pow [of 30] unfolding half_period_def by (rule trans [rotated])
  then have "int (16807 ^ half_period mod M31) = int (M31 - 1)"
    unfolding M31_def by (simp add: zmod_int)
  then show ?thesis by (simp only: of_nat_eq_iff)
qed

lemma acm_half:
  assumes "acm_ok s"
  shows "unat (((\<lambda>s. snd (acm_Next s)) ^^ half_period) s) = M31 - unat s"
proof -
  have s: "0 < unat s" "unat s < M31" using assms by (auto simp: acm_ok_def)
  have "unat s * 16807 ^ half_period mod M31 = unat s * (M31 - 1) mod M31"
    by (metis A_half mod_mult_right_eq)
  also have "unat s * (M31 - 1) = (unat s - 1) * M31 + (M31 - unat s)"
    using s by (simp add: algebra_simps diff_mult_distrib)
  also have "\<dots> mod M31 = (M31 - unat s) mod M31" by (rule mod_mult_self3)
  also have "\<dots> = M31 - unat s" using s by simp
  finally show ?thesis using acm_iterate [OF assms, of half_period] by simp
qed


section \<open>Counting\<close>

lemma residue_unique:
  fixes b N R :: nat
  assumes "R < N"
  shows "\<exists>y. {x. b \<le> x \<and> x < b + N \<and> x mod N = R} = {y}"
proof -
  let ?c = "b div N * N" let ?y = "if R < b mod N then ?c + N + R else ?c + R"
  have N: "0 < N" using assms by simp
  have b: "b = ?c + b mod N" by simp
  have "x = ?y" if "b \<le> x" "x < b + N" "x mod N = R" for x
  proof -
    have x: "x = x div N * N + R" using that(3) by (metis div_mult_mod_eq)
    have "b div N \<le> x div N" "x div N \<le> (b + N) div N" using that(1,2) by (auto intro: div_le_mono)
    moreover have "(b + N) div N = b div N + 1" using N by (simp add: div_add_self2)
    ultimately have "x div N = b div N \<or> x div N = b div N + 1" by linarith
    moreover have "R < b mod N \<Longrightarrow> x \<noteq> ?c + R" using that(1) b by linarith
    moreover have "b mod N \<le> R \<Longrightarrow> x \<noteq> ?c + N + R" using that(2) b by linarith
    ultimately show ?thesis using x by (auto simp: not_less)
  qed
  moreover have "b \<le> ?y \<and> ?y < b + N \<and> ?y mod N = R"
  proof -
    have "b mod N < N" using N by simp
    then have "b \<le> ?y \<and> ?y < b + N"
      using b assms by (cases "R < b mod N"; simp only: if_True if_False; linarith)
    moreover have "?y = (if R < b mod N then b div N + 1 else b div N) * N + R" by simp
    then have "?y mod N = R" using assms mod_mult_self3 [of _ N R] by (metis mod_less)
    ultimately show ?thesis by blast
  qed
  ultimately show ?thesis by blast
qed

lemma card_residue_window:
  fixes a N R :: nat
  assumes "R < N"
  shows "card {x. a \<le> x \<and> x < a + q * N \<and> x mod N = R} = q"
proof (induction q)
  case (Suc q)
  let ?S = "{x. a \<le> x \<and> x < a + q * N \<and> x mod N = R}" and ?b = "a + q * N"
  let ?T = "{x. ?b \<le> x \<and> x < ?b + N \<and> x mod N = R}"
  obtain y where "?T = {y}" using residue_unique [OF assms, of ?b] by blast
  moreover have "{x. a \<le> x \<and> x < a + Suc q * N \<and> x mod N = R} = ?S \<union> ?T" by auto
  moreover have "finite ?S" by (rule finite_subset [of _ "{..<?b}"]) auto
  moreover have "?S \<inter> ?T = {}" by auto
  ultimately show ?case using Suc by (simp add: card_Un_disjoint)
qed simp

lemma card_words:
  "card {x :: 'a::len word. P (unat x)} = card {y. y < 2 ^ LENGTH('a) \<and> P y}"
proof (rule bij_betw_same_card [of unat])
  show "bij_betw unat {x :: 'a word. P (unat x)} {y. y < 2 ^ LENGTH('a) \<and> P y}"
    by (rule bij_betw_byWitness [of _ "\<lambda>y. of_nat y"])
      (auto simp: unat_of_nat unsigned_less)
qed

lemma unat_eq_power: "unat (n :: 'a::len word) = 2 ^ k \<Longrightarrow> n = 2 ^ k"
proof -
  assume "unat n = 2 ^ k"
  then have "(of_nat (unat n) :: 'a word) = of_nat (2 ^ k)" by (rule arg_cong)
  then show ?thesis by simp
qed

lemma power_of_two:
  fixes n :: "'a::len word"
  assumes "n \<noteq> 0" and "n AND (n - 1) = 0"
  shows "\<exists>k. n = 2 ^ k \<and> unat n = 2 ^ k \<and> k < LENGTH('a)"
proof -
  obtain k where k: "2 ^ k \<le> unat n" "unat n < 2 ^ Suc k"
    using ex_power_ivl1 [of 2 "unat n"] assms(1) unat_gt_0 [of n] by (auto simp: Suc_le_eq)
  have "(2 :: nat) ^ k < 2 ^ LENGTH('a)" using k(1) unsigned_less [of n, where 'a = nat] by (rule le_less_trans)
  then have kl: "k < LENGTH('a)" by (simp only: power_strict_increasing_iff)
  have bit_k: "bit w k" if "2 ^ k \<le> unat w" "unat w < 2 ^ Suc k" for w :: "'a word"
  proof -
    have "unat w div 2 ^ k = 1" using that by (intro div_nat_eqI) auto
    then have "bit (unat w) k" by (simp add: bit_iff_odd)
    then show ?thesis by (simp add: bit_unsigned_iff)
  qed
  have "unat n = 2 ^ k"
  proof (rule ccontr)
    assume "unat n \<noteq> 2 ^ k"
    moreover have "unat (n - 1) = unat n - 1" using assms(1) by (simp add: unat_minus_one)
    ultimately have "bit (n - 1) k" "bit n k" using k by (auto intro!: bit_k)
    then have "bit (n AND (n - 1)) k" by (simp add: bit_and_iff)
    then show False using assms(2) by simp
  qed
  moreover from this have "n = 2 ^ k" by (rule unat_eq_power)
  ultimately show ?thesis using kl by auto
qed

section \<open>Uniformity\<close>

text \<open>The value a single draw \<open>x\<close> leads to, if it is accepted.\<close>

definition draw :: "'a::len word \<Rightarrow> 'a word \<Rightarrow> 'a word option" where
  "draw n x =
     (if n AND (n - 1) = 0 then Some (x AND (n - 1))
      else if x < (- 1) mod n + 1 then None else Some (x mod n))"

lemma dvd_power_of_two: "d dvd 2 ^ k \<Longrightarrow> \<exists>j. (d :: nat) = 2 ^ j"
proof (induction k arbitrary: d)
  case (Suc k)
  show ?case
  proof (cases "even d")
    case True
    then obtain e where "d = 2 * e" by blast
    then show ?thesis using Suc.IH [of e] Suc.prems by (auto intro: exI [of _ "Suc _"])
  next
    case False
    then have "coprime d 2" by simp
    then show ?thesis using Suc by (simp add: coprime_dvd_mult_right_iff)
  qed
qed (auto intro: exI [of _ 0])

lemma threshold:
  fixes n :: "'a::len word"
  assumes "n \<noteq> 0" and "\<not> unat n dvd 2 ^ LENGTH('a)"
  shows "unat ((- 1) mod n + 1 :: 'a word) = 2 ^ LENGTH('a) mod unat n"
proof -
  let ?L = "2 ^ LENGTH('a) :: nat" let ?N = "unat n"
  have N: "0 < ?N" "?N < ?L" using assms(1) unsigned_less [of n, where 'a = nat] by (auto simp: unat_gt_0)
  have m: "unat ((- 1) mod n :: 'a word) = (?L - 1) mod ?N"
    by (simp add: unat_mod_distrib unsigned_minus_1_eq_mask mask_eq_exp_minus_1)
  have "?L = (?L - 1) + 1" by simp
  then have "?L mod ?N = ((?L - 1) mod ?N + 1) mod ?N" by (metis mod_add_left_eq)
  moreover have "?L mod ?N \<noteq> 0" using assms(2) by (simp add: dvd_eq_mod_eq_0)
  moreover have "(?L - 1) mod ?N < ?N" using N by simp
  ultimately have e: "?L mod ?N = (?L - 1) mod ?N + 1"
    by (metis Suc_eq_plus1 Suc_lessI mod_less mod_self)
  have "unat ((- 1) mod n + 1 :: 'a word) = (unat ((- 1) mod n :: 'a word) + unat (1 :: 'a word)) mod ?L"
    by (rule unat_word_ariths)
  also have "\<dots> = ((?L - 1) mod ?N + 1) mod ?L" using m by simp
  also have "\<dots> = (?L - 1) mod ?N + 1" using N e by (metis mod_less mod_less_divisor less_trans)
  finally show ?thesis using e by simp
qed

lemma draw_uniform:
  fixes n r :: "'a::len word"
  assumes "r < n"
  shows "card {x. draw n x = Some r} = 2 ^ LENGTH('a) div unat n"
proof -
  let ?L = "2 ^ LENGTH('a) :: nat" let ?N = "unat n" let ?R = "unat r"
  have n0: "n \<noteq> 0" and R: "?R < ?N" using assms by (auto simp: word_less_nat_alt)
  show ?thesis
  proof (cases "n AND (n - 1) = 0")
    case True
    then obtain k where k: "n = 2 ^ k" "k < LENGTH('a)" and N: "?N = 2 ^ k" using power_of_two n0 by blast
    have "n - 1 = mask k" using k(1) by (simp add: mask_eq_exp_minus_1)
    then have "draw n x = Some r \<longleftrightarrow> unat x mod ?N = ?R" for x
      using True unat_and_mask [of "n - 1" k x] N by (simp add: draw_def word_unat_eq_iff)
    then have "card {x. draw n x = Some r} = card {x :: 'a word. unat x mod ?N = ?R}" by simp
    also have "\<dots> = card {y. 0 \<le> y \<and> y < 0 + ?L div ?N * ?N \<and> y mod ?N = ?R}"
      using N k(2) by (subst card_words) (simp add: le_imp_power_dvd)
    finally show ?thesis using card_residue_window [OF R, of 0 "?L div ?N"] by simp
  next
    case False
    have nd: "\<not> ?N dvd ?L"
    proof
      assume "?N dvd ?L"
      then obtain k where "?N = 2 ^ k" using dvd_power_of_two by blast
      then have "n = 2 ^ k" by (rule unat_eq_power)
      then have "n AND (n - 1) = 2 ^ k AND mask k" by (simp add: mask_eq_exp_minus_1)
      also have "\<dots> = 0" by (rule bit_word_eqI) (auto simp: bit_simps)
      finally show False using False by simp
    qed
    have eq: "?L mod ?N + ?L div ?N * ?N = ?L" by simp
    have "draw n x = Some r \<longleftrightarrow> ?L mod ?N \<le> unat x \<and> unat x mod ?N = ?R" for x
      using False threshold [OF n0 nd]
      by (auto simp: draw_def word_less_nat_alt unat_mod_distrib word_unat_eq_iff)
    then have "card {x. draw n x = Some r} = card {x :: 'a word. ?L mod ?N \<le> unat x \<and> unat x mod ?N = ?R}" by simp
    also have "\<dots> = card {y. ?L mod ?N \<le> y \<and> y < ?L mod ?N + ?L div ?N * ?N \<and> y mod ?N = ?R}"
      unfolding card_words [of "\<lambda>u. ?L mod ?N \<le> u \<and> u mod ?N = ?R"] eq by (rule arg_cong [of _ _ card]) auto
    finally show ?thesis using card_residue_window [OF R, of "?L mod ?N" "?L div ?N"] by simp
  qed
qed


section \<open>What every generator promises\<close>

lemma reject_Some:
  assumes "reject rand bad s = Some y" and "P s"
    and "\<And>s. P s \<Longrightarrow> P (snd (rand s)) \<and> Q (fst (rand s))"
  shows "\<not> bad (fst y) \<and> P (snd y) \<and> Q (fst y)"
proof -
  let ?R = "\<lambda>ra ba s y. ra = rand \<and> ba = bad \<longrightarrow> P s \<longrightarrow> \<not> bad (fst y) \<and> P (snd y) \<and> Q (fst y)"
  have "?R rand bad s y"
  proof (rule reject.raw_induct [of ?R, OF _ assms(1)], intro impI, elim conjE)
    fix f ra ba s y
    assume ih: "\<And>ra ba s y. f ra ba s = Some y \<Longrightarrow> ?R ra ba s y"
      and y: "(case ra s of (r, s') \<Rightarrow> if ba r then f ra ba s' else Some (r, s')) = Some y"
      and eq: "ra = rand" "ba = bad" and p: "P s"
    show "\<not> bad (fst y) \<and> P (snd y) \<and> Q (fst y)"
    proof (cases "bad (fst (rand s))")
      case True
      then have "f rand bad (snd (rand s)) = Some y" using y eq by (simp add: case_prod_beta)
      then show ?thesis using ih assms(3) [OF p] by blast
    next
      case False
      then show ?thesis using y eq assms(3) [OF p] by (auto simp: case_prod_beta)
    qed
  qed
  then show ?thesis using assms(2) by simp
qed

text \<open>A generator that always draws \<open>x\<close> ends the loop at once or never.\<close>

lemma reject_const: "reject (\<lambda>s. (x, s)) bad s = (if bad x then None else Some (x, s))"
proof (cases "bad x")
  case True
  have "reject (\<lambda>s. (x, s)) bad s \<noteq> Some y" for y
  proof
    assume "reject (\<lambda>s. (x, s)) bad s = Some y"
    from reject_Some [OF this, of "\<lambda>_. True" "\<lambda>r. r = x"] True show False by auto
  qed
  then show ?thesis using True by (cases "reject (\<lambda>s. (x, s)) bad s") auto
qed (simp add: reject_step)

lemma UnbiasedUniform_const:
  assumes "0 \<le>s n" and "n \<noteq> 0"
  shows "UnbiasedUniform (\<lambda>s. (x, s)) n s = Ok (map_option (\<lambda>r. (r, s)) (draw n x))"
  using assms by (simp add: UnbiasedUniform_def draw_def reject_const Let_def)

lemma UnbiasedUniform64_const:
  "n \<noteq> 0 \<Longrightarrow> UnbiasedUniform64 (\<lambda>s. (x, s)) n s = map_option (\<lambda>r. (r, s)) (draw n x)"
  by (simp add: UnbiasedUniform64_def draw_def reject_const Let_def)

locale generator =
  fixes ok :: "'s \<Rightarrow> bool" and rand8 :: "'s \<Rightarrow> byte \<times> 's" and rand32 :: "'s \<Rightarrow> u32 \<times> 's"
    and rand64 :: "'s \<Rightarrow> u64 \<times> 's"
  assumes ok8: "ok s \<Longrightarrow> ok (snd (rand8 s))"
    and ok32: "ok s \<Longrightarrow> ok (snd (rand32 s))"
    and ok64: "ok s \<Longrightarrow> ok (snd (rand64 s))"
begin

lemma rand_bytes_ok: "ok s \<Longrightarrow> ok (snd (rand_bytes rand8 n s)) \<and> length (fst (rand_bytes rand8 n s)) = n"
proof (induction n arbitrary: s)
  case (Suc n)
  from Suc.IH [OF ok8 [OF Suc.prems]] show ?case by (simp add: Let_def case_prod_beta)
qed simp

lemma RandString_length:
  assumes "ok s" and "0 \<le> n"
  shows "\<exists>bs s'. RandString rand8 n s = Ok (bs, s') \<and> int (length bs) = n \<and> ok s'"
proof (intro exI conjI)
  show "RandString rand8 n s = Ok (fst (rand_bytes rand8 (nat n) s), snd (rand_bytes rand8 (nat n) s))"
    using assms(2) by (simp add: RandString_def)
qed (use rand_bytes_ok [OF assms(1), of "nat n"] assms(2) in simp_all)

lemma UnbiasedUniform_below:
  assumes "ok s" and "0 <s n" and "UnbiasedUniform rand32 n s = Ok (Some (r, s'))"
  shows "r < n \<and> ok s'"
proof -
  have n: "0 \<le>s n" "n \<noteq> 0" using assms(2) by auto
  show ?thesis
  proof (cases "n AND (n - 1) = 0")
    case True
    then obtain k where "n = 2 ^ k" "unat n = 2 ^ k" using power_of_two n(2) by blast
    then have "unat (x AND (n - 1)) < unat n" for x
      using unat_and_mask [of "n - 1" k x] by (simp add: mask_eq_exp_minus_1)
    then show ?thesis using assms(1,3) n True ok32 [of s]
      by (auto simp: UnbiasedUniform_def word_less_nat_alt split: prod.splits)
  next
    case False
    let ?bad = "\<lambda>x. x < (- 1) mod n + 1"
    from assms(3) n False obtain x where x: "reject rand32 ?bad s = Some (x, s')" "r = x mod n"
      by (auto simp: UnbiasedUniform_def Let_def split: option.splits prod.splits)
    then show ?thesis using reject_Some [OF x(1), of ok "\<lambda>_. True"] assms(1) ok32 n(2)
      by (simp add: word_mod_less_divisor word_gt_0)
  qed
qed

end

lemma acm_Next_ok: "acm_ok s \<Longrightarrow> acm_ok (snd (acm_Next s)) \<and> acm_ok (fst (acm_Next s))"
  using acm_Next_mod [of s] by simp

interpretation acm: generator acm_ok acm_Rand8 acm_Rand32 "acm_Rand64 left_first" for left_first
  by unfold_locales
    (auto simp: acm_Rand8_def acm_Rand32_def acm_Rand64_def acm_Next64_def case_prod_beta Let_def acm_Next_ok)

definition mt_ok :: "mt_context \<Rightarrow> bool" where
  "mt_ok c \<longleftrightarrow> length (mt_buffer c) = kMTNumWords \<and> mt_randcnt c \<le> kMTNumWords \<and> mt_poolsize c \<le> 3"

lemma length_fold_update:
  "(\<And>i x. length (f i x) = length x) \<Longrightarrow> length (fold f is x) = length x"
  by (induction "is" arbitrary: x) simp_all

lemma mt_Cycle_ok: "mt_ok c \<Longrightarrow> mt_ok (mt_Cycle c) \<and> mt_randcnt (mt_Cycle c) = 0"
  by (simp add: mt_ok_def mt_Cycle_def Let_def length_fold_update)

lemma mt_Rand32_ok: "mt_ok c \<Longrightarrow> mt_ok (snd (mt_Rand32 c))"
  using mt_Cycle_ok [of c] by (auto simp: mt_Rand32_def Let_def mt_ok_def kMTNumWords_def)

interpretation mt: generator mt_ok mt_Rand8 mt_Rand32 mt_Rand64
proof
  fix c assume c: "mt_ok c"
  show "mt_ok (snd (mt_Rand8 c))"
    using mt_Rand32_ok [OF c] c by (auto simp: mt_Rand8_def Let_def mt_ok_def split: prod.splits)
  show "mt_ok (snd (mt_Rand32 c))" using c by (rule mt_Rand32_ok)
  show "mt_ok (snd (mt_Rand64 c))"
    using mt_Rand32_ok [OF mt_Rand32_ok [OF c]] by (simp add: mt_Rand64_def Let_def case_prod_beta)
qed

section \<open>Properties\<close>

lemma acm_rem_small:
  assumes "n \<noteq> 0" and "n \<le> ACM_M - 2"
  shows "unat (ACM_M - 2) = M31 - 2" and "2 * unat ((ACM_M - 2) mod n) < M31 - 2"
    and "unat ((ACM_M - 2) mod n) = (M31 - 2) mod unat n"
proof -
  show r: "unat (ACM_M - 2) = M31 - 2" by (simp add: ACM_M_def M31_def)
  show m: "unat ((ACM_M - 2) mod n) = (M31 - 2) mod unat n" by (simp add: unat_mod_distrib r)
  have n: "0 < unat n" "unat n \<le> M31 - 2" using assms r by (auto simp: unat_gt_0 word_le_nat_alt)
  define a b where "a = (M31 - 2) div unat n * unat n" and "b = (M31 - 2) mod unat n"
  have "M31 - 2 = a + b" "b < unat n" using n by (simp_all add: a_def b_def)
  moreover have "1 * unat n \<le> a" unfolding a_def using n by (intro mult_right_mono) (simp_all add: Suc_le_eq div_greater_zero_iff)
  ultimately have "2 * b < M31 - 2" by linarith
  then show "2 * unat ((ACM_M - 2) mod n) < M31 - 2" by (simp add: m b_def)
qed

text \<open>C23. \<open>SzlACMRandom\<close> accepts every seed, and each \<open>Next\<close>, which avoids the division, is the
  multiplication by 16807 modulo the prime \<open>2^31 - 1\<close>; the state stays in \<open>[1, 2^31 - 2]\<close>.\<close>

theorem acm_Next_multiplies:
  "acm_ok (acm_Reset seed) \<and>
   (acm_ok s \<longrightarrow> acm_ok (snd (acm_Next s)) \<and> fst (acm_Next s) = snd (acm_Next s)
      \<and> unat (fst (acm_Next s)) = unat s * 16807 mod (2 ^ 31 - 1))"
  using acm_Reset_ok acm_Next_mod [of s] by (simp add: M31_def)

theorem acm_Next_multiplies_witness: "unat (fst (acm_Next 127773)) = 127773 * 16807 mod (2 ^ 31 - 1)"
  using acm_Next_multiplies [of 0 127773] by (auto simp: acm_ok_def M31_def)

text \<open>C22. The rejection loop of \<open>SzlACMRandom::UnbiasedUniform\<close> ends for every seed and every
  \<open>n\<close> the check lets through: half a period after a rejected value \<open>x\<close> the generator draws
  \<open>- x\<close>, which is not rejected.  The result is below \<open>n\<close>.\<close>

theorem acm_UnbiasedUniform_returns:
  assumes "acm_ok s" and "n \<le> ACM_M - 2"
  shows "\<exists>r s'. acm_UnbiasedUniform n s = Ok (Some (r, s')) \<and> acm_ok s' \<and> (if n = 0 then r = 0 else r < n)"
proof (cases "n = 0")
  case True
  then show ?thesis using assms acm_Next_ok [of s] by (auto simp: acm_UnbiasedUniform_def split: prod.splits)
next
  case False
  let ?rem = "(ACM_M - 2) mod n" let ?bad = "acm_rejects n" let ?f = "\<lambda>s. snd (acm_Next s)"
  note rem = acm_rem_small [OF False assms(2)]
  have fs: "fst (acm_Next s) = ?f s" if "acm_ok s" for s using acm_Next_mod(1) [OF that] by simp
  have ok1: "acm_ok (?f s)" using acm_Next_ok [OF assms(1)] by blast
  obtain y where y: "reject acm_Next ?bad s = Some y"
  proof (cases "?bad (?f s)")
    case False
    then show ?thesis using fs [OF assms(1)] that by (simp add: reject_step [of _ _ s])
  next
    case True
    have "unat ((?f ^^ half_period) (?f s)) = M31 - unat (?f s)" by (rule acm_half [OF ok1])
    then have "\<not> ?bad ((?f ^^ half_period) (?f s))" using True rem by (simp add: acm_rejects_def word_le_nat_alt)
    moreover have "fst (acm_Next ((?f ^^ half_period) s)) = (?f ^^ half_period) (?f s)"
      using fs [of "(?f ^^ half_period) s"] acm_iterate [OF assms(1), of half_period] funpow_swap1 [of ?f half_period s]
      by simp
    ultimately have "\<not> ?bad (fst (acm_Next ((?f ^^ half_period) s)))" by simp
    then show ?thesis using reject_returns [of ?bad acm_Next half_period s] that by blast
  qed
  then have "acm_ok (snd y)" using reject_Some [OF y, of acm_ok "\<lambda>_. True"] assms(1) acm_Next_ok by blast
  moreover have "acm_UnbiasedUniform n s = Ok (Some (fst y mod n, snd y))"
    using y assms(2) False by (simp add: acm_UnbiasedUniform_def Let_def case_prod_beta)
  moreover have "fst y mod n < n" using False by (simp add: word_mod_less_divisor word_gt_0)
  ultimately show ?thesis using False by auto
qed

theorem acm_UnbiasedUniform_returns_witness:
  "\<exists>r s'. acm_UnbiasedUniform 10 (acm_Reset 301) = Ok (Some (r, s')) \<and> r < 10"
  using acm_UnbiasedUniform_returns [of "acm_Reset 301" 10] acm_Reset_ok by (force simp: ACM_M_def)

text \<open>C24. Rejection sampling in the base class is unbiased: for every \<open>n\<close> each value below \<open>n\<close> is
  produced by exactly \<open>2^32 div n\<close> of the \<open>2^32\<close> words that can be drawn, and likewise with 64 bits.
  (A generator that always draws \<open>x\<close> returns exactly when \<open>x\<close> is accepted.)\<close>

theorem UnbiasedUniform_unbiased:
  "(0 <s n \<longrightarrow> r < n \<longrightarrow>
      card {x. UnbiasedUniform (\<lambda>s. (x, s)) n s = Ok (Some (r, s))} = 2 ^ 32 div unat n) \<and>
   (r' < n' \<longrightarrow> card {x. UnbiasedUniform64 (\<lambda>s. (x, s)) n' s = Some (r', s)} = 2 ^ 64 div unat n')"
proof (intro conjI impI)
  assume n: "0 <s n" "r < n"
  then have "UnbiasedUniform (\<lambda>s. (x, s)) n s = Ok (Some (r, s)) \<longleftrightarrow> draw n x = Some r" for x
    by (subst UnbiasedUniform_const) (auto simp: word_sle_eq word_sless_eq)
  then show "card {x. UnbiasedUniform (\<lambda>s. (x, s)) n s = Ok (Some (r, s))} = 2 ^ 32 div unat n"
    using draw_uniform [OF n(2)] by simp
next
  assume n: "r' < n'"
  then have "n' \<noteq> 0" by auto
  then have "UnbiasedUniform64 (\<lambda>s. (x, s)) n' s = Some (r', s) \<longleftrightarrow> draw n' x = Some r'" for x
    by (auto simp: UnbiasedUniform64_const)
  then show "card {x. UnbiasedUniform64 (\<lambda>s. (x, s)) n' s = Some (r', s)} = 2 ^ 64 div unat n'"
    using draw_uniform [OF n] by simp
qed

theorem UnbiasedUniform_unbiased_witness:
  "card {x. UnbiasedUniform (\<lambda>s. (x, s)) 6 () = Ok (Some (5, ()))} = 715827882"
  using UnbiasedUniform_unbiased [of 6 5 "()" 0 0] by (simp add: word_sless_alt)

text \<open>C34. \<open>SzlACMRandom::UnbiasedUniform\<close> is biased for every \<open>n\<close> above 1: its range is one too small,
  so the number of accepted states is not a multiple of \<open>n\<close> and the values below \<open>n\<close> cannot all
  come from equally many of them.\<close>

theorem acm_UnbiasedUniform_biased:
  assumes "1 < n" and "n \<le> ACM_M - 2"
  shows "\<not> (\<exists>c. \<forall>r < n. card {x. acm_ok x \<and> \<not> acm_rejects n x \<and> x mod n = r} = c)"
proof
  let ?rem = "(ACM_M - 2) mod n" let ?S = "\<lambda>r. {x. acm_ok x \<and> \<not> acm_rejects n x \<and> x mod n = r}"
  assume "\<exists>c. \<forall>r < n. card (?S r) = c"
  then obtain c where c: "\<And>r. r < n \<Longrightarrow> card (?S r) = c" by blast
  have n0: "n \<noteq> 0" "1 < unat n" using assms(1) by (auto simp: word_less_nat_alt)
  note rem = acm_rem_small [OF n0(1) assms(2)]
  let ?A = "{x. acm_ok x \<and> \<not> acm_rejects n x}"
  have un: "?A = (\<Union>r \<in> {r. r < n}. ?S r)" using n0(1) by (auto simp: word_mod_less_divisor word_gt_0)
  have "card ?A = (\<Sum>r \<in> {r. r < n}. card (?S r))" unfolding un by (rule card_UN_disjoint) auto
  also have "\<dots> = card {r. r < n} * c" using c by simp
  also have "card {r. r < n} = card {y. y < 2 ^ 32 \<and> y < unat n}"
    using card_words [of "\<lambda>y. y < unat n", where 'a = 32] by (simp add: word_less_nat_alt)
  also have "{y. y < 2 ^ 32 \<and> y < unat n} = {..<unat n}" using unsigned_less [of n, where 'a = nat] by auto
  finally have A: "card ?A = unat n * c" by simp
  have "?A = {x. unat ?rem < unat x \<and> unat x < M31}" by (auto simp: acm_ok_def acm_rejects_def word_le_nat_alt)
  then have "card ?A = card {y. y < 2 ^ 32 \<and> unat ?rem < y \<and> y < M31}"
    using card_words [of "\<lambda>y. unat ?rem < y \<and> y < M31", where 'a = 32] by simp
  also have "{y. y < 2 ^ 32 \<and> unat ?rem < y \<and> y < M31} = {Suc (unat ?rem)..<M31}" by (auto simp: M31_def)
  finally have "card ?A = M31 - 1 - unat ?rem" by simp
  moreover have "M31 - 2 = (M31 - 2) div unat n * unat n + unat ?rem" unfolding rem(3) by simp
  ultimately have "unat n * c = (M31 - 2) div unat n * unat n + 1" using A by (simp add: M31_def)
  then have "unat n dvd (M31 - 2) div unat n * unat n + 1" by (metis dvd_triv_left)
  then have "unat n dvd 1" by (metis dvd_add_right_iff dvd_triv_right)
  then show False using n0(2) by simp
qed

theorem acm_UnbiasedUniform_biased_witness:
  "\<not> (\<exists>c. \<forall>r < 2. card {x. acm_ok x \<and> \<not> acm_rejects 2 x \<and> x mod 2 = r} = c)"
  by (rule acm_UnbiasedUniform_biased) (simp_all add: ACM_M_def)

text \<open>C33. \<open>MTRandom::Cycle\<close>, two loops and a last step without any modulo operation, is the
  recurrence of the Mersenne twister, in which the indices wrap around.\<close>

theorem mt_Cycle_reference:
  "mt_Cycle c = c\<lparr>mt_buffer := fold (\<lambda>i x. x[i := x ! ((i + kMT_M) mod kMTNumWords)
       XOR twist (x ! i) (x ! ((i + 1) mod kMTNumWords))]) [0..<kMTNumWords] (mt_buffer c), mt_randcnt := 0\<rparr>"
proof -
  let ?f = "\<lambda>i (x :: u32 list). x[i := x ! ((i + kMT_M) mod kMTNumWords) XOR twist (x ! i) (x ! ((i + 1) mod kMTNumWords))]"
  have split: "[i..<k] = [i..<j] @ [j..<k]" if "i \<le> j" "j \<le> k" for i j k :: nat
    using upt_add_eq_append [OF that(1), of "k - j"] that(2) by simp
  have "[0..<624] = [0..<227] @ [227..<624 :: nat]" by (rule split) simp_all
  also have "[227..<624] = [227..<623] @ [623..<624 :: nat]" by (rule split) simp_all
  also have "[623..<624] = [623 :: nat]" by (simp add: upt_rec)
  finally have all: "fold ?f [0..<kMTNumWords] x = ?f 623 (fold ?f [227..<623] (fold ?f [0..<227] x))" for x
    by (simp only: kMTNumWords_def fold_append comp_def fold_simps)
  have a: "fold ?f [0..<227] x = fold (\<lambda>i x. x[i := x ! (i + kMT_M) XOR twist (x ! i) (x ! (i + 1))]) [0..<227] x" for x
  proof (rule fold_cong)
    fix i :: nat assume "i \<in> set [0..<227]"
    then have "i < 227" by (simp only: set_upt atLeastLessThan_iff)
    then show "?f i = (\<lambda>x. x[i := x ! (i + kMT_M) XOR twist (x ! i) (x ! (i + 1))])"
      by (simp add: kMTNumWords_def kMT_M_def)
  qed (rule refl)+
  have b: "fold ?f [227..<623] x = fold (\<lambda>i x. x[i := x ! (i - 227) XOR twist (x ! i) (x ! (i + 1))]) [227..<623] x" for x
  proof (rule fold_cong)
    fix i :: nat assume "i \<in> set [227..<623]"
    then have "227 \<le> i" "i < 623" by (simp_all only: set_upt atLeastLessThan_iff)
    then have "(i + 397) mod 624 = i - 227" "(i + 1) mod 624 = i + 1" by (auto simp: mod_if)
    then show "?f i = (\<lambda>x. x[i := x ! (i - 227) XOR twist (x ! i) (x ! (i + 1))])"
      by (simp add: kMTNumWords_def kMT_M_def)
  qed (rule refl)+
  show ?thesis
    unfolding all a b mt_Cycle_def Let_def
    by (rule arg_cong2 [of _ _ _ _ "\<lambda>x c. c\<lparr>mt_buffer := x, mt_randcnt := 0\<rparr>"])
      (simp_all only: kMTNumWords_def kMT_M_def, simp_all add: Let_def del: upt_rec_numeral)
qed

text \<open>The seed from the host name does not depend on the order of its twelve-byte blocks, because
  the result of the mixing in the loop is dropped.\<close>

lemma HostnamePidTimeSeed_unmixed:
  assumes "length x = 12" and "length y = 12"
  shows "HostnamePidTimeSeed (x @ y) pid clock = HostnamePidTimeSeed (y @ x) pid clock"
proof -
  have "Word32At (drop k (u @ r)) = Word32At (drop k u)" if "length u = 12" "k \<le> 8" for u r k
    using that by (simp add: Word32At_def nth_append)
  note w = this
  have "host_seed_loop (u @ v @ r) (Suc (Suc 0)) (a, b, c) =
      (a + Word32At u + Word32At v, b + Word32At (drop 4 u) + Word32At (drop 4 v),
       c + Word32At (drop 8 u) + Word32At (drop 8 v))"
    if "length u = 12" "length v = 12" for u v r a b c
    using that w [of u _ "v @ r"] w [of v _ r] w [of u 0 "v @ r"] w [of v 0 r]
    by (simp add: drop_drop del: drop_append) (simp add: drop_append)
  from this [OF assms] this [OF assms(2,1)] show ?thesis
    using assms by (simp add: HostnamePidTimeSeed_def numeral_2_eq_2 ac_simps del: host_seed_loop.simps)
qed

end
