(* ===== verification/Szl_Sample.thy ===== *)
theory Szl_Sample
  imports Szl_Maximum Szl_Random
begin

text \<open>
  The \<open>sample\<close> table (src/src/emitters/szlsample.cc) and its reader
  (src/src/emitters/szlsampleresults.cc): every element gets a random tag from its own
  \<open>SzlACMRandom\<close>, and a \<open>SzlHeap\<close> keeps the elements with the biggest tags.  The tags are not
  flushed; a merge draws new ones.
\<close>

text \<open>A table without a weight has integer weights (\<open>SzlTabWriter\<close>).\<close>

definition tag_ops :: szl_ops where
  "tag_ops = SzlOps kInt [Flat K_INT]"

record sample_entry =
  sm_heap :: szl_heap
  sm_tot :: i64
  sm_random :: acm

text \<open>\<open>seed\<close> is what \<open>HostnamePidTimeSeed\<close> gave.\<close>

definition new_sample :: "i32 \<Rightarrow> int \<Rightarrow> sample_entry" where
  "new_sample seed param = \<lparr>sm_heap = new_heap param, sm_tot = 0, sm_random = acm_Reset seed\<rparr>"

definition sample_AddElem :: "bytes \<Rightarrow> sample_entry \<Rightarrow> (int \<times> sample_entry) res" where
  "sample_AddElem elem s =
     (let (tag, rnd) = acm_Next (sm_random s) in
      bind_res (heap_AddElem tag_ops SzlValueLess elem (VInt (scast tag)) (sm_heap s)) (\<lambda>(m, h).
        Ok (m, \<lparr>sm_heap = h, sm_tot = sm_tot s + 1, sm_random = rnd\<rparr>)))"

definition sample_Clear :: "sample_entry \<Rightarrow> sample_entry res" where
  "sample_Clear s = bind_res (heap_Clear tag_ops (sm_heap s)) (\<lambda>h. Ok (s\<lparr>sm_tot := 0, sm_heap := h\<rparr>))"

definition sample_Memory :: "int \<Rightarrow> int \<Rightarrow> int \<Rightarrow> sample_entry \<Rightarrow> int res" where
  "sample_Memory entry_size base each s =
     bind_res (heap_Memory base each tag_ops (sm_heap s)) (\<lambda>m. Ok (entry_size + m))"

definition sample_TupleCount :: "sample_entry \<Rightarrow> int" where
  "sample_TupleCount s = heap_nElems (sm_heap s)"

definition sample_Flush :: "sample_entry \<Rightarrow> (bytes \<times> sample_entry) res" where
  "sample_Flush s =
     (let h = sm_heap s; n = word_of_int (heap_nElems h) in
      if heap_nElems h = 0 then Ok ([], s)
      else
        let enc = fold (\<lambda>e. PutBytes (el_value e)) (hp_elems h) (PutInt n (PutInt (sm_tot s - n) new_encoder)) in
        bind_res (sample_Clear s) (\<lambda>s'. Ok (fst (enc_Swap enc), s')))"

definition sample_FlushForDisplay :: "sample_entry \<Rightarrow> bytes list" where
  "sample_FlushForDisplay s =
     (if heap_nElems (sm_heap s) = 0 then [[]] else map el_value (hp_elems (sm_heap s)))"

fun skip_bytes_n :: "nat \<Rightarrow> szl_decoder \<Rightarrow> szl_decoder option" where
  "skip_bytes_n 0 d = Some d"
| "skip_bytes_n (Suc n) d = (case Skip K_BYTES d of None \<Rightarrow> None | Some d' \<Rightarrow> skip_bytes_n n d')"

fun sample_merge_loop :: "nat \<Rightarrow> szl_decoder \<Rightarrow> sample_entry \<Rightarrow> (merge_status \<times> sample_entry) res" where
  "sample_merge_loop 0 d s = Ok (MergeOk, s)"
| "sample_merge_loop (Suc n) d s =
     (case GetBytes d of
        None \<Rightarrow> Ok (MergeError, s)
      | Some (b, d') \<Rightarrow> bind_res (sample_AddElem b s) (\<lambda>(m, s'). sample_merge_loop n d' s'))"

definition sample_Merge :: "bytes \<Rightarrow> sample_entry \<Rightarrow> (merge_status \<times> sample_entry) res" where
  "sample_Merge val s =
     (if val = [] then Ok (MergeOk, s)
      else
        case GetInt (new_decoder val) of
          None \<Rightarrow> Ok (MergeError, s)
        | Some (extra, d) \<Rightarrow>
            (case GetInt d of
               None \<Rightarrow> Ok (MergeError, s)
             | Some (nvals, d) \<Rightarrow>
                 let maxElems = hp_maxElems (sm_heap s); n = nat (sint nvals) in
                 if sint nvals > maxElems \<or> sint nvals < maxElems \<and> extra \<noteq> 0 then Ok (MergeError, s)
                 else
                   case skip_bytes_n n d of
                     None \<Rightarrow> Ok (MergeError, s)
                   | Some d1 \<Rightarrow>
                       if \<not> dec_done d1 then Ok (MergeError, s)
                       else
                         case Skip K_INT (Restart d1) of
                           None \<Rightarrow> Ok (MergeError, s)
                         | Some d2 \<Rightarrow>
                             (case Skip K_INT d2 of
                                None \<Rightarrow> Ok (MergeError, s)
                              | Some d3 \<Rightarrow>
                                  bind_res (sample_merge_loop n d3 s) (\<lambda>(st, s').
                                    if st = MergeError then Ok (MergeError, s')
                                    else Ok (MergeOk, s'\<lparr>sm_tot := sm_tot s' + extra\<rparr>)))))"


section \<open>The reader\<close>

record sample_results =
  sa_elems :: "bytes list"
  sa_tot :: i64

fun read_bytes_n :: "nat \<Rightarrow> szl_decoder \<Rightarrow> bytes list res" where
  "read_bytes_n 0 d = Ok []"
| "read_bytes_n (Suc n) d =
     (case GetBytes d of
        None \<Rightarrow> Inl Check_failed
      | Some (b, d') \<Rightarrow> bind_res (read_bytes_n n d') (\<lambda>bs. Ok (b # bs)))"

definition sampleres_ParseFromString :: "int \<Rightarrow> bytes \<Rightarrow> (bool \<times> sample_results) res" where
  "sampleres_ParseFromString maxElems val =
     (let fail = Ok (False, \<lparr>sa_elems = [], sa_tot = 0\<rparr>) in
      if val = [] then Ok (True, \<lparr>sa_elems = [], sa_tot = 0\<rparr>)
      else
        case GetInt (new_decoder val) of
          None \<Rightarrow> fail
        | Some (extra, d) \<Rightarrow>
            (case GetInt d of
               None \<Rightarrow> fail
             | Some (nvals, d) \<Rightarrow>
                 let n = nat (sint nvals) in
                 if sint nvals > maxElems \<or> sint nvals < maxElems \<and> extra \<noteq> 0 then fail
                 else
                   case skip_bytes_n n d of
                     None \<Rightarrow> fail
                   | Some d1 \<Rightarrow>
                       if \<not> dec_done d1 then fail
                       else
                         case Skip K_INT (Restart d1) of
                           None \<Rightarrow> Inl Check_failed
                         | Some d2 \<Rightarrow>
                             (case Skip K_INT d2 of
                                None \<Rightarrow> Inl Check_failed
                              | Some d3 \<Rightarrow>
                                  bind_res (read_bytes_n n d3) (\<lambda>bs.
                                    Ok (True, \<lparr>sa_elems = bs, sa_tot = extra + nvals\<rparr>)))))"


section \<open>Strings on the wire\<close>

lemma put_bytes_list:
  "fold (\<lambda>e. PutBytes (f e)) es enc = AppendEncoding (concat (map (\<lambda>e. bytes_enc (f e)) es)) enc"
  by (induction es arbitrary: enc) (simp_all add: PutBytes_eq AppendEncoding_append AppendEncoding_nil)

lemma skip_bytes_n_enc:
  "cur d = concat (map bytes_enc bs) @ r \<Longrightarrow>
    skip_bytes_n (length bs) d = Some (adv (length (concat (map bytes_enc bs))) d)"
proof (induction bs arbitrary: d)
  case (Cons b bs)
  have "Skip K_BYTES d = Some (adv (length (bytes_enc b)) d)" using Cons.prems by (intro bytes_c.skip_enc) auto
  moreover have "skip_bytes_n (length bs) (adv (length (bytes_enc b)) d)
      = Some (adv (length (concat (map bytes_enc bs))) (adv (length (bytes_enc b)) d))"
    using Cons.prems by (intro Cons.IH) simp
  ultimately show ?case by simp
qed simp

lemma read_bytes_n_enc:
  "cur d = concat (map bytes_enc bs) @ r \<Longrightarrow> read_bytes_n (length bs) d = Ok bs"
proof (induction bs arbitrary: d)
  case (Cons b bs)
  have "GetBytes d = Some (b, adv (length (bytes_enc b)) d)" using Cons.prems by (intro bytes_c.get_enc) auto
  moreover have "read_bytes_n (length bs) (adv (length (bytes_enc b)) d) = Ok bs"
    using Cons.prems by (intro Cons.IH) simp
  ultimately show ?case by simp
qed simp

lemma sample_merge_loop_enc:
  "cur d = concat (map bytes_enc bs) @ r \<Longrightarrow>
    fold_res (\<lambda>b s. bind_res (sample_AddElem b s) (\<lambda>(m, s'). Ok s')) bs s = Ok s' \<Longrightarrow>
    sample_merge_loop (length bs) d s = Ok (MergeOk, s')"
proof (induction bs arbitrary: d s)
  case (Cons b bs)
  have "GetBytes d = Some (b, adv (length (bytes_enc b)) d)" using Cons.prems by (intro bytes_c.get_enc) auto
  moreover obtain m s1 where "sample_AddElem b s = Ok (m, s1)"
    "fold_res (\<lambda>b s. bind_res (sample_AddElem b s) (\<lambda>(m, s'). Ok s')) bs s1 = Ok s'"
    using Cons.prems(2) by (auto simp: bind_res_eq_Ok)
  moreover from this have "sample_merge_loop (length bs) (adv (length (bytes_enc b)) d) s1 = Ok (MergeOk, s')"
    using Cons.prems by (intro Cons.IH) simp_all
  ultimately show ?case by simp
qed simp


section \<open>The contract\<close>

definition sample_ok :: "int \<Rightarrow> bool" where
  "sample_ok n \<longleftrightarrow> 0 < n \<and> n < 2 ^ 31"

text \<open>The heap holds as many of the elements \<open>M\<close> as it can.\<close>

definition sample_rep :: "int \<Rightarrow> bytes multiset \<Rightarrow> sample_entry \<Rightarrow> bool" where
  "sample_rep n M s \<longleftrightarrow> (sample_ok n \<longrightarrow>
     (\<exists>X. keeps tag_ops SzlValueLess X (sm_heap s) \<and> image_mset fst X \<subseteq># M)
     \<and> hp_maxElems (sm_heap s) = n \<and> length (hp_elems (sm_heap s)) = min (nat n) (size M)
     \<and> sm_tot s = of_nat (size M) \<and> acm_ok (sm_random s))"

definition sample_fits :: "int \<Rightarrow> bytes multiset \<Rightarrow> bool" where
  "sample_fits n M \<longleftrightarrow> sample_ok n"

definition sample_add :: "bytes \<Rightarrow> sample_entry \<Rightarrow> sample_entry res" where
  "sample_add e s = bind_res (sample_AddElem e s) (\<lambda>(m, s'). Ok s')"

lemma tag_tv [simp]: "tv tag_ops (VInt i)"
  by (rule typed_tv(1)) (simp_all add: tag_ops_def kInt_def new_type_def wf_ops.simps typed.simps typed_base_def)

lemma keeps_values:
  assumes "keeps p c X h"
  shows "mset (map el_value (hp_elems h)) \<subseteq># image_mset fst X"
proof -
  obtain D where "X = mset (map (elem_key p) (hp_elems h)) + D" using assms by (auto simp: keeps_def)
  then have "image_mset fst X = mset (map el_value (hp_elems h)) + image_mset fst D"
    by (simp add: elem_key_def multiset.map_comp comp_def)
  then show ?thesis by simp
qed

lemma sample_add_rep:
  assumes "sample_rep n M s" and "sample_ok n"
  shows "\<exists>s'. sample_add e s = Ok s' \<and> sample_rep n (add_mset e M) s'"
proof -
  obtain X where X: "keeps tag_ops SzlValueLess X (sm_heap s)" "image_mset fst X \<subseteq># M"
    and s: "hp_maxElems (sm_heap s) = n" "length (hp_elems (sm_heap s)) = min (nat n) (size M)"
      "sm_tot s = of_nat (size M)" "acm_ok (sm_random s)"
    using assms by (auto simp: sample_rep_def)
  obtain tag rnd where r: "acm_Next (sm_random s) = (tag, rnd)" "acm_ok rnd"
    using acm_Next_ok [OF s(4)] by (cases "acm_Next (sm_random s)") simp
  let ?x = "(e, vkey tag_ops (Some (VInt (scast tag :: i64))))"
  obtain m h where h: "heap_AddElem tag_ops SzlValueLess e (VInt (scast tag)) (sm_heap s) = Ok (m, h)"
    "keeps tag_ops SzlValueLess (add_mset ?x X) h" "hp_maxElems h = n"
    using AddElem_room [OF X(1) tag_tv] AddElem_full [OF X(1) tag_tv] s(1) by metis
  have "length (hp_elems h) = min (nat n) (Suc (size X))" "length (hp_elems (sm_heap s)) = min (nat n) (size X)"
    using h(2,3) X(1) s(1) by (auto simp: keeps_def)
  then have "length (hp_elems h) = min (nat n) (size (add_mset e M))"
    using s(2) by (auto simp: min_def split: if_splits)
  moreover have "image_mset fst (add_mset ?x X) \<subseteq># add_mset e M" using X(2) by simp
  ultimately have "sample_rep n (add_mset e M) \<lparr>sm_heap = h, sm_tot = sm_tot s + 1, sm_random = rnd\<rparr>"
    using h(2,3) s(3) r(2) unfolding sample_rep_def by (auto intro!: exI [of _ "add_mset ?x X"])
  then show ?thesis using h(1) r(1) by (simp add: sample_add_def sample_AddElem_def)
qed

lemma sample_Flush_rep:
  assumes "sample_rep n M s" and "sample_ok n"
  shows "\<exists>s' bs. sample_rep n {#} s' \<and> mset bs \<subseteq># M \<and> length bs = min (nat n) (size M)
    \<and> sample_Flush s = Ok (if bs = [] then []
        else int_enc (of_nat (size M) - of_nat (length bs)) @ int_enc (of_nat (length bs)) @ concat (map bytes_enc bs), s')"
proof -
  let ?h = "sm_heap s" let ?bs = "map el_value (hp_elems ?h)"
  obtain X where X: "keeps tag_ops SzlValueLess X ?h" "image_mset fst X \<subseteq># M"
    and s: "hp_maxElems ?h = n" "length (hp_elems ?h) = min (nat n) (size M)"
      "sm_tot s = of_nat (size M)" "acm_ok (sm_random s)"
    using assms by (auto simp: sample_rep_def)
  have sub: "mset ?bs \<subseteq># M" using keeps_values [OF X(1)] X(2) by (rule subset_mset.order_trans)
  have "sample_Clear s = Ok (s\<lparr>sm_tot := 0, sm_heap := ?h\<lparr>hp_elems := []\<rparr>\<rparr>)"
    using heap_Clear_typed [OF keepsD(1) [OF X(1)]] by (simp add: sample_Clear_def)
  moreover have "sample_rep n {#} (s\<lparr>sm_tot := 0, sm_heap := ?h\<lparr>hp_elems := []\<rparr>\<rparr>)"
    using s assms(2) by (auto simp: sample_rep_def keeps_def IsHeap_def sample_ok_def intro!: exI [of _ "{#}"])
  moreover have "sample_rep n {#} s" if "hp_elems ?h = []"
  proof -
    have "M = {#}" using that s(2) assms(2) by (auto simp: sample_ok_def min_def split: if_splits)
    then show ?thesis using assms(1) by simp
  qed
  ultimately show ?thesis
    using sub s(2,3) put_bytes_list [of el_value "hp_elems ?h"]
    by (intro exI [of _ "if hp_elems ?h = [] then s else s\<lparr>sm_tot := 0, sm_heap := ?h\<lparr>hp_elems := []\<rparr>\<rparr>"] exI [of _ ?bs])
      (auto simp: sample_Flush_def Let_def heap_nElems_def PutInt_eq enc_Swap_def comp_def)
qed

lemma sample_add_list:
  "sample_rep n N t \<Longrightarrow> sample_ok n \<Longrightarrow>
    \<exists>t'. fold_res (\<lambda>b s. bind_res (sample_AddElem b s) (\<lambda>(m, s'). Ok s')) bs t = Ok t' \<and> sample_rep n (mset bs + N) t'"
proof (induction bs arbitrary: N t)
  case (Cons b bs)
  obtain t1 where t1: "sample_add b t = Ok t1" "sample_rep n (add_mset b N) t1"
    using sample_add_rep [OF Cons.prems] by blast
  from Cons.IH [OF t1(2) Cons.prems(2)] show ?case using t1(1) by (auto simp: sample_add_def)
qed simp

lemma sample_wire:
  assumes "sample_ok n" and "int (length bs) \<le> n" and "int (length bs) < n \<Longrightarrow> extra = 0"
  shows "hp_maxElems (sm_heap t) = n \<Longrightarrow>
      fold_res (\<lambda>b s. bind_res (sample_AddElem b s) (\<lambda>(m, s'). Ok s')) bs t = Ok t' \<Longrightarrow>
      sample_Merge (int_enc extra @ int_enc (of_nat (length bs)) @ concat (map bytes_enc bs)) t
        = Ok (MergeOk, t'\<lparr>sm_tot := sm_tot t' + extra\<rparr>)"
    and "sampleres_ParseFromString n (int_enc extra @ int_enc (of_nat (length bs)) @ concat (map bytes_enc bs))
        = Ok (True, \<lparr>sa_elems = bs, sa_tot = extra + of_nat (length bs)\<rparr>)"
proof -
  let ?n = "of_nat (length bs) :: i64" let ?ps = "concat (map bytes_enc bs)"
  let ?b = "int_enc extra @ int_enc ?n @ ?ps"
  let ?d1 = "adv (length (int_enc extra)) (new_decoder ?b)" let ?d2 = "adv (length (int_enc ?n)) ?d1"
  have sn: "sint ?n = int (length bs)"
    using assms(1,2) by (simp add: sample_ok_def signed_of_nat signed_take_bit_int_eq_self)
  have g: "GetInt (new_decoder ?b) = Some (extra, ?d1)" "Skip K_INT (new_decoder ?b) = Some ?d1"
    "GetInt ?d1 = Some (?n, ?d2)" "Skip K_INT ?d1 = Some ?d2"
    by (rule GetInt_int_enc Skip_int_enc, simp)+
  have c: "cur ?d2 = ?ps @ []" by simp
  have sk: "skip_bytes_n (length bs) ?d2 = Some (adv (length ?ps) ?d2)" by (rule skip_bytes_n_enc [OF c])
  have re: "Restart (adv (length ?ps) ?d2) = new_decoder ?b" "dec_done (adv (length ?ps) ?d2)"
    by (simp_all add: Restart_def adv_def new_decoder_def dec_done_def)
  have ok: "\<not> (n < sint ?n \<or> sint ?n < n \<and> extra \<noteq> 0)" using sn assms(2,3) by linarith
  show "sample_Merge ?b t = Ok (MergeOk, t'\<lparr>sm_tot := sm_tot t' + extra\<rparr>)"
    if "hp_maxElems (sm_heap t) = n"
      "fold_res (\<lambda>b s. bind_res (sample_AddElem b s) (\<lambda>(m, s'). Ok s')) bs t = Ok t'"
    using that sn g sk re ok sample_merge_loop_enc [OF c that(2)]
    by (simp add: sample_Merge_def Let_def del: adv_adv skip_bytes_n.simps sample_merge_loop.simps)
  show "sampleres_ParseFromString n ?b = Ok (True, \<lparr>sa_elems = bs, sa_tot = extra + ?n\<rparr>)"
    using sn g sk re ok read_bytes_n_enc [OF c]
    by (simp add: sampleres_ParseFromString_def Let_def del: adv_adv skip_bytes_n.simps read_bytes_n.simps)
qed

lemma sample_Merge_rep:
  assumes "sample_rep n M s" and "sample_Flush s = Ok (b, s')" and "sample_rep n N t" and "sample_ok n"
  shows "\<exists>t'. sample_Merge b t = Ok (MergeOk, t') \<and> sample_rep n (M + N) t'"
proof -
  obtain bs where bs: "mset bs \<subseteq># M" "length bs = min (nat n) (size M)"
    "b = (if bs = [] then [] else int_enc (of_nat (size M) - of_nat (length bs)) @ int_enc (of_nat (length bs))
      @ concat (map bytes_enc bs))"
    using sample_Flush_rep [OF assms(1,4)] assms(2) by auto
  show ?thesis
  proof (cases "bs = []")
    case True
    then have "M = {#}" using bs(2) assms(4) by (auto simp: sample_ok_def min_def split: if_splits)
    then show ?thesis using True bs(3) assms(3) by (simp add: sample_Merge_def)
  next
    case False
    obtain t' where t': "fold_res (\<lambda>b s. bind_res (sample_AddElem b s) (\<lambda>(m, s'). Ok s')) bs t = Ok t'"
      "sample_rep n (mset bs + N) t'" using sample_add_list [OF assms(3,4)] by blast
    let ?x = "of_nat (size M) - of_nat (length bs) :: i64"
    have "sample_Merge b t = Ok (MergeOk, t'\<lparr>sm_tot := sm_tot t' + ?x\<rparr>)"
      using False bs(2,3) assms(3,4) t'(1) sample_wire(1) [OF assms(4), of bs ?x t t']
      by (auto simp: sample_rep_def sample_ok_def min_def split: if_splits)
    moreover have "sample_rep n (M + N) (t'\<lparr>sm_tot := sm_tot t' + ?x\<rparr>)"
    proof -
      have "mset bs + N \<subseteq># M + N" using bs(1) by simp
      moreover have "min (nat n) (size (mset bs + N)) = min (nat n) (size (M + N))"
        using bs(2) by (auto simp: min_def)
      moreover from calculation(1) have "image_mset fst X \<subseteq># mset bs + N \<Longrightarrow> image_mset fst X \<subseteq># M + N"
        for X :: "(bytes \<times> okey) multiset" using subset_mset.order_trans by blast
      ultimately show ?thesis using t'(2) unfolding sample_rep_def by auto
    qed
    ultimately show ?thesis by blast
  qed
qed

interpretation sample_table: tab_entry "sample_fits n" "sample_rep n" "new_sample seed n" sample_add
  sample_Flush sample_Merge for n seed
proof
  show "sample_rep n {#} (new_sample seed n)"
    using keeps_new [of n tag_ops SzlValueLess] acm_Reset_ok
    by (auto simp: sample_rep_def new_sample_def sample_ok_def new_heap_def)
next
  fix M s assume "sample_rep n M s" "sample_fits n M"
  then show "\<exists>b s'. sample_Flush s = Ok (b, s') \<and> sample_rep n {#} s'"
    using sample_Flush_rep [of n M s] unfolding sample_fits_def by blast
qed (use sample_Merge_rep sample_add_rep in \<open>auto simp: sample_fits_def\<close>)


section \<open>Properties\<close>

text \<open>Every entry has a generator and a seed of its own.\<close>

definition sample_merge_shard :: "int \<Rightarrow> i32 \<times> bytes list \<Rightarrow> sample_entry \<Rightarrow> sample_entry res" where
  "sample_merge_shard n shard =
     tab_entry.merge_shard (new_sample (fst shard) n) sample_add sample_Flush sample_Merge (snd shard)"

lemma sample_shards_rep:
  "sample_rep n M t \<Longrightarrow> sample_ok n \<Longrightarrow>
    \<exists>t'. fold_res (sample_merge_shard n) shards t = Ok t' \<and> sample_rep n (mset (concat (map snd shards)) + M) t'"
proof (induction shards arbitrary: M t)
  case (Cons shard shards)
  obtain t1 where t1: "sample_merge_shard n shard t = Ok t1" "sample_rep n (mset (snd shard) + M) t1"
    using sample_table.merge_shard_rep [OF Cons.prems(1), of "snd shard" "fst shard"] Cons.prems(2)
    by (auto simp: sample_fits_def sample_merge_shard_def)
  show ?case using Cons.IH [OF t1(2) Cons.prems(2)] t1(1) by (simp add: ac_simps)
qed simp

text \<open>C21. However the elements of a \<open>sample\<close> table for \<open>n\<close> elements are split into shards, each with a
  seed of its own, flushing and merging never fails, the merged entry counts all elements, and it
  displays \<open>n\<close> of them, or all if there are fewer, none more often than it was emitted.  What it
  flushes is read back by the results reader.  Which elements are kept is left to the tags.\<close>

theorem sample_sharding:
  fixes shards :: "(i32 \<times> bytes list) list"
  assumes "0 < n" and "n < 2 ^ 31" and "concat (map snd shards) \<noteq> []"
  shows "\<exists>t b t'. fold_res (sample_merge_shard n) shards (new_sample seed n) = Ok t
    \<and> sm_tot t = of_nat (length (concat (map snd shards)))
    \<and> mset (sample_FlushForDisplay t) \<subseteq># mset (concat (map snd shards))
    \<and> length (sample_FlushForDisplay t) = min (nat n) (length (concat (map snd shards)))
    \<and> sample_Flush t = Ok (b, t')
    \<and> sampleres_ParseFromString n b =
        Ok (True, \<lparr>sa_elems = sample_FlushForDisplay t, sa_tot = of_nat (length (concat (map snd shards)))\<rparr>)"
proof -
  let ?es = "concat (map snd shards)"
  let ?M = "mset ?es"
  have ok: "sample_ok n" using assms by (simp add: sample_ok_def)
  then obtain t where t: "fold_res (sample_merge_shard n) shards (new_sample seed n) = Ok t" "sample_rep n ?M t"
    using sample_shards_rep [OF sample_table.rep_init ok, of shards seed] by auto
  let ?h = "sm_heap t" let ?bs = "map el_value (hp_elems ?h)"
  obtain X where X: "keeps tag_ops SzlValueLess X ?h" "image_mset fst X \<subseteq># ?M"
    and s: "length (hp_elems ?h) = min (nat n) (size ?M)" "sm_tot t = of_nat (size ?M)"
    using t(2) ok by (auto simp: sample_rep_def)
  have "length ?es \<noteq> 0" using assms(3) unfolding length_0_conv .
  then have "0 < length (hp_elems ?h)" unfolding s(1) size_mset min_less_iff_conj using assms(1) by linarith
  then have ne: "hp_elems ?h \<noteq> []" by simp
  then have disp: "sample_FlushForDisplay t = ?bs" by (simp add: sample_FlushForDisplay_def heap_nElems_def)
  have sub: "mset ?bs \<subseteq># ?M" using keeps_values [OF X(1)] X(2) by (rule subset_mset.order_trans)
  let ?x = "sm_tot t - of_nat (length ?bs) :: i64"
  let ?b = "int_enc ?x @ int_enc (of_nat (length ?bs)) @ concat (map bytes_enc ?bs)"
  obtain t' where fl: "sample_Flush t = Ok (?b, t')"
    using ne heap_Clear_typed [OF keepsD(1) [OF X(1)]] put_bytes_list [of el_value "hp_elems ?h"]
    by (simp add: sample_Flush_def sample_Clear_def Let_def heap_nElems_def PutInt_eq enc_Swap_def comp_def)
  have "sampleres_ParseFromString n ?b = Ok (True, \<lparr>sa_elems = ?bs, sa_tot = ?x + of_nat (length ?bs)\<rparr>)"
    using s assms(1) by (intro sample_wire(2) [OF ok]) (auto simp: min_def split: if_splits)
  then show ?thesis using t(1) s disp sub fl by (auto simp del: mset_concat)
qed

theorem sample_sharding_witness:
  "\<exists>t. fold_res (sample_merge_shard 2) [(7, [[1], [2]]), (8, [[3]])] (new_sample 9 2) = Ok t \<and> length (sample_FlushForDisplay t) = 2"
  using sample_sharding [of 2 "[(7, [[1], [2]]), (8, [[3]])]" 9] by auto

end
