(* ===== verification/Szl_Map.thy ===== *)
theory Szl_Map
  imports Szl_Keys "HOL-Library.AList"
begin

text \<open>
  The hash table behind the map values of the language (engine/map.cc).  A map owns an
  array of cells, filled from the front, and four times as many chain heads; the chains are
  threaded through the cells.  Here a pointer to a cell is the index of the cell in the
  array, and \<open>NULL\<close> is \<open>None\<close>; a key or value pointer is \<open>None\<close> while it is still \<open>NULL\<close>.
  The values stored are a type parameter; the comparison \<open>IsEqual\<close> and the hash function of
  the keys are arguments, because the values contain maps again (Szl\_Form closes the
  recursion).  Reference counts and the release of memory are not part of the model: a map
  is never shared here, so replacing an array and freeing the old one is an update.  Sizes
  are natural numbers: the products \<open>kHeadsPerCell * space\<close> and \<open>2 * space\<close>, which are \<open>int\<close> in the
  code, would overflow only for maps of \<open>2^29\<close> cells and more, whose cells alone need 16 gigabytes.

  The locale \<open>hash_key\<close> states what the table needs of its keys: on the admissible ones,
  equality is equality of some denotation, and the hash depends on the denotation only.
  Inside it, the chains are shown to hold exactly the cells of their bucket, and the
  operations to implement a finite function from denotations to values.
\<close>

section \<open>Cells and maps\<close>

datatype 'v MapCell =
  MapCell (cell_key: "'v option") (cell_value: "'v option") (cell_next: "nat option") (cell_hash: u32)

datatype 'v hmap =
  Hmap (m_occupancy: nat) (m_space: nat) (m_heads: "nat option list") (m_base: "'v MapCell list")

definition null_cell :: "'v MapCell" where
  "null_cell = MapCell None None None 0"

fun set_next :: "nat option \<Rightarrow> 'v MapCell \<Rightarrow> 'v MapCell" where
  "set_next p (MapCell k v _ h) = MapCell k v p h"

fun set_key :: "u32 \<Rightarrow> 'v \<Rightarrow> 'v MapCell \<Rightarrow> 'v MapCell" where
  "set_key h k (MapCell _ v p _) = MapCell (Some k) v p h"

fun set_value :: "'v \<Rightarrow> 'v MapCell \<Rightarrow> 'v MapCell" where
  "set_value v (MapCell k _ p h) = MapCell k (Some v) p h"

definition kMinNCell :: int where "kMinNCell = 16"
definition kHeadsPerCell :: nat where "kHeadsPerCell = 4"
definition kSlop :: int where "kSlop = 8192"


section \<open>Creation\<close>

lemma nat_and_le: "(x :: nat) AND y \<le> y"
  by (simp add: and_nat_def nat_le_iff)

text \<open>The loop that clears the low bits of a size until one is left.\<close>

function clear_low :: "nat \<Rightarrow> nat" where
  "clear_low sp = (if sp AND (sp - 1) \<noteq> 0 then clear_low (sp AND (sp - 1)) else sp)"
  by pat_completeness auto
termination
proof (relation "measure id")
  fix sp :: nat
  assume "sp AND (sp - 1) \<noteq> 0"
  moreover have "sp AND (sp - 1) \<le> sp - 1" by (rule nat_and_le)
  ultimately show "(sp AND (sp - 1), sp) \<in> measure id" by (cases sp) auto
qed simp

declare clear_low.simps [simp del]

definition make_space :: "int \<Rightarrow> bool \<Rightarrow> nat" where
  "make_space sp exact =
     (if sp \<le> kMinNCell then nat kMinNCell
      else if exact then nat sp
      else if sp < kSlop then
        (if nat sp AND (nat sp - 1) \<noteq> 0 then 2 * clear_low (nat sp) else nat sp)
      else nat sp + nat kSlop)"

definition MakeMapMem :: "int \<Rightarrow> bool \<Rightarrow> 'v hmap" where
  "MakeMapMem sp exact =
     (let n = make_space sp exact in
      Hmap 0 n (replicate (kHeadsPerCell * n) None) (replicate n null_cell))"


section \<open>Chains\<close>

definition bucket :: "nat \<Rightarrow> u32 \<Rightarrow> nat" where
  "bucket sp h = unat h mod (kHeadsPerCell * sp)"

definition ChainToNewLocation ::
    "nat \<Rightarrow> u32 \<Rightarrow> nat \<Rightarrow> nat option list \<times> 'v MapCell list \<Rightarrow> nat option list \<times> 'v MapCell list" where
  "ChainToNewLocation sp h i = (\<lambda>(hs, cells).
     let b = bucket sp h in (hs[b := Some i], cells[i := set_next (hs ! b) (cells ! i)]))"

text \<open>The walk along a chain.  More steps than there are cells visit some cell twice, and
  then the loop never ends.\<close>

fun chain_walk ::
    "('v \<Rightarrow> 'v \<Rightarrow> bool res) \<Rightarrow> 'v MapCell list \<Rightarrow> 'v \<Rightarrow> nat \<Rightarrow> nat option \<Rightarrow> nat option res" where
  "chain_walk eq cells key n None = Ok None"
| "chain_walk eq cells key 0 (Some i) = Inl Diverges"
| "chain_walk eq cells key (Suc n) (Some i) =
     (if length cells \<le> i then Inl Out_of_range
      else case cell_key (cells ! i) of
        None \<Rightarrow> Inl Null_deref
      | Some k \<Rightarrow> bind_res (eq k key) (\<lambda>b.
          if b then Ok (Some i) else chain_walk eq cells key n (cell_next (cells ! i))))"

definition FindLocation ::
    "('v \<Rightarrow> 'v \<Rightarrow> bool res) \<Rightarrow> nat option list \<Rightarrow> 'v MapCell list \<Rightarrow> nat \<Rightarrow> 'v \<Rightarrow> u32 \<Rightarrow> nat option res" where
  "FindLocation eq hs cells sp key h =
     (if length hs \<le> bucket sp h then Inl Out_of_range
      else chain_walk eq cells key (length cells) (hs ! bucket sp h))"

definition CopyCells ::
    "nat \<Rightarrow> 'v MapCell list \<Rightarrow> nat \<Rightarrow> nat option list \<times> 'v MapCell list" where
  "CopyCells to_size from_base from_occupancy =
     fold (\<lambda>i (hs, cells). ChainToNewLocation to_size (cell_hash (from_base ! i)) i
                              (hs, cells[i := from_base ! i]))
       [0..<from_occupancy]
       (replicate (kHeadsPerCell * to_size) None, replicate to_size null_cell)"


section \<open>Operations\<close>

definition GrowIfNeeded :: "nat option \<Rightarrow> u32 \<Rightarrow> 'v hmap \<Rightarrow> nat \<times> 'v hmap" where
  "GrowIfNeeded loc h m = (case loc of
     Some i \<Rightarrow> (i, m)
   | None \<Rightarrow>
       let occ = m_occupancy m;
           (sp, hs, cells) =
             (if occ = m_space m
              then let new_size = 2 * m_space m in (new_size, CopyCells new_size (m_base m) occ)
              else (m_space m, m_heads m, m_base m));
           (hs', cells') = ChainToNewLocation sp h occ (hs, cells)
       in (occ, Hmap (occ + 1) sp hs' cells'))"

definition Lookup ::
    "('v \<Rightarrow> 'v \<Rightarrow> bool res) \<Rightarrow> ('v \<Rightarrow> u32 res) \<Rightarrow> 'v hmap \<Rightarrow> 'v \<Rightarrow> int res" where
  "Lookup eq hash m key =
     bind_res (hash key) (\<lambda>h.
     bind_res (FindLocation eq (m_heads m) (m_base m) (m_space m) key h) (\<lambda>loc.
     Ok (case loc of None \<Rightarrow> - 1 | Some i \<Rightarrow> int i)))"

definition InsertKey ::
    "('v \<Rightarrow> 'v \<Rightarrow> bool res) \<Rightarrow> ('v \<Rightarrow> u32 res) \<Rightarrow> 'v \<Rightarrow> 'v hmap \<Rightarrow> (int \<times> 'v hmap) res" where
  "InsertKey eq hash key m =
     bind_res (hash key) (\<lambda>h.
     bind_res (FindLocation eq (m_heads m) (m_base m) (m_space m) key h) (\<lambda>loc.
     let (i, m') = GrowIfNeeded loc h m in
     Ok (int i, Hmap (m_occupancy m') (m_space m') (m_heads m')
                  ((m_base m')[i := set_key h key (m_base m' ! i)]))))"

definition legal_cell :: "'v hmap \<Rightarrow> int \<Rightarrow> bool" where
  "legal_cell m index \<longleftrightarrow> 0 \<le> index \<and> index < int (m_occupancy m)"

definition SetValue :: "int \<Rightarrow> 'v \<Rightarrow> 'v hmap \<Rightarrow> 'v hmap res" where
  "SetValue index v m =
     (if \<not> legal_cell m index then Inl Check_failed
      else if length (m_base m) \<le> nat index then Inl Out_of_range
      else let i = nat index in
        Ok (Hmap (m_occupancy m) (m_space m) (m_heads m)
              ((m_base m)[i := set_value v (m_base m ! i)])))"

definition Fetch :: "'v hmap \<Rightarrow> int \<Rightarrow> 'v option res" where
  "Fetch m index =
     (if \<not> legal_cell m index then Inl Check_failed
      else if length (m_base m) \<le> nat index then Inl Out_of_range
      else Ok (cell_value (m_base m ! nat index)))"

text \<open>\<open>MapVal::Fetch\<close> and \<open>MapVal::Insert\<close>, what the engine does with a map value.\<close>

definition MapVal_Fetch ::
    "('v \<Rightarrow> 'v \<Rightarrow> bool res) \<Rightarrow> ('v \<Rightarrow> u32 res) \<Rightarrow> 'v hmap \<Rightarrow> 'v \<Rightarrow> 'v option res" where
  "MapVal_Fetch eq hash m key =
     bind_res (Lookup eq hash m key) (\<lambda>index. if index = - 1 then Ok None else Fetch m index)"

definition MapVal_Insert ::
    "('v \<Rightarrow> 'v \<Rightarrow> bool res) \<Rightarrow> ('v \<Rightarrow> u32 res) \<Rightarrow> 'v \<times> 'v \<Rightarrow> 'v hmap \<Rightarrow> 'v hmap res" where
  "MapVal_Insert eq hash = (\<lambda>(key, v) m.
     bind_res (InsertKey eq hash key m) (\<lambda>(index, m'). SetValue index v m'))"

definition Clone :: "'v hmap \<Rightarrow> 'v hmap" where
  "Clone m =
     (let sp = make_space (int (m_space m)) (m_space m < m_occupancy m);
          (hs, cells) = CopyCells sp (m_base m) (m_occupancy m)
      in Hmap (m_occupancy m) sp hs cells)"

definition GetKeys :: "'v hmap \<Rightarrow> nat \<Rightarrow> 'v option list" where
  "GetKeys m array_length = map cell_key (take (min array_length (m_occupancy m)) (m_base m))"

definition GetKeyByIndex :: "'v hmap \<Rightarrow> nat \<Rightarrow> 'v option res" where
  "GetKeyByIndex m i =
     (if length (m_base m) \<le> i then Inl Out_of_range else Ok (cell_key (m_base m ! i)))"

definition GetValueByIndex :: "'v hmap \<Rightarrow> nat \<Rightarrow> 'v option res" where
  "GetValueByIndex m i =
     (if length (m_base m) \<le> i then Inl Out_of_range else Ok (cell_value (m_base m ! i)))"

text \<open>Dereferencing a key or value pointer.\<close>

definition deref :: "'v option \<Rightarrow> 'v res" where
  "deref p = (case p of None \<Rightarrow> Inl Null_deref | Some v \<Rightarrow> Ok v)"

fun EqualMap_loop ::
    "('v \<Rightarrow> 'v \<Rightarrow> bool res) \<Rightarrow> ('v \<Rightarrow> u32 res) \<Rightarrow> 'v hmap \<Rightarrow> 'v MapCell list \<Rightarrow> bool res" where
  "EqualMap_loop eq hash m [] = Ok True"
| "EqualMap_loop eq hash m (c # cs) =
     bind_res (deref (cell_key c)) (\<lambda>k.
     bind_res (Lookup eq hash m k) (\<lambda>index.
     if index < 0 then Ok False
     else bind_res (Fetch m index) (\<lambda>p.
       bind_res (deref (cell_value c)) (\<lambda>v.
       bind_res (deref p) (\<lambda>v'.
       bind_res (eq v v') (\<lambda>b. if \<not> b then Ok False else EqualMap_loop eq hash m cs))))))"

definition EqualMap ::
    "('v \<Rightarrow> 'v \<Rightarrow> bool res) \<Rightarrow> ('v \<Rightarrow> u32 res) \<Rightarrow> 'v hmap \<Rightarrow> 'v hmap \<Rightarrow> bool res" where
  "EqualMap eq hash m1 m2 =
     (if m_occupancy m1 \<noteq> m_occupancy m2 then Ok False
      else EqualMap_loop eq hash m2 (take (m_occupancy m1) (m_base m1)))"

text \<open>\<open>kFingerSeed\<close> and the fingerprint of a map, an exclusive or over the cells.\<close>

definition kFingerSeed :: u64 where
  "kFingerSeed = Fingerprint 0"

definition cell_print :: "('v \<Rightarrow> u64 res) \<Rightarrow> 'v MapCell \<Rightarrow> u64 res" where
  "cell_print fpr c =
     bind_res (deref (cell_key c)) (\<lambda>k. bind_res (fpr k) (\<lambda>x.
     bind_res (deref (cell_value c)) (\<lambda>v. bind_res (fpr v) (\<lambda>y. Ok (FingerprintCat x y)))))"

definition Map_Fingerprint :: "('v \<Rightarrow> u64 res) \<Rightarrow> 'v hmap \<Rightarrow> u64 res" where
  "Map_Fingerprint fpr m =
     bind_res (map_res (cell_print fpr) (take (m_occupancy m) (m_base m))) (\<lambda>prints.
     Ok (foldl (XOR) kFingerSeed prints))"

definition MapHashCat :: "u32 \<Rightarrow> u32 \<Rightarrow> u32" where
  "MapHashCat h1 h2 = h1 XOR h2"

definition MapHash :: "('v \<Rightarrow> u32 res) \<Rightarrow> 'v hmap \<Rightarrow> u32 res" where
  "MapHash hash m =
     bind_res (map_res (\<lambda>c. bind_res (deref (cell_value c)) (\<lambda>v.
                 bind_res (hash v) (\<lambda>h. Ok (MapHashCat (cell_hash c) h))))
                (take (m_occupancy m) (m_base m))) (\<lambda>hashes.
     Ok (foldl MapHashCat kHashSeed32 hashes))"


section \<open>The size of a new map\<close>

lemma nat_bit_top: "2 ^ k \<le> (x :: nat) \<Longrightarrow> x < 2 ^ Suc k \<Longrightarrow> bit x k"
  by (simp add: bit_iff_odd) (metis One_nat_def div_greater_zero_iff div_less_iff_less_mult
      less_2_cases_iff odd_one zero_less_power nat_less_le)

lemma nat_bit_ge: "bit (x :: nat) k \<Longrightarrow> 2 ^ k \<le> x"
  by (metis bit_iff_odd div_less even_zero not_le)

lemma clear_low_power:
  "2 ^ k \<le> sp \<Longrightarrow> sp < 2 ^ Suc k \<Longrightarrow> clear_low sp = 2 ^ k"
proof (induction sp rule: clear_low.induct)
  case (1 sp)
  show ?case
  proof (cases "sp = 2 ^ k")
    case True
    have "(2 ^ k :: nat) AND (2 ^ k - 1) = 0"
      using take_bit_eq_mask [of k "2 ^ k :: nat"] by (simp add: mask_eq_exp_minus_1 take_bit_eq_mod)
    then show ?thesis by (simp add: True clear_low.simps [of "2 ^ k"])
  next
    case False
    then have "bit sp k" "bit (sp - 1) k" using 1 by (auto intro!: nat_bit_top)
    then have "bit (sp AND (sp - 1)) k" by (simp add: bit_and_iff)
    then have ge: "2 ^ k \<le> sp AND (sp - 1)" by (rule nat_bit_ge)
    moreover have "sp AND (sp - 1) < 2 ^ Suc k" using nat_and_le [of sp "sp - 1"] 1 by simp
    ultimately have "sp AND (sp - 1) \<noteq> 0" by (metis not_le zero_less_numeral zero_less_power)
    with 1 ge \<open>sp AND (sp - 1) < 2 ^ Suc k\<close> show ?thesis by (simp add: clear_low.simps [of sp])
  qed
qed

lemma make_space_ge: "16 \<le> make_space sp exact \<and> sp \<le> int (make_space sp exact)"
proof (cases "kMinNCell < sp \<and> \<not> exact \<and> sp < kSlop")
  case True
  then obtain k where "2 ^ k \<le> nat sp" "nat sp < 2 ^ Suc k"
    using ex_power_ivl1 [of 2 "nat sp"] by (fastforce simp: kMinNCell_def)
  moreover from this have "clear_low (nat sp) = 2 ^ k" by (rule clear_low_power)
  moreover have "int (nat sp) < int (2 ^ Suc k)"
    using \<open>nat sp < 2 ^ Suc k\<close> by (simp only: of_nat_less_iff)
  ultimately show ?thesis using True by (auto simp: make_space_def kMinNCell_def)
next
  case False
  then show ?thesis by (auto simp: make_space_def kMinNCell_def kSlop_def)
qed


section \<open>Chains hold the cells of their bucket\<close>

fun is_chain :: "'v MapCell list \<Rightarrow> nat option \<Rightarrow> nat list \<Rightarrow> bool" where
  "is_chain cells p [] \<longleftrightarrow> p = None"
| "is_chain cells p (i # is) \<longleftrightarrow> p = Some i \<and> i < length cells \<and> is_chain cells (cell_next (cells ! i)) is"

text \<open>The first \<open>n\<close> cells of a bucket, the latest first.\<close>

definition bucket_cells :: "nat \<Rightarrow> 'v MapCell list \<Rightarrow> nat \<Rightarrow> nat \<Rightarrow> nat list" where
  "bucket_cells sp cells n b = rev (filter (\<lambda>i. bucket sp (cell_hash (cells ! i)) = b) [0..<n])"

definition chains_ok :: "nat option list \<Rightarrow> 'v MapCell list \<Rightarrow> nat \<Rightarrow> nat \<Rightarrow> bool" where
  "chains_ok hs cells sp n \<longleftrightarrow>
     length hs = kHeadsPerCell * sp \<and> length cells = sp \<and> n \<le> sp \<and>
     (\<forall>b < kHeadsPerCell * sp. is_chain cells (hs ! b) (bucket_cells sp cells n b))"

lemma set_next_simps [simp]:
  "cell_key (set_next p c) = cell_key c" "cell_value (set_next p c) = cell_value c"
  "cell_hash (set_next p c) = cell_hash c" "cell_next (set_next p c) = p"
  by (cases c; simp)+

lemma set_key_simps [simp]:
  "cell_key (set_key h k c) = Some k" "cell_value (set_key h k c) = cell_value c"
  "cell_hash (set_key h k c) = h" "cell_next (set_key h k c) = cell_next c"
  by (cases c; simp)+

lemma set_value_simps [simp]:
  "cell_key (set_value v c) = cell_key c" "cell_value (set_value v c) = Some v"
  "cell_hash (set_value v c) = cell_hash c" "cell_next (set_value v c) = cell_next c"
  by (cases c; simp)+

lemma bucket_less [simp]: "0 < sp \<Longrightarrow> bucket sp h < kHeadsPerCell * sp"
  by (simp add: bucket_def kHeadsPerCell_def)

lemma is_chain_cong:
  assumes "is_chain cells p is" "length cells' = length cells"
    and "\<And>i. i \<in> set is \<Longrightarrow> cell_next (cells' ! i) = cell_next (cells ! i)"
  shows "is_chain cells' p is"
  using assms by (induction "is" arbitrary: p) auto

lemma bucket_cells_cong:
  "(\<And>i. i < n \<Longrightarrow> cell_hash (cells' ! i) = cell_hash (cells ! i)) \<Longrightarrow>
   bucket_cells sp cells' n b = bucket_cells sp cells n b"
  by (auto simp: bucket_cells_def intro!: filter_cong)

lemma set_bucket_cells [simp]:
  "set (bucket_cells sp cells n b) = {i. i < n \<and> bucket sp (cell_hash (cells ! i)) = b}"
  by (auto simp: bucket_cells_def)

lemma chains_ok_empty:
  "chains_ok (replicate (kHeadsPerCell * sp) None) (replicate sp null_cell) sp 0"
  by (simp add: chains_ok_def bucket_cells_def)

text \<open>Threading the next cell into its chain.\<close>

lemma chains_ok_Chain:
  assumes ok: "chains_ok hs cells sp n" and n: "n < sp" and h: "cell_hash c = h"
    and st: "(hs', cells') = ChainToNewLocation sp h n (hs, cells[n := c])"
  shows "chains_ok hs' cells' sp (Suc n) \<and> cells' = cells[n := set_next (hs ! bucket sp h) c]"
proof -
  have len: "length hs = kHeadsPerCell * sp" "length cells = sp" using ok by (auto simp: chains_ok_def)
  have hs': "hs' = hs[bucket sp h := Some n]"
    and cells': "cells' = cells[n := set_next (hs ! bucket sp h) c]"
    using st n len by (auto simp: ChainToNewLocation_def Let_def)
  have old: "bucket_cells sp cells' n b = bucket_cells sp cells n b" for b
    by (rule bucket_cells_cong) (simp add: cells')
  have chain: "is_chain cells' (hs ! b) (bucket_cells sp cells n b)" if "b < kHeadsPerCell * sp" for b
    by (rule is_chain_cong [of cells]) (use ok that in \<open>simp_all add: chains_ok_def cells'\<close>)
  have new: "bucket_cells sp cells' (Suc n) b =
      (if b = bucket sp h then n # bucket_cells sp cells n b else bucket_cells sp cells n b)" for b
    using old [of b] n len h by (auto simp: bucket_cells_def cells')
  have "is_chain cells' (hs' ! b) (bucket_cells sp cells' (Suc n) b)" if b: "b < kHeadsPerCell * sp" for b
  proof -
    have "hs' ! b = (if b = bucket sp h then Some n else hs ! b)" using b len by (simp add: hs')
    moreover have "cell_next (cells' ! n) = hs ! bucket sp h" using n len by (simp add: cells')
    moreover have "n < length cells'" using n len by (simp add: cells')
    ultimately show ?thesis using chain [OF b] by (auto simp: new)
  qed
  then show ?thesis using n len by (simp add: chains_ok_def cells' hs')
qed

lemma CopyCells_ok:
  assumes "n \<le> length from_base" "n \<le> sp" "CopyCells sp from_base n = (hs, cells)"
  shows "chains_ok hs cells sp n \<and>
    (\<forall>i<n. cell_key (cells ! i) = cell_key (from_base ! i) \<and>
           cell_value (cells ! i) = cell_value (from_base ! i) \<and>
           cell_hash (cells ! i) = cell_hash (from_base ! i))"
  using assms
proof (induction n arbitrary: hs cells)
  case 0
  then show ?case by (auto simp: CopyCells_def chains_ok_empty)
next
  case (Suc n)
  obtain hs0 cells0 where c0: "CopyCells sp from_base n = (hs0, cells0)" by (cases "CopyCells sp from_base n")
  let ?c = "from_base ! n"
  have IH: "chains_ok hs0 cells0 sp n" using Suc.IH [OF _ _ c0] Suc.prems by simp
  have "(hs, cells) = ChainToNewLocation sp (cell_hash ?c) n (hs0, cells0[n := ?c])"
    using Suc.prems(3) c0 by (simp add: CopyCells_def)
  from chains_ok_Chain [OF IH _ refl this] Suc.prems(2)
  have ok: "chains_ok hs cells sp (Suc n)"
    and cells: "cells = cells0[n := set_next (hs0 ! bucket sp (cell_hash ?c)) ?c]" by auto
  have "length cells0 = sp" using IH by (simp add: chains_ok_def)
  then show ?case using ok Suc.IH [OF _ _ c0] Suc.prems(1,2)
    by (auto simp: cells nth_list_update less_Suc_eq)
qed


section \<open>The contract of the keys and the finite function a map stands for\<close>

type_synonym 'v entry = "'v option \<times> 'v option \<times> u32"

fun key_entry :: "('v \<Rightarrow> bool) \<Rightarrow> ('v \<Rightarrow> u32 res) \<Rightarrow> 'v entry \<Rightarrow> bool" where
  "key_entry ok hash (None, v, h) \<longleftrightarrow> False"
| "key_entry ok hash (Some k, v, h) \<longleftrightarrow> ok k \<and> hash k = Ok h"

definition cell_entry :: "'v MapCell \<Rightarrow> 'v entry" where
  "cell_entry c = (cell_key c, cell_value c, cell_hash c)"

definition entries :: "'v hmap \<Rightarrow> 'v entry list" where
  "entries m = map cell_entry (take (m_occupancy m) (m_base m))"

text \<open>The association list a map stands for, in the order of the first insertions.\<close>

definition den_pair :: "('v \<Rightarrow> 'd) \<Rightarrow> 'v entry \<Rightarrow> 'd option \<times> 'v option" where
  "den_pair den = (\<lambda>(k, v, h). (map_option den k, v))"

definition m_alist :: "('v \<Rightarrow> 'd) \<Rightarrow> 'v hmap \<Rightarrow> ('d option \<times> 'v option) list" where
  "m_alist den m = map (den_pair den) (entries m)"

definition map_ok :: "('v \<Rightarrow> bool) \<Rightarrow> ('v \<Rightarrow> 'd) \<Rightarrow> ('v \<Rightarrow> u32 res) \<Rightarrow> 'v hmap \<Rightarrow> bool" where
  "map_ok ok den hash m \<longleftrightarrow>
     0 < m_space m \<and> chains_ok (m_heads m) (m_base m) (m_space m) (m_occupancy m) \<and>
     list_all (key_entry ok hash) (entries m) \<and> distinct (map fst (m_alist den m))"

text \<open>Updating an association list, where the key is and where it is not.\<close>

lemma update_at:
  "i < length xs \<Longrightarrow> distinct (map fst xs) \<Longrightarrow> fst (xs ! i) = k \<Longrightarrow> AList.update k v xs = xs[i := (k, v)]"
proof (induction xs arbitrary: i)
  case (Cons x xs)
  show ?case
  proof (cases i)
    case (Suc j)
    then have "k \<in> fst ` set xs" using Cons.prems by auto
    then have "fst x \<noteq> k" using Cons.prems(2) by (metis distinct.simps(2) list.set_map list.simps(9))
    then show ?thesis using Cons Suc by (cases x) auto
  qed (use Cons.prems in \<open>cases x; simp\<close>)
qed simp

lemma update_new: "k \<notin> fst ` set xs \<Longrightarrow> AList.update k v xs = xs @ [(k, v)]"
  by (induction xs) auto

lemma chains_ok_length: "chains_ok hs cells sp n \<Longrightarrow> length hs = kHeadsPerCell * sp \<and> length cells = sp \<and> n \<le> sp"
  by (simp add: chains_ok_def)

lemma map_ok_lengths:
  assumes "map_ok ok den hash m"
  shows "length (m_heads m) = kHeadsPerCell * m_space m" "length (m_base m) = m_space m"
    "m_occupancy m \<le> m_space m" "0 < m_space m" "length (entries m) = m_occupancy m"
  using assms by (auto simp: map_ok_def entries_def dest: chains_ok_length)

lemma entries_nth:
  "map_ok ok den hash m \<Longrightarrow> i < m_occupancy m \<Longrightarrow> entries m ! i = cell_entry (m_base m ! i)"
  using map_ok_lengths [of ok den hash m] by (simp add: entries_def)

lemma map_ok_cell:
  assumes m: "map_ok ok den hash m" and i: "i < m_occupancy m"
  obtains k where "cell_key (m_base m ! i) = Some k" "ok k" "hash k = Ok (cell_hash (m_base m ! i))"
proof -
  have "key_entry ok hash (entries m ! i)"
    using m i map_ok_lengths(5) [OF m] by (simp add: map_ok_def list_all_length)
  then show ?thesis using that entries_nth [OF m i]
    by (cases "cell_key (m_base m ! i)") (auto simp: cell_entry_def)
qed

lemma MakeMapMem_ok: "map_ok ok den hash (MakeMapMem sp exact)"
  using make_space_ge [of sp exact]
  by (simp add: map_ok_def MakeMapMem_def Let_def chains_ok_empty entries_def m_alist_def)

lemma MakeMapMem_alist: "m_alist den (MakeMapMem sp exact) = []"
  by (simp add: m_alist_def entries_def MakeMapMem_def Let_def)

text \<open>Changing a cell but not its hash or its chain keeps the chains.\<close>

lemma chains_ok_cell_update:
  assumes "chains_ok hs cells sp n" "cell_hash c = cell_hash (cells ! i)" "cell_next c = cell_next (cells ! i)"
  shows "chains_ok hs (cells[i := c]) sp n"
proof -
  have eqs: "cell_hash (cells[i := c] ! j) = cell_hash (cells ! j)"
    "cell_next (cells[i := c] ! j) = cell_next (cells ! j)" for j
    by (cases "j = i \<and> i < length cells";
        use assms(2,3) in \<open>auto simp: list_update_beyond not_less\<close>)+
  have "bucket_cells sp (cells[i := c]) n b = bucket_cells sp cells n b" for b
    by (rule bucket_cells_cong) (rule eqs)
  moreover have "is_chain (cells[i := c]) p is" if "is_chain cells p is" for p "is"
    by (rule is_chain_cong [OF that]) (simp_all add: eqs)
  ultimately show ?thesis using assms(1) by (simp add: chains_ok_def)
qed

locale hash_key =
  fixes ok :: "'v \<Rightarrow> bool" and den :: "'v \<Rightarrow> 'd"
    and eq :: "'v \<Rightarrow> 'v \<Rightarrow> bool res" and hash :: "'v \<Rightarrow> u32 res"
  assumes eq_den: "ok x \<Longrightarrow> ok y \<Longrightarrow> eq x y = Ok (den x = den y)"
    and hash_total: "ok x \<Longrightarrow> \<exists>h. hash x = Ok h"
    and hash_den: "ok x \<Longrightarrow> ok y \<Longrightarrow> den x = den y \<Longrightarrow> hash x = hash y"
begin

lemma chain_walk_find:
  assumes "is_chain cells p is" "length is \<le> n" "ok key"
    and "\<And>i. i \<in> set is \<Longrightarrow> \<exists>k. cell_key (cells ! i) = Some k \<and> ok k"
  shows "chain_walk eq cells key n p =
    Ok (find (\<lambda>i. map_option den (cell_key (cells ! i)) = Some (den key)) is)"
  using assms
proof (induction "is" arbitrary: n p)
  case Nil
  then show ?case by simp
next
  case (Cons i "is")
  obtain n' where n: "n = Suc n'" using Cons.prems(2) by (cases n) auto
  obtain k where k: "cell_key (cells ! i) = Some k" "ok k" using Cons.prems(4) by auto
  show ?case using Cons.prems(1) Cons.IH [of "cell_next (cells ! i)" n'] Cons.prems n k
    by (simp add: eq_den)
qed

lemma FindLocation_find:
  assumes m: "map_ok ok den hash m" and key: "ok key" "hash key = Ok h"
  shows "FindLocation eq (m_heads m) (m_base m) (m_space m) key h =
    Ok (find (\<lambda>i. map_option den (cell_key (m_base m ! i)) = Some (den key))
          (bucket_cells (m_space m) (m_base m) (m_occupancy m) (bucket (m_space m) h)))"
proof -
  note len = map_ok_lengths [OF m]
  let ?b = "bucket (m_space m) h"
  let ?is = "bucket_cells (m_space m) (m_base m) (m_occupancy m) ?b"
  have b: "?b < length (m_heads m)" using len by (simp del: bucket_less add: bucket_less [OF len(4)])
  have "is_chain (m_base m) (m_heads m ! ?b) ?is"
    using m b len(1) by (simp add: map_ok_def chains_ok_def)
  moreover have "length ?is \<le> length (m_base m)"
    using len length_filter_le [of _ "[0..<m_occupancy m]"]
    by (simp add: bucket_cells_def) (meson le_trans)
  moreover have "\<exists>k. cell_key (m_base m ! i) = Some k \<and> ok k" if "i \<in> set ?is" for i
    using map_ok_cell [OF m, of i] that by auto
  ultimately have "chain_walk eq (m_base m) key (length (m_base m)) (m_heads m ! ?b) =
      Ok (find (\<lambda>i. map_option den (cell_key (m_base m ! i)) = Some (den key)) ?is)"
    using key(1) by (intro chain_walk_find) auto
  then show ?thesis using b by (simp only: FindLocation_def not_le [symmetric] if_False)
qed

text \<open>The search finds the only cell with an equal key, if there is one.\<close>

lemma FindLocation_spec:
  assumes m: "map_ok ok den hash m" and key: "ok key" "hash key = Ok h"
  obtains (found) i where "FindLocation eq (m_heads m) (m_base m) (m_space m) key h = Ok (Some i)"
      "i < m_occupancy m" "map_option den (cell_key (m_base m ! i)) = Some (den key)"
      "cell_hash (m_base m ! i) = h"
  | (none) "FindLocation eq (m_heads m) (m_base m) (m_space m) key h = Ok None"
      "Some (den key) \<notin> fst ` set (m_alist den m)"
proof -
  let ?P = "\<lambda>i. map_option den (cell_key (m_base m ! i)) = Some (den key)"
  let ?is = "bucket_cells (m_space m) (m_base m) (m_occupancy m) (bucket (m_space m) h)"
  have h: "cell_hash (m_base m ! i) = h" if i: "i < m_occupancy m" "?P i" for i
    using map_ok_cell [OF m i(1)] hash_den [of _ key] i(2) key by (metis option.inject option.map(2) sum.inject(2))
  show ?thesis
  proof (cases "find ?P ?is")
    case None
    then have no: "\<not> ?P i" if "i < m_occupancy m" for i
      using h [OF that] that by (fastforce simp: find_None_iff)
    have "Some (den key) \<noteq> fst (den_pair den (entries m ! i))" if "i < m_occupancy m" for i
      using no [OF that] entries_nth [OF m that] by (metis cell_entry_def den_pair_def case_prod_conv fst_conv)
    then have "Some (den key) \<notin> fst ` set (m_alist den m)"
      using map_ok_lengths(5) [OF m] by (metis (no_types, lifting) m_alist_def imageE in_set_conv_nth list.set_map)
    then show ?thesis using none FindLocation_find [OF assms] None by simp
  next
    case (Some i)
    then have "i \<in> set ?is" "?P i" unfolding find_Some_iff using nth_mem by blast+
    then show ?thesis using found FindLocation_find [OF assms] Some h by simp
  qed
qed

end

text \<open>Threading a cell and then writing its key and hash.\<close>

lemma thread_new_key:
  assumes ok: "chains_ok hs cells sp n" and n: "n < sp"
    and st: "ChainToNewLocation sp h n (hs, cells) = (hs', cells')"
  shows "chains_ok hs' (cells'[n := set_key h key (cells' ! n)]) sp (Suc n)"
    and "map cell_entry (take (Suc n) (cells'[n := set_key h key (cells' ! n)])) =
           map cell_entry (take n cells) @ [(Some key, cell_value (cells ! n), h)]"
proof -
  have len: "length cells = sp" using ok by (simp add: chains_ok_def)
  have comm: "set_next p (set_key h key c) = set_key h key (set_next p c)" for p and c :: "'a MapCell"
    by (cases c) simp
  let ?c = "set_key h key (cells ! n)"
  have "(hs', cells'[n := set_key h key (cells' ! n)]) =
      ChainToNewLocation sp h n (hs, cells[n := ?c])"
    using st n len by (auto simp: ChainToNewLocation_def Let_def comm)
  note new = chains_ok_Chain [OF ok n set_key_simps(3) this]
  have ch: "chains_ok hs' (cells'[n := set_key h key (cells' ! n)]) sp (Suc n)"
    using new by (rule conjunct1)
  have cells': "cells'[n := set_key h key (cells' ! n)] = cells[n := set_next (hs ! bucket sp h) ?c]"
    using new by (rule conjunct2)
  show "chains_ok hs' (cells'[n := set_key h key (cells' ! n)]) sp (Suc n)" by (rule ch)
  show "map cell_entry (take (Suc n) (cells'[n := set_key h key (cells' ! n)])) =
           map cell_entry (take n cells) @ [(Some key, cell_value (cells ! n), h)]"
    using n len by (simp only: cells') (simp add: take_Suc_conv_app_nth cell_entry_def)
qed

lemma CopyCells_entries:
  assumes "n \<le> length from_base" "n \<le> sp" "CopyCells sp from_base n = (hs, cells)"
  shows "chains_ok hs cells sp n" "map cell_entry (take n cells) = map cell_entry (take n from_base)"
proof -
  note c = CopyCells_ok [OF assms]
  show "chains_ok hs cells sp n" using c by simp
  then have "length cells = sp" by (simp add: chains_ok_def)
  then show "map cell_entry (take n cells) = map cell_entry (take n from_base)"
    using c assms(1,2) by (intro nth_equalityI) (auto simp: cell_entry_def)
qed

context hash_key
begin

lemma map_ok_add:
  assumes m: "map_ok ok den hash m" and key: "ok key" "hash key = Ok h"
    and new: "Some (den key) \<notin> fst ` set (m_alist den m)"
    and m': "0 < m_space m'" "chains_ok (m_heads m') (m_base m') (m_space m') (m_occupancy m')"
    and e: "entries m' = entries m @ [(Some key, v, h)]"
  shows "map_ok ok den hash m'" "m_alist den m' = m_alist den m @ [(Some (den key), v)]"
proof -
  show a: "m_alist den m' = m_alist den m @ [(Some (den key), v)]"
    by (simp add: m_alist_def e den_pair_def)
  show "map_ok ok den hash m'" using m m' key new by (simp add: map_ok_def a e)
qed

text \<open>\<open>InsertKey\<close> on a key that is present, and on one that is not.\<close>

lemma InsertKey_found:
  assumes m: "map_ok ok den hash m" and key: "ok key" "hash key = Ok h"
    and loc: "FindLocation eq (m_heads m) (m_base m) (m_space m) key h = Ok (Some i)"
      "i < m_occupancy m" "map_option den (cell_key (m_base m ! i)) = Some (den key)"
      "cell_hash (m_base m ! i) = h"
  obtains m' where "InsertKey eq hash key m = Ok (int i, m')" "map_ok ok den hash m'"
    "m_alist den m' = m_alist den m" "m_occupancy m' = m_occupancy m"
proof -
  let ?m' = "Hmap (m_occupancy m) (m_space m) (m_heads m) ((m_base m)[i := set_key h key (m_base m ! i)])"
  note len = map_ok_lengths [OF m]
  have e: "entries ?m' = (entries m)[i := (Some key, cell_value (m_base m ! i), h)]"
    using loc(2) len by (simp add: entries_def take_update_swap map_update cell_entry_def)
  have a: "m_alist den ?m' = m_alist den m"
  proof -
    have "m_alist den m ! i = (Some (den key), cell_value (m_base m ! i))"
      using entries_nth [OF m loc(2)] loc(2,3) len
      by (simp only: m_alist_def nth_map) (simp add: den_pair_def cell_entry_def)
    then have "(m_alist den m)[i := (Some (den key), cell_value (m_base m ! i))] = m_alist den m"
      by (metis list_update_id)
    then show ?thesis by (simp add: m_alist_def e map_update den_pair_def)
  qed
  have "chains_ok (m_heads m) ((m_base m)[i := set_key h key (m_base m ! i)]) (m_space m) (m_occupancy m)"
    by (rule chains_ok_cell_update) (use m loc(4) in \<open>simp_all add: map_ok_def\<close>)
  moreover have "list_all (key_entry ok hash) ((entries m)[i := (Some key, cell_value (m_base m ! i), h)])"
    using m key loc(2) len by (auto simp: map_ok_def list_all_length nth_list_update)
  ultimately have "map_ok ok den hash ?m'" using m a by (simp add: map_ok_def e)
  then show ?thesis using that [of ?m'] a loc(1) key(2) by (simp add: InsertKey_def GrowIfNeeded_def)
qed

lemma InsertKey_new:
  assumes m: "map_ok ok den hash m" and key: "ok key" "hash key = Ok h"
    and loc: "FindLocation eq (m_heads m) (m_base m) (m_space m) key h = Ok None"
      "Some (den key) \<notin> fst ` set (m_alist den m)"
  obtains m' v where "InsertKey eq hash key m = Ok (int (m_occupancy m), m')" "map_ok ok den hash m'"
    "m_alist den m' = m_alist den m @ [(Some (den key), v)]" "m_occupancy m' = Suc (m_occupancy m)"
proof -
  note len = map_ok_lengths [OF m]
  let ?occ = "m_occupancy m"
  obtain sp hs cells where g: "(sp, hs, cells) =
      (if ?occ = m_space m then (2 * m_space m, CopyCells (2 * m_space m) (m_base m) ?occ)
       else (m_space m, m_heads m, m_base m))"
    by (metis prod_cases3)
  have ok0: "chains_ok hs cells sp ?occ" and e0: "map cell_entry (take ?occ cells) = entries m"
    and sp: "?occ < sp"
    using g len m CopyCells_entries [of ?occ "m_base m" sp hs cells]
    by (auto simp: map_ok_def entries_def split: if_splits)
  obtain hs' cells' where st: "ChainToNewLocation sp h ?occ (hs, cells) = (hs', cells')" by fastforce
  let ?m' = "Hmap (Suc ?occ) sp hs' (cells'[?occ := set_key h key (cells' ! ?occ)])"
  have ins: "InsertKey eq hash key m = Ok (int ?occ, ?m')"
    unfolding InsertKey_def GrowIfNeeded_def Let_def using key(2) loc(1) st by (simp add: g [symmetric])
  have e: "entries ?m' = entries m @ [(Some key, cell_value (cells ! ?occ), h)]"
    using thread_new_key(2) [OF ok0 sp st] e0 by (simp add: entries_def)
  show ?thesis
    using that [OF ins] map_ok_add [OF m key loc(2) _ _ e] thread_new_key(1) [OF ok0 sp st] sp by simp
qed

lemma m_alist_nth:
  assumes m: "map_ok ok den hash m" and i: "i < m_occupancy m"
  shows "m_alist den m ! i = (map_option den (cell_key (m_base m ! i)), cell_value (m_base m ! i))"
  using entries_nth [OF m i] map_ok_lengths(5) [OF m] i
  by (simp add: m_alist_def den_pair_def cell_entry_def)

lemma length_m_alist: "map_ok ok den hash m \<Longrightarrow> length (m_alist den m) = m_occupancy m"
  by (simp add: m_alist_def map_ok_lengths)

lemma Lookup_spec:
  assumes m: "map_ok ok den hash m" and key: "ok key"
  obtains (found) i where "Lookup eq hash m key = Ok (int i)" "i < m_occupancy m"
      "map_of (m_alist den m) (Some (den key)) = Some (cell_value (m_base m ! i))"
  | (none) "Lookup eq hash m key = Ok (- 1)" "map_of (m_alist den m) (Some (den key)) = None"
proof -
  obtain h where h: "hash key = Ok h" using hash_total [OF key] by blast
  show ?thesis
  proof (rule FindLocation_spec [OF m key h])
    fix i
    assume loc: "FindLocation eq (m_heads m) (m_base m) (m_space m) key h = Ok (Some i)"
      "i < m_occupancy m" "map_option den (cell_key (m_base m ! i)) = Some (den key)"
    have "(Some (den key), cell_value (m_base m ! i)) \<in> set (m_alist den m)"
      using m_alist_nth [OF m loc(2)] loc(2,3) length_m_alist [OF m] by (metis nth_mem)
    then have "map_of (m_alist den m) (Some (den key)) = Some (cell_value (m_base m ! i))"
      using m by (simp add: map_ok_def)
    then show thesis using found loc h by (simp add: Lookup_def)
  next
    assume "FindLocation eq (m_heads m) (m_base m) (m_space m) key h = Ok None"
      "Some (den key) \<notin> fst ` set (m_alist den m)"
    then show thesis using none h by (simp add: Lookup_def map_of_eq_None_iff)
  qed
qed

theorem MapVal_Fetch_spec:
  assumes "map_ok ok den hash m" "ok key"
  shows "MapVal_Fetch eq hash m key =
    Ok (case map_of (m_alist den m) (Some (den key)) of None \<Rightarrow> None | Some v \<Rightarrow> v)"
  by (rule Lookup_spec [OF assms])
    (use map_ok_lengths [OF assms(1)] in \<open>simp_all add: MapVal_Fetch_def Fetch_def legal_cell_def\<close>)

text \<open>\<open>SetValue\<close> changes the value of one cell and nothing else.\<close>

lemma SetValue_spec:
  assumes m: "map_ok ok den hash m" and i: "i < m_occupancy m"
  obtains m' where "SetValue (int i) v m = Ok m'" "map_ok ok den hash m'"
    "m_alist den m' = (m_alist den m)[i := (fst (m_alist den m ! i), Some v)]"
proof -
  let ?c = "m_base m ! i"
  let ?m' = "Hmap (m_occupancy m) (m_space m) (m_heads m) ((m_base m)[i := set_value v ?c])"
  note len = map_ok_lengths [OF m]
  have e: "entries ?m' = (entries m)[i := (cell_key ?c, Some v, cell_hash ?c)]"
    using i len by (simp add: entries_def take_update_swap map_update cell_entry_def)
  have al: "m_alist den ?m' = (m_alist den m)[i := (fst (m_alist den m ! i), Some v)]"
    unfolding m_alist_nth [OF m i] fst_conv by (simp add: m_alist_def e map_update den_pair_def)
  have "chains_ok (m_heads m) ((m_base m)[i := set_value v ?c]) (m_space m) (m_occupancy m)"
    by (rule chains_ok_cell_update) (use m in \<open>simp_all add: map_ok_def\<close>)
  moreover obtain k where "cell_key ?c = Some k" "ok k" "hash k = Ok (cell_hash ?c)"
    by (rule map_ok_cell [OF m i])
  then have "list_all (key_entry ok hash) (entries ?m')"
    using m i len by (auto simp: e map_ok_def list_all_length nth_list_update)
  moreover have "map fst (m_alist den ?m') = map fst (m_alist den m)"
    using length_m_alist [OF m] i by (simp add: al map_update) (metis length_map list_update_id nth_map)
  ultimately have "map_ok ok den hash ?m'" using m by (simp add: map_ok_def)
  then show ?thesis using that [of ?m'] al i len by (simp add: SetValue_def legal_cell_def Let_def)
qed

theorem MapVal_Insert_spec:
  assumes m: "map_ok ok den hash m" and key: "ok key"
  obtains m' where "MapVal_Insert eq hash (key, v) m = Ok m'" "map_ok ok den hash m'"
    "m_alist den m' = AList.update (Some (den key)) (Some v) (m_alist den m)"
proof -
  note result = that
  have set: thesis
    if ins: "InsertKey eq hash key m = Ok (int i, m1)" and m1: "map_ok ok den hash m1"
      and i: "i < m_occupancy m1" and a: "fst (m_alist den m1 ! i) = Some (den key)"
      and upd: "AList.update (Some (den key)) (Some v) (m_alist den m) =
                AList.update (Some (den key)) (Some v) (m_alist den m1)" for i m1
  proof (rule SetValue_spec [OF m1 i, of v])
    fix m'
    assume m': "SetValue (int i) v m1 = Ok m'" "map_ok ok den hash m'"
      "m_alist den m' = (m_alist den m1)[i := (fst (m_alist den m1 ! i), Some v)]"
    then have "m_alist den m' = AList.update (Some (den key)) (Some v) (m_alist den m)"
      using m1 i a length_m_alist [OF m1] by (simp add: upd update_at map_ok_def)
    then show thesis using result [OF _ m'(2)] ins m'(1) by (simp add: MapVal_Insert_def)
  qed
  obtain h where h: "hash key = Ok h" using hash_total [OF key] by blast
  show thesis
  proof (rule FindLocation_spec [OF m key h])
    fix i
    assume loc: "FindLocation eq (m_heads m) (m_base m) (m_space m) key h = Ok (Some i)"
      "i < m_occupancy m" "map_option den (cell_key (m_base m ! i)) = Some (den key)"
      "cell_hash (m_base m ! i) = h"
    show thesis
      by (rule InsertKey_found [OF m key h loc])
        (use set loc m_alist_nth [OF m loc(2)] in \<open>auto\<close>)
  next
    assume loc: "FindLocation eq (m_heads m) (m_base m) (m_space m) key h = Ok None"
      "Some (den key) \<notin> fst ` set (m_alist den m)"
    show thesis
    proof (rule InsertKey_new [OF m key h loc])
      fix m1 v1
      assume i1: "InsertKey eq hash key m = Ok (int (m_occupancy m), m1)" "map_ok ok den hash m1"
        "m_alist den m1 = m_alist den m @ [(Some (den key), v1)]" "m_occupancy m1 = Suc (m_occupancy m)"
      have "AList.update (Some (den key)) (Some v) (m_alist den m @ [(Some (den key), v1)]) =
          AList.update (Some (den key)) (Some v) (m_alist den m)"
        using update_at [of "length (m_alist den m)" "m_alist den m @ [(Some (den key), v1)]"] loc(2) m
        by (simp add: update_new map_ok_def)
      then show thesis using set [OF i1(1,2)] i1(3,4) length_m_alist [OF m]
        by (simp add: nth_append)
    qed
  qed
qed

text \<open>A clone holds the same entries.\<close>

theorem Clone_spec:
  assumes m: "map_ok ok den hash m"
  shows "map_ok ok den hash (Clone m)" "entries (Clone m) = entries m"
proof -
  note len = map_ok_lengths [OF m]
  let ?sp = "make_space (int (m_space m)) (m_space m < m_occupancy m)"
  obtain hs cells where c: "CopyCells ?sp (m_base m) (m_occupancy m) = (hs, cells)" by fastforce
  have sp: "0 < ?sp" "m_occupancy m \<le> ?sp" using make_space_ge [of "int (m_space m)"] len
    by (metis le_trans less_le_trans of_nat_le_iff zero_less_numeral)+
  note ce = CopyCells_entries [OF _ sp(2) c]
  show e: "entries (Clone m) = entries m"
    using ce(2) len by (simp only: Clone_def Let_def c entries_def case_prod_conv hmap.sel)
  show "map_ok ok den hash (Clone m)"
    using m ce(1) len sp(1) unfolding map_ok_def m_alist_def e
    by (simp only: Clone_def Let_def c case_prod_conv hmap.sel)
qed

end


section \<open>Equality and fingerprints of whole maps\<close>

text \<open>The finite function from key to value denotations, as a set of pairs.\<close>

definition den_alist :: "('v \<Rightarrow> 'd) \<Rightarrow> 'v hmap \<Rightarrow> ('d option \<times> 'd option) list" where
  "den_alist den m = map (\<lambda>(k, v, h). (map_option den k, map_option den v)) (entries m)"

fun value_entry :: "('v \<Rightarrow> bool) \<Rightarrow> 'v entry \<Rightarrow> bool" where
  "value_entry okv (k, None, h) \<longleftrightarrow> False"
| "value_entry okv (k, Some v, h) \<longleftrightarrow> okv v"

lemma den_alist_m_alist: "den_alist den m = map (apsnd (map_option den)) (m_alist den m)"
  by (simp add: den_alist_def m_alist_def den_pair_def comp_def case_prod_unfold)

lemma map_of_den_alist:
  "map_of (den_alist den m) = map_option (map_option den) \<circ> map_of (m_alist den m)"
  by (simp only: den_alist_m_alist apsnd_def map_prod_def id_apply map_of_map)

lemma distinct_den_alist: "map_ok ok den hash m \<Longrightarrow> distinct (map fst (den_alist den m))"
  by (simp add: den_alist_m_alist map_ok_def comp_def)

lemma card_den_alist: "map_ok ok den hash m \<Longrightarrow> card (set (den_alist den m)) = m_occupancy m"
  using distinct_den_alist [of ok den hash m] map_ok_lengths(5) [of ok den hash m]
  by (simp add: distinct_map distinct_card) (simp add: den_alist_def)

locale map_values = hash_key ok den eq hash
  for ok :: "'v \<Rightarrow> bool" and den :: "'v \<Rightarrow> 'd" and eq and hash +
  fixes okv :: "'v \<Rightarrow> bool"
  assumes eqv_den: "okv x \<Longrightarrow> okv y \<Longrightarrow> eq x y = Ok (den x = den y)"
begin

lemma EqualMap_loop_spec:
  assumes m: "map_ok ok den hash m" "list_all (value_entry okv) (entries m)"
    and cs: "list_all (key_entry ok hash) (map cell_entry cs)" "list_all (value_entry okv) (map cell_entry cs)"
  shows "EqualMap_loop eq hash m cs =
    Ok (\<forall>c\<in>set cs. (map_option den (cell_key c), map_option den (cell_value c)) \<in> set (den_alist den m))"
  using cs
proof (induction cs)
  case Nil
  then show ?case by simp
next
  case (Cons c cs)
  obtain k v where c: "cell_key c = Some k" "ok k" "cell_value c = Some v" "okv v"
    using Cons.prems by (cases "cell_key c"; cases "cell_value c") (auto simp: cell_entry_def)
  let ?in = "(Some (den k), Some (den v)) \<in> set (den_alist den m)"
  have IH: "EqualMap_loop eq hash m cs = Ok (\<forall>c\<in>set cs.
      (map_option den (cell_key c), map_option den (cell_value c)) \<in> set (den_alist den m))"
    using Cons by simp
  have inm: "?in \<longleftrightarrow> map_option (map_option den) (map_of (m_alist den m) (Some (den k))) = Some (Some (den v))"
    unfolding map_of_eq_Some_iff [OF distinct_den_alist [OF m(1)], symmetric] map_of_den_alist comp_apply ..
  show ?case
  proof (rule Lookup_spec [OF m(1) c(2)])
    fix i
    assume l: "Lookup eq hash m k = Ok (int i)" "i < m_occupancy m"
      "map_of (m_alist den m) (Some (den k)) = Some (cell_value (m_base m ! i))"
    have "value_entry okv (entries m ! i)"
      using m(2) l(2) map_ok_lengths(5) [OF m(1)] by (simp add: list_all_length)
    then obtain v' where v': "cell_value (m_base m ! i) = Some v'" "okv v'"
      using entries_nth [OF m(1) l(2)] by (cases "cell_value (m_base m ! i)") (auto simp: cell_entry_def)
    have "?in \<longleftrightarrow> den v' = den v" using inm l(3) v'(1) by simp
    then show ?thesis using c l(1,2) v' IH map_ok_lengths [OF m(1)]
      by (auto simp: deref_def Fetch_def legal_cell_def eqv_den)
  next
    assume l: "Lookup eq hash m k = Ok (- 1)" "map_of (m_alist den m) (Some (den k)) = None"
    then have "\<not> ?in" using inm by simp
    then show ?thesis using c l by (simp add: deref_def)
  qed
qed

theorem EqualMap_spec:
  assumes m1: "map_ok ok den hash m1" "list_all (value_entry okv) (entries m1)"
    and m2: "map_ok ok den hash m2" "list_all (value_entry okv) (entries m2)"
  shows "EqualMap eq hash m1 m2 = Ok (set (den_alist den m1) = set (den_alist den m2))"
proof (cases "m_occupancy m1 = m_occupancy m2")
  case False
  then show ?thesis using card_den_alist [OF m1(1)] card_den_alist [OF m2(1)] by (auto simp: EqualMap_def)
next
  case True
  let ?cs = "take (m_occupancy m1) (m_base m1)"
  have "EqualMap eq hash m1 m2 = Ok (\<forall>c\<in>set ?cs.
      (map_option den (cell_key c), map_option den (cell_value c)) \<in> set (den_alist den m2))"
    using True EqualMap_loop_spec [OF m2, of ?cs] m1 by (simp add: EqualMap_def map_ok_def entries_def)
  also have "(\<forall>c\<in>set ?cs. (map_option den (cell_key c), map_option den (cell_value c)) \<in> set (den_alist den m2))
      \<longleftrightarrow> set (den_alist den m1) \<subseteq> set (den_alist den m2)"
    by (auto simp: den_alist_def entries_def cell_entry_def)
  also have "\<dots> \<longleftrightarrow> set (den_alist den m1) = set (den_alist den m2)"
    using card_den_alist [OF m1(1)] card_den_alist [OF m2(1)] True
    by (metis List.finite_set card_subset_eq subset_refl)
  finally show ?thesis .
qed

end

text \<open>The fingerprint depends on the set of pairs only, if those of the keys and values
  depend on their denotations only.\<close>

lemma Map_Fingerprint_den:
  assumes m: "map_ok ok den hash m1" "map_ok ok den hash m2"
    and v: "list_all (value_entry okv) (entries m1)" "list_all (value_entry okv) (entries m2)"
    and fk: "\<And>k. ok k \<Longrightarrow> fpr k = Ok (gk (den k))" and fv: "\<And>v. okv v \<Longrightarrow> fpr v = Ok (gv (den v))"
    and eq: "set (den_alist den m1) = set (den_alist den m2)"
  shows "\<exists>x. Map_Fingerprint fpr m1 = Ok x \<and> Map_Fingerprint fpr m2 = Ok x"
proof -
  define g where "g = (\<lambda>(k, v). FingerprintCat (gk (the k)) (gv (the v)))"
  have prints: "Map_Fingerprint fpr m = Ok (foldl (XOR) kFingerSeed (map g (den_alist den m)))"
    if ok: "map_ok ok den hash m" "list_all (value_entry okv) (entries m)" for m
  proof -
    let ?cs = "take (m_occupancy m) (m_base m)"
    have "cell_print fpr c = Ok (g (map_option den (cell_key c), map_option den (cell_value c)))"
      if "c \<in> set ?cs" for c
    proof -
      have "key_entry ok hash (cell_entry c)" "value_entry okv (cell_entry c)"
        using ok that by (auto simp: map_ok_def entries_def list_all_iff)
      then show ?thesis
        by (cases "cell_key c"; cases "cell_value c")
          (auto simp: cell_entry_def cell_print_def deref_def fk fv g_def)
    qed
    then have "map_res (cell_print fpr) ?cs =
        Ok (map (\<lambda>c. g (map_option den (cell_key c), map_option den (cell_value c))) ?cs)"
      by (rule map_res_Ok)
    then show ?thesis
      by (simp add: Map_Fingerprint_def den_alist_def entries_def cell_entry_def comp_def case_prod_unfold)
  qed
  have "mset (den_alist den m1) = mset (den_alist den m2)"
    using eq distinct_den_alist [OF m(1)] distinct_den_alist [OF m(2)]
    by (simp add: distinct_map set_eq_iff_mset_eq_distinct)
  then have "mset (map g (den_alist den m1)) = mset (map g (den_alist den m2))" by simp
  then have "fold (XOR) (map g (den_alist den m1)) kFingerSeed = fold (XOR) (map g (den_alist den m2)) kFingerSeed"
    by (intro fun_cong [OF fold_multiset_equiv]) (auto simp: fun_eq_iff xor.left_commute)
  then show ?thesis using prints m v by (simp add: foldl_conv_fold xor.commute)
qed

end
