(* ===== verification/Szl_Form.thy ===== *)
theory Szl_Form
  imports Szl_Map Szl_Float "HOL-Library.FSet"
begin

text \<open>
  The values of the language at run time and what their forms do with them (engine/form.cc,
  engine/val.h, engine/val.cc): equality, comparison, hash and fingerprint of scalars, byte
  strings, strings, arrays, tuples, maps and closures.  A value is a tree here; the reference
  counts, the tagging of small integers and the sharing of slices do not show in these
  operations.  A tuple comes with \<open>AllFieldsRead()\<close> of its type, which the analysis of field
  references sets and \<open>CHECK\<close>s look at.  A closure is its code address and its frame address; the
  index of a code address in the code table and the dynamic level of a frame, which belong to the
  interpreter, are functions of the environment.  The asserts that the static types of two arrays
  or tuples agree are about compile-time types, of which only the number of tuple slots shows here.

  Every type gets a predicate \<open>good\<close> for its well-formed values, and every value a
  denotation, in which a map is a finite set of pairs.  \<open>IsEqual\<close> decides equality of
  denotations, and hash and fingerprint depend on the denotation only: this is the contract
  \<open>hash_key\<close> of the hash tables, by induction on the type.
\<close>

section \<open>Values\<close>

datatype Val =
    BoolVal bool | IntVal i64 | UIntVal u64 | FingerprintVal u64 | FloatVal dbl | TimeVal u64
  | BytesVal bytes | StringVal bytes | ArrayVal "Val list" | MapVal "Val hmap"
  | TupleVal bool "Val list" | ClosureVal u64 u64

record rt_env =
  rt_host :: byte_order
  rt_ptr32 :: bool
  rt_code_index :: "u64 \<Rightarrow> u64"
  rt_dynamic_level :: "u64 \<Rightarrow> u64"

lemma hmap_set: "set_hmap m = (\<Union>c\<in>set (m_base m). set_MapCell c)"
  by (cases m) simp

lemma cell_set: "set_MapCell c = set_option (cell_key c) \<union> set_option (cell_value c)"
  by (cases c) simp

lemma entry_in_hmap:
  assumes "c \<in> set (take n (m_base m))"
  shows "cell_key c = Some v \<Longrightarrow> v \<in> set_hmap m" "cell_value c = Some v \<Longrightarrow> v \<in> set_hmap m"
  using in_set_takeD [OF assms] by (auto simp: hmap_set cell_set)

lemma size_hmap_bound: "v \<in> set_hmap m \<Longrightarrow> f v \<le> size_hmap f m"
proof -
  assume "v \<in> set_hmap m"
  then obtain c where c: "c \<in> set (m_base m)" "v \<in> set_MapCell c" by (auto simp: hmap_set)
  have "f v \<le> size_MapCell f c" using c(2) by (cases c) auto
  also have "\<dots> \<le> size_list (size_MapCell f) (m_base m)" using c(1) by (induction "m_base m") (auto simp: size_list_estimation')
  also have "\<dots> \<le> size_hmap f m" by (cases m) simp
  finally show ?thesis .
qed

lemma size_hmap_less [termination_simp]: "v \<in> set_hmap m \<Longrightarrow> size v < Suc (size_hmap size m)"
  using size_hmap_bound [of v m size] by simp



text \<open>Congruence rules: the functions over maps apply their arguments to stored values only.\<close>

declare bind_res_cong [fundef_cong]

lemma deref_Ok [simp]: "deref p = Ok v \<longleftrightarrow> p = Some v"
  by (auto simp: deref_def split: option.splits)

lemma Map_Fingerprint_cong [fundef_cong]:
  assumes "m = m'" "\<And>v. v \<in> set_hmap m' \<Longrightarrow> f v = g v"
  shows "Map_Fingerprint f m = Map_Fingerprint g m'"
proof -
  have "cell_print f c = cell_print g c" if "c \<in> set (take (m_occupancy m') (m_base m'))" for c
    unfolding cell_print_def using entry_in_hmap [OF that] assms(2)
    by (intro bind_res_cong refl) (auto intro!: bind_res_cong)
  then show ?thesis unfolding Map_Fingerprint_def assms(1) by (simp cong: map_res_cong)
qed

lemma chain_walk_cong:
  "(\<And>x. x \<in> (\<Union>c\<in>set cells. set_MapCell c) \<Longrightarrow> eq x key = eq' x key) \<Longrightarrow>
   chain_walk eq cells key n p = chain_walk eq' cells key n p"
proof (induction n arbitrary: p)
  case 0
  then show ?case by (cases p) simp_all
next
  case (Suc n)
  show ?case
  proof (cases p)
    case (Some i)
    have "eq k key = eq' k key" if "\<not> length cells \<le> i" "cell_key (cells ! i) = Some k" for k
      by (rule Suc.prems, rule UN_I [OF nth_mem [of i cells]]) (use that in \<open>auto simp: cell_set\<close>)
    then show ?thesis using Suc Some by (auto split: option.splits intro!: bind_res_cong)
  qed simp
qed

lemma Lookup_cong:
  assumes "\<And>x. x \<in> set_hmap m \<Longrightarrow> eq x key = eq' x key" "hash key = hash' key"
  shows "Lookup eq hash m key = Lookup eq' hash' m key"
  unfolding Lookup_def FindLocation_def
  using assms chain_walk_cong [of "m_base m" eq key eq']
  by (auto simp: hmap_set intro!: bind_res_cong)

lemma Fetch_in_hmap: "Fetch m i = Ok (Some v) \<Longrightarrow> v \<in> set_hmap m"
  by (auto simp: Fetch_def hmap_set cell_set not_le split: if_splits intro: bexI [OF _ nth_mem])

lemma EqualMap_loop_cong:
  assumes "\<And>x y. x \<in> set_hmap m \<Longrightarrow> y \<in> (\<Union>c\<in>set cs. set_MapCell c) \<Longrightarrow> eq x y = eq' x y \<and> eq y x = eq' y x"
  shows "EqualMap_loop eq hash m cs = EqualMap_loop eq' hash m cs"
  using assms
proof (induction cs)
  case (Cons c cs)
  have k: "Lookup eq hash m k = Lookup eq' hash m k" if "cell_key c = Some k" for k
    using Cons.prems that by (intro Lookup_cong) (auto simp: cell_set)
  have v: "eq v v' = eq' v v'" if "cell_value c = Some v" "Fetch m i = Ok (Some v')" for i v v'
    using Cons.prems [OF Fetch_in_hmap [OF that(2)], of v] that(1) by (auto simp: cell_set)
  show ?case using Cons k v by (auto intro!: bind_res_cong)
qed simp

lemma EqualMap_cong [fundef_cong]:
  assumes "hash = hash'" "m1 = m1'" "m2 = m2'"
    and "\<And>x y. x \<in> set_hmap m2' \<Longrightarrow> y \<in> set_hmap m1' \<Longrightarrow> eq x y = eq' x y"
    and "\<And>x y. x \<in> set_hmap m1' \<Longrightarrow> y \<in> set_hmap m2' \<Longrightarrow> eq x y = eq' x y"
  shows "EqualMap eq hash m1 m2 = EqualMap eq' hash' m1' m2'"
proof -
  have "y \<in> set_hmap m1'" if "y \<in> (\<Union>c\<in>set (take n (m_base m1')). set_MapCell c)" for y n
    using that by (auto simp: hmap_set dest: in_set_takeD)
  then show ?thesis unfolding EqualMap_def assms(1,2,3)
    by (intro if_cong refl EqualMap_loop_cong conjI assms(4,5))
qed


section \<open>Bits, hashes and fingerprints\<close>

text \<open>The \<open>basic64\<close> functions of the scalar forms, and their inverses; the other forms have none.\<close>

definition BoolForm_basic64 :: "bool \<Rightarrow> u64" where "BoolForm_basic64 b = (if b then 1 else 0)"
definition IntForm_basic64 :: "i64 \<Rightarrow> u64" where "IntForm_basic64 i = i"
definition UIntForm_basic64 :: "u64 \<Rightarrow> u64" where "UIntForm_basic64 u = u"
definition FingerprintForm_basic64 :: "u64 \<Rightarrow> u64" where "FingerprintForm_basic64 u = u"
definition FloatForm_basic64 :: "dbl \<Rightarrow> u64" where "FloatForm_basic64 d = d"
definition TimeForm_basic64 :: "u64 \<Rightarrow> u64" where "TimeForm_basic64 u = u"

definition BoolForm_NewValBasic64 :: "u64 \<Rightarrow> Val" where "BoolForm_NewValBasic64 bits = BoolVal (bits \<noteq> 0)"
definition IntForm_NewValBasic64 :: "u64 \<Rightarrow> Val" where "IntForm_NewValBasic64 bits = IntVal bits"
definition UIntForm_NewValBasic64 :: "u64 \<Rightarrow> Val" where "UIntForm_NewValBasic64 bits = UIntVal bits"
definition FingerprintForm_NewValBasic64 :: "u64 \<Rightarrow> Val" where
  "FingerprintForm_NewValBasic64 bits = FingerprintVal bits"
definition FloatForm_NewValBasic64 :: "u64 \<Rightarrow> Val" where "FloatForm_NewValBasic64 bits = FloatVal bits"
definition TimeForm_NewValBasic64 :: "u64 \<Rightarrow> Val" where "TimeForm_NewValBasic64 bits = TimeVal bits"

lemmas basic64_defs [simp] =
  BoolForm_basic64_def IntForm_basic64_def UIntForm_basic64_def FingerprintForm_basic64_def
  FloatForm_basic64_def TimeForm_basic64_def BoolForm_NewValBasic64_def IntForm_NewValBasic64_def
  UIntForm_NewValBasic64_def FingerprintForm_NewValBasic64_def FloatForm_NewValBasic64_def
  TimeForm_NewValBasic64_def

fun basic64 :: "Val \<Rightarrow> u64 res" where
  "basic64 (BoolVal b) = Ok (BoolForm_basic64 b)"
| "basic64 (IntVal i) = Ok (IntForm_basic64 i)"
| "basic64 (UIntVal u) = Ok (UIntForm_basic64 u)"
| "basic64 (FingerprintVal u) = Ok (FingerprintForm_basic64 u)"
| "basic64 (FloatVal d) = Ok (FloatForm_basic64 d)"
| "basic64 (TimeVal u) = Ok (TimeForm_basic64 u)"
| "basic64 _ = Inl (Fatal ''should not reach here'')"

text \<open>The fingerprints of the forms.\<close>

definition BoolForm_Fingerprint :: "bool \<Rightarrow> u64" where
  "BoolForm_Fingerprint b = Fingerprint (BoolForm_basic64 b)"
definition IntForm_Fingerprint :: "i64 \<Rightarrow> u64" where
  "IntForm_Fingerprint i = Fingerprint (IntForm_basic64 i)"
definition UIntForm_Fingerprint :: "u64 \<Rightarrow> u64" where
  "UIntForm_Fingerprint u = Fingerprint (UIntForm_basic64 u)"
definition FingerprintForm_Fingerprint :: "u64 \<Rightarrow> u64" where
  "FingerprintForm_Fingerprint u = Fingerprint (FingerprintForm_basic64 u)"
definition FloatForm_Fingerprint :: "dbl \<Rightarrow> u64" where
  "FloatForm_Fingerprint d = Fingerprint (FloatForm_basic64 d)"
definition TimeForm_Fingerprint :: "u64 \<Rightarrow> u64" where
  "TimeForm_Fingerprint u = Fingerprint (TimeForm_basic64 u)"
definition BytesForm_Fingerprint :: "rt_env \<Rightarrow> bytes \<Rightarrow> u64" where
  "BytesForm_Fingerprint env s = FingerprintString (rt_host env) s"
definition StringForm_Fingerprint :: "rt_env \<Rightarrow> bytes \<Rightarrow> u64" where
  "StringForm_Fingerprint env s = FingerprintString (rt_host env) s"
definition ArrayForm_Fingerprint :: "('v \<Rightarrow> u64 res) \<Rightarrow> 'v list \<Rightarrow> u64 res" where
  "ArrayForm_Fingerprint fpr vs =
     bind_res (map_res fpr vs) (\<lambda>ps. Ok (foldl FingerprintCat kFingerSeed ps))"
definition TupleForm_Fingerprint :: "('v \<Rightarrow> u64 res) \<Rightarrow> 'v list \<Rightarrow> u64 res" where
  "TupleForm_Fingerprint fpr vs =
     bind_res (map_res fpr vs) (\<lambda>ps. Ok (foldl FingerprintCat kFingerSeed ps))"
definition MapForm_Fingerprint :: "('v \<Rightarrow> u64 res) \<Rightarrow> 'v hmap \<Rightarrow> u64 res" where
  "MapForm_Fingerprint fpr m = Map_Fingerprint fpr m"
definition ClosureForm_Fingerprint :: "rt_env \<Rightarrow> u64 \<Rightarrow> u64 \<Rightarrow> u64" where
  "ClosureForm_Fingerprint env entry context =
     FingerprintCat (Fingerprint (rt_code_index env entry)) (rt_dynamic_level env context)"

lemmas fingerprint_defs [simp] =
  BoolForm_Fingerprint_def IntForm_Fingerprint_def UIntForm_Fingerprint_def FingerprintForm_Fingerprint_def
  FloatForm_Fingerprint_def TimeForm_Fingerprint_def BytesForm_Fingerprint_def StringForm_Fingerprint_def
  ArrayForm_Fingerprint_def TupleForm_Fingerprint_def MapForm_Fingerprint_def ClosureForm_Fingerprint_def

lemma form_fingerprint_cong [fundef_cong]:
  "vs = vs' \<Longrightarrow> (\<And>x. x \<in> set vs' \<Longrightarrow> f x = g x) \<Longrightarrow> ArrayForm_Fingerprint f vs = ArrayForm_Fingerprint g vs'"
  "vs = vs' \<Longrightarrow> (\<And>x. x \<in> set vs' \<Longrightarrow> f x = g x) \<Longrightarrow> TupleForm_Fingerprint f vs = TupleForm_Fingerprint g vs'"
  "m = m' \<Longrightarrow> (\<And>x. x \<in> set_hmap m' \<Longrightarrow> f x = g x) \<Longrightarrow> MapForm_Fingerprint f m = MapForm_Fingerprint g m'"
  by (simp_all cong: map_res_cong) (metis Map_Fingerprint_cong)

fun Val_Fingerprint :: "rt_env \<Rightarrow> Val \<Rightarrow> u64 res" where
  "Val_Fingerprint env (BoolVal b) = Ok (BoolForm_Fingerprint b)"
| "Val_Fingerprint env (IntVal i) = Ok (IntForm_Fingerprint i)"
| "Val_Fingerprint env (UIntVal u) = Ok (UIntForm_Fingerprint u)"
| "Val_Fingerprint env (FingerprintVal u) = Ok (FingerprintForm_Fingerprint u)"
| "Val_Fingerprint env (FloatVal d) = Ok (FloatForm_Fingerprint d)"
| "Val_Fingerprint env (TimeVal u) = Ok (TimeForm_Fingerprint u)"
| "Val_Fingerprint env (BytesVal s) = Ok (BytesForm_Fingerprint env s)"
| "Val_Fingerprint env (StringVal s) = Ok (StringForm_Fingerprint env s)"
| "Val_Fingerprint env (ArrayVal vs) = ArrayForm_Fingerprint (Val_Fingerprint env) vs"
| "Val_Fingerprint env (TupleVal all_read vs) = TupleForm_Fingerprint (Val_Fingerprint env) vs"
| "Val_Fingerprint env (MapVal m) = MapForm_Fingerprint (Val_Fingerprint env) m"
| "Val_Fingerprint env (ClosureVal entry context) = Ok (ClosureForm_Fingerprint env entry context)"

text \<open>The hash of a 64-bit scalar, its two halves one after the other, is what six forms
  write out.\<close>

definition hash64 :: "u64 \<Rightarrow> u32" where
  "hash64 i = Hash32NumWithSeed (ucast i) (Hash32NumWithSeed (ucast (drop_bit 32 i)) kHashSeed32)"

definition BoolForm_Hash :: "bool \<Rightarrow> u32" where
  "BoolForm_Hash b = Hash32NumWithSeed (if b then 1 else 0) kHashSeed32"
definition IntForm_Hash :: "i64 \<Rightarrow> u32" where "IntForm_Hash i = hash64 i"
definition UIntForm_Hash :: "u64 \<Rightarrow> u32" where "UIntForm_Hash i = hash64 i"
definition FingerprintForm_Hash :: "u64 \<Rightarrow> u32" where "FingerprintForm_Hash u = hash64 (FingerprintForm_basic64 u)"
definition FloatForm_Hash :: "dbl \<Rightarrow> u32" where "FloatForm_Hash d = hash64 (FloatForm_basic64 d)"
definition TimeForm_Hash :: "u64 \<Rightarrow> u32" where "TimeForm_Hash u = hash64 (TimeForm_basic64 u)"
definition BytesForm_Hash :: "rt_env \<Rightarrow> bytes \<Rightarrow> u32" where
  "BytesForm_Hash env s = Hash32StringWithSeed (rt_host env) s kHashSeed32"
definition StringForm_Hash :: "rt_env \<Rightarrow> bytes \<Rightarrow> u32" where
  "StringForm_Hash env s = Hash32StringWithSeed (rt_host env) s kHashSeed32"
definition ArrayForm_Hash :: "('v \<Rightarrow> u32 res) \<Rightarrow> 'v list \<Rightarrow> u32 res" where
  "ArrayForm_Hash hash vs = bind_res (map_res hash vs) (\<lambda>hs. Ok (foldl MapHashCat kHashSeed32 hs))"
definition TupleForm_Hash :: "('v \<Rightarrow> u32 res) \<Rightarrow> bool \<Rightarrow> 'v list \<Rightarrow> u32 res" where
  "TupleForm_Hash hash all_read vs = bind_res (check all_read) (\<lambda>_.
     bind_res (map_res hash vs) (\<lambda>hs. Ok (foldl MapHashCat kHashSeed32 hs)))"
definition MapForm_Hash :: "('v \<Rightarrow> u64 res) \<Rightarrow> 'v hmap \<Rightarrow> u32 res" where
  "MapForm_Hash fpr m = bind_res (Map_Fingerprint fpr m) (\<lambda>i. Ok (hash64 i))"
definition ClosureForm_Hash :: "rt_env \<Rightarrow> u64 \<Rightarrow> u64 \<Rightarrow> u32" where
  "ClosureForm_Hash env entry context =
     MapHashCat (Hash32PointerWithSeed (rt_ptr32 env) entry kHashSeed32)
                (Hash32PointerWithSeed (rt_ptr32 env) context kHashSeed32)"

lemmas hash_defs [simp] =
  BoolForm_Hash_def IntForm_Hash_def UIntForm_Hash_def FingerprintForm_Hash_def FloatForm_Hash_def
  TimeForm_Hash_def BytesForm_Hash_def StringForm_Hash_def ArrayForm_Hash_def TupleForm_Hash_def
  MapForm_Hash_def ClosureForm_Hash_def

lemma form_hash_cong [fundef_cong]:
  "vs = vs' \<Longrightarrow> (\<And>x. x \<in> set vs' \<Longrightarrow> f x = g x) \<Longrightarrow> ArrayForm_Hash f vs = ArrayForm_Hash g vs'"
  "vs = vs' \<Longrightarrow> (\<And>x. x \<in> set vs' \<Longrightarrow> f x = g x) \<Longrightarrow> TupleForm_Hash f r vs = TupleForm_Hash g r vs'"
  by (simp_all cong: map_res_cong)

fun Val_Hash :: "rt_env \<Rightarrow> Val \<Rightarrow> u32 res" where
  "Val_Hash env (BoolVal b) = Ok (BoolForm_Hash b)"
| "Val_Hash env (IntVal i) = Ok (IntForm_Hash i)"
| "Val_Hash env (UIntVal u) = Ok (UIntForm_Hash u)"
| "Val_Hash env (FingerprintVal u) = Ok (FingerprintForm_Hash u)"
| "Val_Hash env (FloatVal d) = Ok (FloatForm_Hash d)"
| "Val_Hash env (TimeVal u) = Ok (TimeForm_Hash u)"
| "Val_Hash env (BytesVal s) = Ok (BytesForm_Hash env s)"
| "Val_Hash env (StringVal s) = Ok (StringForm_Hash env s)"
| "Val_Hash env (ArrayVal vs) = ArrayForm_Hash (Val_Hash env) vs"
| "Val_Hash env (TupleVal all_read vs) = TupleForm_Hash (Val_Hash env) all_read vs"
| "Val_Hash env (MapVal m) = MapForm_Hash (Val_Fingerprint env) m"
| "Val_Hash env (ClosureVal entry context) = Ok (ClosureForm_Hash env entry context)"


section \<open>Equality\<close>

text \<open>The loop over two arrays or tuples, from the last pair of elements to the first.\<close>

fun all_equal :: "('v \<Rightarrow> 'v \<Rightarrow> bool res) \<Rightarrow> ('v \<times> 'v) list \<Rightarrow> bool res" where
  "all_equal eq [] = Ok True"
| "all_equal eq ((x, y) # ps) = bind_res (eq x y) (\<lambda>b. if \<not> b then Ok False else all_equal eq ps)"

lemma all_equal_cong [fundef_cong]:
  "ps = ps' \<Longrightarrow> (\<And>x y. (x, y) \<in> set ps' \<Longrightarrow> eq x y = eq' x y) \<Longrightarrow> all_equal eq ps = all_equal eq' ps'"
proof (induction ps' arbitrary: ps)
  case (Cons p ps')
  then show ?case by (cases p) (auto intro!: bind_res_cong)
qed simp

lemma size_zip:
  assumes "(x, y) \<in> set (zip xs ys)"
  shows "size x + size y < Suc (Suc (size_list size xs + size_list size ys))"
proof -
  have "size x \<le> size_list size xs" "size y \<le> size_list size ys"
    using set_zip_leftD [OF assms] set_zip_rightD [OF assms] by (simp_all add: size_list_estimation')
  then show ?thesis by simp
qed

definition BoolForm_IsEqual :: "bool \<Rightarrow> Val \<Rightarrow> bool" where
  "BoolForm_IsEqual a v2 = (case v2 of BoolVal b \<Rightarrow> a = b | _ \<Rightarrow> False)"
definition IntForm_IsEqual :: "i64 \<Rightarrow> Val \<Rightarrow> bool" where
  "IntForm_IsEqual a v2 = (case v2 of IntVal b \<Rightarrow> a = b | _ \<Rightarrow> False)"
definition UIntForm_IsEqual :: "u64 \<Rightarrow> Val \<Rightarrow> bool" where
  "UIntForm_IsEqual a v2 = (case v2 of UIntVal b \<Rightarrow> a = b | _ \<Rightarrow> False)"
definition FingerprintForm_IsEqual :: "u64 \<Rightarrow> Val \<Rightarrow> bool" where
  "FingerprintForm_IsEqual a v2 = (case v2 of FingerprintVal b \<Rightarrow> a = b | _ \<Rightarrow> False)"
definition FloatForm_IsEqual :: "dbl \<Rightarrow> Val \<Rightarrow> bool" where
  "FloatForm_IsEqual a v2 = (case v2 of FloatVal b \<Rightarrow> dbl_eq a b | _ \<Rightarrow> False)"
definition TimeForm_IsEqual :: "u64 \<Rightarrow> Val \<Rightarrow> bool" where
  "TimeForm_IsEqual a v2 = (case v2 of TimeVal b \<Rightarrow> a = b | _ \<Rightarrow> False)"
definition BytesForm_IsEqual :: "bytes \<Rightarrow> Val \<Rightarrow> bool" where
  "BytesForm_IsEqual a v2 = (case v2 of BytesVal b \<Rightarrow> length a = length b \<and> a = b | _ \<Rightarrow> False)"
definition StringForm_IsEqual :: "bytes \<Rightarrow> Val \<Rightarrow> bool" where
  "StringForm_IsEqual a v2 = (case v2 of StringVal b \<Rightarrow> length a = length b \<and> a = b | _ \<Rightarrow> False)"
definition ClosureForm_IsEqual :: "u64 \<Rightarrow> u64 \<Rightarrow> Val \<Rightarrow> bool" where
  "ClosureForm_IsEqual a c v2 = (case v2 of ClosureVal b d \<Rightarrow> a = b \<and> c = d | _ \<Rightarrow> False)"
definition ArrayForm_IsEqual :: "(Val \<Rightarrow> Val \<Rightarrow> bool res) \<Rightarrow> Val list \<Rightarrow> Val \<Rightarrow> bool res" where
  "ArrayForm_IsEqual eq a v2 = (case v2 of
     ArrayVal b \<Rightarrow> if length a \<noteq> length b then Ok False else all_equal eq (rev (zip a b))
   | _ \<Rightarrow> Ok False)"
definition MapForm_IsEqual ::
    "(Val \<Rightarrow> Val \<Rightarrow> bool res) \<Rightarrow> (Val \<Rightarrow> u32 res) \<Rightarrow> Val hmap \<Rightarrow> Val \<Rightarrow> bool res" where
  "MapForm_IsEqual eq hash a v2 = (case v2 of MapVal b \<Rightarrow> EqualMap eq hash a b | _ \<Rightarrow> Ok False)"
definition TupleForm_IsEqual :: "(Val \<Rightarrow> Val \<Rightarrow> bool res) \<Rightarrow> bool \<Rightarrow> Val list \<Rightarrow> Val \<Rightarrow> bool res" where
  "TupleForm_IsEqual eq all_read a v2 = (case v2 of
     TupleVal _ b \<Rightarrow> if length a \<noteq> length b then Inl Check_failed
       else bind_res (check all_read) (\<lambda>_. all_equal eq (rev (zip a b)))
   | _ \<Rightarrow> Ok False)"

lemmas equal_defs =
  BoolForm_IsEqual_def IntForm_IsEqual_def UIntForm_IsEqual_def FingerprintForm_IsEqual_def
  FloatForm_IsEqual_def TimeForm_IsEqual_def BytesForm_IsEqual_def StringForm_IsEqual_def
  ClosureForm_IsEqual_def ArrayForm_IsEqual_def MapForm_IsEqual_def TupleForm_IsEqual_def

text \<open>The recursive calls are on elements of both values, so their sizes shrink together.\<close>

lemma ArrayForm_IsEqual_cong [fundef_cong]:
  assumes "a = a'" "v2 = v2'" "\<And>x y. size x + size y < size (ArrayVal a') + size v2' \<Longrightarrow> eq x y = eq' x y"
  shows "ArrayForm_IsEqual eq a v2 = ArrayForm_IsEqual eq' a' v2'"
proof (cases v2')
  case (ArrayVal b)
  have "eq x y = eq' x y" if "(x, y) \<in> set (zip a' b)" for x y
    using assms(3) [of x y] size_zip [OF that] ArrayVal by simp
  then show ?thesis using assms(1,2) ArrayVal by (auto simp: ArrayForm_IsEqual_def intro!: all_equal_cong)
qed (use assms(1,2) in \<open>auto simp: ArrayForm_IsEqual_def\<close>)

lemma TupleForm_IsEqual_cong [fundef_cong]:
  assumes "a = a'" "v2 = v2'" "\<And>x y. size x + size y < size (TupleVal r a') + size v2' \<Longrightarrow> eq x y = eq' x y"
  shows "TupleForm_IsEqual eq r a v2 = TupleForm_IsEqual eq' r a' v2'"
proof (cases v2')
  case (TupleVal r' b)
  have "eq x y = eq' x y" if "(x, y) \<in> set (zip a' b)" for x y
    using assms(3) [of x y] size_zip [OF that] TupleVal by simp
  then show ?thesis using assms(1,2) TupleVal by (auto simp: TupleForm_IsEqual_def intro!: all_equal_cong bind_res_cong)
qed (use assms(1,2) in \<open>auto simp: TupleForm_IsEqual_def\<close>)

lemma MapForm_IsEqual_cong [fundef_cong]:
  assumes "hash = hash'" "a = a'" "v2 = v2'"
    and eq: "\<And>x y. size x + size y < size (MapVal a') + size v2' \<Longrightarrow> eq x y = eq' x y"
  shows "MapForm_IsEqual eq hash a v2 = MapForm_IsEqual eq' hash' a' v2'"
proof (cases v2')
  case (MapVal b)
  have "eq x y = eq' x y \<and> eq y x = eq' y x" if "x \<in> set_hmap a'" "y \<in> set_hmap b" for x y
    using eq [of x y] eq [of y x] size_hmap_less [OF that(1)] size_hmap_less [OF that(2)] MapVal by simp
  then show ?thesis using assms(1-3) MapVal by (auto simp: MapForm_IsEqual_def intro!: EqualMap_cong)
qed (use assms(1-3) in \<open>auto simp: MapForm_IsEqual_def\<close>)

function Val_IsEqual :: "rt_env \<Rightarrow> Val \<Rightarrow> Val \<Rightarrow> bool res" where
  "Val_IsEqual env v1 v2 = (case v1 of
     BoolVal a \<Rightarrow> Ok (BoolForm_IsEqual a v2)
   | IntVal a \<Rightarrow> Ok (IntForm_IsEqual a v2)
   | UIntVal a \<Rightarrow> Ok (UIntForm_IsEqual a v2)
   | FingerprintVal a \<Rightarrow> Ok (FingerprintForm_IsEqual a v2)
   | FloatVal a \<Rightarrow> Ok (FloatForm_IsEqual a v2)
   | TimeVal a \<Rightarrow> Ok (TimeForm_IsEqual a v2)
   | BytesVal a \<Rightarrow> Ok (BytesForm_IsEqual a v2)
   | StringVal a \<Rightarrow> Ok (StringForm_IsEqual a v2)
   | ArrayVal a \<Rightarrow> ArrayForm_IsEqual (Val_IsEqual env) a v2
   | MapVal a \<Rightarrow> MapForm_IsEqual (Val_IsEqual env) (Val_Hash env) a v2
   | TupleVal r a \<Rightarrow> TupleForm_IsEqual (Val_IsEqual env) r a v2
   | ClosureVal a c \<Rightarrow> Ok (ClosureForm_IsEqual a c v2))"
  by pat_completeness auto
termination
  by (relation "measure (\<lambda>(env, v1, v2). size v1 + size v2)") auto

lemmas Val_IsEqual_simps = Val_IsEqual.simps [unfolded equal_defs]

declare Val_IsEqual.simps [simp del]


section \<open>Types and denotations\<close>

datatype ty =
    TyBool | TyInt | TyUInt | TyFingerprint | TyFloat | TyTime | TyBytes | TyString
  | TyArray ty | TyMap ty ty | TyTuple "ty list" | TyFunction

datatype denot =
    DBool bool | DInt i64 | DUInt u64 | DFingerprint u64 | DFloat dbl | DTime u64
  | DBytes bytes | DString bytes | DArray "denot list" | DMap "(denot option \<times> denot option) fset"
  | DTuple "denot list" | DClosure u64 u64

primrec den :: "Val \<Rightarrow> denot" where
  "den (BoolVal b) = DBool b"
| "den (IntVal i) = DInt i"
| "den (UIntVal u) = DUInt u"
| "den (FingerprintVal u) = DFingerprint u"
| "den (FloatVal d) = DFloat d"
| "den (TimeVal u) = DTime u"
| "den (BytesVal s) = DBytes s"
| "den (StringVal s) = DString s"
| "den (ArrayVal vs) = DArray (map den vs)"
| "den (MapVal m) = DMap (fset_of_list (den_alist id (map_hmap den m)))"
| "den (TupleVal all_read vs) = DTuple (map den vs)"
| "den (ClosureVal e c) = DClosure e c"

text \<open>The floats that are equal only to themselves: not NaN and not minus zero.\<close>

definition plain_float :: "dbl \<Rightarrow> bool" where
  "plain_float d \<longleftrightarrow> \<not> is_nan d \<and> d \<noteq> 2 ^ 63"

function good :: "rt_env \<Rightarrow> ty \<Rightarrow> Val \<Rightarrow> bool" where
  "good env t v = (case t of
     TyBool \<Rightarrow> (case v of BoolVal _ \<Rightarrow> True | _ \<Rightarrow> False)
   | TyInt \<Rightarrow> (case v of IntVal _ \<Rightarrow> True | _ \<Rightarrow> False)
   | TyUInt \<Rightarrow> (case v of UIntVal _ \<Rightarrow> True | _ \<Rightarrow> False)
   | TyFingerprint \<Rightarrow> (case v of FingerprintVal _ \<Rightarrow> True | _ \<Rightarrow> False)
   | TyFloat \<Rightarrow> (case v of FloatVal d \<Rightarrow> plain_float d | _ \<Rightarrow> False)
   | TyTime \<Rightarrow> (case v of TimeVal _ \<Rightarrow> True | _ \<Rightarrow> False)
   | TyBytes \<Rightarrow> (case v of BytesVal _ \<Rightarrow> True | _ \<Rightarrow> False)
   | TyString \<Rightarrow> (case v of StringVal _ \<Rightarrow> True | _ \<Rightarrow> False)
   | TyArray t \<Rightarrow> (case v of ArrayVal vs \<Rightarrow> list_all (good env t) vs | _ \<Rightarrow> False)
   | TyMap a b \<Rightarrow> (case v of
       MapVal m \<Rightarrow> map_ok (good env a) den (Val_Hash env) m \<and> list_all (value_entry (good env b)) (entries m)
     | _ \<Rightarrow> False)
   | TyTuple ts \<Rightarrow> (case v of
       TupleVal all_read vs \<Rightarrow> all_read \<and> length ts = length vs \<and> (\<forall>(t, v) \<in> set (zip ts vs). good env t v)
     | _ \<Rightarrow> False)
   | TyFunction \<Rightarrow> (case v of ClosureVal _ _ \<Rightarrow> True | _ \<Rightarrow> False))"
  by pat_completeness auto
termination
  by (relation "measure (\<lambda>(env, t, v). size t)")
    (auto dest!: set_zip_leftD simp: less_Suc_eq_le size_list_estimation')

declare good.simps [simp del]

lemma den_map_hmap: "den_alist id (map_hmap f m) = den_alist f m"
proof -
  have "cell_entry (map_MapCell f c) = map_prod (map_option f) (apfst (map_option f)) (cell_entry c)" for c
    by (cases c) (simp add: cell_entry_def)
  then show ?thesis
    by (cases m) (simp add: den_alist_def entries_def take_map comp_def case_prod_unfold option.map_id)
qed

lemma den_MapVal: "den (MapVal m) = DMap (fset_of_list (den_alist den m))"
  by (simp add: den_map_hmap)

declare den.simps(10) [simp del]
declare den_MapVal [simp]

text \<open>A function of the denotation, as two conditions.\<close>

lemma den_function_iff:
  "(\<exists>g. \<forall>x. ok x \<longrightarrow> f x = Ok (g (d x))) \<longleftrightarrow>
   (\<forall>x. ok x \<longrightarrow> (\<exists>r. f x = Ok r)) \<and> (\<forall>x y. ok x \<longrightarrow> ok y \<longrightarrow> d x = d y \<longrightarrow> f x = f y)"
proof
  assume r: "(\<forall>x. ok x \<longrightarrow> (\<exists>r. f x = Ok r)) \<and> (\<forall>x y. ok x \<longrightarrow> ok y \<longrightarrow> d x = d y \<longrightarrow> f x = f y)"
  then obtain h where h: "\<And>x. ok x \<Longrightarrow> f x = Ok (h x)" by metis
  define g where "g = (\<lambda>e. h (SOME x. ok x \<and> d x = e))"
  have "f x = Ok (g (d x))" if "ok x" for x
  proof -
    have "ok (SOME y. ok y \<and> d y = d x) \<and> d (SOME y. ok y \<and> d y = d x) = d x"
      by (rule someI [of _ x]) (simp add: that)
    then show ?thesis using r h that by (metis g_def)
  qed
  then show "\<exists>g. \<forall>x. ok x \<longrightarrow> f x = Ok (g (d x))" by blast
qed auto



section \<open>The contract of keys, by induction on the type\<close>

definition contract :: "rt_env \<Rightarrow> ty \<Rightarrow> bool" where
  "contract env t \<longleftrightarrow>
     (\<forall>x y. good env t x \<longrightarrow> good env t y \<longrightarrow> Val_IsEqual env x y = Ok (den x = den y)) \<and>
     (\<exists>g. \<forall>x. good env t x \<longrightarrow> Val_Hash env x = Ok (g (den x))) \<and>
     (\<exists>g. \<forall>x. good env t x \<longrightarrow> Val_Fingerprint env x = Ok (g (den x)))"

lemma plain_float_eq: "plain_float a \<Longrightarrow> plain_float b \<Longrightarrow> dbl_eq a b \<longleftrightarrow> a = b"
proof -
  assume p: "plain_float a" "plain_float b"
  have "a = b" if "dbl_ord a = dbl_ord b"
  proof -
    have neg: "dbl_low d \<noteq> 0" if "plain_float d" "dbl_neg_sign d" for d
    proof
      assume "dbl_low d = 0"
      then have "unat d = unat (2 ^ 63 :: dbl)" using that(2) unat_dbl [of d] by simp
      then show False using that(1) by (simp only: plain_float_def word_unat_eq_iff) blast
    qed
    have "dbl_neg_sign a = dbl_neg_sign b \<and> dbl_low a = dbl_low b"
    proof (cases "dbl_neg_sign a"; cases "dbl_neg_sign b")
      assume "dbl_neg_sign a" "\<not> dbl_neg_sign b"
      then show ?thesis using that neg [OF p(1)] by (simp add: dbl_ord_def)
    next
      assume "\<not> dbl_neg_sign a" "dbl_neg_sign b"
      then have "int (dbl_low a) = - int (dbl_low b)" "dbl_low b \<noteq> 0"
        using that neg [OF p(2)] by (simp_all add: dbl_ord_def)
      then show ?thesis by linarith
    next
      assume "dbl_neg_sign a" "dbl_neg_sign b"
      then show ?thesis using that unfolding dbl_ord_def by simp
    next
      assume "\<not> dbl_neg_sign a" "\<not> dbl_neg_sign b"
      then show ?thesis using that unfolding dbl_ord_def by simp
    qed
    then have "dbl_make (dbl_neg_sign a) (dbl_low a) = dbl_make (dbl_neg_sign b) (dbl_low b)" by simp
    then show ?thesis by (simp only: dbl_make_eta)
  qed
  then show ?thesis using p by (auto simp: dbl_eq_def dbl_int_eq_iff plain_float_def)
qed

lemma all_equal_Ok:
  "(\<And>x y. (x, y) \<in> set ps \<Longrightarrow> eq x y = Ok (P x y)) \<Longrightarrow> all_equal eq ps = Ok (\<forall>(x, y) \<in> set ps. P x y)"
  by (induction ps) auto

lemma zip_map_eq:
  "length xs = length ys \<Longrightarrow> (\<forall>(x, y) \<in> set (zip xs ys). f x = f y) \<longleftrightarrow> map f xs = map f ys"
  by (induction xs ys rule: list_induct2) auto

text \<open>One form of value, by the part \<open>K\<close> of it that the denotation shows.\<close>

lemma contract_intro:
  assumes form: "\<And>x. good env t x \<Longrightarrow> \<exists>a. x = C a \<and> P a"
    and eq: "\<And>a b. P a \<Longrightarrow> P b \<Longrightarrow> Val_IsEqual env (C a) (C b) = Ok (K a = K b)"
    and hash: "\<And>a. P a \<Longrightarrow> Val_Hash env (C a) = Ok (gh (K a))"
    and fpr: "\<And>a. P a \<Longrightarrow> Val_Fingerprint env (C a) = Ok (gf (K a))"
    and den: "\<And>a b. den (C a) = den (C b) \<longleftrightarrow> K a = K b"
  shows "contract env t"
proof -
  have "Val_IsEqual env x y = Ok (den x = den y)" if "good env t x" "good env t y" for x y
    using form [OF that(1)] form [OF that(2)] eq den by auto
  moreover have "\<exists>g. \<forall>x. good env t x \<longrightarrow> Val_Hash env x = Ok (g (den x))"
    unfolding den_function_iff using form hash den by metis
  moreover have "\<exists>g. \<forall>x. good env t x \<longrightarrow> Val_Fingerprint env x = Ok (g (den x))"
    unfolding den_function_iff using form fpr den by metis
  ultimately show ?thesis by (simp add: contract_def)
qed

lemma contractE:
  assumes "contract env t"
  obtains gh gf where "\<And>x. good env t x \<Longrightarrow> Val_Hash env x = Ok (gh (den x))"
    "\<And>x. good env t x \<Longrightarrow> Val_Fingerprint env x = Ok (gf (den x))"
    "\<And>x y. good env t x \<Longrightarrow> good env t y \<Longrightarrow> Val_IsEqual env x y = Ok (den x = den y)"
  using assms unfolding contract_def by metis

lemma contract_scalar:
  "contract env TyBool" "contract env TyInt" "contract env TyUInt" "contract env TyFingerprint"
  "contract env TyTime" "contract env TyBytes" "contract env TyString" "contract env TyFloat"
  subgoal by (rule contract_intro [where C = BoolVal and P = "\<lambda>_. True" and K = id])
      (auto simp: good.simps Val_IsEqual_simps split: Val.splits)
  subgoal by (rule contract_intro [where C = IntVal and P = "\<lambda>_. True" and K = id])
      (auto simp: good.simps Val_IsEqual_simps split: Val.splits)
  subgoal by (rule contract_intro [where C = UIntVal and P = "\<lambda>_. True" and K = id])
      (auto simp: good.simps Val_IsEqual_simps split: Val.splits)
  subgoal by (rule contract_intro [where C = FingerprintVal and P = "\<lambda>_. True" and K = id])
      (auto simp: good.simps Val_IsEqual_simps split: Val.splits)
  subgoal by (rule contract_intro [where C = TimeVal and P = "\<lambda>_. True" and K = id])
      (auto simp: good.simps Val_IsEqual_simps split: Val.splits)
  subgoal by (rule contract_intro [where C = BytesVal and P = "\<lambda>_. True" and K = id])
      (auto simp: good.simps Val_IsEqual_simps split: Val.splits)
  subgoal by (rule contract_intro [where C = StringVal and P = "\<lambda>_. True" and K = id])
      (auto simp: good.simps Val_IsEqual_simps split: Val.splits)
  subgoal by (rule contract_intro [where C = FloatVal and P = plain_float and K = id])
      (auto simp: good.simps Val_IsEqual_simps plain_float_eq split: Val.splits)
  done

lemma contract_TyFunction: "contract env TyFunction"
  by (rule contract_intro [where C = "\<lambda>(e, c). ClosureVal e c" and P = "\<lambda>_. True" and K = id
        and gf = "\<lambda>(e, c). ClosureForm_Fingerprint env e c"
        and gh = "\<lambda>(e, c). MapHashCat (Hash32PointerWithSeed (rt_ptr32 env) e kHashSeed32)
                             (Hash32PointerWithSeed (rt_ptr32 env) c kHashSeed32)"])
    (auto simp: good.simps Val_IsEqual_simps split: Val.splits)

lemma map_res_pointwise:
  "length ts = length vs \<Longrightarrow> (\<And>t v. (t, v) \<in> set (zip ts vs) \<Longrightarrow> f v = Ok (g t (d v))) \<Longrightarrow>
   map_res f vs = Ok (map2 g ts (map d vs))"
proof (induction ts vs rule: list_induct2)
  case (Cons t ts v vs)
  have "f v = Ok (g t (d v))" by (rule Cons.prems) simp
  moreover have "map_res f vs = Ok (map2 g ts (map d vs))" by (rule Cons.IH) (simp add: Cons.prems)
  ultimately show ?case by simp
qed simp

lemma equal_lists:
  assumes "length a = length b"
    and "\<And>x y. (x, y) \<in> set (zip a b) \<Longrightarrow> Val_IsEqual env x y = Ok (den x = den y)"
  shows "all_equal (Val_IsEqual env) (rev (zip a b)) = Ok (map den a = map den b)"
  using all_equal_Ok [of "rev (zip a b)" "Val_IsEqual env" "\<lambda>x y. den x = den y"] assms
    zip_map_eq [OF assms(1), of den] by simp

lemma contract_TyArray:
  assumes "contract env t"
  shows "contract env (TyArray t)"
proof (rule contractE [OF assms])
  fix gh gf
  assume gh: "\<And>x. good env t x \<Longrightarrow> Val_Hash env x = Ok (gh (den x))"
    and gf: "\<And>x. good env t x \<Longrightarrow> Val_Fingerprint env x = Ok (gf (den x))"
    and eq: "\<And>x y. good env t x \<Longrightarrow> good env t y \<Longrightarrow> Val_IsEqual env x y = Ok (den x = den y)"
  let ?P = "\<lambda>vs. \<forall>v\<in>set vs. good env t v"
  show ?thesis
  proof (rule contract_intro [where C = ArrayVal and P = ?P and K = "map den"])
    show "\<exists>vs. x = ArrayVal vs \<and> ?P vs" if "good env (TyArray t) x" for x
      using that by (auto simp: good.simps [of env "TyArray t"] list_all_iff split: Val.splits)
    show "Val_IsEqual env (ArrayVal a) (ArrayVal b) = Ok (map den a = map den b)" if "?P a" "?P b" for a b
    proof (cases "length a = length b")
      case True
      have "Val_IsEqual env x y = Ok (den x = den y)" if "(x, y) \<in> set (zip a b)" for x y
        using eq \<open>?P a\<close> \<open>?P b\<close> set_zip_leftD [OF that] set_zip_rightD [OF that] by blast
      from equal_lists [OF True this] show ?thesis
        by (simp add: Val_IsEqual_simps [of env "ArrayVal a"] True)
    next
      case False
      then show ?thesis using map_eq_imp_length_eq by (auto simp: Val_IsEqual_simps [of env "ArrayVal a"])
    qed
    show "Val_Hash env (ArrayVal vs) = Ok (foldl MapHashCat kHashSeed32 (map gh (map den vs)))" if "?P vs" for vs
      using map_res_Ok [of vs "Val_Hash env" "gh \<circ> den"] gh that by simp
    show "Val_Fingerprint env (ArrayVal vs) = Ok (foldl FingerprintCat kFingerSeed (map gf (map den vs)))"
      if "?P vs" for vs
      using map_res_Ok [of vs "Val_Fingerprint env" "gf \<circ> den"] gf that by simp
  qed simp
qed

lemma contract_TyTuple:
  assumes "\<And>t. t \<in> set ts \<Longrightarrow> contract env t"
  shows "contract env (TyTuple ts)"
proof -
  obtain gh gf where gh: "\<And>t x. t \<in> set ts \<Longrightarrow> good env t x \<Longrightarrow> Val_Hash env x = Ok (gh t (den x))"
    and gf: "\<And>t x. t \<in> set ts \<Longrightarrow> good env t x \<Longrightarrow> Val_Fingerprint env x = Ok (gf t (den x))"
    using assms unfolding contract_def by metis
  let ?P = "\<lambda>vs. length ts = length vs \<and> (\<forall>(t, v) \<in> set (zip ts vs). good env t v)"
  show ?thesis
  proof (rule contract_intro [where C = "TupleVal True" and P = ?P and K = "map den"])
    show "\<exists>vs. x = TupleVal True vs \<and> ?P vs" if "good env (TyTuple ts) x" for x
      using that by (auto simp: good.simps [of env "TyTuple ts"] split: Val.splits)
    show "Val_IsEqual env (TupleVal True a) (TupleVal True b) = Ok (map den a = map den b)" if ab: "?P a" "?P b" for a b
    proof -
      have "Val_IsEqual env x y = Ok (den x = den y)" if xy: "(x, y) \<in> set (zip a b)" for x y
      proof -
        obtain i where i: "i < length ts" "x = a ! i" "y = b ! i"
          using xy ab by (auto simp: set_zip)
        then have "(ts ! i, x) \<in> set (zip ts a)" "(ts ! i, y) \<in> set (zip ts b)"
          using ab by (auto simp: set_zip)
        then have "good env (ts ! i) x" "good env (ts ! i) y" using ab by blast+
        then show ?thesis using assms [of "ts ! i"] i(1) by (simp add: contract_def)
      qed
      then show ?thesis using equal_lists [of a b env] ab by (simp add: Val_IsEqual_simps [of env "TupleVal True a"] check_def)
    qed
    show "Val_Hash env (TupleVal True vs) = Ok (foldl MapHashCat kHashSeed32 (map2 gh ts (map den vs)))"
      if P: "?P vs" for vs
    proof -
      have "Val_Hash env v = Ok (gh t (den v))" if "(t, v) \<in> set (zip ts vs)" for t v
        using gh [OF set_zip_leftD [OF that]] P that by blast
      then show ?thesis using map_res_pointwise [of ts vs "Val_Hash env" gh den] P by (simp add: check_def)
    qed
    show "Val_Fingerprint env (TupleVal True vs) = Ok (foldl FingerprintCat kFingerSeed (map2 gf ts (map den vs)))"
      if P: "?P vs" for vs
    proof -
      have "Val_Fingerprint env v = Ok (gf t (den v))" if "(t, v) \<in> set (zip ts vs)" for t v
        using gf [OF set_zip_leftD [OF that]] P that by blast
      then show ?thesis using map_res_pointwise [of ts vs "Val_Fingerprint env" gf den] P by simp
    qed
  qed simp
qed

lemma contract_hash_key:
  "contract env t \<Longrightarrow> hash_key (good env t) den (Val_IsEqual env) (Val_Hash env)"
  unfolding contract_def hash_key_def by metis

lemma contract_map_values:
  "contract env a \<Longrightarrow> contract env b \<Longrightarrow>
   map_values (good env a) den (Val_IsEqual env) (Val_Hash env) (good env b)"
  by (simp add: map_values_def map_values_axioms_def contract_hash_key) (simp add: contract_def)

lemma contract_TyMap:
  assumes a: "contract env a" and b: "contract env b"
  shows "contract env (TyMap a b)"
proof -
  let ?P = "\<lambda>m. map_ok (good env a) den (Val_Hash env) m \<and> list_all (value_entry (good env b)) (entries m)"
  let ?K = "\<lambda>m. fset_of_list (den_alist den m)"
  obtain gk where gk: "\<And>x. good env a x \<Longrightarrow> Val_Fingerprint env x = Ok (gk (den x))"
    using a unfolding contract_def by blast
  obtain gv where gv: "\<And>x. good env b x \<Longrightarrow> Val_Fingerprint env x = Ok (gv (den x))"
    using b unfolding contract_def by blast
  have "\<exists>g. \<forall>m. ?P m \<longrightarrow> Map_Fingerprint (Val_Fingerprint env) m = Ok (g (?K m))"
    unfolding den_function_iff
    using Map_Fingerprint_den [of "good env a" den "Val_Hash env" _ _ "good env b" "Val_Fingerprint env" gk gv] gk gv
    by (metis fset_of_list.rep_eq)
  then obtain g where g: "\<And>m. ?P m \<Longrightarrow> Map_Fingerprint (Val_Fingerprint env) m = Ok (g (?K m))" by blast
  show ?thesis
  proof (rule contract_intro [where C = MapVal and P = ?P and K = ?K])
    show "\<exists>m. x = MapVal m \<and> ?P m" if "good env (TyMap a b) x" for x
      using that by (auto simp: good.simps [of env "TyMap a b"] split: Val.splits)
    show "Val_IsEqual env (MapVal m1) (MapVal m2) = Ok (?K m1 = ?K m2)" if "?P m1" "?P m2" for m1 m2
      using map_values.EqualMap_spec [OF contract_map_values [OF a b]] that
      by (simp add: Val_IsEqual_simps [of env "MapVal m1"] fset_eq_iff set_eq_iff fset_of_list_elem)
    show "Val_Hash env (MapVal m) = Ok (hash64 (g (?K m)))" if "?P m" for m using g [OF that] by simp
    show "Val_Fingerprint env (MapVal m) = Ok (g (?K m))" if "?P m" for m using g [OF that] by simp
  qed simp
qed

theorem contract_all: "contract env t"
  by (induction t) (simp_all add: contract_scalar contract_TyFunction contract_TyArray contract_TyTuple contract_TyMap)

interpretation val_keys: hash_key "good env t" den "Val_IsEqual env" "Val_Hash env" for env t
  by (rule contract_hash_key [OF contract_all])

interpretation val_maps: map_values "good env a" den "Val_IsEqual env" "Val_Hash env" "good env b" for env a b
  by (rule contract_map_values [OF contract_all contract_all])



section \<open>Map values built by insertions\<close>

definition build_map :: "rt_env \<Rightarrow> int \<Rightarrow> bool \<Rightarrow> (Val \<times> Val) list \<Rightarrow> Val hmap res" where
  "build_map env space exact kvs =
     fold_res (MapVal_Insert (Val_IsEqual env) (Val_Hash env)) kvs (MakeMapMem space exact)"

definition den_updates :: "(Val \<times> Val) list \<Rightarrow> (denot option \<times> Val option) list" where
  "den_updates kvs = fold (\<lambda>(k, v). AList.update (Some (den k)) (Some v)) kvs []"

lemma den_updates_snoc:
  "den_updates (kvs @ [kv]) = AList.update (Some (den (fst kv))) (Some (snd kv)) (den_updates kvs)"
  by (simp add: den_updates_def case_prod_unfold)

lemma build_map_spec:
  assumes "list_all (good env t) (map fst kvs)"
  shows "\<exists>m. build_map env space exact kvs = Ok m \<and> map_ok (good env t) den (Val_Hash env) m \<and>
    m_alist den m = den_updates kvs"
  using assms
proof (induction kvs rule: rev_induct)
  case Nil
  then show ?case
    by (simp add: build_map_def MakeMapMem_ok MakeMapMem_alist den_updates_def)
next
  case (snoc kv kvs)
  obtain k v where kv: "kv = (k, v)" by (cases kv)
  obtain m where m: "build_map env space exact kvs = Ok m" "map_ok (good env t) den (Val_Hash env) m"
      "m_alist den m = den_updates kvs"
    using snoc by auto
  have k: "good env t k" using snoc.prems kv by simp
  show ?case
    by (rule val_keys.MapVal_Insert_spec [OF m(2) k, of v])
      (use m in \<open>simp add: build_map_def fold_res_append den_updates_def kv\<close>)
qed

lemma map_of_den_updates:
  "map_of (den_updates kvs) (Some d) = map_option Some (map_of (rev (map (\<lambda>(k, v). (den k, v)) kvs)) d)"
proof (induction kvs rule: rev_induct)
  case (snoc kv kvs)
  then show ?case by (cases kv) (simp add: den_updates_def update_conv)
qed (simp add: den_updates_def)

lemma set_snd_update: "snd ` set (AList.update k v al) \<subseteq> insert v (snd ` set al)"
  by (induction al) auto

lemma build_map_good:
  assumes "list_all (good env a) (map fst kvs)" "list_all (good env b) (map snd kvs)"
    and "build_map env space exact kvs = Ok m"
  shows "good env (TyMap a b) (MapVal m)"
proof -
  have m: "map_ok (good env a) den (Val_Hash env) m" "m_alist den m = den_updates kvs"
    using build_map_spec [OF assms(1), of space exact] assms(3) by auto
  have "snd ` set (den_updates kvs) \<subseteq> Some ` set (map snd kvs)" for kvs
  proof (induction kvs rule: rev_induct)
    case (snoc kv kvs)
    then show ?case using set_snd_update [of "Some (den (fst kv))" "Some (snd kv)" "den_updates kvs"]
      by (cases kv) (force simp: den_updates_snoc)
  qed (simp add: den_updates_def)
  then have "\<forall>v \<in> snd ` set (m_alist den m). \<exists>x. v = Some x \<and> good env b x"
    using assms(2) m(2) by (fastforce simp: list_all_iff)
  then have "list_all (value_entry (good env b)) (entries m)"
    by (fastforce simp: m_alist_def den_pair_def list_all_iff)
  then show ?thesis using m(1) by (simp add: good.simps [of env "TyMap a b"])
qed

text \<open>C13. Equality of run-time values is equality of what they denote, in which the order of
  the entries of a map does not count, and hash and fingerprint respect it: values that
  compare equal have equal hashes and fingerprints.  This holds for all values of a type,
  however nested, without NaN and minus zero and with tuple types that have all their fields read.\<close>

theorem val_equality:
  assumes "good env t x" "good env t y"
  shows "Val_IsEqual env x y = Ok (den x = den y)
    \<and> (\<exists>h p. Val_Hash env x = Ok h \<and> Val_Fingerprint env x = Ok p)
    \<and> (den x = den y \<longrightarrow> Val_Hash env x = Val_Hash env y \<and> Val_Fingerprint env x = Val_Fingerprint env y)"
proof (rule contractE [OF contract_all [of env t]])
  fix gh gf
  assume "\<And>x. good env t x \<Longrightarrow> Val_Hash env x = Ok (gh (den x))"
    "\<And>x. good env t x \<Longrightarrow> Val_Fingerprint env x = Ok (gf (den x))"
    "\<And>x y. good env t x \<Longrightarrow> good env t y \<Longrightarrow> Val_IsEqual env x y = Ok (den x = den y)"
  then show ?thesis using assms by simp
qed

definition demo_env :: rt_env where
  "demo_env = \<lparr>rt_host = Little, rt_ptr32 = False, rt_code_index = (\<lambda>e. e), rt_dynamic_level = (\<lambda>c. 1)\<rparr>"

theorem val_equality_witness:
  "\<exists>m1 m2. build_map demo_env 0 False [(IntVal 1, BoolVal True), (IntVal 2, BoolVal False)] = Ok m1
    \<and> build_map demo_env 0 False [(IntVal 2, BoolVal False), (IntVal 1, BoolVal True)] = Ok m2
    \<and> Val_IsEqual demo_env (MapVal m1) (MapVal m2) = Ok True
    \<and> Val_Hash demo_env (MapVal m1) = Val_Hash demo_env (MapVal m2)"
proof -
  let ?l1 = "[(IntVal 1, BoolVal True), (IntVal 2, BoolVal False)]"
  let ?l2 = "[(IntVal 2, BoolVal False), (IntVal 1, BoolVal True)]"
  have keys: "list_all (good demo_env TyInt) (map fst ?l1)" "list_all (good demo_env TyInt) (map fst ?l2)"
    "list_all (good demo_env TyBool) (map snd ?l1)" "list_all (good demo_env TyBool) (map snd ?l2)"
    by (simp_all add: good.simps)
  obtain m1 where m1: "build_map demo_env 0 False ?l1 = Ok m1" "m_alist den m1 = den_updates ?l1"
    using build_map_spec [OF keys(1), of 0 False] by auto
  obtain m2 where m2: "build_map demo_env 0 False ?l2 = Ok m2" "m_alist den m2 = den_updates ?l2"
    using build_map_spec [OF keys(2), of 0 False] by auto
  have "den (MapVal m1) = den (MapVal m2)"
    by (simp add: den_alist_m_alist m1(2) m2(2)) (simp add: den_updates_def finsert_commute)
  then show ?thesis
    using val_equality [OF build_map_good [OF keys(1,3) m1(1)] build_map_good [OF keys(2,4) m2(1)]]
    by (intro exI [of _ m1] exI [of _ m2]) (simp only: m1(1) m2(1) simp_thms)
qed

text \<open>C12. A map value is a finite function on keys of one type that contain no NaN and no
  minus zero and whose tuple types have all their fields read (\<open>good\<close>): from a new map of any initial size, every sequence of
  insertions succeeds, growing and rehashing as it needs to, and afterwards \<open>Fetch\<close> finds under
  every key the value that was inserted last under an equal key, and nothing if there is none;
  the number of cells is the number of different keys.\<close>

theorem val_map_semantics:
  assumes "list_all (good env t) (map fst kvs)" "good env t k"
  shows "\<exists>m. build_map env space exact kvs = Ok m
    \<and> MapVal_Fetch (Val_IsEqual env) (Val_Hash env) m k = Ok (map_of (rev (map (\<lambda>(k, v). (den k, v)) kvs)) (den k))
    \<and> m_occupancy m = card (den ` set (map fst kvs))"
proof -
  obtain m where m: "build_map env space exact kvs = Ok m" "map_ok (good env t) den (Val_Hash env) m"
      "m_alist den m = den_updates kvs"
    using build_map_spec [OF assms(1), of space exact] by auto
  have "fst ` set (den_updates kvs) = Some ` den ` set (map fst kvs)"
  proof (induction kvs rule: rev_induct)
    case (snoc kv kvs)
    then show ?case by (simp add: den_updates_snoc dom_update)
  qed (simp add: den_updates_def)
  then have "set (map fst (m_alist den m)) = Some ` den ` set (map fst kvs)" by (simp add: m(3))
  then have "card (den ` set (map fst kvs)) = length (map fst (m_alist den m))"
    using m(2) distinct_card [of "map fst (m_alist den m)"] by (simp add: map_ok_def card_image)
  then have "m_occupancy m = card (den ` set (map fst kvs))"
    using val_keys.length_m_alist [OF m(2)] by simp
  then show ?thesis
    using m(1) val_keys.MapVal_Fetch_spec [OF m(2) assms(2)]
    by (auto simp: m(3) map_of_den_updates split: option.splits)
qed


theorem val_map_semantics_witness:
  "\<exists>m. build_map demo_env 0 False
        [(StringVal [97], IntVal 1), (StringVal [98], IntVal 2), (StringVal [97], IntVal 3)] = Ok m
    \<and> MapVal_Fetch (Val_IsEqual demo_env) (Val_Hash demo_env) m (StringVal [97]) = Ok (Some (IntVal 3))
    \<and> m_occupancy m = 2"
  using val_map_semantics [of demo_env TyString
      "[(StringVal [97], IntVal 1), (StringVal [98], IntVal 2), (StringVal [97], IntVal 3)]"
      "StringVal [97]" 0 False]
  by (simp add: good.simps card_insert_if numeral_2_eq_2)



lemma chain_walk_numeral:
  "chain_walk eq cells key (numeral n) (Some i) =
     (if length cells \<le> i then Inl Out_of_range
      else case cell_key (cells ! i) of
        None \<Rightarrow> Inl Null_deref
      | Some k \<Rightarrow> bind_res (eq k key) (\<lambda>b.
          if b then Ok (Some i) else chain_walk eq cells key (pred_numeral n) (cell_next (cells ! i))))"
  by (simp add: numeral_eq_Suc)

text \<open>Two zeros compare equal as floats but hash differently, so whether a map filled under
  the key \<open>0.0\<close> finds the value under \<open>-0.0\<close> depends on the size of its table: with the 16 cells
  of a small map it does, with the 17 of a map literal with 17 pairs it does not.  And a NaN is
  never found again, so inserting it twice makes two cells.\<close>

theorem float_keys_broken:
  "Val_IsEqual demo_env (FloatVal 0) (FloatVal (2 ^ 63)) = Ok True
   \<and> (\<exists>m. build_map demo_env 16 True [(FloatVal 0, IntVal 1)] = Ok m
        \<and> MapVal_Fetch (Val_IsEqual demo_env) (Val_Hash demo_env) m (FloatVal (2 ^ 63)) = Ok (Some (IntVal 1)))
   \<and> (\<exists>m. build_map demo_env 17 True [(FloatVal 0, IntVal 1)] = Ok m
        \<and> MapVal_Fetch (Val_IsEqual demo_env) (Val_Hash demo_env) m (FloatVal (2 ^ 63)) = Ok None)
   \<and> (\<exists>m. build_map demo_env 0 False [(FloatVal quiet_nan, IntVal 1), (FloatVal quiet_nan, IntVal 2)] = Ok m
        \<and> m_occupancy m = 2)"
proof -
  have h0: "Val_Hash demo_env (FloatVal 0) = Ok 4178876823"
    by (simp add: hash64_def Hash32NumWithSeed_def kPrimes32_def kHashSeed32_def)
  have h1: "Val_Hash demo_env (FloatVal 9223372036854775808) = Ok 2033457559"
    by (simp add: hash64_def Hash32NumWithSeed_def kPrimes32_def kHashSeed32_def)
  have h2: "Val_Hash demo_env (FloatVal quiet_nan) = Ok 2435640191"
    by (simp add: hash64_def Hash32NumWithSeed_def kPrimes32_def kHashSeed32_def quiet_nan_def dbl_make_def inf_low_def)
  have nan: "Val_IsEqual demo_env (FloatVal quiet_nan) (FloatVal quiet_nan) = Ok False"
    by (simp add: Val_IsEqual_simps dbl_eq_def is_nan_def quiet_nan_def dbl_make_def inf_low_def dbl_low_def)
  note ops = build_map_def MapVal_Insert_def InsertKey_def FindLocation_def MakeMapMem_def make_space_def
    kMinNCell_def kHeadsPerCell_def bucket_def GrowIfNeeded_def ChainToNewLocation_def Let_def
    SetValue_def legal_cell_def MapVal_Fetch_def Lookup_def
  have zeros: "Val_IsEqual demo_env (FloatVal 0) (FloatVal 9223372036854775808) = Ok True"
    by (simp add: Val_IsEqual_simps dbl_eq_def is_nan_def inf_low_def dbl_low_def dbl_int_def dbl_mag_def)
  show ?thesis
  proof (intro conjI)
    show "Val_IsEqual demo_env (FloatVal 0) (FloatVal (2 ^ 63)) = Ok True" using zeros by simp
    show "\<exists>m. build_map demo_env 16 True [(FloatVal 0, IntVal 1)] = Ok m
        \<and> MapVal_Fetch (Val_IsEqual demo_env) (Val_Hash demo_env) m (FloatVal (2 ^ 63)) = Ok (Some (IntVal 1))"
      by (simp add: ops h0 h1 zeros chain_walk_numeral Fetch_def del: Val_Hash.simps)
    show "\<exists>m. build_map demo_env 17 True [(FloatVal 0, IntVal 1)] = Ok m
        \<and> MapVal_Fetch (Val_IsEqual demo_env) (Val_Hash demo_env) m (FloatVal (2 ^ 63)) = Ok None"
      by (simp add: ops h0 h1 del: Val_Hash.simps)
    show "\<exists>m. build_map demo_env 0 False [(FloatVal quiet_nan, IntVal 1), (FloatVal quiet_nan, IntVal 2)] = Ok m
        \<and> m_occupancy m = 2"
      by (simp add: ops h2 nan chain_walk_numeral del: Val_Hash.simps)
  qed
qed

end
