(* ===== verification/Szl_Compare.thy ===== *)
theory Szl_Compare
  imports Szl_Form
begin

text \<open>
  The three-way comparison of run-time values (the \<open>Cmp\<close> functions of engine/form.cc), behind
  the sort intrinsics.  A result is the small integer the code returns, \<open>None\<close> is the null
  pointer for values that cannot be compared.  Of the result of \<open>memcmp\<close> only the sign is
  defined; here it is \<open>-1\<close>, \<open>0\<close> or \<open>1\<close>.

  The locale \<open>three_way\<close> says what a sort needs: the comparison is total, its sign is a strict
  order on denotations, and zero is equality.  It holds for every type without maps, by
  induction on the type.
\<close>

section \<open>Comparison\<close>

definition cmp :: "'a::linorder \<Rightarrow> 'a \<Rightarrow> int" where
  "cmp a b = (if a < b then - 1 else if a > b then 1 else 0)"

definition cmp_float :: "dbl \<Rightarrow> dbl \<Rightarrow> int" where
  "cmp_float a b = (if dbl_lt a b then - 1 else if dbl_lt b a then 1 else 0)"

text \<open>The loop stops at the end of the shorter string.\<close>

fun mystrcmp :: "bytes \<Rightarrow> bytes \<Rightarrow> int" where
  "mystrcmp (a # as) (b # bs) = (if a = b then mystrcmp as bs else uint a - uint b)"
| "mystrcmp _ _ = 0"

definition memcmp_min :: "bytes \<Rightarrow> bytes \<Rightarrow> int" where
  "memcmp_min a b = sgn (mystrcmp a b)"

fun cmp_loop :: "('v \<Rightarrow> 'v \<Rightarrow> int option res) \<Rightarrow> int \<Rightarrow> ('v \<times> 'v) list \<Rightarrow> int option res" where
  "cmp_loop f n [] = Ok (Some n)"
| "cmp_loop f n ((x, y) # ps) = bind_res (f x y) (\<lambda>d. if d \<noteq> Some 0 then Ok d else cmp_loop f n ps)"

lemma cmp_loop_cong [fundef_cong]:
  "n = n' \<Longrightarrow> ps = ps' \<Longrightarrow> (\<And>x y. (x, y) \<in> set ps' \<Longrightarrow> f x y = g x y) \<Longrightarrow> cmp_loop f n ps = cmp_loop g n' ps'"
proof (induction ps' arbitrary: ps)
  case (Cons p ps')
  then show ?case by (cases p) (auto intro!: bind_res_cong)
qed simp

definition BoolForm_Cmp :: "bool \<Rightarrow> Val \<Rightarrow> int option res" where
  "BoolForm_Cmp a v2 = (case v2 of BoolVal b \<Rightarrow> Ok (Some (cmp a b)) | _ \<Rightarrow> Inl Check_failed)"
definition IntForm_Cmp :: "i64 \<Rightarrow> Val \<Rightarrow> int option res" where
  "IntForm_Cmp a v2 = (case v2 of IntVal b \<Rightarrow> Ok (Some (cmp (sint a) (sint b))) | _ \<Rightarrow> Inl Check_failed)"
definition UIntForm_Cmp :: "u64 \<Rightarrow> Val \<Rightarrow> int option res" where
  "UIntForm_Cmp a v2 = (case v2 of UIntVal b \<Rightarrow> Ok (Some (cmp a b)) | _ \<Rightarrow> Inl Check_failed)"
definition FingerprintForm_Cmp :: "u64 \<Rightarrow> Val \<Rightarrow> int option res" where
  "FingerprintForm_Cmp a v2 = (case v2 of FingerprintVal b \<Rightarrow> Ok (Some (cmp a b)) | _ \<Rightarrow> Inl Check_failed)"
definition FloatForm_Cmp :: "dbl \<Rightarrow> Val \<Rightarrow> int option res" where
  "FloatForm_Cmp a v2 = (case v2 of FloatVal b \<Rightarrow> Ok (Some (cmp_float a b)) | _ \<Rightarrow> Inl Check_failed)"
definition TimeForm_Cmp :: "u64 \<Rightarrow> Val \<Rightarrow> int option res" where
  "TimeForm_Cmp a v2 = (case v2 of TimeVal b \<Rightarrow> Ok (Some (cmp a b)) | _ \<Rightarrow> Inl Check_failed)"
definition BytesForm_Cmp :: "bytes \<Rightarrow> Val \<Rightarrow> int option res" where
  "BytesForm_Cmp a v2 = (case v2 of
     BytesVal b \<Rightarrow> let d = memcmp_min a b in Ok (Some (if d \<noteq> 0 then d else cmp (length a) (length b)))
   | _ \<Rightarrow> Inl Check_failed)"
definition StringForm_Cmp :: "bytes \<Rightarrow> Val \<Rightarrow> int option res" where
  "StringForm_Cmp a v2 = (case v2 of
     StringVal b \<Rightarrow> let d = mystrcmp a b in Ok (Some (if d \<noteq> 0 then d else cmp (length a) (length b)))
   | _ \<Rightarrow> Inl Check_failed)"
definition ArrayForm_Cmp :: "(Val \<Rightarrow> Val \<Rightarrow> int option res) \<Rightarrow> Val list \<Rightarrow> Val \<Rightarrow> int option res" where
  "ArrayForm_Cmp f a v2 = (case v2 of
     ArrayVal b \<Rightarrow> cmp_loop f (cmp (length a) (length b)) (zip a b)
   | _ \<Rightarrow> Ok None)"
definition MapForm_Cmp :: "int option res" where
  "MapForm_Cmp = Ok None"
definition TupleForm_Cmp :: "(Val \<Rightarrow> Val \<Rightarrow> int option res) \<Rightarrow> bool \<Rightarrow> Val list \<Rightarrow> Val \<Rightarrow> int option res" where
  "TupleForm_Cmp f all_read a v2 = (case v2 of
     TupleVal all_read2 b \<Rightarrow> if length a \<noteq> length b then Inl Check_failed
       else bind_res (check all_read) (\<lambda>_. bind_res (check all_read2) (\<lambda>_.
         cmp_loop f (cmp (length a) (length b)) (zip a b)))
   | _ \<Rightarrow> Ok None)"
definition ClosureForm_Cmp :: "u64 \<Rightarrow> u64 \<Rightarrow> Val \<Rightarrow> int option res" where
  "ClosureForm_Cmp a c v2 = (case v2 of
     ClosureVal b d \<Rightarrow> Ok (Some (if a \<noteq> b then cmp a b else cmp c d))
   | _ \<Rightarrow> Inl Check_failed)"

lemmas cmp_defs =
  BoolForm_Cmp_def IntForm_Cmp_def UIntForm_Cmp_def FingerprintForm_Cmp_def FloatForm_Cmp_def
  TimeForm_Cmp_def BytesForm_Cmp_def StringForm_Cmp_def ArrayForm_Cmp_def MapForm_Cmp_def
  TupleForm_Cmp_def ClosureForm_Cmp_def

lemma ArrayForm_Cmp_cong [fundef_cong]:
  assumes "a = a'" "v2 = v2'" "\<And>x y. size x + size y < size (ArrayVal a') + size v2' \<Longrightarrow> f x y = g x y"
  shows "ArrayForm_Cmp f a v2 = ArrayForm_Cmp g a' v2'"
proof (cases v2')
  case (ArrayVal b)
  have "f x y = g x y" if "(x, y) \<in> set (zip a' b)" for x y
    using assms(3) [of x y] size_zip [OF that] ArrayVal by simp
  then show ?thesis using assms(1,2) ArrayVal by (auto simp: ArrayForm_Cmp_def intro!: cmp_loop_cong)
qed (use assms(1,2) in \<open>auto simp: ArrayForm_Cmp_def\<close>)

lemma TupleForm_Cmp_cong [fundef_cong]:
  assumes "a = a'" "v2 = v2'" "\<And>x y. size x + size y < size (TupleVal r a') + size v2' \<Longrightarrow> f x y = g x y"
  shows "TupleForm_Cmp f r a v2 = TupleForm_Cmp g r a' v2'"
proof (cases v2')
  case (TupleVal r' b)
  have "f x y = g x y" if "(x, y) \<in> set (zip a' b)" for x y
    using assms(3) [of x y] size_zip [OF that] TupleVal by simp
  then show ?thesis using assms(1,2) TupleVal by (auto simp: TupleForm_Cmp_def intro!: cmp_loop_cong bind_res_cong)
qed (use assms(1,2) in \<open>auto simp: TupleForm_Cmp_def\<close>)

function Val_Cmp :: "Val \<Rightarrow> Val \<Rightarrow> int option res" where
  "Val_Cmp v1 v2 = (case v1 of
     BoolVal a \<Rightarrow> BoolForm_Cmp a v2
   | IntVal a \<Rightarrow> IntForm_Cmp a v2
   | UIntVal a \<Rightarrow> UIntForm_Cmp a v2
   | FingerprintVal a \<Rightarrow> FingerprintForm_Cmp a v2
   | FloatVal a \<Rightarrow> FloatForm_Cmp a v2
   | TimeVal a \<Rightarrow> TimeForm_Cmp a v2
   | BytesVal a \<Rightarrow> BytesForm_Cmp a v2
   | StringVal a \<Rightarrow> StringForm_Cmp a v2
   | ArrayVal a \<Rightarrow> ArrayForm_Cmp Val_Cmp a v2
   | MapVal a \<Rightarrow> MapForm_Cmp
   | TupleVal r a \<Rightarrow> TupleForm_Cmp Val_Cmp r a v2
   | ClosureVal a c \<Rightarrow> ClosureForm_Cmp a c v2)"
  by pat_completeness auto
termination
  by (relation "measure (\<lambda>(v1, v2). size v1 + size v2)") auto

lemmas Val_Cmp_simps = Val_Cmp.simps [unfolded cmp_defs]

declare Val_Cmp.simps [simp del]


section \<open>The order on denotations\<close>

fun lex_less :: "('a \<Rightarrow> 'a \<Rightarrow> bool) \<Rightarrow> 'a list \<Rightarrow> 'a list \<Rightarrow> bool" where
  "lex_less lt [] ys \<longleftrightarrow> ys \<noteq> []"
| "lex_less lt (x # xs) [] \<longleftrightarrow> False"
| "lex_less lt (x # xs) (y # ys) \<longleftrightarrow> lt x y \<or> x = y \<and> lex_less lt xs ys"

lemma lex_less_cong [fundef_cong]:
  "xs = xs' \<Longrightarrow> ys = ys' \<Longrightarrow> (\<And>x y. x \<in> set xs' \<Longrightarrow> y \<in> set ys' \<Longrightarrow> lt x y = lt' x y) \<Longrightarrow>
   lex_less lt xs ys = lex_less lt' xs' ys'"
proof (induction xs' arbitrary: xs ys ys')
  case (Cons x xs')
  then show ?case by (cases ys') auto
qed simp

function den_less :: "denot \<Rightarrow> denot \<Rightarrow> bool" where
  "den_less d e = (case d of
     DBool a \<Rightarrow> (case e of DBool b \<Rightarrow> a < b | _ \<Rightarrow> False)
   | DInt a \<Rightarrow> (case e of DInt b \<Rightarrow> sint a < sint b | _ \<Rightarrow> False)
   | DUInt a \<Rightarrow> (case e of DUInt b \<Rightarrow> a < b | _ \<Rightarrow> False)
   | DFingerprint a \<Rightarrow> (case e of DFingerprint b \<Rightarrow> a < b | _ \<Rightarrow> False)
   | DFloat a \<Rightarrow> (case e of DFloat b \<Rightarrow> dbl_lt a b | _ \<Rightarrow> False)
   | DTime a \<Rightarrow> (case e of DTime b \<Rightarrow> a < b | _ \<Rightarrow> False)
   | DBytes a \<Rightarrow> (case e of DBytes b \<Rightarrow> a < b | _ \<Rightarrow> False)
   | DString a \<Rightarrow> (case e of DString b \<Rightarrow> a < b | _ \<Rightarrow> False)
   | DArray a \<Rightarrow> (case e of DArray b \<Rightarrow> lex_less den_less a b | _ \<Rightarrow> False)
   | DMap a \<Rightarrow> False
   | DTuple a \<Rightarrow> (case e of DTuple b \<Rightarrow> lex_less den_less a b | _ \<Rightarrow> False)
   | DClosure a c \<Rightarrow> (case e of DClosure b d \<Rightarrow> a < b \<or> a = b \<and> c < d | _ \<Rightarrow> False))"
  by pat_completeness auto
termination
  by (relation "measure (\<lambda>(d, e). size d)") (auto simp: less_Suc_eq_le size_list_estimation')

declare den_less.simps [simp del]

text \<open>The types whose values can be compared.\<close>

fun ordered_ty :: "ty \<Rightarrow> bool" where
  "ordered_ty (TyArray t) = ordered_ty t"
| "ordered_ty (TyTuple ts) = list_all ordered_ty ts"
| "ordered_ty (TyMap a b) = False"
| "ordered_ty t = True"

text \<open>The sign of a comparison.\<close>

definition three_sign :: "int \<Rightarrow> bool \<Rightarrow> bool \<Rightarrow> bool \<Rightarrow> bool" where
  "three_sign c l e g \<longleftrightarrow> (c < 0 \<longleftrightarrow> l) \<and> (c = 0 \<longleftrightarrow> e) \<and> (0 < c \<longleftrightarrow> g)"

locale three_way =
  fixes ok :: "'v \<Rightarrow> bool" and den :: "'v \<Rightarrow> 'd" and lt :: "'d \<Rightarrow> 'd \<Rightarrow> bool"
    and cmp3 :: "'v \<Rightarrow> 'v \<Rightarrow> int option res"
  assumes cmp3_sign: "ok x \<Longrightarrow> ok y \<Longrightarrow>
      \<exists>c. cmp3 x y = Ok (Some c) \<and> three_sign c (lt (den x) (den y)) (den x = den y) (lt (den y) (den x))"
    and lt_trans: "ok x \<Longrightarrow> ok y \<Longrightarrow> ok z \<Longrightarrow> lt (den x) (den y) \<Longrightarrow> lt (den y) (den z) \<Longrightarrow> lt (den x) (den z)"
begin

lemma total_order:
  assumes "ok x" "ok y" "ok z"
  obtains c d where "cmp3 x y = Ok (Some c)" "cmp3 y x = Ok (Some d)" "c < 0 \<longleftrightarrow> 0 < d" "c = 0 \<longleftrightarrow> den x = den y"
    "\<And>e. cmp3 y z = Ok (Some e) \<Longrightarrow> c \<le> 0 \<Longrightarrow> e \<le> 0 \<Longrightarrow> \<exists>f. cmp3 x z = Ok (Some f) \<and> f \<le> 0 \<and> (c < 0 \<or> e < 0 \<longrightarrow> f < 0)"
proof -
  obtain c where c: "cmp3 x y = Ok (Some c)"
      "three_sign c (lt (den x) (den y)) (den x = den y) (lt (den y) (den x))"
    using cmp3_sign [OF assms(1,2)] by blast
  obtain d where d: "cmp3 y x = Ok (Some d)"
      "three_sign d (lt (den y) (den x)) (den y = den x) (lt (den x) (den y))"
    using cmp3_sign [OF assms(2,1)] by blast
  obtain f where f: "cmp3 x z = Ok (Some f)"
      "three_sign f (lt (den x) (den z)) (den x = den z) (lt (den z) (den x))"
    using cmp3_sign [OF assms(1,3)] by blast
  obtain e where e: "cmp3 y z = Ok (Some e)"
      "three_sign e (lt (den y) (den z)) (den y = den z) (lt (den z) (den y))"
    using cmp3_sign [OF assms(2,3)] by blast
  have "f \<le> 0 \<and> (c < 0 \<or> e < 0 \<longrightarrow> f < 0)" if "c \<le> 0" "e \<le> 0"
    using that c(2) e(2) f(2) lt_trans [OF assms] by (auto simp: three_sign_def le_less)
  then show ?thesis using that c d f e by (auto simp: three_sign_def)
qed

end


section \<open>The comparison of every ordered type\<close>

lemma three_sign_cmp: "three_sign (cmp a b) (a < b) (a = b) (b < a)"
  by (auto simp: three_sign_def cmp_def)

lemma cmp_Suc: "cmp (Suc m) (Suc n) = cmp m n"
  by (simp add: cmp_def)

lemma three_sign_float:
  "plain_float a \<Longrightarrow> plain_float b \<Longrightarrow> three_sign (cmp_float a b) (dbl_lt a b) (a = b) (dbl_lt b a)"
  using plain_float_eq [of a b]
  by (auto simp: three_sign_def cmp_float_def dbl_lt_def dbl_eq_def plain_float_def)

lemma mystrcmp_sign:
  "three_sign (if mystrcmp a b \<noteq> 0 then mystrcmp a b else cmp (length a) (length b)) (a < b) (a = b) (b < a)"
proof (induction a b rule: mystrcmp.induct)
  case (1 a as b bs)
  show ?case
  proof (cases "a = b")
    case True
    then show ?thesis using 1 by (auto simp: cmp_Suc split: if_splits)
  next
    case False
    then have "uint a \<noteq> uint b" by (simp add: word_uint_eq_iff)
    then show ?thesis using False by (auto simp: three_sign_def word_less_def)
  qed
qed (rename_tac x, case_tac x, simp_all add: three_sign_def cmp_def)+

lemma three_sign_sgn: "three_sign (sgn c) l e g \<longleftrightarrow> three_sign c l e g"
  by (auto simp: three_sign_def sgn_if)

lemma memcmp_sign:
  "three_sign (if memcmp_min a b \<noteq> 0 then memcmp_min a b else cmp (length a) (length b)) (a < b) (a = b) (b < a)"
  using mystrcmp_sign [of a b] three_sign_sgn [of "mystrcmp a b"]
  by (auto simp: memcmp_min_def sgn_eq_0_iff split: if_splits)

lemma cmp_loop_sign:
  assumes "\<And>x y. (x, y) \<in> set (zip a b) \<Longrightarrow>
      \<exists>c. f x y = Ok (Some c) \<and> three_sign c (lt (d x) (d y)) (d x = d y) (lt (d y) (d x))"
  shows "\<exists>c. cmp_loop f (cmp (length a) (length b)) (zip a b) = Ok (Some c) \<and>
    three_sign c (lex_less lt (map d a) (map d b)) (map d a = map d b) (lex_less lt (map d b) (map d a))"
  using assms
proof (induction a arbitrary: b)
  case Nil
  then show ?case by (cases b) (auto simp: three_sign_def cmp_def)
next
  case (Cons x a)
  show ?case
  proof (cases b)
    case Nil
    then show ?thesis by (simp add: three_sign_def cmp_def)
  next
    case (Cons y b')
    obtain c where c: "f x y = Ok (Some c)" "three_sign c (lt (d x) (d y)) (d x = d y) (lt (d y) (d x))"
      using Cons.prems [of x y] Cons by auto
    have IH: "\<exists>c. cmp_loop f (cmp (length a) (length b')) (zip a b') = Ok (Some c) \<and>
        three_sign c (lex_less lt (map d a) (map d b')) (map d a = map d b') (lex_less lt (map d b') (map d a))"
      by (rule Cons.IH) (use Cons.prems Cons in auto)
    show ?thesis
    proof (cases "c = 0")
      case True
      then have "d x = d y" "\<not> lt (d x) (d y)" using c(2) by (auto simp: three_sign_def)
      then show ?thesis using IH c(1) True Cons by (simp add: cmp_Suc)
    next
      case False
      then have "d x \<noteq> d y" using c(2) by (simp add: three_sign_def)
      then show ?thesis using c Cons False by (auto simp: three_sign_def)
    qed
  qed
qed

lemma lex_less_trans:
  assumes "\<And>i. i < length xs \<Longrightarrow> i < length ys \<Longrightarrow> i < length zs \<Longrightarrow>
      lt (xs ! i) (ys ! i) \<Longrightarrow> lt (ys ! i) (zs ! i) \<Longrightarrow> lt (xs ! i) (zs ! i)"
    and "lex_less lt xs ys" "lex_less lt ys zs"
  shows "lex_less lt xs zs"
  using assms
proof (induction xs arbitrary: ys zs)
  case Nil
  then show ?case by (cases ys; cases zs) auto
next
  case (Cons x xs)
  obtain y ys' where ys: "ys = y # ys'" using Cons.prems(2) by (cases ys) auto
  obtain z zs' where zs: "zs = z # zs'" using Cons.prems(3) ys by (cases zs) auto
  have "lt x y \<Longrightarrow> lt y z \<Longrightarrow> lt x z" using Cons.prems(1) [of 0] ys zs by simp
  moreover have "lex_less lt xs ys' \<Longrightarrow> lex_less lt ys' zs' \<Longrightarrow> lex_less lt xs zs'"
    using Cons.IH [of ys' zs'] Cons.prems(1) ys zs by fastforce
  ultimately show ?case using Cons.prems(2,3) ys zs by auto
qed


definition ordered_contract :: "rt_env \<Rightarrow> ty \<Rightarrow> bool" where
  "ordered_contract env t \<longleftrightarrow> three_way (good env t) den den_less Val_Cmp"

text \<open>One form of value, by the part \<open>K\<close> of it that decides.\<close>

lemma ordered_intro:
  assumes form: "\<And>x. good env t x \<Longrightarrow> \<exists>a. x = C a \<and> P a"
    and sign: "\<And>a b. P a \<Longrightarrow> P b \<Longrightarrow> \<exists>c. Val_Cmp (C a) (C b) = Ok (Some c) \<and> three_sign c (R a b) (a = b) (R b a)"
    and less: "\<And>a b. den_less (den (C a)) (den (C b)) \<longleftrightarrow> R a b"
    and den: "\<And>a b. den (C a) = den (C b) \<longleftrightarrow> a = b"
    and trans: "\<And>a b c. R a b \<Longrightarrow> R b c \<Longrightarrow> R a c"
  shows "ordered_contract env t"
  unfolding ordered_contract_def three_way_def
proof (intro conjI allI impI)
  fix x y assume xy: "good env t x" "good env t y"
  obtain a b where "x = C a" "P a" "y = C b" "P b" using form [OF xy(1)] form [OF xy(2)] by blast
  then show "\<exists>c. Val_Cmp x y = Ok (Some c) \<and>
      three_sign c (den_less (den x) (den y)) (den x = den y) (den_less (den y) (den x))"
    using sign [of a b] by (simp add: less den)
next
  fix x y z
  assume xyz: "good env t x" "good env t y" "good env t z"
    and l: "den_less (den x) (den y)" "den_less (den y) (den z)"
  obtain a b c where "x = C a" "y = C b" "z = C c" using form [OF xyz(1)] form [OF xyz(2)] form [OF xyz(3)] by blast
  then show "den_less (den x) (den z)" using l trans [of a b c] by (simp add: less)
qed

lemma dbl_lt_trans: "dbl_lt a b \<Longrightarrow> dbl_lt b c \<Longrightarrow> dbl_lt a c"
  by (auto simp: dbl_lt_def)

lemma ordered_scalar:
  "ordered_contract env TyBool" "ordered_contract env TyInt" "ordered_contract env TyUInt"
  "ordered_contract env TyFingerprint" "ordered_contract env TyTime" "ordered_contract env TyBytes"
  "ordered_contract env TyString" "ordered_contract env TyFloat"
  subgoal by (rule ordered_intro [where C = BoolVal and P = "\<lambda>_. True" and R = "(<)"])
      (auto simp: good.simps Val_Cmp_simps den_less.simps three_sign_def cmp_def split: Val.splits)
  subgoal by (rule ordered_intro [where C = IntVal and P = "\<lambda>_. True" and R = "\<lambda>a b. sint a < sint b"])
      (auto simp: good.simps Val_Cmp_simps den_less.simps three_sign_def cmp_def split: Val.splits intro: signed_word_eqI)
  subgoal by (rule ordered_intro [where C = UIntVal and P = "\<lambda>_. True" and R = "(<)"])
      (use three_sign_cmp in \<open>auto simp: good.simps Val_Cmp_simps den_less.simps split: Val.splits\<close>)
  subgoal by (rule ordered_intro [where C = FingerprintVal and P = "\<lambda>_. True" and R = "(<)"])
      (use three_sign_cmp in \<open>auto simp: good.simps Val_Cmp_simps den_less.simps split: Val.splits\<close>)
  subgoal by (rule ordered_intro [where C = TimeVal and P = "\<lambda>_. True" and R = "(<)"])
      (use three_sign_cmp in \<open>auto simp: good.simps Val_Cmp_simps den_less.simps split: Val.splits\<close>)
  subgoal by (rule ordered_intro [where C = BytesVal and P = "\<lambda>_. True" and R = "(<)"])
      (use memcmp_sign in \<open>auto simp: good.simps Val_Cmp_simps den_less.simps Let_def split: Val.splits\<close>)
  subgoal by (rule ordered_intro [where C = StringVal and P = "\<lambda>_. True" and R = "(<)"])
      (use mystrcmp_sign in \<open>auto simp: good.simps Val_Cmp_simps den_less.simps Let_def split: Val.splits\<close>)
  subgoal by (rule ordered_intro [where C = FloatVal and P = plain_float and R = dbl_lt])
      (use three_sign_float in \<open>auto simp: good.simps Val_Cmp_simps den_less.simps split: Val.splits intro: dbl_lt_trans\<close>)
  done

lemma ordered_TyFunction: "ordered_contract env TyFunction"
  by (rule ordered_intro [where C = "\<lambda>(e, c). ClosureVal e c" and P = "\<lambda>_. True"
        and R = "\<lambda>(a, c) (b, d). a < b \<or> a = b \<and> c < d"])
    (auto simp: good.simps Val_Cmp_simps den_less.simps three_sign_def cmp_def split: Val.splits)

text \<open>Arrays and tuples: the same loop, with one type or one for every position.\<close>

lemma ordered_lists:
  assumes form: "\<And>x. good env t x \<Longrightarrow> \<exists>a. x = C a \<and> P a"
    and cmp: "\<And>a b. P a \<Longrightarrow> P b \<Longrightarrow>
      Val_Cmp (C a) (C b) = cmp_loop Val_Cmp (cmp (length a) (length b)) (zip a b)"
    and den: "\<And>a. den (C a) = D (map den a)" "inj D"
    and less: "\<And>a b. den_less (D a) (D b) \<longleftrightarrow> lex_less den_less a b"
    and elems: "\<And>a i. P a \<Longrightarrow> i < length a \<Longrightarrow> ordered_contract env (T i) \<and> good env (T i) (a ! i)"
  shows "ordered_contract env t"
  unfolding ordered_contract_def three_way_def
proof (intro conjI allI impI)
  fix x y assume xy: "good env t x" "good env t y"
  obtain a b where ab: "x = C a" "P a" "y = C b" "P b" using form [OF xy(1)] form [OF xy(2)] by blast
  have "\<exists>c. Val_Cmp u v = Ok (Some c) \<and>
      three_sign c (den_less (den u) (den v)) (den u = den v) (den_less (den v) (den u))"
    if uv: "(u, v) \<in> set (zip a b)" for u v
  proof -
    obtain i where "i < length a" "i < length b" "u = a ! i" "v = b ! i" using uv by (auto simp: set_zip)
    then show ?thesis using elems ab(2,4) three_way.cmp3_sign by (metis ordered_contract_def)
  qed
  from cmp_loop_sign [of a b Val_Cmp den_less den, OF this]
  show "\<exists>c. Val_Cmp x y = Ok (Some c) \<and>
      three_sign c (den_less (den x) (den y)) (den x = den y) (den_less (den y) (den x))"
    using ab den(2) by (simp add: cmp den(1) less inj_eq)
next
  fix x y z
  assume xyz: "good env t x" "good env t y" "good env t z"
    and l: "den_less (den x) (den y)" "den_less (den y) (den z)"
  obtain a b c where abc: "x = C a" "y = C b" "z = C c" "P a" "P b" "P c"
    using form [OF xyz(1)] form [OF xyz(2)] form [OF xyz(3)] by blast
  have "lex_less den_less (map den a) (map den c)"
  proof (rule lex_less_trans)
    fix i
    assume i: "i < length (map den a)" "i < length (map den b)" "i < length (map den c)"
      and "den_less (map den a ! i) (map den b ! i)" "den_less (map den b ! i) (map den c ! i)"
    then show "den_less (map den a ! i) (map den c ! i)"
      using elems [of a i] elems [of b i] elems [of c i] abc three_way.lt_trans [of "good env (T i)" den den_less Val_Cmp "a ! i" "b ! i" "c ! i"]
      by (simp add: ordered_contract_def)
  qed (use l abc in \<open>simp_all add: den(1) less\<close>)
  then show "den_less (den x) (den z)" using abc by (simp add: den(1) less)
qed

lemma ordered_TyArray: "ordered_contract env t \<Longrightarrow> ordered_contract env (TyArray t)"
  by (rule ordered_lists [where C = ArrayVal and D = DArray and T = "\<lambda>_. t" and P = "\<lambda>vs. \<forall>v\<in>set vs. good env t v"])
    (auto simp: good.simps [of env "TyArray t"] Val_Cmp_simps [of "ArrayVal _"] den_less.simps [of "DArray _"]
      list_all_iff inj_def split: Val.splits)

lemma ordered_TyTuple:
  "(\<And>t. t \<in> set ts \<Longrightarrow> ordered_contract env t) \<Longrightarrow> ordered_contract env (TyTuple ts)"
  by (rule ordered_lists [where C = "TupleVal True" and D = DTuple and T = "\<lambda>i. ts ! i"
        and P = "\<lambda>vs. length ts = length vs \<and> (\<forall>i < length vs. good env (ts ! i) (vs ! i))"])
    (auto simp: good.simps [of env "TyTuple ts"] Val_Cmp_simps [of "TupleVal _ _"] check_def den_less.simps [of "DTuple _"]
      inj_def all_set_conv_all_nth split: Val.splits)

lemma ordered_all: "ordered_ty t \<Longrightarrow> ordered_contract env t"
  by (induction t) (auto simp: ordered_scalar ordered_TyFunction ordered_TyArray list_all_iff intro: ordered_TyTuple)

text \<open>The comparison as the contract of a sort: an array of one ordered type.\<close>

interpretation val_order: three_way "\<lambda>v. ordered_ty t \<and> good env t v" den den_less Val_Cmp for env t
proof (unfold_locales, goal_cases)
  case (1 x y)
  then show ?case using three_way.cmp3_sign [OF ordered_all [unfolded ordered_contract_def]] by blast
next
  case (2 x y z)
  then show ?case using three_way.lt_trans [OF ordered_all [unfolded ordered_contract_def]] by blast
qed

text \<open>C14. On the values of a type without maps, \<open>Cmp\<close> is a total order: it never fails, swapping
  the arguments swaps the sign, it is zero exactly on values that \<open>IsEqual\<close> accepts, and it is
  transitive.  On maps it answers with the null pointer.\<close>

theorem val_cmp_total_order:
  assumes "ordered_ty t" "good env t x" "good env t y" "good env t z"
  shows "\<exists>c d. Val_Cmp x y = Ok (Some c) \<and> Val_Cmp y x = Ok (Some d) \<and> (c < 0 \<longleftrightarrow> 0 < d)
    \<and> (c = 0 \<longleftrightarrow> Val_IsEqual env x y = Ok True)
    \<and> (\<forall>e. Val_Cmp y z = Ok (Some e) \<and> c \<le> 0 \<and> e \<le> 0 \<longrightarrow>
          (\<exists>f. Val_Cmp x z = Ok (Some f) \<and> f \<le> 0 \<and> (c < 0 \<or> e < 0 \<longrightarrow> f < 0)))
    \<and> Val_Cmp (MapVal m) y = Ok None"
proof -
  have map: "Val_Cmp (MapVal m) y = Ok None" by (simp add: Val_Cmp_simps)
  show ?thesis
    by (rule val_order.total_order [of t env x y z])
      (use assms val_keys.eq_den [OF assms(2,3)] map in auto)
qed

theorem val_cmp_total_order_witness:
  "\<exists>c d. Val_Cmp (ArrayVal [StringVal [97], StringVal [98]]) (ArrayVal [StringVal [97, 0]]) = Ok (Some c)
    \<and> Val_Cmp (ArrayVal [StringVal [97, 0]]) (ArrayVal [StringVal [97], StringVal [98]]) = Ok (Some d)
    \<and> (c < 0 \<longleftrightarrow> 0 < d)"
  using val_cmp_total_order [of "TyArray TyString" demo_env "ArrayVal [StringVal [97], StringVal [98]]"
      "ArrayVal [StringVal [97, 0]]" "ArrayVal []"]
  by (force simp: good.simps)

end
