(* ===== verification/Szl_Rune.thy ===== *)
theory Szl_Rune
  imports Szl_Prelude
begin

text \<open>
  Runes and UTF-8 (fmt/runes.cc and the rune helpers of utilities/strutils.cc).  A rune is a
  C++ \<open>signed int\<close>, here an \<open>int\<close>; a string is the list of the bytes from the pointer to the
  end of the memory behind it, and a read past that end is an error.  The bit masks are those
  of the enumeration at the head of runes.cc.
\<close>

declare bind_res_cong [fundef_cong]

type_synonym rune = int

section \<open>Encoding and decoding one rune\<close>

definition Runeself :: int where "Runeself = 0x80"
definition Runeerror :: rune where "Runeerror = 0xFFFD"
definition Runemax :: rune where "Runemax = 0x10FFFF"
definition UTFmax :: nat where "UTFmax = 4"

definition Bitx :: nat where "Bitx = 6"
definition Tx :: byte where "Tx = 0x80"
definition T2 :: byte where "T2 = 0xC0"
definition T3 :: byte where "T3 = 0xE0"
definition T4 :: byte where "T4 = 0xF0"
definition T5 :: byte where "T5 = 0xF8"
definition Rune1 :: int where "Rune1 = 0x7F"
definition Rune2 :: int where "Rune2 = 0x7FF"
definition Rune3 :: int where "Rune3 = 0xFFFF"
definition Rune4 :: int where "Rune4 = 0x1FFFFF"
definition Maskx :: int where "Maskx = 0x3F"
definition Testx :: byte where "Testx = 0xC0"

lemmas rune_consts = Runeself_def Runeerror_def Runemax_def UTFmax_def Bitx_def Tx_def T2_def T3_def
  T4_def T5_def Rune1_def Rune2_def Rune3_def Rune4_def Maskx_def Testx_def

definition byte_at :: "bytes \<Rightarrow> nat \<Rightarrow> byte res" where
  "byte_at s i = (if i < length s then Ok (s ! i) else Inl Out_of_range)"

definition bad_rune :: "(rune \<times> nat) res" where
  "bad_rune = Ok (Runeerror, 1)"

definition chartorune :: "bytes \<Rightarrow> (rune \<times> nat) res" where
  "chartorune s =
     bind_res (byte_at s 0) (\<lambda>c.
     if c < Tx then Ok (uint c, 1)
     else bind_res (byte_at s 1) (\<lambda>b1. let c1 = b1 XOR Tx in
     if c1 AND Testx \<noteq> 0 then bad_rune
     else if c < T3 then
       (if c < T2 then bad_rune
        else let l = (push_bit Bitx (uint c) OR uint c1) AND Rune2 in
             if l \<le> Rune1 then bad_rune else Ok (l, 2))
     else bind_res (byte_at s 2) (\<lambda>b2. let c2 = b2 XOR Tx in
     if c2 AND Testx \<noteq> 0 then bad_rune
     else if c < T4 then
       (let l = (push_bit Bitx (push_bit Bitx (uint c) OR uint c1) OR uint c2) AND Rune3 in
        if l \<le> Rune2 then bad_rune else Ok (l, 3))
     else bind_res (byte_at s 3) (\<lambda>b3. let c3 = b3 XOR Tx in
     if c3 AND Testx \<noteq> 0 then bad_rune
     else if c < T5 then
       (let l = (push_bit Bitx (push_bit Bitx (push_bit Bitx (uint c) OR uint c1) OR uint c2) OR uint c3)
                AND Rune4 in
        if l \<le> Rune3 then bad_rune else Ok (l, 4))
     else bad_rune))))"

text \<open>\<open>unsigned long c = *rune\<close>, with 64 bits; storing into a \<open>char\<close> keeps the low 8.\<close>

definition runetochar :: "rune \<Rightarrow> bytes" where
  "runetochar r =
     (let c = take_bit 64 r in
      if c \<le> Rune1 then [word_of_int c]
      else if c \<le> Rune2 then
        [word_of_int (uint T2 OR drop_bit Bitx c), word_of_int (uint Tx OR (c AND Maskx))]
      else let c = (if c > Runemax then Runeerror else c) in
      if c \<le> Rune3 then
        [word_of_int (uint T3 OR drop_bit (2 * Bitx) c),
         word_of_int (uint Tx OR (drop_bit Bitx c AND Maskx)), word_of_int (uint Tx OR (c AND Maskx))]
      else
        [word_of_int (uint T4 OR drop_bit (3 * Bitx) c),
         word_of_int (uint Tx OR (drop_bit (2 * Bitx) c AND Maskx)),
         word_of_int (uint Tx OR (drop_bit Bitx c AND Maskx)), word_of_int (uint Tx OR (c AND Maskx))])"

definition runelen :: "rune \<Rightarrow> nat" where
  "runelen r = length (runetochar r)"

fun runenlen :: "rune list \<Rightarrow> nat" where
  "runenlen [] = 0"
| "runenlen (c # rs) =
     (if c \<le> Rune1 then 1 else if c \<le> Rune2 then 2 else if c \<le> Rune3 then 3 else 4) + runenlen rs"

definition fullrune :: "bytes \<Rightarrow> nat \<Rightarrow> bool res" where
  "fullrune s n =
     (if n > 0 then bind_res (byte_at s 0) (\<lambda>c.
        Ok (c < Tx \<or> (n > 1 \<and> (c < T3 \<or> (n > 2 \<and> (c < T4 \<or> n > 3))))))
      else Ok False)"


section \<open>The bytes of a rune\<close>

text \<open>Continuation bytes and their six bits.\<close>

lemma all_bytes: "(\<forall>n \<in> set [0..<256]. P (word_of_nat n :: byte)) \<Longrightarrow> P b"
proof -
  assume a: "\<forall>n \<in> set [0..<256]. P (word_of_nat n :: byte)"
  have "unat b < 256" using unsigned_less [of b, where 'a = nat] by simp
  then have "unat b \<in> set [0..<256]" by (simp only: set_upt atLeastLessThan_iff) simp
  from bspec [OF a this] show ?thesis by simp
qed

lemma rune_cont_byte: "(b XOR 128) AND 192 = (0 :: byte) \<longleftrightarrow> 128 \<le> b \<and> b < 192"
  by (rule all_bytes) code_simp


lemma cont_value: "128 \<le> b \<Longrightarrow> b < 192 \<Longrightarrow> uint ((b :: byte) XOR 128) = uint b - 128"
proof -
  have "128 \<le> b \<and> b < 192 \<longrightarrow> uint (b XOR 128) = uint b - 128"
    by (rule all_bytes [of _ b]) code_simp
  then show "128 \<le> b \<Longrightarrow> b < 192 \<Longrightarrow> ?thesis" by blast
qed

lemma int_or_shift: "0 \<le> b \<Longrightarrow> b < 2 ^ n \<Longrightarrow> push_bit n a OR b = a * 2 ^ n + (b :: int)"
proof -
  assume b: "0 \<le> b" "b < 2 ^ n"
  then have "b = take_bit n b" by (simp add: take_bit_int_eq_self)
  moreover have "push_bit n a AND take_bit n b = 0" by (simp add: bit_eq_iff bit_simps)
  ultimately have "push_bit n a AND b = 0" by simp
  then show ?thesis by (simp add: disjunctive_add_eq_or [symmetric] push_bit_eq_mult)
qed

lemma and_masks:
  "x AND 0x3F = x mod (64 :: int)" "x AND 0x7FF = x mod (2048 :: int)"
  "x AND 0xFFFF = x mod (65536 :: int)" "x AND 0x1FFFFF = x mod (2097152 :: int)"
  using take_bit_eq_mask [of 6 x] take_bit_eq_mask [of 11 x] take_bit_eq_mask [of 16 x] take_bit_eq_mask [of 21 x]
  by (simp_all add: take_bit_eq_mod mask_eq_exp_minus_1)

text \<open>The leading bits of the first byte and of the continuation bytes.\<close>

lemma lead_bits:
  "0 \<le> x \<Longrightarrow> x < 64 \<Longrightarrow> 128 OR x = 128 + (x :: int)"
  "0 \<le> x \<Longrightarrow> x < 64 \<Longrightarrow> 192 OR x = 192 + (x :: int)"
  "0 \<le> x \<Longrightarrow> x < 32 \<Longrightarrow> 224 OR x = 224 + (x :: int)"
  "0 \<le> x \<Longrightarrow> x < 16 \<Longrightarrow> 240 OR x = 240 + (x :: int)"
  using int_or_shift [of x 6 2] int_or_shift [of x 6 3] int_or_shift [of x 5 7] int_or_shift [of x 4 15]
  by (simp_all add: push_bit_eq_mult)

lemma runetochar_cases:
  assumes "0 \<le> r" "r \<le> Runemax"
  shows "runetochar r =
    (if r < 128 then [word_of_int r]
     else if r < 2048 then [word_of_int (192 + r div 64), word_of_int (128 + r mod 64)]
     else if r < 65536 then
       [word_of_int (224 + r div 4096), word_of_int (128 + r div 64 mod 64), word_of_int (128 + r mod 64)]
     else [word_of_int (240 + r div 262144), word_of_int (128 + r div 4096 mod 64),
           word_of_int (128 + r div 64 mod 64), word_of_int (128 + r mod 64)])"
proof -
  have "take_bit 64 r = r" using assms by (simp add: take_bit_int_eq_self Runemax_def)
  then show ?thesis using assms
    by (simp add: runetochar_def Let_def rune_consts and_masks lead_bits drop_bit_eq_div)
qed

text \<open>The decoder in terms of the values of the bytes.\<close>

definition is_cont :: "byte \<Rightarrow> bool" where
  "is_cont b \<longleftrightarrow> 128 \<le> b \<and> b < 192"

lemma cont_simps:
  "(b XOR Tx) AND Testx \<noteq> 0 \<longleftrightarrow> \<not> is_cont b" "is_cont b \<Longrightarrow> uint (b XOR Tx) = uint b - 128"
  using rune_cont_byte [of b] cont_value [of b] by (simp_all add: rune_consts is_cont_def)

lemma is_cont_range: "is_cont b \<Longrightarrow> 128 \<le> uint b \<and> uint b < 192"
  by (simp add: is_cont_def word_less_def word_le_def)

lemma mod_offset: "0 \<le> x \<Longrightarrow> x < m \<Longrightarrow> (x + k * m) mod m = (x :: int)"
  by simp

lemma decode_ranges:
  fixes x y z w :: int
  assumes "128 \<le> y" "y < 192" "128 \<le> z" "z < 192" "128 \<le> w" "w < 192"
  shows "192 \<le> x \<Longrightarrow> 0 \<le> (x - 192) * 64 + (y - 128)"
    "x < 224 \<Longrightarrow> (x - 192) * 64 + (y - 128) < 2048"
    "224 \<le> x \<Longrightarrow> 0 \<le> (x - 224) * 4096 + (y - 128) * 64 + (z - 128)"
    "x < 240 \<Longrightarrow> (x - 224) * 4096 + (y - 128) * 64 + (z - 128) < 65536"
    "240 \<le> x \<Longrightarrow> 0 \<le> (x - 240) * 262144 + (y - 128) * 4096 + (z - 128) * 64 + (w - 128)"
    "x < 248 \<Longrightarrow> (x - 240) * 262144 + (y - 128) * 4096 + (z - 128) * 64 + (w - 128) < 2097152"
  using assms by simp_all

lemma decode2:
  assumes "T2 \<le> c" "c < T3" "is_cont b1"
  shows "(push_bit Bitx (uint c) OR uint (b1 XOR Tx)) AND Rune2 = (uint c - 192) * 64 + (uint b1 - 128)"
proof -
  have c: "192 \<le> uint c" "uint c < 224" using assms(1,2) by (simp_all add: rune_consts word_le_def word_less_def)
  have b: "128 \<le> uint b1" "uint b1 < 192" using is_cont_range [OF assms(3)] by auto
  have "push_bit Bitx (uint c) OR uint (b1 XOR Tx) = uint c * 64 + (uint b1 - 128)"
    using int_or_shift [of "uint b1 - 128" 6 "uint c"] b by (simp add: cont_simps assms(3) Bitx_def)
  also have "\<dots> = ((uint c - 192) * 64 + (uint b1 - 128)) + 6 * 2048" by simp
  finally have eq: "push_bit Bitx (uint c) OR uint (b1 XOR Tx) = \<dots>" .
  show ?thesis unfolding eq Rune2_def and_masks
    by (rule mod_offset; rule decode_ranges; use b c in simp)
qed

lemma decode3:
  assumes "T3 \<le> c" "c < T4" "is_cont b1" "is_cont b2"
  shows "(push_bit Bitx (push_bit Bitx (uint c) OR uint (b1 XOR Tx)) OR uint (b2 XOR Tx)) AND Rune3 =
    (uint c - 224) * 4096 + (uint b1 - 128) * 64 + (uint b2 - 128)"
proof -
  have c: "224 \<le> uint c" "uint c < 240" using assms(1,2) by (simp_all add: rune_consts word_le_def word_less_def)
  have b: "128 \<le> uint b1" "uint b1 < 192" "128 \<le> uint b2" "uint b2 < 192"
    using is_cont_range assms(3,4) by auto
  have "push_bit Bitx (uint c) OR uint (b1 XOR Tx) = uint c * 64 + (uint b1 - 128)"
    using int_or_shift [of "uint b1 - 128" 6 "uint c"] b by (simp add: cont_simps assms(3) Bitx_def)
  moreover have "push_bit Bitx x OR uint (b2 XOR Tx) = x * 64 + (uint b2 - 128)" for x
    using int_or_shift [of "uint b2 - 128" 6 x] b by (simp add: cont_simps assms(4) Bitx_def)
  ultimately have "push_bit Bitx (push_bit Bitx (uint c) OR uint (b1 XOR Tx)) OR uint (b2 XOR Tx) =
      ((uint c - 224) * 4096 + (uint b1 - 128) * 64 + (uint b2 - 128)) + 14 * 65536"
    by simp
  then have eq: "push_bit Bitx (push_bit Bitx (uint c) OR uint (b1 XOR Tx)) OR uint (b2 XOR Tx) = \<dots>" .
  show ?thesis unfolding eq Rune3_def and_masks
    by (rule mod_offset; rule decode_ranges; use b c in simp)
qed

lemma decode4:
  assumes "T4 \<le> c" "c < T5" "is_cont b1" "is_cont b2" "is_cont b3"
  shows "(push_bit Bitx (push_bit Bitx (push_bit Bitx (uint c) OR uint (b1 XOR Tx)) OR uint (b2 XOR Tx))
      OR uint (b3 XOR Tx)) AND Rune4 =
    (uint c - 240) * 262144 + (uint b1 - 128) * 4096 + (uint b2 - 128) * 64 + (uint b3 - 128)"
proof -
  have c: "240 \<le> uint c" "uint c < 248" using assms(1,2) by (simp_all add: rune_consts word_le_def word_less_def)
  have b: "128 \<le> uint b1" "uint b1 < 192" "128 \<le> uint b2" "uint b2 < 192" "128 \<le> uint b3" "uint b3 < 192"
    using is_cont_range assms(3,4,5) by auto
  have "push_bit Bitx x OR uint (b XOR Tx) = x * 64 + (uint b - 128)" if "is_cont b" for x b
    using int_or_shift [of "uint b - 128" 6 x] is_cont_range [OF that] by (simp add: cont_simps that Bitx_def)
  then have "push_bit Bitx (push_bit Bitx (push_bit Bitx (uint c) OR uint (b1 XOR Tx)) OR uint (b2 XOR Tx))
      OR uint (b3 XOR Tx) = ((uint c - 240) * 262144 + (uint b1 - 128) * 4096 + (uint b2 - 128) * 64 + (uint b3 - 128)) + 30 * 2097152"
    using assms(3-5) by simp
  then have eq: "push_bit Bitx (push_bit Bitx (push_bit Bitx (uint c) OR uint (b1 XOR Tx)) OR uint (b2 XOR Tx))
      OR uint (b3 XOR Tx) = \<dots>" .
  show ?thesis unfolding eq Rune4_def and_masks
    by (rule mod_offset; rule decode_ranges; use b c in simp)
qed

text \<open>Which strings the decoder accepts, and with which rune.\<close>

lemma chartorune_1: "c < 128 \<Longrightarrow> chartorune (c # s) = Ok (uint c, 1)"
  by (simp add: chartorune_def byte_at_def rune_consts)

lemma chartorune_2:
  "T2 \<le> c \<Longrightarrow> c < T3 \<Longrightarrow> is_cont b1 \<Longrightarrow> chartorune (c # b1 # s) =
    (let l = (uint c - 192) * 64 + (uint b1 - 128) in if l \<le> Rune1 then bad_rune else Ok (l, 2))"
proof -
  assume a: "T2 \<le> c" "c < T3" "is_cont b1"
  then have "\<not> c < Tx" "\<not> c < T2" by (simp_all add: rune_consts word_le_def word_less_def)
  then show ?thesis using a
    by (simp add: chartorune_def byte_at_def cont_simps(1) decode2 [OF a])
qed

lemma chartorune_3:
  "T3 \<le> c \<Longrightarrow> c < T4 \<Longrightarrow> is_cont b1 \<Longrightarrow> is_cont b2 \<Longrightarrow> chartorune (c # b1 # b2 # s) =
    (let l = (uint c - 224) * 4096 + (uint b1 - 128) * 64 + (uint b2 - 128)
     in if l \<le> Rune2 then bad_rune else Ok (l, 3))"
proof -
  assume a: "T3 \<le> c" "c < T4" "is_cont b1" "is_cont b2"
  then have "\<not> c < Tx" "\<not> c < T3" by (simp_all add: rune_consts word_le_def word_less_def)
  then show ?thesis using a
    by (simp add: chartorune_def byte_at_def cont_simps(1) decode3 [OF a] del: push_bit_push_bit push_bit_or)
qed

lemma chartorune_4:
  "T4 \<le> c \<Longrightarrow> c < T5 \<Longrightarrow> is_cont b1 \<Longrightarrow> is_cont b2 \<Longrightarrow> is_cont b3 \<Longrightarrow> chartorune (c # b1 # b2 # b3 # s) =
    (let l = (uint c - 240) * 262144 + (uint b1 - 128) * 4096 + (uint b2 - 128) * 64 + (uint b3 - 128)
     in if l \<le> Rune3 then bad_rune else Ok (l, 4))"
proof -
  assume a: "T4 \<le> c" "c < T5" "is_cont b1" "is_cont b2" "is_cont b3"
  then have "\<not> c < Tx" "\<not> c < T3" "\<not> c < T4" by (simp_all add: rune_consts word_le_def word_less_def)
  then show ?thesis using a
    by (simp add: chartorune_def byte_at_def cont_simps(1) decode4 [OF a] numeral_3_eq_3 del: push_bit_push_bit push_bit_or)
qed


lemma uint_byte: "0 \<le> x \<Longrightarrow> x < 256 \<Longrightarrow> uint (word_of_int x :: byte) = x"
  by (simp add: uint_word_of_int)

lemma byte_of_int_range:
  "0 \<le> x \<Longrightarrow> x < 256 \<Longrightarrow> (T2 \<le> (word_of_int x :: byte)) = (192 \<le> x)"
  "0 \<le> x \<Longrightarrow> x < 256 \<Longrightarrow> (T3 \<le> (word_of_int x :: byte)) = (224 \<le> x)"
  "0 \<le> x \<Longrightarrow> x < 256 \<Longrightarrow> (T4 \<le> (word_of_int x :: byte)) = (240 \<le> x)"
  "0 \<le> x \<Longrightarrow> x < 256 \<Longrightarrow> ((word_of_int x :: byte) < T3) = (x < 224)"
  "0 \<le> x \<Longrightarrow> x < 256 \<Longrightarrow> ((word_of_int x :: byte) < T4) = (x < 240)"
  "0 \<le> x \<Longrightarrow> x < 256 \<Longrightarrow> ((word_of_int x :: byte) < T5) = (x < 248)"
  "0 \<le> x \<Longrightarrow> x < 256 \<Longrightarrow> ((word_of_int x :: byte) < 128) = (x < 128)"
  "0 \<le> x \<Longrightarrow> x < 256 \<Longrightarrow> is_cont (word_of_int x) = (128 \<le> x \<and> x < 192)"
  by (simp_all add: rune_consts is_cont_def word_le_def word_less_def uint_byte)

text \<open>Decoding what was encoded.\<close>

lemma chartorune_ints:
  "0 \<le> a \<Longrightarrow> a < 128 \<Longrightarrow> chartorune (word_of_int a # s) = Ok (a, 1)"
  "192 \<le> a \<Longrightarrow> a < 224 \<Longrightarrow> 128 \<le> b \<Longrightarrow> b < 192 \<Longrightarrow> 127 < (a - 192) * 64 + (b - 128) \<Longrightarrow>
    chartorune (word_of_int a # word_of_int b # s) = Ok ((a - 192) * 64 + (b - 128), 2)"
  "224 \<le> a \<Longrightarrow> a < 240 \<Longrightarrow> 128 \<le> b \<Longrightarrow> b < 192 \<Longrightarrow> 128 \<le> c \<Longrightarrow> c < 192 \<Longrightarrow>
    2047 < (a - 224) * 4096 + (b - 128) * 64 + (c - 128) \<Longrightarrow>
    chartorune (word_of_int a # word_of_int b # word_of_int c # s) =
      Ok ((a - 224) * 4096 + (b - 128) * 64 + (c - 128), 3)"
  "240 \<le> a \<Longrightarrow> a < 248 \<Longrightarrow> 128 \<le> b \<Longrightarrow> b < 192 \<Longrightarrow> 128 \<le> c \<Longrightarrow> c < 192 \<Longrightarrow> 128 \<le> d \<Longrightarrow> d < 192 \<Longrightarrow>
    65535 < (a - 240) * 262144 + (b - 128) * 4096 + (c - 128) * 64 + (d - 128) \<Longrightarrow>
    chartorune (word_of_int a # word_of_int b # word_of_int c # word_of_int d # s) =
      Ok ((a - 240) * 262144 + (b - 128) * 4096 + (c - 128) * 64 + (d - 128), 4)"
  subgoal by (simp add: chartorune_1 byte_of_int_range uint_byte)
  subgoal using chartorune_2 [of "word_of_int a" "word_of_int b" s]
    by (simp add: byte_of_int_range uint_byte Let_def Rune1_def)
  subgoal using chartorune_3 [of "word_of_int a" "word_of_int b" "word_of_int c" s]
    by (simp add: byte_of_int_range uint_byte Let_def Rune2_def)
  subgoal using chartorune_4 [of "word_of_int a" "word_of_int b" "word_of_int c" "word_of_int d" s]
    by (simp add: byte_of_int_range uint_byte Let_def Rune3_def)
  done

lemma chartorune_runetochar:
  assumes r: "0 \<le> r" "r \<le> Runemax"
  shows "chartorune (runetochar r @ s) = Ok (r, length (runetochar r))"
proof -
  define x where "x = r mod 64"
  define y where "y = r div 64 mod 64"
  define z where "z = r div 4096 mod 64"
  have m: "0 \<le> x" "x < 64" "0 \<le> y" "y < 64" "0 \<le> z" "z < 64" by (simp_all add: x_def y_def z_def)
  have d: "r = r div 64 * 64 + x" "r div 64 = r div 4096 * 64 + y" "r div 4096 = r div 262144 * 64 + z"
    using div_mult_mod_eq [of r 64] div_mult_mod_eq [of "r div 64" 64] div_mult_mod_eq [of "r div 4096" 64]
    by (simp_all add: x_def y_def z_def zdiv_zmult2_eq [symmetric])
  note rc = runetochar_cases [OF r, folded x_def y_def z_def]
  consider "r < 128" | "128 \<le> r" "r < 2048" | "2048 \<le> r" "r < 65536" | "65536 \<le> r" by linarith
  then show ?thesis
  proof cases
    case 1
    then show ?thesis using rc r chartorune_ints(1) [of r s] by simp
  next
    case 2
    obtain a where a: "a = 192 + r div 64" by blast
    have "runetochar r = [word_of_int a, word_of_int (128 + x)]" using rc 2 by (simp add: a)
    then show ?thesis using chartorune_ints(2) [of a "128 + x" s] 2 m d(1) r by (simp add: a)
  next
    case 3
    obtain a where a: "a = 224 + r div 4096" by blast
    have "runetochar r = [word_of_int a, word_of_int (128 + y), word_of_int (128 + x)]" using rc 3 by (simp add: a)
    then show ?thesis using chartorune_ints(3) [of a "128 + y" "128 + x" s] 3 m d r by (simp add: a)
  next
    case 4
    obtain a where a: "a = 240 + r div 262144" by blast
    have "runetochar r = [word_of_int a, word_of_int (128 + z), word_of_int (128 + y), word_of_int (128 + x)]"
      using rc 4 by (simp add: a)
    then show ?thesis using chartorune_ints(4) [of a "128 + z" "128 + y" "128 + x" s] 4 m d r by (simp add: a Runemax_def)
  qed
qed

text \<open>Every result of the decoder: the error rune for one byte, or the rune whose encoding was read.\<close>

lemma byte_at_Ok: "byte_at s i = Ok b \<longleftrightarrow> i < length s \<and> b = s ! i"
  by (auto simp: byte_at_def)

lemma runetochar_1: "c < 128 \<Longrightarrow> runetochar (uint c) = [c :: byte]"
  using runetochar_cases [of "uint c"] by (simp add: word_less_def Runemax_def)

lemma div_mod_64: "0 \<le> y \<Longrightarrow> y < 64 \<Longrightarrow> (x * 64 + y) div 64 = x \<and> (x * 64 + y) mod 64 = (y :: int)"
  by simp

lemma div_steps: "r div 4096 = r div 64 div (64 :: int)" "r div 262144 = r div 4096 div (64 :: int)"
  using zdiv_zmult2_eq [of 64 r 64] zdiv_zmult2_eq [of 64 r 4096] by simp_all

lemma byte_offset_of:
  assumes "uint (b :: byte) = k + x"
  shows "word_of_int (k + x) = b"
  using assms by (metis word_of_int_uint)

lemma cont_split:
  assumes "is_cont b"
  obtains x where "uint b = 128 + x" "0 \<le> x" "x < 64"
  using is_cont_range [OF assms] that [of "uint b - 128"] by simp

lemma runetochar_2:
  assumes "T2 \<le> c" "c < T3" "is_cont b" "127 < (uint c - 192) * 64 + (uint b - 128)"
  shows "runetochar ((uint c - 192) * 64 + (uint b - 128)) = [c, b] \<and> (uint c - 192) * 64 + (uint b - 128) \<le> Runemax"
proof -
  obtain p where p: "uint c = 192 + p" "p < 32"
    using assms(2) that [of "uint c - 192"] by (simp add: rune_consts word_less_def)
  obtain x where x: "uint b = 128 + x" "0 \<le> x" "x < 64" using cont_split [OF assms(3)] by blast
  define r where "r = p * 64 + x"
  have r: "127 < r" "r < 2048" using assms(4) p x by (simp_all add: r_def)
  have "runetochar r = [word_of_int (192 + p), word_of_int (128 + x)]"
    using runetochar_cases [of r] r div_mod_64 [OF x(2,3), of p] by (simp add: Runemax_def r_def)
  then show ?thesis using r byte_offset_of [OF p(1)] byte_offset_of [OF x(1)] by (simp add: p(1) x(1) r_def Runemax_def)
qed

lemma runetochar_3:
  assumes "T3 \<le> c" "c < T4" "is_cont b1" "is_cont b2"
    and "2047 < (uint c - 224) * 4096 + (uint b1 - 128) * 64 + (uint b2 - 128)"
  shows "runetochar ((uint c - 224) * 4096 + (uint b1 - 128) * 64 + (uint b2 - 128)) = [c, b1, b2]
    \<and> (uint c - 224) * 4096 + (uint b1 - 128) * 64 + (uint b2 - 128) \<le> Runemax"
proof -
  obtain p where p: "uint c = 224 + p" "p < 16"
    using assms(2) that [of "uint c - 224"] by (simp add: rune_consts word_less_def)
  obtain x where x: "uint b1 = 128 + x" "0 \<le> x" "x < 64" using cont_split [OF assms(3)] by blast
  obtain y where y: "uint b2 = 128 + y" "0 \<le> y" "y < 64" using cont_split [OF assms(4)] by blast
  define r where "r = (p * 64 + x) * 64 + y"
  have r: "2047 < r" "r < 65536" using assms(5) p x y by (simp_all add: r_def)
  have d: "r div 64 = p * 64 + x" "r mod 64 = y" unfolding r_def using div_mod_64 [OF y(2,3)] by blast+
  have "r div 4096 = p" unfolding div_steps d(1) using div_mod_64 [OF x(2,3)] by blast
  then have "runetochar r = [word_of_int (224 + p), word_of_int (128 + x), word_of_int (128 + y)]"
    using runetochar_cases [of r] r d div_mod_64 [OF x(2,3), of p] by (simp add: Runemax_def)
  moreover have "(uint c - 224) * 4096 + (uint b1 - 128) * 64 + (uint b2 - 128) = r"
    by (simp add: p(1) x(1) y(1) r_def)
  ultimately show ?thesis using r byte_offset_of [OF p(1)] byte_offset_of [OF x(1)] byte_offset_of [OF y(1)]
    by (simp add: Runemax_def)
qed

lemma runetochar_4:
  assumes "T4 \<le> c" "c < T5" "is_cont b1" "is_cont b2" "is_cont b3"
    and "r = (uint c - 240) * 262144 + (uint b1 - 128) * 4096 + (uint b2 - 128) * 64 + (uint b3 - 128)"
      "65535 < r" "r \<le> Runemax"
  shows "runetochar r = [c, b1, b2, b3]"
proof -
  obtain p where p: "uint c = 240 + p" "p < 8"
    using assms(2) that [of "uint c - 240"] by (simp add: rune_consts word_less_def)
  obtain x where x: "uint b1 = 128 + x" "0 \<le> x" "x < 64" using cont_split [OF assms(3)] by blast
  obtain y where y: "uint b2 = 128 + y" "0 \<le> y" "y < 64" using cont_split [OF assms(4)] by blast
  obtain z where z: "uint b3 = 128 + z" "0 \<le> z" "z < 64" using cont_split [OF assms(5)] by blast
  have r: "r = ((p * 64 + x) * 64 + y) * 64 + z" using assms(6) by (simp add: p(1) x(1) y(1) z(1))
  have d: "r div 64 = (p * 64 + x) * 64 + y" "r mod 64 = z" unfolding r using div_mod_64 [OF z(2,3)] by blast+
  have d4: "r div 4096 = p * 64 + x"
    unfolding div_steps(1) d(1) using div_mod_64 [OF y(2,3)] by blast
  have "r div 262144 = p"
    unfolding div_steps(2) d4 using div_mod_64 [OF x(2,3)] by blast
  then have "runetochar r = [word_of_int (240 + p), word_of_int (128 + x), word_of_int (128 + y), word_of_int (128 + z)]"
    using runetochar_cases [of r] assms(7,8) d d4 div_mod_64 [OF x(2,3), of p] div_mod_64 [OF y(2,3), of "p * 64 + x"] by simp
  then show ?thesis using byte_offset_of [OF p(1)] byte_offset_of [OF x(1)] byte_offset_of [OF y(1)] byte_offset_of [OF z(1)]
    by simp
qed


definition decodes :: "bytes \<Rightarrow> rune \<Rightarrow> nat \<Rightarrow> bool" where
  "decodes s r n \<longleftrightarrow> (r = Runeerror \<and> n = 1 \<or> (0 \<le> r \<and> r \<le> Runemax \<and> take n s = runetochar r) \<or> (Runemax < r \<and> r \<le> Rune4 \<and> n = 4))
     \<and> 1 \<le> n \<and> n \<le> length s"

lemma bad_decodes: "s \<noteq> [] \<Longrightarrow> \<exists>r n. bad_rune = Ok (r, n) \<and> decodes s r n"
  by (cases s) (simp_all add: bad_rune_def decodes_def)

lemma chartorune_two:
  assumes c: "\<not> c < Tx" "c < T3"
  shows "\<exists>r n. chartorune (c # b1 # u) = Ok (r, n) \<and> decodes (c # b1 # u) r n"
proof (cases "is_cont b1 \<and> T2 \<le> c \<and> 127 < (uint c - 192) * 64 + (uint b1 - 128)")
  case True
  then show ?thesis using c chartorune_2 [of c b1 u] runetochar_2 [of c b1]
    by (auto simp: decodes_def Let_def Rune1_def)
next
  case False
  then have "chartorune (c # b1 # u) = bad_rune"
    using c chartorune_2 [of c b1 u]
    by (cases "is_cont b1"; cases "c < T2") (auto simp: chartorune_def byte_at_def cont_simps(1) Let_def Rune1_def not_less)
  then show ?thesis using bad_decodes by simp
qed

lemma chartorune_three:
  assumes c: "\<not> c < T3" "c < T4"
  shows "\<exists>r n. chartorune (c # b1 # b2 # u) = Ok (r, n) \<and> decodes (c # b1 # b2 # u) r n"
proof -
  have tx: "\<not> c < Tx" using c(1) by (auto simp: rune_consts word_less_def)
  show ?thesis
  proof (cases "is_cont b1 \<and> is_cont b2 \<and> 2047 < (uint c - 224) * 4096 + (uint b1 - 128) * 64 + (uint b2 - 128)")
    case True
    then show ?thesis using c chartorune_3 [of c b1 b2 u] runetochar_3 [of c b1 b2]
      by (auto simp: decodes_def Let_def Rune2_def not_less)
  next
    case False
    then have "chartorune (c # b1 # b2 # u) = bad_rune"
      using c tx chartorune_3 [of c b1 b2 u]
      by (cases "is_cont b1"; cases "is_cont b2") (auto simp: chartorune_def byte_at_def cont_simps(1) Let_def Rune2_def not_less)
    then show ?thesis using bad_decodes by simp
  qed
qed

lemma chartorune_four:
  assumes c: "\<not> c < T4"
  shows "\<exists>r n. chartorune (c # b1 # b2 # b3 # u) = Ok (r, n) \<and> decodes (c # b1 # b2 # b3 # u) r n"
proof -
  have tx: "\<not> c < Tx" "\<not> c < T3" using c by (auto simp: rune_consts word_less_def)
  let ?s = "c # b1 # b2 # b3 # u"
  let ?r = "(uint c - 240) * 262144 + (uint b1 - 128) * 4096 + (uint b2 - 128) * 64 + (uint b3 - 128)"
  show ?thesis
  proof (cases "is_cont b1 \<and> is_cont b2 \<and> is_cont b3 \<and> c < T5 \<and> 65535 < ?r")
    case True
    then have "chartorune ?s = Ok (?r, 4)" using c chartorune_4 [of c b1 b2 b3 u]
      by (simp add: Let_def Rune3_def not_less)
    moreover have "?r \<le> Rune4"
      using decode_ranges(6) [of "uint b1" "uint b2" "uint b3" "uint c"] True is_cont_range
      by (simp add: Rune4_def T5_def word_less_def)
    then have "decodes ?s ?r 4"
      using True c runetochar_4 [of c b1 b2 b3 ?r] by (auto simp: decodes_def not_less)
    ultimately show ?thesis by blast
  next
    case False
    then have "chartorune ?s = bad_rune"
      using c tx chartorune_4 [of c b1 b2 b3 u]
      by (cases "is_cont b1"; cases "is_cont b2"; cases "is_cont b3"; cases "c < T5")
        (auto simp: chartorune_def byte_at_def cont_simps(1) Let_def Rune3_def not_less numeral_3_eq_3)
    then show ?thesis using bad_decodes [of ?s] by simp
  qed
qed

text \<open>A string on which \<open>fullrune\<close> answers yes is long enough for the decoder.\<close>

lemma chartorune_full:
  assumes "fullrune s (length s) = Ok True"
  shows "\<exists>r n. chartorune s = Ok (r, n) \<and> decodes s r n"
proof -
  obtain c t where s: "s = c # t" using assms by (cases s) (auto simp: fullrune_def)
  have full: "c < Tx \<or> (length s > 1 \<and> (c < T3 \<or> (length s > 2 \<and> (c < T4 \<or> length s > 3))))"
    using assms s by (simp add: fullrune_def byte_at_def)
  have one: ?thesis if "c < Tx"
    using that s chartorune_1 [of c t] runetochar_1 [of c]
    by (simp add: decodes_def Tx_def Runemax_def word_less_def)
  show ?thesis
  proof (cases "c < Tx")
    case False
    then obtain b1 t1 where t: "t = b1 # t1" using full s by (cases t) auto
    show ?thesis
    proof (cases "c < T3")
      case True
      then show ?thesis using chartorune_two [OF False True] s t by simp
    next
      case c3: False
      then obtain b2 t2 where t1: "t1 = b2 # t2" using False full s t by (cases t1) auto
      show ?thesis
      proof (cases "c < T4")
        case True
        then show ?thesis using chartorune_three [OF c3 True] s t t1 by simp
      next
        case c4: False
        then obtain b3 t3 where "t2 = b3 # t3" using False c3 full s t t1 by (cases t2) auto
        then show ?thesis using chartorune_four [OF c4] s t t1 by simp
      qed
    qed
  qed (rule one)
qed

end
