(* ===== verification/Szl_Utf8.thy ===== *)
theory Szl_Utf8
  imports Szl_Rune
begin

text \<open>
  Strings of runes: the counting functions of fmt/runes.cc and the conversions of
  utilities/strutils.cc that every string value passes through.  A function that takes a
  pointer and a length has the bytes up to the end as its argument, one that takes a
  zero-terminated string the bytes up to the end of the memory; running past that end is the
  error \<open>Out_of_range\<close>, and the theorems show that it does not happen.
\<close>

section \<open>Operations\<close>

definition FastCharToRune :: "bytes \<Rightarrow> (rune \<times> nat) res" where
  "FastCharToRune s = bind_res (byte_at s 0) (\<lambda>c. if uint c < 0x80 then Ok (uint c, 1) else chartorune s)"

text \<open>One step of the conversions: the error rune where a sequence is cut off, and for the
  byte zero.\<close>

definition rune_or_error :: "bytes \<Rightarrow> (rune \<times> nat) res" where
  "rune_or_error s =
     bind_res (fullrune s (length s)) (\<lambda>full. bind_res (byte_at s 0) (\<lambda>c.
     if \<not> full \<or> c = 0 then Ok (Runeerror, 1) else FastCharToRune s))"

text \<open>Every decoding step advances.\<close>

definition advances :: "(rune \<times> nat) res \<Rightarrow> bool" where
  "advances m \<longleftrightarrow> (\<forall>r n. m = Ok (r, n) \<longrightarrow> 0 < n)"

lemma advances_intros:
  "(\<And>x. advances (f x)) \<Longrightarrow> advances (bind_res q f)"
  "advances m \<Longrightarrow> advances m' \<Longrightarrow> advances (if b then m else m')"
  "(\<And>y. advances (g y)) \<Longrightarrow> advances (let y = a in g y)"
  "advances bad_rune" "0 < n \<Longrightarrow> advances (Ok (r, n))"
  by (auto simp: advances_def bad_rune_def bind_res_eq_Ok Let_def)

lemma chartorune_pos: "chartorune s = Ok (r, n) \<Longrightarrow> 0 < n"
proof -
  have "advances (chartorune s)" unfolding chartorune_def by (intro advances_intros) simp_all
  then show "chartorune s = Ok (r, n) \<Longrightarrow> 0 < n" by (simp add: advances_def)
qed

lemma FastCharToRune_pos: "FastCharToRune s = Ok (r, n) \<Longrightarrow> 0 < n"
  by (auto simp: FastCharToRune_def bind_res_eq_Ok chartorune_pos split: if_splits)

lemma rune_or_error_pos [termination_simp]: "rune_or_error s = Ok (r, n) \<Longrightarrow> 0 < n"
  by (auto simp: rune_or_error_def bind_res_eq_Ok FastCharToRune_pos split: if_splits)

function Str2ValidUTF8 :: "bytes \<Rightarrow> bytes res" where
  "Str2ValidUTF8 [] = Ok []"
| "Str2ValidUTF8 (c # s) =
     (if uint c < Runeself \<and> c \<noteq> 0 then bind_res (Str2ValidUTF8 s) (\<lambda>d. Ok (c # d))
      else bind_res (rune_or_error (c # s)) (\<lambda>(r, n).
           bind_res (Str2ValidUTF8 (drop n (c # s))) (\<lambda>d. Ok (runetochar r @ d))))"
  by pat_completeness auto
termination
  by (relation "measure length") (auto dest!: rune_or_error_pos)

function StrValid_loop :: "bytes \<Rightarrow> nat \<Rightarrow> nat \<Rightarrow> bool \<Rightarrow> (nat \<times> nat \<times> bool) res" where
  "StrValid_loop [] valid_len n is_valid = Ok (valid_len, n, is_valid)"
| "StrValid_loop (c # s) valid_len n is_valid =
     (if uint c < Runeself \<and> c \<noteq> 0 then StrValid_loop s (valid_len + 1) (n + 1) is_valid
      else bind_res (rune_or_error (c # s)) (\<lambda>(r, in_rune_len).
           let out_rune_len = runelen r in
           StrValid_loop (drop in_rune_len (c # s)) (valid_len + out_rune_len) (n + 1)
             (if out_rune_len \<noteq> in_rune_len then False else is_valid)))"
  by pat_completeness auto
termination
  by (relation "measure (\<lambda>(s, _). length s)") (auto dest!: rune_or_error_pos)

definition StrValidUTF8Len :: "bytes \<Rightarrow> (nat \<times> nat \<times> bool) res" where
  "StrValidUTF8Len s =
     (let p = length (takeWhile (\<lambda>c. c \<noteq> 0 \<and> uint c < Runeself) s) in
      if p = length s then Ok (p, p, True) else StrValid_loop (drop p s) p p True)"

text \<open>The versions for zero-terminated strings.\<close>

function CStr2ValidUTF8 :: "bytes \<Rightarrow> bytes res" where
  "CStr2ValidUTF8 [] = Inl Out_of_range"
| "CStr2ValidUTF8 (c # s) =
     (if c = 0 then Ok []
      else if uint c < Runeself then bind_res (CStr2ValidUTF8 s) (\<lambda>d. Ok (c # d))
      else bind_res (FastCharToRune (c # s)) (\<lambda>(r, n).
           bind_res (CStr2ValidUTF8 (drop n (c # s))) (\<lambda>d. Ok (runetochar r @ d))))"
  by pat_completeness auto
termination
  by (relation "measure length") (auto dest!: FastCharToRune_pos)

function CStrValid_loop :: "bytes \<Rightarrow> nat \<Rightarrow> nat \<Rightarrow> bool \<Rightarrow> (nat \<times> nat \<times> bool) res" where
  "CStrValid_loop [] valid_len n is_valid = Inl Out_of_range"
| "CStrValid_loop (c # s) valid_len n is_valid =
     (if c = 0 then Ok (valid_len, n, is_valid)
      else if uint c < Runeself then CStrValid_loop s (valid_len + 1) (n + 1) is_valid
      else bind_res (FastCharToRune (c # s)) (\<lambda>(r, in_rune_len).
           let out_rune_len = runelen r in
           CStrValid_loop (drop in_rune_len (c # s)) (valid_len + out_rune_len) (n + 1)
             (if out_rune_len \<noteq> in_rune_len then False else is_valid)))"
  by pat_completeness auto
termination
  by (relation "measure (\<lambda>(s, _). length s)") (auto dest!: FastCharToRune_pos)

definition CStrValidUTF8Len :: "bytes \<Rightarrow> (nat \<times> nat \<times> bool) res" where
  "CStrValidUTF8Len s = CStrValid_loop s 0 0 True"

text \<open>Counting runes, up to the terminating zero or up to a length.\<close>

function utflen :: "bytes \<Rightarrow> nat res" where
  "utflen [] = Inl Out_of_range"
| "utflen (c # s) =
     (if uint c < Runeself then (if c = 0 then Ok 0 else bind_res (utflen s) (\<lambda>n. Ok (n + 1)))
      else bind_res (chartorune (c # s)) (\<lambda>(r, k).
           bind_res (utflen (drop k (c # s))) (\<lambda>n. Ok (n + 1))))"
  by pat_completeness auto
termination
  by (relation "measure length") (auto dest!: chartorune_pos)

function utfnlen :: "bytes \<Rightarrow> nat res" where
  "utfnlen [] = Ok 0"
| "utfnlen (c # s) =
     (if uint c < Runeself then (if c = 0 then Ok 0 else bind_res (utfnlen s) (\<lambda>n. Ok (n + 1)))
      else bind_res (fullrune (c # s) (length (c # s))) (\<lambda>full.
           if \<not> full then Ok 0
           else bind_res (chartorune (c # s)) (\<lambda>(r, k).
                bind_res (utfnlen (drop k (c # s))) (\<lambda>n. Ok (n + 1)))))"
  by pat_completeness auto
termination
  by (relation "measure length") (auto dest!: chartorune_pos)

text \<open>Conversion to and from arrays of runes.\<close>

function Str2RuneStr :: "bytes \<Rightarrow> rune list res" where
  "Str2RuneStr [] = Ok []"
| "Str2RuneStr (c # s) =
     (if c = 0 then Ok []
      else if uint c < Runeself then bind_res (Str2RuneStr s) (\<lambda>d. Ok (uint c # d))
      else bind_res (if UTFmax \<le> length (c # s) then Ok True else fullrune (c # s) (length (c # s))) (\<lambda>full.
           if \<not> full then Ok []
           else bind_res (FastCharToRune (c # s)) (\<lambda>(r, k).
                bind_res (Str2RuneStr (drop k (c # s))) (\<lambda>d. Ok (r # d)))))"
  by pat_completeness auto
termination
  by (relation "measure length") (auto dest!: FastCharToRune_pos)

definition IsValidUnicode :: "int \<Rightarrow> bool" where
  "IsValidUnicode r = (if r \<le> 0 \<or> r > Runemax then False else if 0xD800 \<le> r \<and> r \<le> 0xDFFF then False else True)"

fun RuneStr_bytes :: "rune list \<Rightarrow> bytes" where
  "RuneStr_bytes [] = []"
| "RuneStr_bytes (r # rs) = (if r < Runeself then [word_of_int r] else runetochar r) @ RuneStr_bytes rs"

definition RuneStr2Str :: "nat \<Rightarrow> rune list \<Rightarrow> bytes res" where
  "RuneStr2Str num_bytes src =
     (let d = RuneStr_bytes src in bind_res (check (num_bytes = length d)) (\<lambda>_. Ok d))"

text \<open>The rune number of every byte offset, and one more entry for the end.\<close>

function GetRunePositions_loop :: "bytes \<Rightarrow> nat \<Rightarrow> (nat list \<times> nat) res" where
  "GetRunePositions_loop [] nrunes = Ok ([nrunes], nrunes)"
| "GetRunePositions_loop (c # s) nrunes =
     (if uint c < Runeself
      then bind_res (GetRunePositions_loop s (nrunes + 1)) (\<lambda>(pos, n). Ok (nrunes # pos, n))
      else bind_res (FastCharToRune (c # s)) (\<lambda>(r, w).
           bind_res (GetRunePositions_loop (drop w (c # s)) (nrunes + 1)) (\<lambda>(pos, n).
           Ok (replicate w nrunes @ pos, n))))"
  by pat_completeness auto
termination
  by (relation "measure (\<lambda>(s, _). length s)") (auto dest!: FastCharToRune_pos)

definition GetRunePositions :: "bytes \<Rightarrow> (nat list \<times> nat) res" where
  "GetRunePositions s = GetRunePositions_loop s 0"



section \<open>One step\<close>

lemma uint_ge_0: "0 \<le> uint (c :: byte)"
  by simp

lemma ascii_iff: "uint (c :: byte) < Runeself \<longleftrightarrow> c < 128"
  by (simp add: Runeself_def word_less_def)

lemma runetochar_error: "runetochar Runeerror = [0xEF, 0xBF, 0xBD]"
  by (simp add: runetochar_cases rune_consts)

lemma runetochar_high: "Runemax < r \<Longrightarrow> r < 2 ^ 64 \<Longrightarrow> runetochar r = runetochar Runeerror"
proof -
  assume r: "Runemax < r" "r < 2 ^ 64"
  then have "take_bit 64 r = r" by (simp add: take_bit_int_eq_self Runemax_def)
  moreover have "take_bit 64 Runeerror = Runeerror" by (simp add: take_bit_int_eq_self Runeerror_def)
  ultimately show ?thesis using r by (simp add: runetochar_def Let_def) (simp add: rune_consts)
qed

lemma length_runetochar: "1 \<le> length (runetochar r) \<and> length (runetochar r) \<le> 4"
  by (simp add: runetochar_def Let_def)

lemma fullrune_encoded:
  assumes "128 \<le> r" "r \<le> Runemax"
  shows "fullrune (runetochar r @ s) (length (runetochar r @ s)) = Ok True"
proof -
  have b: "word_of_int x < T3" if "0 \<le> x" "x < 224" for x
    using that by (simp add: byte_of_int_range)
  have b': "word_of_int x < T4" if "0 \<le> x" "x < 240" for x
    using that by (simp add: byte_of_int_range)
  consider "r < 2048" | "2048 \<le> r" "r < 65536" | "65536 \<le> r" by linarith
  then show ?thesis
  proof cases
    case 1
    then have "0 \<le> 192 + r div 64" "192 + r div 64 < 224" using assms by simp_all
    then have "word_of_int (192 + r div 64) < T3" by (rule b)
    then show ?thesis using 1 assms runetochar_cases [of r] by (simp add: fullrune_def byte_at_def)
  next
    case 2
    then have "0 \<le> 224 + r div 4096" "224 + r div 4096 < 240" using assms by simp_all
    then have "word_of_int (224 + r div 4096) < T4" by (rule b')
    then show ?thesis using 2 assms runetochar_cases [of r] by (simp add: fullrune_def byte_at_def)
  next
    case 3
    then show ?thesis using assms runetochar_cases [of r] by (simp add: fullrune_def byte_at_def)
  qed
qed

text \<open>The first byte of an encoded rune is a byte below 128 exactly for the runes below 128.\<close>

lemma hd_runetochar:
  assumes "0 \<le> r" "r \<le> Runemax" "runetochar r = c # cs"
  shows "c < 128 \<longleftrightarrow> r < 128" "r < 128 \<Longrightarrow> r = uint c"
proof -
  have big: "\<not> word_of_int x < (128 :: byte)" if "192 \<le> x" "x < 248" for x
    using that by (simp add: byte_of_int_range)
  have "r div 262144 < 8" using assms(2) by (simp add: Runemax_def)
  then have "\<not> c < 128" if "128 \<le> r"
    using assms that runetochar_cases [of r] big [of "192 + r div 64"] big [of "224 + r div 4096"] big [of "240 + r div 262144"]
    by (auto split: if_splits)
  moreover have "c < 128 \<and> r = uint c" if "r < 128"
    using assms that runetochar_cases [of r] by (auto simp: byte_of_int_range uint_byte)
  ultimately show "c < 128 \<longleftrightarrow> r < 128" "r < 128 \<Longrightarrow> r = uint c" by force+
qed

lemma rune_or_error_encoded:
  assumes "128 \<le> r" "r \<le> Runemax"
  shows "rune_or_error (runetochar r @ s) = Ok (r, length (runetochar r))"
proof -
  obtain c cs where c: "runetochar r = c # cs" using length_runetochar [of r] by (cases "runetochar r") auto
  have "\<not> c < 128" using hd_runetochar(1) [OF _ assms(2) c] assms(1) by simp
  then have "\<not> uint c < 128" "c \<noteq> 0" by (auto simp: word_less_def)
  then show ?thesis
    using fullrune_encoded [OF assms, of s] chartorune_runetochar [of r s] assms c
    by (simp add: rune_or_error_def FastCharToRune_def byte_at_def)
qed

text \<open>What a step of the conversion does on any other string: the rune it writes can be encoded,
  and takes as many bytes as were read exactly if they are its encoding.\<close>

lemma rune_or_error_step:
  assumes "\<not> (c < 128 \<and> c \<noteq> 0)"
  obtains r r' n where "rune_or_error (c # s) = Ok (r, n)" "1 \<le> n" "n \<le> length (c # s)"
    "1 \<le> r'" "r' \<le> Runemax" "runetochar r = runetochar r'"
    "runelen r = n \<longleftrightarrow> take n (c # s) = runetochar r'"
proof (cases "fullrune (c # s) (length (c # s)) = Ok True \<and> c \<noteq> 0")
  case True
  then have c: "\<not> uint c < 128" using assms by (auto simp: word_less_def)
  obtain r n where r: "chartorune (c # s) = Ok (r, n)" "decodes (c # s) r n"
    using chartorune_full True by blast
  have step: "rune_or_error (c # s) = Ok (r, n)"
    using True c r by (simp add: rune_or_error_def FastCharToRune_def byte_at_def)
  show ?thesis
  proof (cases "Runemax < r")
    case high: True
    then have n: "n = 4" "r < 2 ^ 64" using r(2) by (auto simp: decodes_def rune_consts)
    then have "runelen r \<noteq> n" "take n (c # s) \<noteq> runetochar Runeerror"
      using r(2) high runetochar_high [OF high] runetochar_error
      by (auto simp: runelen_def decodes_def dest!: arg_cong [of _ _ length])
    then show ?thesis
      using that [OF step, of Runeerror] r(2) runetochar_high [OF high n(2)]
      by (simp add: decodes_def rune_consts)
  next
    case False
    show ?thesis
    proof (cases "take n (c # s) = runetochar r \<and> 0 \<le> r")
      case ok: True
      have "runetochar 0 = [0]" by (simp add: runetochar_cases rune_consts)
      then have "r \<noteq> 0" using True r(2) ok by (cases n) (auto simp: decodes_def)
      then show ?thesis using that [OF step, of r] r(2) ok False
        by (auto simp: decodes_def runelen_def dest: arg_cong [of _ _ length])
    next
      case bad: False
      then have e: "r = Runeerror" "n = 1" using r(2) False by (auto simp: decodes_def)
      then have "runelen r \<noteq> n" "take n (c # s) \<noteq> runetochar Runeerror"
        by (simp_all add: runelen_def runetochar_error)
      then show ?thesis using that [OF step, of Runeerror] e by (simp add: rune_consts)
    qed
  qed
next
  case False
  have "\<exists>b. fullrune (c # s) (length (c # s)) = Ok b" by (simp add: fullrune_def byte_at_def)
  then have "rune_or_error (c # s) = Ok (Runeerror, 1)"
    using False by (auto simp: rune_or_error_def byte_at_def)
  moreover have "1 \<le> Runeerror" "Runeerror \<le> Runemax" by (simp_all add: rune_consts)
  ultimately show ?thesis using that [of Runeerror 1 Runeerror]
    by (simp add: runelen_def runetochar_error)
qed



section \<open>Whole strings\<close>

definition encode :: "rune list \<Rightarrow> bytes" where
  "encode rs = concat (map runetochar rs)"

definition good_runes :: "rune list \<Rightarrow> bool" where
  "good_runes rs \<longleftrightarrow> (\<forall>r \<in> set rs. 1 \<le> r \<and> r \<le> Runemax)"

lemma encode_simps [simp]: "encode [] = []" "encode (r # rs) = runetochar r @ encode rs"
  by (simp_all add: encode_def)

lemma good_runes_simps [simp]:
  "good_runes []" "good_runes (r # rs) \<longleftrightarrow> 1 \<le> r \<and> r \<le> Runemax \<and> good_runes rs"
  by (auto simp: good_runes_def)

text \<open>The conversion and the length loop agree on one list of runes.\<close>

lemma conversion_runes:
  "\<exists>rs. good_runes rs \<and> Str2ValidUTF8 s = Ok (encode rs) \<and>
     (\<forall>vl n v. StrValid_loop s vl n v = Ok (vl + length (encode rs), n + length rs, v \<and> encode rs = s))"
proof (induction s rule: length_induct)
  case (1 s)
  show ?case
  proof (cases s)
    case Nil
    then show ?thesis by (intro exI [of _ "[]"]) simp
  next
    case s: (Cons c t)
    show ?thesis
    proof (cases "c < 128 \<and> c \<noteq> 0")
      case True
      obtain rs where rs: "good_runes rs" "Str2ValidUTF8 t = Ok (encode rs)"
          "\<And>vl n v. StrValid_loop t vl n v = Ok (vl + length (encode rs), n + length rs, v \<and> encode rs = t)"
        using 1 s by auto
      have "1 \<le> uint c" "uint c \<le> Runemax" using True
        by (simp_all add: word_less_def Runemax_def) (metis int_one_le_iff_zero_less less_le uint_0_iff uint_ge_0)
      then show ?thesis using rs True s runetochar_1 [of c]
        by (intro exI [of _ "uint c # rs"]) (simp add: ascii_iff)
    next
      case False
      obtain r r' n where st: "rune_or_error s = Ok (r, n)" "1 \<le> n" "n \<le> length s" "1 \<le> r'" "r' \<le> Runemax"
          "runetochar r = runetochar r'" "runelen r = n \<longleftrightarrow> take n s = runetochar r'"
        using rune_or_error_step [OF False, of t thesis] s by metis
      have "length (drop n s) < length s" using st s by simp
      then obtain rs where rs: "good_runes rs" "Str2ValidUTF8 (drop n s) = Ok (encode rs)"
          "\<And>vl k v. StrValid_loop (drop n s) vl k v =
             Ok (vl + length (encode rs), k + length rs, v \<and> encode rs = drop n s)"
        using 1 by blast
      have eq: "runelen r = n \<and> encode rs = drop n s \<longleftrightarrow> encode (r' # rs) = s"
      proof
        assume "runelen r = n \<and> encode rs = drop n s"
        then show "encode (r' # rs) = s" using st(7) by (metis append_take_drop_id encode_simps(2))
      next
        assume enc: "encode (r' # rs) = s"
        have "128 \<le> r'"
        proof (rule ccontr)
          assume "\<not> 128 \<le> r'"
          then have "r' = uint c" "c < 128"
            using hd_runetochar [of r' c] st(4,5) enc s by (auto simp: Cons_eq_append_conv runetochar_cases)
          then show False using False st(4) by auto
        qed
        then have "n = length (runetochar r')" using rune_or_error_encoded [of r' "encode rs"] st(1,5) enc by simp
        then show "runelen r = n \<and> encode rs = drop n s" using st(6) enc by (auto simp: runelen_def)
      qed
      have "Str2ValidUTF8 s = Ok (encode (r' # rs))"
        using False st(1,6) rs(2) s by (auto simp: ascii_iff)
      moreover have "StrValid_loop s vl k v = Ok (vl + length (encode (r' # rs)), k + length (r' # rs), v \<and> encode (r' # rs) = s)"
        for vl k v
        using False st(1,6) rs(3) s eq by (auto simp: ascii_iff Let_def runelen_def)
      ultimately show ?thesis using rs(1) st(4,5) by (intro exI [of _ "r' # rs"]) simp
    qed
  qed
qed


lemma StrValidUTF8Len_loop: "StrValidUTF8Len s = StrValid_loop s 0 0 True"
proof -
  let ?P = "\<lambda>c :: byte. c \<noteq> 0 \<and> uint c < Runeself"
  have "StrValid_loop s vl n v =
      StrValid_loop (drop (length (takeWhile ?P s)) s) (vl + length (takeWhile ?P s)) (n + length (takeWhile ?P s)) v"
    for s vl n v
    by (induction s arbitrary: vl n) auto
  from this [of s 0 0 True] show ?thesis
    by (auto simp: StrValidUTF8Len_def Let_def)
qed

text \<open>Reading back what was written.\<close>

lemma Str2RuneStr_encode: "good_runes rs \<Longrightarrow> Str2RuneStr (encode rs) = Ok rs"
proof (induction rs)
  case (Cons r rs)
  then have r: "1 \<le> r" "r \<le> Runemax" and IH: "Str2RuneStr (encode rs) = Ok rs" by auto
  obtain c cs where c: "runetochar r = c # cs" using length_runetochar [of r] by (cases "runetochar r") auto
  have z: "c \<noteq> 0"
  proof
    assume "c = 0"
    then show False using hd_runetochar [OF _ r(2) c] r(1) by auto
  qed
  show ?case
  proof (cases "r < 128")
    case True
    then have "r = uint c" "c < 128" using hd_runetochar [OF _ r(2) c] r(1) by auto
    then have "runetochar r = [c]" using runetochar_1 by simp
    then show ?thesis using IH z \<open>c < 128\<close> \<open>r = uint c\<close> by (simp add: ascii_iff)
  next
    case False
    then have nc: "\<not> c < 128" using hd_runetochar(1) [OF _ r(2) c] r(1) by simp
    have "chartorune (c # cs @ encode rs) = Ok (r, length (c # cs))"
      using chartorune_runetochar [of r "encode rs"] r c by simp
    moreover have "fullrune (c # cs @ encode rs) (length (c # cs @ encode rs)) = Ok True"
      using fullrune_encoded [of r "encode rs"] False r(2) c by simp
    ultimately show ?thesis using IH z nc c
      by (auto simp: ascii_iff FastCharToRune_def byte_at_def word_less_def)
  qed
qed simp

lemma runetochar_valid_len: "0 \<le> r \<Longrightarrow> r \<le> Runemax \<Longrightarrow> length (runetochar r) = runenlen [r]"
  using runetochar_cases [of r] by (simp add: rune_consts)

lemma runenlen_encode: "good_runes rs \<Longrightarrow> runenlen rs = length (encode rs)"
proof (induction rs)
  case (Cons r rs)
  then show ?case using runetochar_valid_len [of r] by simp
qed simp

lemma RuneStr_bytes_encode: "good_runes rs \<Longrightarrow> RuneStr_bytes rs = encode rs"
proof (induction rs)
  case (Cons r rs)
  then show ?case using runetochar_cases [of r] by (simp add: Runeself_def)
qed simp

lemma conversion_encode:
  "good_runes rs \<Longrightarrow> Str2ValidUTF8 (encode rs) = Ok (encode rs) \<and>
     (\<forall>vl n v. StrValid_loop (encode rs) vl n v = Ok (vl + length (encode rs), n + length rs, v))"
proof (induction rs)
  case (Cons r rs)
  then have r: "1 \<le> r" "r \<le> Runemax" by auto
  obtain c cs where c: "runetochar r = c # cs" using length_runetochar [of r] by (cases "runetochar r") auto
  show ?case
  proof (cases "r < 128")
    case True
    then have "r = uint c" "c < 128" using hd_runetochar [OF _ r(2) c] r(1) by auto
    moreover from this have "runetochar r = [c]" "c \<noteq> 0" using runetochar_1 r(1) by auto
    ultimately show ?thesis using Cons by (simp add: ascii_iff)
  next
    case False
    then have nc: "\<not> c < 128" using hd_runetochar(1) [OF _ r(2) c] r(1) by simp
    have "rune_or_error (c # cs @ encode rs) = Ok (r, length (c # cs))"
      using rune_or_error_encoded [of r "encode rs"] False r(2) c by simp
    then show ?thesis using Cons nc c by (simp add: ascii_iff Let_def runelen_def)
  qed
qed simp

text \<open>C16. Every byte string becomes valid UTF-8: the conversion never reads past the end, its result
  has the length and the number of runes announced by \<open>StrValidUTF8Len\<close>, which reports a valid
  string exactly if the conversion changes nothing; the result is itself reported as valid, with
  the same number of runes, and splits into exactly that many runes between 1 and the maximum.\<close>

theorem valid_utf8_conversion:
  "\<exists>d rs. Str2ValidUTF8 s = Ok d \<and> StrValidUTF8Len s = Ok (length d, length rs, d = s)
    \<and> StrValidUTF8Len d = Ok (length d, length rs, True) \<and> Str2ValidUTF8 d = Ok d
    \<and> Str2RuneStr d = Ok rs \<and> list_all (\<lambda>r. 1 \<le> r \<and> r \<le> Runemax) rs"
proof -
  obtain rs where rs: "good_runes rs" "Str2ValidUTF8 s = Ok (encode rs)"
      "\<And>vl n v. StrValid_loop s vl n v = Ok (vl + length (encode rs), n + length rs, v \<and> encode rs = s)"
    using conversion_runes by blast
  show ?thesis
    using rs conversion_encode [OF rs(1)] Str2RuneStr_encode [OF rs(1)]
    by (intro exI [of _ "encode rs"] exI [of _ rs]) (simp add: StrValidUTF8Len_loop good_runes_def list_all_iff)
qed



lemma fullrune_long: "s \<noteq> [] \<Longrightarrow> UTFmax \<le> length s \<Longrightarrow> fullrune s (length s) = Ok True"
  by (cases s) (auto simp: fullrune_def byte_at_def UTFmax_def)

lemma fullrune_total: "s \<noteq> [] \<Longrightarrow> \<exists>b. fullrune s (length s) = Ok b"
  by (cases s) (auto simp: fullrune_def byte_at_def)

text \<open>C32. Whatever the bytes are, \<open>Str2RuneStr\<close> neither fails nor reads past the end, and writes
  exactly as many runes as \<open>utfnlen\<close> counts, which is how its buffers are allocated.\<close>

theorem rune_buffer_size:
  "\<exists>rs. Str2RuneStr s = Ok rs \<and> utfnlen s = Ok (length rs)"
proof (induction s rule: length_induct)
  case (1 s)
  show ?case
  proof (cases s)
    case (Cons c t)
    have full: "(if UTFmax \<le> length s then Ok True else fullrune s (length s)) = fullrune s (length s)"
      using fullrune_long [of s] Cons by auto
    obtain b where b: "fullrune s (length s) = Ok b" using fullrune_total Cons by blast
    have IH: "\<exists>rs. Str2RuneStr u = Ok rs \<and> utfnlen u = Ok (length rs)" if "length u < length s" for u
      using 1 that by blast
    consider "c = 0" | "c \<noteq> 0" "uint c < Runeself" | "c \<noteq> 0" "\<not> uint c < Runeself" "\<not> b"
      | "c \<noteq> 0" "\<not> uint c < Runeself" "b" by blast
    then show ?thesis
    proof cases
      case 4
      have "fullrune s (length s) = Ok True" using 4 b by simp
      from chartorune_full [OF this] obtain r n where r: "chartorune s = Ok (r, n)" "decodes s r n" by blast
      have "length (drop n s) < length s" using r(2) Cons by (simp add: decodes_def)
      from IH [OF this] obtain rs where "Str2RuneStr (drop n s) = Ok rs" "utfnlen (drop n s) = Ok (length rs)" by blast
      then show ?thesis using 4 r(1) b full Cons
        by (auto simp: FastCharToRune_def byte_at_def Runeself_def)
    qed (use b full Cons IH [of t] in \<open>auto simp: Runeself_def\<close>)
  qed simp
qed

end
