(* ===== verification/Szl_Emitter.thy ===== *)
theory Szl_Emitter
  imports Szl_Entry "HOL-Library.AList"
begin

text \<open>
  \<open>SzlEmitter\<close> of emitvalues/szlemitter.cc, the object between the interpreter and a table: it
  is driven by the calls of public/emitterinterface.h, encodes index and element while they
  arrive, and adds the finished emit to the entry of its index.

  The hash map of entries is an association list without duplicates whose order stands for the
  order of iteration, which the library does not specify; no theorem depends on it.
  \<open>WriteValue\<close> is a virtual function that map-reduce programs override to collect their output;
  the list \<open>em_out\<close> holds what was written.  The members \<open>in_weight_\<close> and \<open>weight_pos_\<close> are not
  set by the constructor, so their first values are arguments of \<open>new_emitter\<close>.
\<close>

section \<open>The objects\<close>

datatype GroupType = EMIT | INDEX | ELEMENT | WEIGHT | ARRAY | MAP | TUPLE

text \<open>What \<open>encoder_\<close> points to, if it is not null.\<close>

datatype enc_sel = KeyEnc | ValueEnc

text \<open>The writer of a table with the virtual functions of it and of its entries.\<close>

record 's writer =
  w_tab :: szl_tab_writer
  w_CreateEntry :: "bytes \<Rightarrow> 's res"
  w_FilterValue :: "bytes \<Rightarrow> bytes res"
  e_AddElem :: "bytes \<Rightarrow> 's \<Rightarrow> (int \<times> 's) res"
  e_AddWeightedElem :: "bytes \<Rightarrow> szl_value \<Rightarrow> 's \<Rightarrow> (int \<times> 's) res"
  e_Merge :: "bytes \<Rightarrow> 's \<Rightarrow> (merge_status \<times> 's) res"
  e_Flush :: "'s \<Rightarrow> (bytes \<times> 's) res"
  e_FlushForDisplay :: "'s \<Rightarrow> (bytes list \<times> 's) res"
  e_TupleCount :: "'s \<Rightarrow> int res"
  e_Memory :: "'s \<Rightarrow> int res"

record 's emitter =
  em_key :: szl_encoder
  em_value :: szl_encoder
  em_encoder :: "enc_sel option"
  em_table :: "(bytes \<times> 's) list"
  em_memory :: int
  em_display :: bool
  em_depth :: int
  em_in_weight :: bool
  em_arrays :: "int list"
  em_weight :: szl_value
  em_weight_pos :: int
  em_errors :: bool
  em_out :: "(bytes \<times> bytes) list"

definition new_emitter :: "bool \<Rightarrow> int \<Rightarrow> bool \<Rightarrow> 's emitter" where
  "new_emitter junk_in_weight junk_weight_pos display =
     \<lparr>em_key = new_encoder, em_value = new_encoder, em_encoder = None, em_table = [], em_memory = 0,
      em_display = display, em_depth = 0, em_in_weight = junk_in_weight, em_arrays = [], em_weight = VZero,
      em_weight_pos = junk_weight_pos, em_errors = False, em_out = []\<rparr>"


section \<open>Output\<close>

definition WriteValue :: "bytes \<Rightarrow> bytes \<Rightarrow> 's emitter \<Rightarrow> 's emitter" where
  "WriteValue key value s = s\<lparr>em_out := em_out s @ [(key, value)]\<rparr>"

fun Display_loop :: "'s writer \<Rightarrow> (bytes \<times> 's) list \<Rightarrow> ((bytes \<times> 's) list \<times> (bytes \<times> bytes) list) res" where
  "Display_loop W [] = Ok ([], [])"
| "Display_loop W ((k, t) # es) =
     bind_res (e_FlushForDisplay W t) (\<lambda>(buffer, t').
     bind_res (Display_loop W es) (\<lambda>(es', out). Ok ((k, t') # es', map (Pair k) buffer @ out)))"

definition DisplayResults :: "'s writer \<Rightarrow> 's emitter \<Rightarrow> 's emitter res" where
  "DisplayResults W s =
     bind_res (Display_loop W (em_table s)) (\<lambda>(es, out).
     Ok (s\<lparr>em_table := es, em_out := em_out s @ out\<rparr>))"

fun Flusher_loop :: "'s writer \<Rightarrow> (bytes \<times> 's) list \<Rightarrow> 's emitter \<Rightarrow> 's emitter res" where
  "Flusher_loop W [] s = Ok s"
| "Flusher_loop W ((k, t) # es) s =
     bind_res (e_Flush W t) (\<lambda>(v, t').
     Flusher_loop W es (if v \<noteq> [] then WriteValue k v s else s))"

definition Flusher :: "'s writer \<Rightarrow> 's emitter \<Rightarrow> 's emitter res" where
  "Flusher W s =
     bind_res (Flusher_loop W (em_table s) s) (\<lambda>s. Ok (s\<lparr>em_table := [], em_memory := 0\<rparr>))"

definition em_Clear :: "'s writer \<Rightarrow> 's emitter \<Rightarrow> 's emitter res" where
  "em_Clear W s =
     bind_res (if em_display s then DisplayResults W s else Ok s) (\<lambda>s.
     bind_res (Clear (tw_weight_ops (w_tab W)) (em_weight s)) (\<lambda>w.
     Ok (s\<lparr>em_table := [], em_weight := w, em_memory := 0\<rparr>)))"

definition GetTupleCount :: "'s writer \<Rightarrow> 's emitter \<Rightarrow> int res" where
  "GetTupleCount W s =
     fold_res (\<lambda>(k, t) n. bind_res (e_TupleCount W t) (\<lambda>c. Ok (n + c))) (em_table s) 0"

definition GetMemoryUsage :: "'s writer \<Rightarrow> 's emitter \<Rightarrow> int res" where
  "GetMemoryUsage W s =
     fold_res (\<lambda>(k, t) n. bind_res (e_Memory W t) (\<lambda>c. Ok (n + c))) (em_table s) 0"


section \<open>Groups\<close>

text \<open>A call through the pointer \<open>encoder_\<close>.\<close>

definition at_encoder :: "(szl_encoder \<Rightarrow> szl_encoder res) \<Rightarrow> 's emitter \<Rightarrow> 's emitter res" where
  "at_encoder f s = (case em_encoder s of
       None \<Rightarrow> Inl Null_deref
     | Some KeyEnc \<Rightarrow> bind_res (f (em_key s)) (\<lambda>e. Ok (s\<lparr>em_key := e\<rparr>))
     | Some ValueEnc \<Rightarrow> bind_res (f (em_value s)) (\<lambda>e. Ok (s\<lparr>em_value := e\<rparr>)))"

definition idle :: "'s emitter \<Rightarrow> bool" where
  "idle s \<longleftrightarrow> em_encoder s = None \<and> em_depth s = 0"

text \<open>\<open>arrays_.size() > 0 && arrays_.back() == depth_ - 1\<close>\<close>

definition in_array :: "'s emitter \<Rightarrow> bool" where
  "in_array s \<longleftrightarrow> em_arrays s \<noteq> [] \<and> last (em_arrays s) = em_depth s - 1"

definition em_Begin :: "'s writer \<Rightarrow> GroupType \<Rightarrow> int \<Rightarrow> 's emitter \<Rightarrow> 's emitter res" where
  "em_Begin W type len s = (case type of
     EMIT \<Rightarrow> bind_res (check (idle s)) (\<lambda>_. Ok (s\<lparr>em_weight_pos := - 1, em_in_weight := False\<rparr>))
   | INDEX \<Rightarrow> bind_res (check (idle s)) (\<lambda>_.
       Ok (s\<lparr>em_depth := em_depth s + 1, em_encoder := Some KeyEnc, em_key := enc_Reset (em_key s)\<rparr>))
   | ELEMENT \<Rightarrow> bind_res (check (idle s)) (\<lambda>_.
       Ok (s\<lparr>em_depth := em_depth s + 1, em_encoder := Some ValueEnc, em_value := enc_Reset (em_value s)\<rparr>))
   | WEIGHT \<Rightarrow> bind_res (check (idle s)) (\<lambda>_. bind_res (check (tw_has_weight (w_tab W))) (\<lambda>_.
       Ok (s\<lparr>em_in_weight := True, em_weight_pos := 0, em_depth := em_depth s + 1\<rparr>)))
   | TUPLE \<Rightarrow> bind_res (check (em_encoder s \<noteq> None \<or> em_in_weight s)) (\<lambda>_.
       bind_res (if in_array s then at_encoder (Start K_TUPLE) s else Ok s) (\<lambda>s.
       Ok (s\<lparr>em_depth := em_depth s + 1\<rparr>)))
   | _ \<Rightarrow>
       let s = (if em_in_weight s then s\<lparr>em_errors := True\<rparr> else s) in
       bind_res (check (em_encoder s \<noteq> None)) (\<lambda>_.
       bind_res (if type = ARRAY then at_encoder (Start K_ARRAY) s
                 else bind_res (at_encoder (Start K_MAP) s)
                        (at_encoder (\<lambda>e. Ok (PutInt (word_of_int len) e)))) (\<lambda>s.
       Ok (s\<lparr>em_arrays := em_arrays s @ [em_depth s], em_depth := em_depth s + 1\<rparr>))))"

text \<open>The entry of an index, made when it is first used.\<close>

definition find_entry :: "'s writer \<Rightarrow> bytes \<Rightarrow> 's emitter \<Rightarrow> 's res" where
  "find_entry W k s = (case map_of (em_table s) k of None \<Rightarrow> w_CreateEntry W k | Some t \<Rightarrow> Ok t)"

definition End_emit :: "'s writer \<Rightarrow> 's emitter \<Rightarrow> 's emitter res" where
  "End_emit W s =
     bind_res (check (idle s)) (\<lambda>_.
     bind_res (check ((em_weight_pos s > 0) = tw_has_weight (w_tab W))) (\<lambda>_.
     let k = enc_data (em_key s) in
     if tw_aggregates (w_tab W) then
       bind_res (find_entry W k s) (\<lambda>t.
       let v = enc_data (em_value s) in
       bind_res (if em_weight_pos s > 0 then e_AddWeightedElem W v (em_weight s) t else e_AddElem W v t) (\<lambda>(m, t').
       Ok (s\<lparr>em_table := AList.update k t' (em_table s), em_memory := em_memory s + m\<rparr>)))
     else
       bind_res (check (\<not> tw_has_weight (w_tab W))) (\<lambda>_.
       if tw_filters (w_tab W) then bind_res (w_FilterValue W (enc_data (em_value s))) (\<lambda>value. Ok (WriteValue k value s))
       else let (value, e) = enc_Swap (em_value s) in Ok (WriteValue k value (s\<lparr>em_value := e\<rparr>)))))"

definition em_End :: "'s writer \<Rightarrow> GroupType \<Rightarrow> int \<Rightarrow> 's emitter \<Rightarrow> 's emitter res" where
  "em_End W type len s =
     (if type = EMIT then End_emit W s
      else
        bind_res (check ((em_encoder s \<noteq> None \<or> em_in_weight s) \<and> em_depth s > 0)) (\<lambda>_.
        let s = s\<lparr>em_depth := em_depth s - 1\<rparr> in
        bind_res (if type = ARRAY \<or> type = MAP then
            bind_res (at_encoder (End (if type = ARRAY then K_ARRAY else K_MAP)) s) (\<lambda>s.
            if em_arrays s = [] then Inl Out_of_range
            else bind_res (check (last (em_arrays s) = em_depth s)) (\<lambda>_.
                 Ok (s\<lparr>em_arrays := butlast (em_arrays s)\<rparr>)))
          else if type = TUPLE \<and> in_array s then at_encoder (End K_TUPLE) s
          else Ok s) (\<lambda>s.
        if em_depth s \<noteq> 0 then Ok s
        else bind_res (check (em_arrays s = [])) (\<lambda>_.
             Ok (s\<lparr>em_encoder := None, em_in_weight := False\<rparr>)))))"


section \<open>Values\<close>

text \<open>The common part of the \<open>Put\<close> functions: into the weight or through the encoder.\<close>

definition em_Put :: "(nat \<Rightarrow> szl_value \<Rightarrow> szl_value res) \<Rightarrow> (szl_encoder \<Rightarrow> szl_encoder res)
    \<Rightarrow> 's emitter \<Rightarrow> 's emitter res" where
  "em_Put put_weight put_enc s =
     (if em_in_weight s then
        bind_res (check (em_encoder s = None)) (\<lambda>_.
        bind_res (check (0 \<le> em_weight_pos s)) (\<lambda>_.
        bind_res (put_weight (nat (em_weight_pos s)) (em_weight s)) (\<lambda>w.
        Ok (s\<lparr>em_weight := w, em_weight_pos := em_weight_pos s + 1\<rparr>))))
      else bind_res (check (em_encoder s \<noteq> None)) (\<lambda>_. at_encoder put_enc s))"

definition em_PutBool :: "'s writer \<Rightarrow> bool \<Rightarrow> 's emitter \<Rightarrow> 's emitter res" where
  "em_PutBool W b = em_Put (ops_PutBool (tw_weight_ops (w_tab W)) b) (\<lambda>e. Ok (PutBool b e))"

definition em_PutBytes :: "'s writer \<Rightarrow> bytes \<Rightarrow> 's emitter \<Rightarrow> 's emitter res" where
  "em_PutBytes W p = em_Put (ops_PutBytes (tw_weight_ops (w_tab W)) p) (\<lambda>e. Ok (PutBytes p e))"

definition em_PutInt :: "'s writer \<Rightarrow> i64 \<Rightarrow> 's emitter \<Rightarrow> 's emitter res" where
  "em_PutInt W i = em_Put (ops_PutInt (tw_weight_ops (w_tab W)) i) (\<lambda>e. Ok (PutInt i e))"

definition em_PutFloat :: "host_config \<Rightarrow> 's writer \<Rightarrow> dbl \<Rightarrow> 's emitter \<Rightarrow> 's emitter res" where
  "em_PutFloat hc W f = em_Put (ops_PutFloat (tw_weight_ops (w_tab W)) f) (PutFloat hc f)"

definition em_PutFingerprint :: "'s writer \<Rightarrow> u64 \<Rightarrow> 's emitter \<Rightarrow> 's emitter res" where
  "em_PutFingerprint W fp = em_Put (ops_PutFingerprint (tw_weight_ops (w_tab W)) fp) (\<lambda>e. Ok (PutFingerprint fp e))"

definition em_PutString :: "'s writer \<Rightarrow> bytes \<Rightarrow> 's emitter \<Rightarrow> 's emitter res" where
  "em_PutString W s = em_Put (ops_PutString (tw_weight_ops (w_tab W)) s) (\<lambda>e. Ok (PutString s e))"

definition em_PutTime :: "'s writer \<Rightarrow> u64 \<Rightarrow> 's emitter \<Rightarrow> 's emitter res" where
  "em_PutTime W t = em_Put (ops_PutTime (tw_weight_ops (w_tab W)) t) (\<lambda>e. Ok (PutTime t e))"

definition EmitInt :: "'s writer \<Rightarrow> i64 \<Rightarrow> 's emitter \<Rightarrow> 's emitter res" where
  "EmitInt W i s =
     bind_res (em_Begin W EMIT 1 s) (\<lambda>s. bind_res (em_Begin W ELEMENT 1 s) (\<lambda>s.
     bind_res (em_PutInt W i s) (\<lambda>s. bind_res (em_End W ELEMENT 1 s) (em_End W EMIT 1))))"

definition EmitFloat :: "host_config \<Rightarrow> 's writer \<Rightarrow> dbl \<Rightarrow> 's emitter \<Rightarrow> 's emitter res" where
  "EmitFloat hc W f s =
     bind_res (em_Begin W EMIT 1 s) (\<lambda>s. bind_res (em_Begin W ELEMENT 1 s) (\<lambda>s.
     bind_res (em_PutFloat hc W f s) (\<lambda>s. bind_res (em_End W ELEMENT 1 s) (em_End W EMIT 1))))"

definition em_Merge :: "'s writer \<Rightarrow> bytes \<Rightarrow> bytes \<Rightarrow> 's emitter \<Rightarrow> (bool \<times> 's emitter) res" where
  "em_Merge W index val s =
     bind_res (find_entry W index s) (\<lambda>t.
     bind_res (e_Merge W val t) (\<lambda>(st, t').
     Ok (st = MergeOk, s\<lparr>em_table := AList.update index t' (em_table s)\<rparr>)))"

text \<open>The interface as one function of the call.\<close>

datatype emit_call =
    CBegin GroupType int | CEnd GroupType int | CPutBool bool | CPutBytes bytes | CPutInt i64
  | CPutFloat dbl | CPutFingerprint u64 | CPutString bytes | CPutTime u64 | CEmitInt i64 | CEmitFloat dbl

fun do_call :: "host_config \<Rightarrow> 's writer \<Rightarrow> emit_call \<Rightarrow> 's emitter \<Rightarrow> 's emitter res" where
  "do_call hc W (CBegin g n) = em_Begin W g n"
| "do_call hc W (CEnd g n) = em_End W g n"
| "do_call hc W (CPutBool b) = em_PutBool W b"
| "do_call hc W (CPutBytes p) = em_PutBytes W p"
| "do_call hc W (CPutInt i) = em_PutInt W i"
| "do_call hc W (CPutFloat f) = em_PutFloat hc W f"
| "do_call hc W (CPutFingerprint fp) = em_PutFingerprint W fp"
| "do_call hc W (CPutString s) = em_PutString W s"
| "do_call hc W (CPutTime t) = em_PutTime W t"
| "do_call hc W (CEmitInt i) = EmitInt W i"
| "do_call hc W (CEmitFloat f) = EmitFloat hc W f"


section \<open>The call protocol\<close>

text \<open>The values of the grammar in public/emitterinterface.h, a map with its keys and values
  alternating, and the calls that put one.\<close>

datatype pvalue =
    PBool bool | PBytes bytes | PInt i64 | PFloat dbl | PFingerprint u64 | PString bytes | PTime u64
  | PArray "pvalue list" | PMap "pvalue list" | PTuple "pvalue list"

text \<open>The calls of a value are those that engine/outputter.cc sends: a \<open>MAP\<close> is begun with the
  number of its keys and values together, as line 235 passes it, where public/emitterinterface.h
  speaks of the number of pairs (Szl\_Outputter compares the two).\<close>

primrec calls :: "pvalue \<Rightarrow> emit_call list" where
  "calls (PBool b) = [CPutBool b]"
| "calls (PBytes p) = [CPutBytes p]"
| "calls (PInt i) = [CPutInt i]"
| "calls (PFloat f) = [CPutFloat f]"
| "calls (PFingerprint fp) = [CPutFingerprint fp]"
| "calls (PString s) = [CPutString s]"
| "calls (PTime t) = [CPutTime t]"
| "calls (PArray vs) = CBegin ARRAY (int (length vs)) # concat (map calls vs) @ [CEnd ARRAY (int (length vs))]"
| "calls (PMap vs) = CBegin MAP (int (length vs)) # concat (map calls vs) @ [CEnd MAP (int (length vs))]"
| "calls (PTuple vs) = CBegin TUPLE (int (length vs)) # concat (map calls vs) @ [CEnd TUPLE (int (length vs))]"

text \<open>What they write: a tuple is marked only directly inside an array or a map.\<close>

primrec pbytes :: "host_config \<Rightarrow> pvalue \<Rightarrow> bool \<Rightarrow> bytes" where
  "pbytes hc (PBool b) = (\<lambda>_. bool_enc b)"
| "pbytes hc (PBytes p) = (\<lambda>_. bytes_enc p)"
| "pbytes hc (PInt i) = (\<lambda>_. int_enc i)"
| "pbytes hc (PFloat f) = (\<lambda>_. float_enc hc f)"
| "pbytes hc (PFingerprint fp) = (\<lambda>_. p8_enc FINGERPRINT1 fp)"
| "pbytes hc (PString s) = (\<lambda>_. string_enc s)"
| "pbytes hc (PTime t) = (\<lambda>_. p8_enc TIME1 t)"
| "pbytes hc (PArray vs) = (\<lambda>_. of_nat ARRAY_START # concat (map (\<lambda>v. pbytes hc v True) vs) @ [of_nat ARRAY_END])"
| "pbytes hc (PMap vs) = (\<lambda>_. of_nat MAP_START # int_enc (of_nat (length vs)) @
     concat (map (\<lambda>v. pbytes hc v True) vs) @ [of_nat MAP_END])"
| "pbytes hc (PTuple vs) = (\<lambda>marked. (if marked then [of_nat TUPLE_START] else []) @
     concat (map (\<lambda>v. pbytes hc v False) vs) @ (if marked then [of_nat TUPLE_END] else []))"

text \<open>The state of an emitter inside an index or an element.\<close>

definition open_group :: "'s emitter \<Rightarrow> bool" where
  "open_group s \<longleftrightarrow> em_encoder s \<noteq> None \<and> \<not> em_in_weight s \<and> em_depth s > 0
     \<and> (em_arrays s \<noteq> [] \<longrightarrow> last (em_arrays s) < em_depth s)"

definition write_enc :: "bytes \<Rightarrow> 's emitter \<Rightarrow> 's emitter" where
  "write_enc bs s = (case em_encoder s of
       None \<Rightarrow> s
     | Some KeyEnc \<Rightarrow> s\<lparr>em_key := AppendEncoding bs (em_key s)\<rparr>
     | Some ValueEnc \<Rightarrow> s\<lparr>em_value := AppendEncoding bs (em_value s)\<rparr>)"

lemma write_enc_sel [simp]:
  "em_encoder (write_enc bs s) = em_encoder s" "em_depth (write_enc bs s) = em_depth s"
  "em_arrays (write_enc bs s) = em_arrays s" "em_in_weight (write_enc bs s) = em_in_weight s"
  "em_table (write_enc bs s) = em_table s" "em_weight (write_enc bs s) = em_weight s"
  by (simp_all add: write_enc_def split: option.split enc_sel.split)

lemma write_enc_update [simp]:
  "em_depth_update f (write_enc bs s) = write_enc bs (em_depth_update f s)"
  "em_arrays_update g (write_enc bs s) = write_enc bs (em_arrays_update g s)"
  by (simp_all add: write_enc_def split: option.split enc_sel.split)

lemma write_enc_append [simp]: "write_enc cs (write_enc bs s) = write_enc (bs @ cs) s"
  by (simp add: write_enc_def AppendEncoding_def split: option.split enc_sel.split)

lemma write_enc_nil [simp]: "write_enc [] s = s"
  by (simp add: write_enc_def AppendEncoding_def split: option.split enc_sel.split)

lemma write_enc_groups [simp]:
  "open_group (write_enc bs s) = open_group s" "in_array (write_enc bs s) = in_array s"
  by (simp_all add: open_group_def in_array_def)

lemma at_encoder_write:
  "em_encoder s \<noteq> None \<Longrightarrow> (\<And>e. f e = Ok (AppendEncoding bs e)) \<Longrightarrow> at_encoder f s = Ok (write_enc bs s)"
  by (auto simp: at_encoder_def write_enc_def split: enc_sel.split)

lemma em_Put_write:
  "open_group s \<Longrightarrow> (\<And>e. g e = Ok (AppendEncoding bs e)) \<Longrightarrow> em_Put f g s = Ok (write_enc bs s)"
  by (simp add: em_Put_def open_group_def at_encoder_write)

lemma Start_End_write:
  "Start K_ARRAY e = Ok (AppendEncoding [of_nat ARRAY_START] e)" "End K_ARRAY e = Ok (AppendEncoding [of_nat ARRAY_END] e)"
  "Start K_MAP e = Ok (AppendEncoding [of_nat MAP_START] e)" "End K_MAP e = Ok (AppendEncoding [of_nat MAP_END] e)"
  "Start K_TUPLE e = Ok (AppendEncoding [of_nat TUPLE_START] e)" "End K_TUPLE e = Ok (AppendEncoding [of_nat TUPLE_END] e)"
  by (simp_all add: Start_def End_def push_back_def AppendEncoding_def)

definition inside :: "'s emitter \<Rightarrow> 's emitter" where
  "inside s = s\<lparr>em_arrays := em_arrays s @ [em_depth s], em_depth := em_depth s + 1\<rparr>"

definition deeper :: "'s emitter \<Rightarrow> 's emitter" where
  "deeper s = s\<lparr>em_depth := em_depth s + 1\<rparr>"

lemma inside_open: "open_group s \<Longrightarrow> open_group (inside s) \<and> in_array (inside s)"
  by (simp add: open_group_def in_array_def inside_def)

lemma deeper_open: "open_group s \<Longrightarrow> open_group (deeper s) \<and> \<not> in_array (deeper s)"
  by (auto simp: open_group_def in_array_def deeper_def)

lemma Begin_array:
  "open_group s \<Longrightarrow> em_Begin W ARRAY n s = Ok (write_enc [of_nat ARRAY_START] (inside s))"
  using at_encoder_write [of s "Start K_ARRAY" "[of_nat ARRAY_START]"]
  by (simp add: em_Begin_def open_group_def Start_End_write inside_def)

lemma Begin_map:
  assumes "open_group s"
  shows "em_Begin W MAP n s = Ok (write_enc (of_nat MAP_START # int_enc (word_of_int n)) (inside s))"
proof -
  have "at_encoder (Start K_MAP) s = Ok (write_enc [of_nat MAP_START] s)"
    using at_encoder_write [of s "Start K_MAP" "[of_nat MAP_START]"] assms
    by (simp add: open_group_def Start_End_write)
  moreover have "at_encoder (\<lambda>e. Ok (PutInt (word_of_int n) e)) s' = Ok (write_enc (int_enc (word_of_int n)) s')"
    if "em_encoder s' \<noteq> None" for s' :: "'a emitter"
    using that by (intro at_encoder_write) (simp_all add: PutInt_eq)
  ultimately show ?thesis using assms
    by (simp add: em_Begin_def open_group_def inside_def)
qed

lemma Begin_tuple:
  "open_group s \<Longrightarrow> em_Begin W TUPLE n s =
    Ok (write_enc (if in_array s then [of_nat TUPLE_START] else []) (deeper s))"
  using at_encoder_write [of s "Start K_TUPLE" "[of_nat TUPLE_START]"]
  by (simp add: em_Begin_def open_group_def Start_End_write deeper_def)

lemma End_array:
  assumes "open_group s" "g = ARRAY \<or> g = MAP"
  shows "em_End W g n (inside s) = Ok (write_enc (if g = ARRAY then [of_nat ARRAY_END] else [of_nat MAP_END]) s)"
proof -
  let ?s = "(inside s)\<lparr>em_depth := em_depth s\<rparr>"
  have "at_encoder (End (if g = ARRAY then K_ARRAY else K_MAP)) ?s =
      Ok (write_enc (if g = ARRAY then [of_nat ARRAY_END] else [of_nat MAP_END]) ?s)"
    using assms by (intro at_encoder_write) (auto simp: open_group_def inside_def Start_End_write)
  then show ?thesis using assms
    by (auto simp: em_End_def open_group_def inside_def)
qed

lemma End_tuple:
  assumes "open_group s"
  shows "em_End W TUPLE n (deeper s) = Ok (write_enc (if in_array s then [of_nat TUPLE_END] else []) s)"
proof -
  have "at_encoder (End K_TUPLE) s = Ok (write_enc [of_nat TUPLE_END] s)"
    using assms by (intro at_encoder_write) (auto simp: open_group_def Start_End_write)
  then show ?thesis using assms
    by (auto simp: em_End_def open_group_def deeper_def)
qed

text \<open>The calls of a value write its bytes and leave everything else as it was.\<close>

abbreviation run :: "host_config \<Rightarrow> 's writer \<Rightarrow> emit_call list \<Rightarrow> 's emitter \<Rightarrow> 's emitter res" where
  "run hc W \<equiv> fold_res (do_call hc W)"

lemma run_append: "run hc W (cs @ ds) s = bind_res (run hc W cs s) (run hc W ds)"
  by (rule fold_res_append)

lemma run_concat:
  assumes "\<And>v s. v \<in> set vs \<Longrightarrow> open_group s \<Longrightarrow> in_array s = b \<Longrightarrow> run hc W (calls v) s = Ok (write_enc (f v) s)"
    and "open_group s" "in_array s = b"
  shows "run hc W (concat (map calls vs)) s = Ok (write_enc (concat (map f vs)) s)"
  using assms by (induction vs arbitrary: s) (simp_all add: run_append)

lemma write_enc_inside:
  "write_enc bs (inside s) = inside (write_enc bs s)" "write_enc bs (deeper s) = deeper (write_enc bs s)"
  by (simp_all add: inside_def deeper_def)

lemma run_group:
  assumes "em_Begin W g n s = Ok (write_enc a (h s))" "open_group (h s)" "in_array (h s) = b"
    and "\<And>bs. write_enc bs (h s) = h (write_enc bs s)"
    and "\<And>bs n. em_End W g n (h (write_enc bs s)) = Ok (write_enc c (write_enc bs s))"
    and "\<And>v s. v \<in> set vs \<Longrightarrow> open_group s \<Longrightarrow> run hc W (calls v) s = Ok (write_enc (pbytes hc v (in_array s)) s)"
  shows "run hc W (CBegin g n # concat (map calls vs) @ [CEnd g m]) s =
    Ok (write_enc (a @ concat (map (\<lambda>v. pbytes hc v b) vs) @ c) s)"
proof -
  have "run hc W (concat (map calls vs)) (write_enc a (h s)) =
      Ok (write_enc (concat (map (\<lambda>v. pbytes hc v b) vs)) (write_enc a (h s)))"
    by (rule run_concat [where b = b]) (use assms(2,3,6) in auto)
  then show ?thesis by (simp add: run_append assms(1)) (simp add: assms(4,5))
qed

lemma run_calls:
  "open_group s \<Longrightarrow> run hc W (calls v) s = Ok (write_enc (pbytes hc v (in_array s)) s)"
proof (induction v arbitrary: s)
  case (PArray vs)
  show ?case
    using run_group [of W ARRAY "int (length vs)" s "[of_nat ARRAY_START]" inside True "[of_nat ARRAY_END]" vs hc] PArray
      inside_open [OF PArray.prems] by (simp add: Begin_array End_array write_enc_inside)
next
  case (PMap vs)
  have "run hc W (CBegin MAP (int (length vs)) # concat (map calls vs) @ [CEnd MAP (int (length vs))]) s =
    Ok (write_enc ((of_nat MAP_START # int_enc (of_nat (length vs))) @
      concat (map (\<lambda>v. pbytes hc v True) vs) @ [of_nat MAP_END]) s)"
    by (rule run_group [where h = inside])
      (use PMap inside_open [OF PMap.prems] in \<open>simp_all add: Begin_map End_array write_enc_inside\<close>)
  then show ?case by simp
next
  case (PTuple vs)
  show ?case
    using run_group [of W TUPLE "int (length vs)" s "if in_array s then [of_nat TUPLE_START] else []" deeper False
        "if in_array s then [of_nat TUPLE_END] else []" vs hc] PTuple
      deeper_open [OF PTuple.prems] by (simp add: Begin_tuple End_tuple write_enc_inside)
qed (simp_all add: em_PutBool_def em_PutBytes_def em_PutInt_def em_PutFloat_def em_PutFingerprint_def
    em_PutString_def em_PutTime_def em_Put_write Put_eqs)

end
