(* ===== verification/Szl_Protocol.thy ===== *)
theory Szl_Protocol
  imports Szl_Emitter
begin

text \<open>
  The bytes an emitter collects from the calls for a value are the encoding of that value under
  its type: what \<open>SzlOps::Encode\<close> of emitvalues/szlvalue.cc writes for the flattened value, so
  that every table and every reader can decode them.
\<close>

section \<open>Values of a type\<close>

function matches :: "szl_type \<Rightarrow> pvalue \<Rightarrow> bool" where
  "matches t v = (case v of
     PBool b \<Rightarrow> ty_kind t = K_BOOL
   | PBytes p \<Rightarrow> ty_kind t = K_BYTES
   | PInt i \<Rightarrow> ty_kind t = K_INT
   | PFloat f \<Rightarrow> ty_kind t = K_FLOAT \<and> f \<noteq> 2 ^ 63
   | PFingerprint fp \<Rightarrow> ty_kind t = K_FINGERPRINT
   | PString s \<Rightarrow> ty_kind t = K_STRING \<and> c_string s
   | PTime x \<Rightarrow> ty_kind t = K_TIME
   | PArray vs \<Rightarrow> ty_kind t = K_ARRAY \<and>
       (case ty_element t of None \<Rightarrow> False | Some el \<Rightarrow> list_all (matches (fd_type el)) vs)
   | PMap vs \<Rightarrow> ty_kind t = K_MAP \<and> even (length vs) \<and> length vs < 2 ^ 31 \<and>
       (case (ty_indices t, ty_element t) of
          ([ix], Some el) \<Rightarrow> list_all (\<lambda>i. matches (fd_type (if even i then ix else el)) (vs ! i)) [0..<length vs]
        | _ \<Rightarrow> False)
   | PTuple vs \<Rightarrow> ty_kind t = K_TUPLE \<and> length (ty_fields t) = length vs \<and>
       list_all (\<lambda>(f, v). matches (fd_type f) v) (zip (ty_fields t) vs))"
  by pat_completeness auto
termination
  by (relation "measure (\<lambda>(t, v). size v)")
    (auto simp: less_Suc_eq_le intro!: size_list_estimation' dest: set_zip_rightD)


declare matches.simps [simp del]

lemmas matches_simps = matches.simps [of t "PBool b" for t b] matches.simps [of t "PBytes b" for t b]
  matches.simps [of t "PInt b" for t b] matches.simps [of t "PFloat b" for t b]
  matches.simps [of t "PFingerprint b" for t b] matches.simps [of t "PString b" for t b]
  matches.simps [of t "PTime b" for t b] matches.simps [of t "PArray vs" for t vs]
  matches.simps [of t "PMap vs" for t vs] matches.simps [of t "PTuple vs" for t vs]

text \<open>The flat values, and the one value, that a protocol value stands for.\<close>

definition box :: "pvalue \<Rightarrow> szl_value list \<Rightarrow> szl_value" where
  "box v xs = (case v of PTuple _ \<Rightarrow> mk_vals xs | _ \<Rightarrow> hd xs)"

fun pflats :: "pvalue \<Rightarrow> szl_value list" where
  "pflats (PBool b) = [VInt (of_bool b)]"
| "pflats (PBytes p) = [mk_buf p]"
| "pflats (PInt i) = [VInt i]"
| "pflats (PFloat f) = [VFloat f]"
| "pflats (PFingerprint fp) = [VInt fp]"
| "pflats (PString s) = [if s = [] then VZero else VBuf (s @ [0])]"
| "pflats (PTime t) = [VInt t]"
| "pflats (PArray vs) = [mk_vals (map (\<lambda>v. box v (pflats v)) vs)]"
| "pflats (PMap vs) = [mk_vals (map (\<lambda>v. box v (pflats v)) vs)]"
| "pflats (PTuple vs) = concat (map pflats vs)"

definition pval :: "pvalue \<Rightarrow> szl_value" where
  "pval v = box v (pflats v)"

lemma pval_simps [simp]:
  "pval (PBool b) = VInt (of_bool b)" "pval (PBytes p) = mk_buf p" "pval (PInt i) = VInt i"
  "pval (PFloat f) = VFloat f" "pval (PFingerprint fp) = VInt fp"
  "pval (PString s) = (if s = [] then VZero else VBuf (s @ [0]))" "pval (PTime t) = VInt t"
  "pval (PArray vs) = mk_vals (map pval vs)" "pval (PMap vs) = mk_vals (map pval vs)"
  "pval (PTuple vs) = mk_vals (concat (map pflats vs))"
  by (simp_all add: pval_def box_def cong: map_cong)

lemma pflats_single: "(\<And>vs. v \<noteq> PTuple vs) \<Longrightarrow> pflats v = [pval v]"
  by (cases v) (auto simp: pval_def box_def simp del: pval_simps)

lemma pbytes_unmarked: "(\<And>vs. v \<noteq> PTuple vs) \<Longrightarrow> pbytes hc v m = pbytes hc v m'"
  by (cases v) auto


section \<open>Both encoders agree\<close>

definition writes :: "(szl_encoder \<Rightarrow> szl_encoder res) \<Rightarrow> bytes \<Rightarrow> bool" where
  "writes m bs \<longleftrightarrow> (\<forall>e. m e = Ok (AppendEncoding bs e))"

lemma writesD: "writes m bs \<Longrightarrow> m e = Ok (AppendEncoding bs e)"
  by (simp add: writes_def)

lemma writes_seq:
  assumes "\<And>x. x \<in> set xs \<Longrightarrow> writes (f x) (g x)"
  shows "writes (fold_res f xs) (concat (map g xs))"
  using assms by (induction xs) (simp_all add: writes_def AppendEncoding_append)

definition flats_write :: "host_config \<Rightarrow> szl_flat list \<Rightarrow> szl_value list \<Rightarrow> bytes \<Rightarrow> bool" where
  "flats_write hc fl xs bs \<longleftrightarrow> length fl = length xs \<and> (\<forall>(f, x) \<in> set (zip fl xs). canon_flat f x) \<and>
     writes (fold_res (\<lambda>(f, v) e. Encode_flat hc f v e) (zip fl xs)) bs"

lemma flats_write_append:
  assumes "flats_write hc fl xs bs" "flats_write hc fl' xs' bs'"
  shows "flats_write hc (fl @ fl') (xs @ xs') (bs @ bs')"
  using assms by (auto simp: flats_write_def writes_def fold_res_append AppendEncoding_append)

lemma flats_write_one: "canon_flat f x \<Longrightarrow> writes (Encode_flat hc f x) bs \<Longrightarrow> flats_write hc [f] [x] bs"
  by (simp add: flats_write_def writes_def)

lemma base_write:
  assumes "BaseKind (ty_kind t)" "matches t v"
  shows "canon_base (ty_kind t) (pval v)" "writes (SzlOpsDoEncode hc (ty_kind t) (pval v)) (pbytes hc v m)"
    "pflats v = [pval v]"
proof -
  show "canon_base (ty_kind t) (pval v)" "pflats v = [pval v]"
    using assms by (cases v; auto simp: matches_simps canon_base_def mk_buf_def)+
  show "writes (SzlOpsDoEncode hc (ty_kind t) (pval v)) (pbytes hc v m)"
    using assms by (cases v) (auto simp: matches_simps writes_def SzlOpsDoEncode_def mk_buf_def Put_eqs)
qed

text \<open>One element of an array or a map.\<close>

definition elem_flat :: "registry \<Rightarrow> szl_type \<Rightarrow> szl_flat res" where
  "elem_flat reg t = bind_res (if BaseType reg t then Ok None
     else bind_res (new_ops reg t) (\<lambda>p. Ok (Some p))) (\<lambda>x. Ok (flat_of (ty_kind t) x))"

lemma elem_write:
  assumes g: "good_field reg t" and "matches t v" and "elem_flat reg t = Ok f"
    and IH: "\<And>p. \<not> BaseType reg t \<Longrightarrow> new_ops reg t = Ok p \<Longrightarrow>
      canon p (pval v) \<and> (\<forall>lev. writes (EncodeInternal hc p (pval v) lev) (pbytes hc v (\<not> lev)))"
  shows "canon_flat f (pval v) \<and> writes (Encode_flat hc f (pval v)) (pbytes hc v True)"
proof (cases "BaseType reg t")
  case True
  then have "f = Flat (ty_kind t)" "BaseKind (ty_kind t)"
    using assms(3) good_field_kinds(1) [OF g] by (auto simp: elem_flat_def flat_of_def)
  then show ?thesis using base_write [OF _ assms(2)] by (simp add: writes_def)
next
  case False
  then obtain p where "new_ops reg t = Ok p" "f = FlatOps (ty_kind t) p"
    using assms(3) by (auto simp: elem_flat_def bind_res_eq_Ok flat_of_def)
  moreover from this(1) have "canon p (pval v)" "writes (EncodeInternal hc p (pval v) False) (pbytes hc v (\<not> False))"
    using IH [OF False] by blast+
  ultimately show ?thesis by (simp add: writes_def)
qed

lemma elems_write:
  assumes "fl \<noteq> []" "\<And>i. i < length vs \<Longrightarrow> canon_flat (fl ! (i mod length fl)) (pval (vs ! i)) \<and>
      writes (Encode_flat hc (fl ! (i mod length fl)) (pval (vs ! i))) (pbytes hc (vs ! i) True)"
  shows "writes (fold_res (\<lambda>(f, v) e. Encode_flat hc f v e) (zip_flats fl (map pval vs)))
      (concat (map (\<lambda>v. pbytes hc v True) vs))"
    and "\<forall>(f, x) \<in> set (zip_flats fl (map pval vs)). canon_flat f x"
proof -
  have z: "zip_flats fl (map pval vs) = map (\<lambda>i. (fl ! (i mod length fl), pval (vs ! i))) [0..<length vs]"
    using assms(1) by (simp add: zip_flats_def)
  have "concat (map (\<lambda>i. pbytes hc (vs ! i) True) [0..<length vs]) = concat (map (\<lambda>v. pbytes hc v True) vs)"
    using arg_cong [OF map_nth [of vs], of "\<lambda>xs. concat (map (\<lambda>v. pbytes hc v True) xs)"]
    by (simp add: comp_def)
  moreover have "writes (fold_res (\<lambda>i. Encode_flat hc (fl ! (i mod length fl)) (pval (vs ! i))) [0..<length vs])
      (concat (map (\<lambda>i. pbytes hc (vs ! i) True) [0..<length vs]))"
    by (rule writes_seq) (use assms(2) in simp)
  ultimately show "writes (fold_res (\<lambda>(f, v) e. Encode_flat hc f v e) (zip_flats fl (map pval vs)))
      (concat (map (\<lambda>v. pbytes hc v True) vs))"
    unfolding z by (simp add: writes_def fold_res_map)
  show "\<forall>(f, x) \<in> set (zip_flats fl (map pval vs)). canon_flat f x"
    using assms(2) by (auto simp: z)
qed

lemma get_mk_vals [simp]: "get_vals (mk_vals xs) = Ok xs"
  by (simp add: mk_vals_def)

lemma array_write:
  assumes "ty_kind t = K_ARRAY"
    and "\<And>v. v \<in> set vs \<Longrightarrow> canon_flat f (pval v) \<and> writes (Encode_flat hc f (pval v)) (pbytes hc v True)"
  shows "canon (SzlOps t [f]) (pval (PArray vs)) \<and>
    writes (EncodeInternal hc (SzlOps t [f]) (pval (PArray vs)) lev) (pbytes hc (PArray vs) m)"
  using elems_write [of "[f]" vs hc] assms
  by (auto simp: writes_def EncodeInternal.simps canon.simps mk_vals_def Let_def Start_End_write AppendEncoding_append)

lemma map_write:
  assumes "ty_kind t = K_MAP" "even (length vs)" "length vs < 2 ^ 31"
    and "\<And>i. i < length vs \<Longrightarrow> canon_flat (if even i then f else g) (pval (vs ! i)) \<and>
      writes (Encode_flat hc (if even i then f else g) (pval (vs ! i))) (pbytes hc (vs ! i) True)"
  shows "canon (SzlOps t [f, g]) (pval (PMap vs)) \<and>
    writes (EncodeInternal hc (SzlOps t [f, g]) (pval (PMap vs)) lev) (pbytes hc (PMap vs) m)"
proof -
  have "[f, g] ! (i mod 2) = (if even i then f else g)" for i :: nat
    by (cases "even i") (auto simp: odd_iff_mod_2_eq_one even_iff_mod_2_eq_zero)
  then show ?thesis using elems_write [of "[f, g]" vs hc] assms
    by (auto simp: writes_def EncodeInternal.simps canon.simps mk_vals_def Let_def Start_End_write
        AppendEncoding_append PutInt_eq numeral_2_eq_2)
qed

lemma tuple_write:
  assumes "ty_kind t = K_TUPLE"
    and "flats_write hc fl (concat (map pflats vs)) (concat (map (\<lambda>v. pbytes hc v False) vs))"
  shows "canon (SzlOps t fl) (pval (PTuple vs)) \<and>
    writes (EncodeInternal hc (SzlOps t fl) (pval (PTuple vs)) lev) (pbytes hc (PTuple vs) (\<not> lev))"
proof (cases "concat (map pflats vs) = []")
  case True
  have "flats_write hc fl [] (concat (map (\<lambda>v. pbytes hc v False) vs))" using assms(2) by (simp only: True)
  then have "fl = []" "AppendEncoding (concat (map (\<lambda>v. pbytes hc v False) vs)) new_encoder = new_encoder"
    by (auto simp: flats_write_def writes_def)
  then have "fl = []" "concat (map (\<lambda>v. pbytes hc v False) vs) = []"
    by (auto dest: arg_cong [of _ _ enc_data])
  then show ?thesis using assms(1) True
    by (simp add: writes_def EncodeInternal.simps canon.simps mk_vals_def Start_End_write AppendEncoding_append)
next
  case False
  then show ?thesis using assms zip_flats_exact [of "concat (map pflats vs)" fl]
    by (auto simp: flats_write_def writes_def EncodeInternal.simps canon.simps mk_vals_def Start_End_write
        AppendEncoding_append)
qed

text \<open>The type decides the flat values: both passes over a type at once.\<close>

lemma new_ops_cases:
  assumes "good_field reg (SzlType k tb pm w fs ixs el wt)"
    and "new_ops reg (SzlType k tb pm w fs ixs el wt) = Ok p"
  obtains (map_type) kl kt l et f g where "k = K_MAP" "ixs = [SzlField kl kt]" "el = Some (SzlField l et)"
      "good_field reg kt" "good_field reg et" "elem_flat reg kt = Ok f" "elem_flat reg et = Ok g"
      "p = SzlOps (SzlType k tb pm w fs ixs el wt) [f, g]"
    | (array_type) l et f where "k = K_ARRAY" "el = Some (SzlField l et)" "good_field reg et"
      "elem_flat reg et = Ok f" "p = SzlOps (SzlType k tb pm w fs ixs el wt) [f]"
    | (other_type) c fl where "k \<noteq> K_MAP" "k \<noteq> K_ARRAY"
      "SzlFlattenKinds reg c (SzlType k tb pm w fs ixs el wt) = Ok fl"
      "p = SzlOps (SzlType k tb pm w fs ixs el wt) fl"
proof -
  consider "k = K_MAP" | "k = K_ARRAY" | "k \<noteq> K_MAP" "k \<noteq> K_ARRAY" by blast
  then show thesis
  proof cases
    case 1
    then obtain kl kt l et where e: "ixs = [SzlField kl kt]" "el = Some (SzlField l et)"
      "good_field reg kt" "good_field reg et" using good_map assms(1) by blast
    then obtain x y where "(if BaseType reg kt then Ok None else bind_res (new_ops reg kt) (\<lambda>p. Ok (Some p))) = Ok x"
      "(if BaseType reg et then Ok None else bind_res (new_ops reg et) (\<lambda>p. Ok (Some p))) = Ok y"
      "p = SzlOps (SzlType k tb pm w fs ixs el wt) [flat_of (ty_kind kt) x, flat_of (ty_kind et) y]"
      using assms(2) 1 by (auto simp: new_ops.simps bind_res_eq_Ok)
    then show thesis using map_type [OF 1 e] by (simp add: elem_flat_def)
  next
    case 2
    then obtain l et where e: "el = Some (SzlField l et)" "good_field reg et" using good_array assms(1) by blast
    then obtain x where "(if BaseType reg et then Ok None else bind_res (new_ops reg et) (\<lambda>p. Ok (Some p))) = Ok x"
      "p = SzlOps (SzlType k tb pm w fs ixs el wt) [flat_of (ty_kind et) x]"
      using assms(2) 2 by (auto simp: new_ops.simps bind_res_eq_Ok)
    then show thesis using array_type [OF 2 e] by (simp add: elem_flat_def)
  next
    case 3
    then show thesis using other_type assms(2)
      by (auto simp: new_ops.simps bind_res_eq_Ok Let_def)
  qed
qed

lemma ops_encode:
  shows "good_field reg t \<Longrightarrow> new_ops reg t = Ok p \<Longrightarrow> matches t v \<Longrightarrow>
      canon p (pval v) \<and> (\<forall>lev. writes (EncodeInternal hc p (pval v) lev) (pbytes hc v (\<not> lev)))"
    and "good_field reg t \<Longrightarrow> SzlFlattenKinds reg b t = Ok fl \<Longrightarrow> matches t v \<Longrightarrow>
      flats_write hc fl (pflats v) (pbytes hc v False)"
    and "(\<forall>f \<in> set fs. good_field reg (fd_type f)) \<Longrightarrow> SzlFlattenKinds_fields reg b fs = Ok fl \<Longrightarrow>
      length fs = length vs \<Longrightarrow> list_all (\<lambda>(f, v). matches (fd_type f) v) (zip fs vs) \<Longrightarrow>
      flats_write hc fl (concat (map pflats vs)) (concat (map (\<lambda>v. pbytes hc v False) vs))"
proof (induction reg t and reg b t and reg b fs arbitrary: p v and fl v and fl vs
    rule: new_ops_SzlFlattenKinds_SzlFlattenKinds_fields.induct)
  case (1 reg k tb pm w fs ixs el wt)
  let ?t = "SzlType k tb pm w fs ixs el wt"
  from 1(5,6) show ?case
  proof (cases rule: new_ops_cases)
    case (map_type kl kt l et f g)
    obtain vs where v: "v = PMap vs" "even (length vs)" "length vs < 2 ^ 31"
        "list_all (\<lambda>i. matches (fd_type (if even i then SzlField kl kt else SzlField l et)) (vs ! i)) [0..<length vs]"
      using 1(7) map_type(1-3) by (cases v) (auto simp: matches_simps)
    have m: "matches (if even i then kt else et) (vs ! i)" if "i < length vs" for i
    proof -
      have "matches (fd_type (if even i then SzlField kl kt else SzlField l et)) (vs ! i)"
        using v(4) that by (simp only: list_all_iff) simp
      then show ?thesis by (cases "even i") simp_all
    qed
    have IHf: "canon p (pval v) \<and> (\<forall>lev. writes (EncodeInternal hc p (pval v) lev) (pbytes hc v (\<not> lev)))"
      if "\<not> BaseType reg kt" "new_ops reg kt = Ok p" "matches kt v" for p v
      using that map_type(1-4) by (intro 1(1)) auto
    have IHg: "canon p (pval v) \<and> (\<forall>lev. writes (EncodeInternal hc p (pval v) lev) (pbytes hc v (\<not> lev)))"
      if "\<not> BaseType reg et" "new_ops reg et = Ok p" "matches et v" for p v
      using that map_type(1-5) by (intro 1(2)) auto
    have "canon_flat f (pval v) \<and> writes (Encode_flat hc f (pval v)) (pbytes hc v True)" if "matches kt v" for v
      using map_type(4) that map_type(6)
      by (rule elem_write) (rule IHf [OF _ _ that])
    moreover have "canon_flat g (pval v) \<and> writes (Encode_flat hc g (pval v)) (pbytes hc v True)" if "matches et v" for v
      using map_type(5) that map_type(7)
      by (rule elem_write) (rule IHg [OF _ _ that])
    ultimately have e: "canon_flat (if even i then f else g) (pval (vs ! i)) \<and>
        writes (Encode_flat hc (if even i then f else g) (pval (vs ! i))) (pbytes hc (vs ! i) True)"
      if "i < length vs" for i using m [OF that] by (cases "even i") simp_all
    have "canon p (pval v) \<and> writes (EncodeInternal hc p (pval v) lev) (pbytes hc v (\<not> lev))" for lev
      unfolding map_type(8) v(1)
      using map_write [of ?t vs f g hc lev "\<not> lev"] map_type(1) v(2,3) e by (simp del: pval_simps pbytes.simps)
    then show ?thesis by blast
  next
    case (array_type l et f)
    obtain vs where v: "v = PArray vs" "\<And>v. v \<in> set vs \<Longrightarrow> matches et v"
      using 1(7) array_type(1,2) by (cases v) (auto simp: matches_simps list_all_iff)
    have IH: "canon p (pval v) \<and> (\<forall>lev. writes (EncodeInternal hc p (pval v) lev) (pbytes hc v (\<not> lev)))"
      if "\<not> BaseType reg et" "new_ops reg et = Ok p" "matches et v" for p v
      using that array_type(1-3) by (intro 1(3)) auto
    have "canon_flat f (pval v) \<and> writes (Encode_flat hc f (pval v)) (pbytes hc v True)" if "matches et v" for v
      using array_type(3) that array_type(4)
      by (rule elem_write) (rule IH [OF _ _ that])
    then have "canon p (pval v) \<and> writes (EncodeInternal hc p (pval v) lev) (pbytes hc v (\<not> lev))" for lev
      unfolding array_type(5) v(1) by (intro array_write) (use array_type(1) v(2) in simp_all)
    then show ?thesis by blast
  next
    case (other_type c fl)
    obtain n c' where n: "SzlFlattenedVals reg 0 ?t = Ok (n, c')" "SzlFlattenKinds reg c' ?t = Ok fl"
      using 1(6) other_type by (auto simp: new_ops.simps bind_res_eq_Ok Let_def)
    have fw: "flats_write hc fl (pflats v) (pbytes hc v False)"
      using 1(4) [OF refl other_type(1,2) 1(5) n(2) 1(7)] by simp
    consider "BaseKind k" | "k = K_TUPLE"
      using good_field_kinds(2) [OF 1(5)] other_type(1,2) by (auto simp: is_composite_def)
    then show ?thesis
    proof cases
      case b: 1
      then have "fl = [Flat k]" using other_type(3) good_field_kinds(1) [OF 1(5)] by simp
      then show ?thesis using b base_write [OF _ 1(7)] kind_distinct [OF b]
        unfolding other_type(4) by (simp add: canon.simps EncodeInternal.simps Let_def writes_def)
    next
      case k: 2
      then obtain vs where v: "v = PTuple vs" using 1(7) by (cases v) (auto simp: matches_simps)
      then show ?thesis using tuple_write [of ?t hc fl vs] k fw unfolding other_type(4) by simp
    qed
  qed
next
  case (2 reg b k tb pm w fs ixs el wt)
  let ?t = "SzlType k tb pm w fs ixs el wt"
  consider "BaseKind k" | "k = K_MAP \<or> k = K_ARRAY" | "k = K_TUPLE"
    using good_field_kinds(2) [OF 2(3)] by (auto simp: is_composite_def)
  then show ?case
  proof cases
    case b: 1
    then have "fl = [Flat k]" using 2(4) good_field_kinds(1) [OF 2(3)] by simp
    then show ?thesis using b base_write [OF _ 2(5)] by (simp add: flats_write_one writes_def)
  next
    case k: 2
    then have nb: "\<not> BaseType reg ?t" using good_field_kinds(1) [OF 2(3)] by auto
    then obtain p where p: "new_ops reg ?t = Ok p" "fl = [FlatOps k p]"
      using 2(4) k by (auto simp: bind_res_eq_Ok)
    have t: "v \<noteq> PTuple vs" for vs using k 2(5) by (auto simp: matches_simps)
    then have "flats_write hc [FlatOps k p] [pval v] (pbytes hc v True)"
      using 2(1) [OF refl nb k 2(3) p(1) 2(5)] by (intro flats_write_one) (simp_all add: writes_def)
    then show ?thesis using pflats_single [OF t] p(2) pbytes_unmarked [OF t, of hc True False] by simp
  next
    case k: 3
    then have nb: "\<not> BaseType reg ?t" using good_field_kinds(1) [OF 2(3)] by auto
    obtain vs where v: "v = PTuple vs" "length fs = length vs" "list_all (\<lambda>(f, v). matches (fd_type f) v) (zip fs vs)"
      using 2(5) k by (cases v) (auto simp: matches_simps)
    have "\<forall>f \<in> set fs. good_field reg (fd_type f)" using good_tuple 2(3) k by blast
    from 2(2) [OF refl nb _ k this _ v(2,3)] show ?thesis using 2(4) nb k v(1) by simp
  qed
next
  case (3 reg b)
  then show ?case by (simp add: flats_write_def writes_def)
next
  case (4 reg b l t fs)
  obtain u us where vs: "vs = u # us" using 4(5) by (cases vs) auto
  obtain a c where ac: "SzlFlattenKinds reg b t = Ok a" "SzlFlattenKinds_fields reg b fs = Ok c" "fl = a @ c"
    using 4(4) by (auto simp: bind_res_eq_Ok)
  have "flats_write hc a (pflats u) (pbytes hc u False)"
    by (rule 4(1) [OF _ ac(1)]) (use 4(3,6) vs in simp_all)
  moreover have "flats_write hc c (concat (map pflats us)) (concat (map (\<lambda>v. pbytes hc v False) us))"
    by (rule 4(2) [OF _ ac(2)]) (use 4(3,5,6) vs in simp_all)
  ultimately show ?case unfolding vs ac(3) by (simp add: flats_write_append)
qed

lemma protocol_encodes:
  assumes "good_field reg t" "new_ops reg t = Ok p" "matches t v"
  shows "encodes hc p (pval v) (pbytes hc v False)"
proof -
  have e: "canon p (pval v)" "writes (EncodeInternal hc p (pval v) True) (pbytes hc v (\<not> True))"
    using ops_encode(1) [OF assms] by blast+
  have wf: "wf_ops p" using new_ops_total(1) [OF assms(1)] assms(2) by auto
  obtain e where ex: "encodes hc p (pval v) e" using encodes_exists [OF wf e(1)] by blast
  then have "AppendEncoding e new_encoder = AppendEncoding (pbytes hc v False) new_encoder"
    using encodesD(1) [OF ex, of new_encoder] e(2) by (simp add: Encode_def writes_def)
  then have "enc_data (AppendEncoding e new_encoder) = enc_data (AppendEncoding (pbytes hc v False) new_encoder)" by simp
  then have "e = pbytes hc v False" by simp
  then show ?thesis using ex by simp
qed

section \<open>Weights\<close>

text \<open>Weights are basic values or tuples of them; their calls write the flat values in order.\<close>

fun leaves :: "pvalue \<Rightarrow> pvalue list" where
  "leaves (PTuple vs) = concat (map leaves vs)"
| "leaves v = [v]"

fun leaf_kind :: "pvalue \<Rightarrow> szl_kind" where
  "leaf_kind (PBool b) = K_BOOL"
| "leaf_kind (PBytes p) = K_BYTES"
| "leaf_kind (PInt i) = K_INT"
| "leaf_kind (PFloat f) = K_FLOAT"
| "leaf_kind (PFingerprint fp) = K_FINGERPRINT"
| "leaf_kind (PString s) = K_STRING"
| "leaf_kind (PTime t) = K_TIME"
| "leaf_kind (PArray vs) = K_ARRAY"
| "leaf_kind (PMap vs) = K_MAP"
| "leaf_kind (PTuple vs) = K_TUPLE"

definition simple_leaf :: "pvalue \<Rightarrow> bool" where
  "simple_leaf v \<longleftrightarrow> BaseKind (leaf_kind v)"

definition simple :: "pvalue \<Rightarrow> bool" where
  "simple v \<longleftrightarrow> list_all simple_leaf (leaves v)"

lemma leaves_tuple: "leaves (PTuple vs) = concat (map leaves vs)" by simp

lemma pflats_leaves: "simple v \<Longrightarrow> pflats v = map pval (leaves v)"
proof (induction v)
  case (PTuple vs)
  then have "\<And>v. v \<in> set vs \<Longrightarrow> pflats v = map pval (leaves v)"
    by (auto simp: simple_def list_all_iff)
  then show ?case by (simp add: map_concat comp_def cong: map_cong)
qed (simp_all add: simple_def simple_leaf_def)

definition put_leaf :: "szl_ops \<Rightarrow> pvalue \<Rightarrow> nat \<Rightarrow> szl_value \<Rightarrow> szl_value res" where
  "put_leaf p v = (case v of
     PBool b \<Rightarrow> ops_PutBool p b | PBytes s \<Rightarrow> ops_PutBytes p s | PInt i \<Rightarrow> ops_PutInt p i
   | PFloat f \<Rightarrow> ops_PutFloat p f | PFingerprint fp \<Rightarrow> ops_PutFingerprint p fp
   | PString s \<Rightarrow> ops_PutString p s | PTime t \<Rightarrow> ops_PutTime p t | _ \<Rightarrow> (\<lambda>_ _. Inl Bad_union))"

fun put_leaves :: "szl_ops \<Rightarrow> pvalue list \<Rightarrow> nat \<Rightarrow> szl_value \<Rightarrow> szl_value res" where
  "put_leaves p [] i d = Ok d"
| "put_leaves p (v # vs) i d = bind_res (put_leaf p v i d) (put_leaves p vs (i + 1))"

lemma put_leaves_append:
  "put_leaves p (us @ vs) i d = bind_res (put_leaves p us i d) (put_leaves p vs (i + length us))"
  by (induction us arbitrary: i d) (simp_all add: bind_res_def split: sum.split)

definition in_weight :: "'s emitter \<Rightarrow> bool" where
  "in_weight s \<longleftrightarrow> em_encoder s = None \<and> em_in_weight s \<and> em_depth s > 0 \<and> em_arrays s = []"

abbreviation weight_ops :: "'s writer \<Rightarrow> szl_ops" where
  "weight_ops W \<equiv> tw_weight_ops (w_tab W)"

lemma run_weight_leaf:
  assumes "in_weight s" "simple_leaf v" "em_weight_pos s = int i"
  shows "run hc W (calls v) s = bind_res (put_leaf (weight_ops W) v i (em_weight s))
    (\<lambda>w. Ok (s\<lparr>em_weight := w, em_weight_pos := int (i + 1)\<rparr>))"
  using assms by (cases v)
    (simp_all add: em_PutBool_def em_PutBytes_def em_PutInt_def em_PutFloat_def em_PutFingerprint_def
      em_PutString_def em_PutTime_def em_Put_def in_weight_def put_leaf_def simple_leaf_def bind_res_def split: sum.split)

lemma run_weight_single:
  assumes "in_weight s" "simple v" "em_weight_pos s = int i" "leaves v = [v]"
  shows "run hc W (calls v) s = bind_res (put_leaves (weight_ops W) (leaves v) i (em_weight s))
    (\<lambda>w. Ok (s\<lparr>em_weight := w, em_weight_pos := int (i + length (leaves v))\<rparr>))"
  using run_weight_leaf [OF assms(1) _ assms(3)] assms(2,4)
  by (simp add: simple_def bind_res_def split: sum.split)

lemma run_weight:
  assumes "in_weight s" "simple v" "em_weight_pos s = int i"
  shows "run hc W (calls v) s = bind_res (put_leaves (weight_ops W) (leaves v) i (em_weight s))
    (\<lambda>w. Ok (s\<lparr>em_weight := w, em_weight_pos := int (i + length (leaves v))\<rparr>))"
  using assms
proof (induction v arbitrary: s i)
  case (PTuple vs)
  have seq: "run hc W (concat (map calls us)) s = bind_res (put_leaves (weight_ops W) (concat (map leaves us)) i (em_weight s))
      (\<lambda>w. Ok (s\<lparr>em_weight := w, em_weight_pos := int (i + length (concat (map leaves us)))\<rparr>))"
    if "set us \<subseteq> set vs" "in_weight s" "em_weight_pos s = int i" for us s i
    using that
  proof (induction us arbitrary: s i)
    case (Cons u us)
    have "simple u" using PTuple.prems(2) Cons.prems(1) by (auto simp: simple_def list_all_iff)
    then have u: "run hc W (calls u) s = bind_res (put_leaves (weight_ops W) (leaves u) i (em_weight s))
      (\<lambda>w. Ok (s\<lparr>em_weight := w, em_weight_pos := int (i + length (leaves u))\<rparr>))"
      using PTuple.IH Cons.prems by auto
    show ?case
    proof (cases "put_leaves (weight_ops W) (leaves u) i (em_weight s)")
      case (Inr w)
      let ?s = "s\<lparr>em_weight := w, em_weight_pos := int (i + length (leaves u))\<rparr>"
      have "in_weight ?s" using Cons.prems(2) by (simp add: in_weight_def)
      then show ?thesis using u Inr Cons.IH [of ?s "i + length (leaves u)"] Cons.prems(1)
        by (simp add: run_append put_leaves_append add_ac)
    qed (use u in \<open>simp add: run_append put_leaves_append\<close>)
  qed simp
  have b: "em_Begin W TUPLE n s = Ok (deeper s)" for n
    using PTuple.prems(1) by (simp add: em_Begin_def in_weight_def in_array_def deeper_def)
  have "in_weight (deeper s)" "em_weight_pos (deeper s) = int i" "em_weight (deeper s) = em_weight s"
    using PTuple.prems by (simp_all add: in_weight_def deeper_def)
  from seq [OF subset_refl this(1,2)]
  show ?case using PTuple.prems b
    by (auto simp: run_append em_End_def in_weight_def in_array_def deeper_def bind_res_def split: sum.split)
qed (rule run_weight_single; simp)+


definition leaf_upd :: "pvalue \<Rightarrow> szl_value \<Rightarrow> szl_value res" where
  "leaf_upd v = (case v of
     PBytes s \<Rightarrow> ReplaceSzlValueBuf s
   | PString s \<Rightarrow> if s = [] then (\<lambda>x. bind_res (get_buf x) (\<lambda>_. Ok VZero)) else ReplaceSzlValueBuf (s @ [0])
   | _ \<Rightarrow> (\<lambda>_. Ok (pval v)))"

lemma put_leaf_upd: "simple_leaf v \<Longrightarrow> put_leaf p v i d = SzlFlatValueAt p i (leaf_kind v) (leaf_upd v) d"
  by (cases v) (simp_all add: put_leaf_def leaf_upd_def simple_leaf_def ops_PutBool_def ops_PutBytes_def ops_PutInt_def
      ops_PutFloat_def ops_PutFingerprint_def ops_PutString_def ops_PutTime_def)

text \<open>A slot of the weight can take a value of its kind: a buffer replaces a buffer.\<close>

definition slot_ok :: "szl_kind \<Rightarrow> szl_value \<Rightarrow> bool" where
  "slot_ok k x \<longleftrightarrow> k = K_STRING \<or> k = K_BYTES \<longrightarrow> (\<exists>b. get_buf x = Ok b)"

lemma leaf_upd_slot: "simple_leaf v \<Longrightarrow> slot_ok (leaf_kind v) x \<Longrightarrow> leaf_upd v x = Ok (pval v)"
  by (cases v) (auto simp: leaf_upd_def simple_leaf_def ReplaceSzlValueBuf_def mk_buf_def slot_ok_def)

lemma slot_zero [simp]: "slot_ok k VZero"
  by (simp add: slot_ok_def)

lemma slot_pval: "simple_leaf v \<Longrightarrow> slot_ok (leaf_kind v) (pval v)"
  by (cases v) (auto simp: slot_ok_def mk_buf_def simple_leaf_def)

abbreviation leaf_flats :: "pvalue list \<Rightarrow> szl_flat list" where
  "leaf_flats vs \<equiv> map (\<lambda>v. Flat (leaf_kind v)) vs"

lemma put_leaves_tuple:
  assumes "ty_kind t = K_TUPLE" "list_all simple_leaf vs" "drop i fl = leaf_flats vs" "i \<le> length fl"
    and "list_all2 (\<lambda>f. slot_ok (flat_kind f)) fl xs"
  shows "put_leaves (SzlOps t fl) vs i (VVals xs) = Ok (VVals (take i xs @ map pval vs))"
  using assms(2-5)
proof (induction vs arbitrary: i xs)
  case (Cons v vs)
  have i: "i < length fl" using Cons.prems(2) by (cases "i < length fl") simp_all
  then have f: "fl ! i = Flat (leaf_kind v)" "drop (i + 1) fl = leaf_flats vs"
    using Cons.prems(2) by (simp_all add: Cons_nth_drop_Suc [symmetric])
  have len: "length xs = length fl" using Cons.prems(4) by (simp add: list_all2_lengthD)
  have x: "slot_ok (leaf_kind v) (xs ! i)" using list_all2_nthD [OF Cons.prems(4) i] f(1) by simp
  have "put_leaf (SzlOps t fl) v i (VVals xs) = Ok (VVals (xs[i := pval v]))"
    using i len f(1) Cons.prems(1) leaf_upd_slot [OF _ x] assms(1) by (auto simp: put_leaf_upd)
  moreover have "list_all2 (\<lambda>f. slot_ok (flat_kind f)) fl (xs[i := pval v])"
    using list_all2_update_cong [OF Cons.prems(4), of "fl ! i" "pval v" i] f(1) slot_pval Cons.prems(1)
      list_update_id [of fl i] by simp
  ultimately show ?case
    using Cons.IH [of "i + 1" "xs[i := pval v]"] Cons.prems(1) f(2) i len
    by (simp add: take_Suc_conv_app_nth)
qed (simp add: list_all2_lengthD)

text \<open>The kinds of the flat values of a simple value.\<close>

lemma base_flats:
  "good_field reg t \<Longrightarrow> BaseKind (ty_kind t) \<Longrightarrow> SzlFlattenKinds reg b t = Ok fl \<Longrightarrow> fl = [Flat (ty_kind t)]"
  using good_field_kinds(1) [of reg t] by (cases t) auto

lemma simple_flats:
  "good_field reg t \<Longrightarrow> SzlFlattenKinds reg b t = Ok fl \<Longrightarrow> matches t v \<Longrightarrow> simple v \<Longrightarrow> fl = leaf_flats (leaves v)"
proof (induction v arbitrary: t fl)
  case (PTuple vs)
  obtain k tb pm w fs ixs el wt where t: "t = SzlType k tb pm w fs ixs el wt" by (cases t)
  have k: "k = K_TUPLE" "length fs = length vs" "list_all (\<lambda>(f, v). matches (fd_type f) v) (zip fs vs)"
    using PTuple.prems(3) t by (auto simp: matches_simps)
  have nb: "\<not> BaseType reg t" using good_field_kinds(1) [OF PTuple.prems(1)] t k(1) by simp
  have good: "\<forall>f \<in> set fs. good_field reg (fd_type f)" using good_tuple PTuple.prems(1) t k(1) by blast
  have "SzlFlattenKinds_fields reg b fs = Ok fl" using PTuple.prems(2) nb t k(1) by simp
  moreover have "simple v" if "v \<in> set vs" for v using PTuple.prems(4) that by (auto simp: simple_def list_all_iff)
  ultimately have "fl = leaf_flats (concat (map leaves vs))"
    using k(2,3) good PTuple.IH
  proof (induction fs vs arbitrary: fl rule: list_induct2')
    case (4 f fs v vs)
    obtain a c where ac: "SzlFlattenKinds reg b (fd_type f) = Ok a" "SzlFlattenKinds_fields reg b fs = Ok c" "fl = a @ c"
      using 4(2) by (cases f) (auto simp: bind_res_eq_Ok)
    have "a = leaf_flats (leaves v)" by (rule 4(7) [of v "fd_type f"]) (use 4(3-6) ac(1) in simp_all)
    moreover have "c = leaf_flats (concat (map leaves vs))" using 4 ac(2) by simp
    ultimately show ?case using ac(3) by simp
  qed simp_all
  then show ?case by simp
qed (auto simp: matches_simps simple_def simple_leaf_def dest!: base_flats)

definition weight_ok :: "szl_ops \<Rightarrow> szl_value \<Rightarrow> bool" where
  "weight_ok p d \<longleftrightarrow> (if ty_kind (ops_type p) = K_TUPLE
     then d = VZero \<or> (\<exists>xs. d = VVals xs \<and> list_all2 (\<lambda>f. slot_ok (flat_kind f)) (ops_flats p) xs)
     else slot_ok (ty_kind (ops_type p)) d)"

lemma weight_zero [simp]: "weight_ok p VZero"
  by (simp add: weight_ok_def)

lemma weight_flats:
  assumes g: "good_field reg t" and p: "new_ops reg t = Ok p" and m: "matches t w" and w: "simple w"
  shows "\<exists>fl. p = SzlOps t fl \<and> fl = leaf_flats (leaves w)"
proof -
  obtain k tb pm u fs ixs el wt where t: "t = SzlType k tb pm u fs ixs el wt" by (cases t)
  have "k \<noteq> K_MAP" "k \<noteq> K_ARRAY"
    using m w t by (cases w; auto simp: matches_simps simple_def simple_leaf_def)+
  then obtain c fl where fl: "SzlFlattenKinds reg c t = Ok fl" "p = SzlOps t fl"
    using p t by (auto simp: new_ops.simps bind_res_eq_Ok Let_def)
  then show ?thesis using simple_flats [OF g _ m w] by blast
qed

text \<open>Whatever the weight held before, its calls leave the value of the weight.\<close>

lemma put_weight:
  assumes g: "good_field reg t" and p: "new_ops reg t = Ok p" and m: "matches t w"
    and w: "simple w" "leaves w \<noteq> []" and d: "weight_ok p d"
  shows "put_leaves p (leaves w) 0 d = Ok (pval w)" "weight_ok p (pval w)"
proof -
  obtain fl where fl: "p = SzlOps t fl" and leaf: "fl = leaf_flats (leaves w)"
    using weight_flats [OF g p m w(1)] by blast
  have "put_leaves p (leaves w) 0 d = Ok (pval w) \<and> weight_ok p (pval w)"
  proof (cases "\<exists>vs. w = PTuple vs")
    case True
    then obtain vs where vs: "w = PTuple vs" by blast
    then have tk: "ty_kind t = K_TUPLE" using m by (simp add: matches_simps)
    define xs where "xs = (case d of VVals xs \<Rightarrow> xs | _ \<Rightarrow> replicate (length fl) VZero)"
    have xs: "list_all2 (\<lambda>f. slot_ok (flat_kind f)) fl xs" "d = VZero \<and> xs = replicate (length fl) VZero \<or> d = VVals xs"
      using d tk fl by (auto simp: weight_ok_def xs_def list_all2_conv_all_nth)
    have "xs \<noteq> []" using xs(1) leaf w(2) by auto
    have "put_leaves p (leaves w) 0 (VVals xs) = Ok (VVals (map pval (leaves w)))"
      unfolding fl using put_leaves_tuple [OF tk, of "leaves w" 0 fl xs] w(1) xs(1) leaf by (simp add: simple_def)
    moreover have "put_leaves p (leaves w) 0 VZero = put_leaves p (leaves w) 0 (VVals (replicate (length fl) VZero))"
    proof (cases "leaves w")
      case (Cons v us)
      then have "simple_leaf v" "length fl \<noteq> 0" using w(1) leaf by (simp_all add: simple_def)
      then show ?thesis using Cons tk by (simp add: fl put_leaf_upd)
    qed (use w(2) in simp)
    moreover have "pval w = VVals (map pval (leaves w))"
      using pflats_leaves [OF w(1)] w(2) vs by (simp add: mk_vals_def)
    moreover have "weight_ok p (VVals (map pval (leaves w)))"
      using tk w(1) by (auto simp: weight_ok_def fl leaf list_all2_conv_all_nth simple_def list_all_length slot_pval)
    ultimately show ?thesis using xs(2) by auto
  next
    case False
    then have s: "leaves w = [w]" "simple_leaf w" using w(1) by (cases w; simp add: simple_def)+
    then have tk: "ty_kind t = leaf_kind w" "ty_kind t \<noteq> K_TUPLE"
      using m by (cases w; auto simp: matches_simps simple_leaf_def)+
    then have "slot_ok (leaf_kind w) d" using d by (simp add: weight_ok_def fl)
    then show ?thesis using s tk slot_pval [OF s(2)] leaf_upd_slot [OF s(2)] leaf
      by (simp add: fl put_leaf_upd weight_ok_def)
  qed
  then show "put_leaves p (leaves w) 0 d = Ok (pval w)" "weight_ok p (pval w)" by simp_all
qed

end
