(* ===== verification/Szl_Pipeline.thy ===== *)
theory Szl_Pipeline
  imports Szl_Protocol
begin

text \<open>
  Whole emits, and the way of the data through the program: every shard of the input drives an
  emitter of its own, the emitters are flushed, and the written pairs are merged into one
  emitter.  For tables whose entries keep the contract \<open>tab_entry\<close>, the entry of every index
  then stands for everything that was emitted with that index, however the input was split and
  in whatever order the pairs arrive.
\<close>

section \<open>One emit\<close>

text \<open>\<open>Emit\<close> of the call protocol: index, element and weight.\<close>

record emit =
  e_index :: "pvalue list"
  e_elem :: pvalue
  e_weight :: "pvalue option"

text \<open>The calls of one emit, as the engine sends them (\<open>calls\<close> on the length of a \<open>MAP\<close>).\<close>

definition group_calls :: "GroupType \<Rightarrow> pvalue list \<Rightarrow> emit_call list" where
  "group_calls g vs = CBegin g (int (length vs)) # concat (map calls vs) @ [CEnd g (int (length vs))]"

definition emit_calls :: "emit \<Rightarrow> emit_call list" where
  "emit_calls m = CBegin EMIT 1 # (if e_index m = [] then [] else group_calls INDEX (e_index m)) @
     group_calls ELEMENT [e_elem m] @
     (case e_weight m of None \<Rightarrow> [] | Some w \<Rightarrow> group_calls WEIGHT [w]) @ [CEnd EMIT 1]"

definition index_bytes :: "host_config \<Rightarrow> emit \<Rightarrow> bytes" where
  "index_bytes hc m = concat (map (\<lambda>v. pbytes hc v False) (e_index m))"

definition elem_bytes :: "host_config \<Rightarrow> emit \<Rightarrow> bytes" where
  "elem_bytes hc m = pbytes hc (e_elem m) False"

definition weight_value :: "emit \<Rightarrow> szl_value" where
  "weight_value m = (case e_weight m of None \<Rightarrow> VZero | Some w \<Rightarrow> pval w)"

text \<open>The state between two emits.\<close>

definition ready :: "'s writer \<Rightarrow> bool \<Rightarrow> 's emitter \<Rightarrow> bool" where
  "ready W indexed s \<longleftrightarrow> idle s \<and> em_arrays s = [] \<and> weight_ok (weight_ops W) (em_weight s)
     \<and> (\<not> indexed \<longrightarrow> enc_data (em_key s) = [])"

text \<open>What the program may emit into a table with these types: indices or none, as the table has
  them, and a weight of the weight's type if it has one.\<close>

definition emit_ok :: "registry \<Rightarrow> 's writer \<Rightarrow> bool \<Rightarrow> szl_type \<Rightarrow> emit \<Rightarrow> bool" where
  "emit_ok reg W indexed wt m \<longleftrightarrow> (e_index m \<noteq> []) = indexed \<and>
     (case e_weight m of None \<Rightarrow> \<not> tw_has_weight (w_tab W)
      | Some w \<Rightarrow> tw_has_weight (w_tab W) \<and> good_field reg wt \<and> new_ops reg wt = Ok (weight_ops W)
          \<and> matches wt w \<and> simple w \<and> leaves w \<noteq> [])"

lemma run_group_calls:
  assumes "idle s" "em_arrays s = []" "\<not> em_in_weight s" "g = INDEX \<and> sel = KeyEnc \<or> g = ELEMENT \<and> sel = ValueEnc"
  shows "run hc W (group_calls g vs) s = Ok (if g = INDEX
      then s\<lparr>em_key := AppendEncoding (concat (map (\<lambda>v. pbytes hc v False) vs)) (enc_Reset (em_key s))\<rparr>
      else s\<lparr>em_value := AppendEncoding (concat (map (\<lambda>v. pbytes hc v False) vs)) (enc_Reset (em_value s))\<rparr>)"
proof -
  obtain s1 where s1: "em_Begin W g n s = Ok s1" "open_group s1" "\<not> in_array s1" "em_encoder s1 = Some sel"
      "em_depth s1 = 1" "em_arrays s1 = []"
      "s1 = (if g = INDEX then s\<lparr>em_depth := 1, em_encoder := Some KeyEnc, em_key := enc_Reset (em_key s)\<rparr>
        else s\<lparr>em_depth := 1, em_encoder := Some ValueEnc, em_value := enc_Reset (em_value s)\<rparr>)" for n
    using assms by (auto simp: em_Begin_def idle_def open_group_def in_array_def)
  have "run hc W (concat (map calls vs)) s1 = Ok (write_enc (concat (map (\<lambda>v. pbytes hc v False) vs)) s1)"
    by (rule run_concat [where b = False]) (use s1(2,3) in \<open>simp_all add: run_calls\<close>)
  then show ?thesis using s1 assms
    by (auto simp: group_calls_def run_append em_End_def write_enc_def idle_def)
qed

lemma run_weight_calls:
  assumes "idle s" "em_arrays s = []" "weight_ok (weight_ops W) (em_weight s)" "tw_has_weight (w_tab W)"
    and "good_field reg t" "new_ops reg t = Ok (weight_ops W)" "matches t w" "simple w" "leaves w \<noteq> []"
    and "\<not> em_in_weight s"
  shows "run hc W (group_calls WEIGHT [w]) s =
    Ok (s\<lparr>em_weight := pval w, em_weight_pos := int (length (leaves w))\<rparr>)"
proof -
  let ?s = "s\<lparr>em_in_weight := True, em_weight_pos := 0, em_depth := 1\<rparr>"
  have "in_weight ?s" using assms(1,2) by (simp add: in_weight_def idle_def)
  from run_weight [OF this assms(8), of 0 hc W]
  have "run hc W (calls w) ?s = Ok (?s\<lparr>em_weight := pval w, em_weight_pos := int (length (leaves w))\<rparr>)"
    using put_weight(1) [OF assms(5-9,3)] by simp
  then show ?thesis using assms(1,2,4,10)
    by (simp add: group_calls_def run_append em_Begin_def em_End_def idle_def)
qed

text \<open>The calls of one emit come down to one addition to the entry of its index.\<close>

definition add_emit :: "host_config \<Rightarrow> 's writer \<Rightarrow> emit \<Rightarrow> 's \<Rightarrow> (int \<times> 's) res" where
  "add_emit hc W m t = (if e_weight m = None then e_AddElem W (elem_bytes hc m) t
     else e_AddWeightedElem W (elem_bytes hc m) (weight_value m) t)"

lemma run_emit:
  assumes r: "ready W indexed s" and ok: "emit_ok reg W indexed wt m"
  obtains s' where "ready W indexed s'" "em_table s' = em_table s" "em_out s' = em_out s" "em_memory s' = em_memory s"
      "enc_data (em_key s') = index_bytes hc m" "enc_data (em_value s') = elem_bytes hc m"
      "e_weight m \<noteq> None \<Longrightarrow> em_weight s' = weight_value m" "(em_weight_pos s' > 0) = (e_weight m \<noteq> None)"
      "run hc W (emit_calls m) s = End_emit W s'"
proof -
  let ?s1 = "s\<lparr>em_weight_pos := - 1, em_in_weight := False\<rparr>"
  let ?s2 = "if e_index m = [] then ?s1 else ?s1\<lparr>em_key := AppendEncoding (index_bytes hc m) (enc_Reset (em_key s))\<rparr>"
  let ?s3 = "?s2\<lparr>em_value := AppendEncoding (elem_bytes hc m) (enc_Reset (em_value s))\<rparr>"
  let ?s4 = "case e_weight m of None \<Rightarrow> ?s3
    | Some w \<Rightarrow> ?s3\<lparr>em_weight := pval w, em_weight_pos := int (length (leaves w))\<rparr>"
  note defs = ready_def idle_def
  have i: "idle ?s1" "em_arrays ?s1 = []" "\<not> em_in_weight ?s1" using r by (auto simp: defs)
  have s2: "run hc W (if e_index m = [] then [] else group_calls INDEX (e_index m)) ?s1 = Ok ?s2"
    using run_group_calls [OF i, of INDEX KeyEnc hc W "e_index m"] by (simp add: index_bytes_def)
  have i2: "idle ?s2" "em_arrays ?s2 = []" "\<not> em_in_weight ?s2" using i by (auto simp: idle_def)
  have s3: "run hc W (group_calls ELEMENT [e_elem m]) ?s2 = Ok ?s3"
    using run_group_calls [OF i2, of ELEMENT ValueEnc hc W "[e_elem m]"] by (simp add: elem_bytes_def)
  have i3: "idle ?s3" "em_arrays ?s3 = []" "weight_ok (weight_ops W) (em_weight ?s3)" "\<not> em_in_weight ?s3"
    using r by (auto simp: defs)
  have s4: "run hc W (case e_weight m of None \<Rightarrow> [] | Some w \<Rightarrow> group_calls WEIGHT [w]) ?s3 = Ok ?s4"
    using run_weight_calls [OF i3(1-3) _ _ _ _ _ _ i3(4), of reg wt _ hc] ok by (auto simp: emit_ok_def split: option.split)
  have "em_Begin W EMIT 1 s = Ok ?s1" using r by (simp add: em_Begin_def defs)
  then have "run hc W (emit_calls m) s = End_emit W ?s4"
    using s2 s3 s4 by (simp only: emit_calls_def fold_res.simps run_append do_call.simps bind_res_Ok em_End_def)
      (simp add: bind_res_def split: sum.split)
  moreover have "ready W indexed ?s4" using r ok put_weight(2)
    by (auto simp: defs emit_ok_def index_bytes_def split: option.split)
  ultimately show thesis
    by (intro that [of ?s4]) (use r ok in \<open>auto simp: ready_def emit_ok_def weight_value_def index_bytes_def
      enc_Reset_def split: option.splits\<close>)
qed



section \<open>All emits of a table\<close>

text \<open>The entry of an index, with a fresh one standing for an index not seen yet.\<close>

definition entry_at :: "'s \<Rightarrow> 's emitter \<Rightarrow> bytes \<Rightarrow> 's" where
  "entry_at ini s k = (case map_of (em_table s) k of None \<Rightarrow> ini | Some t \<Rightarrow> t)"

definition run_emits :: "host_config \<Rightarrow> 's writer \<Rightarrow> emit list \<Rightarrow> 's emitter \<Rightarrow> 's emitter res" where
  "run_emits hc W ms = run hc W (concat (map emit_calls ms))"

text \<open>One shard: a fresh emitter is run and flushed; the pairs it has written are the result.\<close>

definition shard_pairs :: "host_config \<Rightarrow> 's writer \<Rightarrow> emit list \<Rightarrow> (bytes \<times> bytes) list res" where
  "shard_pairs hc W ms = bind_res (run_emits hc W ms (new_emitter False 0 False)) (\<lambda>s.
     bind_res (Flusher W s) (\<lambda>s. Ok (em_out s)))"

definition merge_pair :: "'s writer \<Rightarrow> bytes \<times> bytes \<Rightarrow> 's emitter \<Rightarrow> 's emitter res" where
  "merge_pair W kv s = bind_res (em_Merge W (fst kv) (snd kv) s) (\<lambda>(ok, s').
     if ok then Ok s' else Inl Check_failed)"

text \<open>A list whose image is a rearrangement of another is the image of a rearrangement.\<close>

lemma rearranged: "mset (map f xs) = mset ys \<Longrightarrow> \<exists>zs. mset zs = mset xs \<and> map f zs = ys"
proof (induction ys arbitrary: xs)
  case (Cons y ys)
  then obtain x where x: "x \<in> set xs" "f x = y" by (metis image_iff list.set_intros(1) set_map set_mset_mset)
  have "mset (map f (remove1 x xs)) = mset ys"
    using arg_cong [OF Cons.prems, of "\<lambda>M. M - {#y#}"] x by (simp add: image_mset_Diff)
  from Cons.IH [OF this] obtain zs where "mset zs = mset (remove1 x xs)" "map f zs = ys" by blast
  then show ?case using x by (intro exI [of _ "x # zs"]) simp
qed simp

text \<open>A writer whose entries keep the contract of a table: \<open>elem\<close> is what is added for an element
  and a weight.\<close>

locale pipeline = tab_entry fits rep init add flush merge
  for fits :: "'e multiset \<Rightarrow> bool" and rep :: "'e multiset \<Rightarrow> 's \<Rightarrow> bool" and init :: 's
    and add and flush :: "'s \<Rightarrow> (bytes \<times> 's) res" and merge +
  fixes hc :: host_config and W :: "'s writer" and elem :: "bytes \<Rightarrow> szl_value \<Rightarrow> 'e"
    and reg :: registry and indexed :: bool and wt :: szl_type
  assumes creates: "fits {#} \<Longrightarrow> w_CreateEntry W k = Ok init"
    and aggregates: "tw_aggregates (w_tab W)"
    and flushes: "e_Flush W = flush"
    and merges: "e_Merge W = merge"
    and adds: "emit_ok reg W indexed wt m \<Longrightarrow>
      bind_res (add_emit hc W m t) (\<lambda>(_, t'). Ok t') = add (elem (elem_bytes hc m) (weight_value m)) t"
    and merge_nil: "merge [] t = Ok (MergeOk, t)"
begin

definition elem_of :: "emit \<Rightarrow> 'e" where
  "elem_of m = elem (elem_bytes hc m) (weight_value m)"

definition at_index :: "bytes \<Rightarrow> emit list \<Rightarrow> 'e multiset" where
  "at_index k ms = mset (map elem_of (filter (\<lambda>m. index_bytes hc m = k) ms))"

text \<open>The emitter stands for a multiset of elements under every index.\<close>

definition stands :: "(bytes \<Rightarrow> 'e multiset) \<Rightarrow> 's emitter \<Rightarrow> bool" where
  "stands M s \<longleftrightarrow> distinct (map fst (em_table s)) \<and> (\<forall>k. rep (M k) (entry_at init s k))"

lemma entry_update:
  "em_table s' = AList.update k t (em_table s) \<Longrightarrow> entry_at init s' k' = (if k' = k then t else entry_at init s k')"
  by (simp add: entry_at_def update_conv')

lemma fits_empty: "fits M \<Longrightarrow> fits {#}"
  by (rule fits_subset) simp_all

lemma find_entry_at:
  assumes "fits M"
  shows "find_entry W k s = Ok (entry_at init s k)"
  using creates [OF fits_empty [OF assms]] by (simp add: find_entry_def entry_at_def split: option.split)

lemma stands_update:
  assumes "stands M s" "em_table s' = AList.update k t (em_table s)" "rep N t"
  shows "stands (M(k := N)) s'"
  using assms entry_update [OF assms(2)] by (auto simp: stands_def distinct_update)

definition unseen_empty :: "(bytes \<Rightarrow> 'e multiset) \<Rightarrow> 's emitter \<Rightarrow> bool" where
  "unseen_empty M s \<longleftrightarrow> (\<forall>k. k \<notin> fst ` set (em_table s) \<longrightarrow> M k = {#})"

lemma unseen_update:
  "em_table s' = AList.update k t (em_table s) \<Longrightarrow> unseen_empty M s \<Longrightarrow> unseen_empty (M(k := N)) s'"
  by (auto simp: unseen_empty_def update_conv' simp flip: dom_map_of_conv_image_fst)

lemma run_emit_stands:
  assumes "ready W indexed s" "emit_ok reg W indexed wt m" "stands M s"
    and "fits (add_mset (elem_of m) (M (index_bytes hc m)))"
  shows "\<exists>s'. run hc W (emit_calls m) s = Ok s' \<and> ready W indexed s' \<and> em_out s' = em_out s
    \<and> stands (M(index_bytes hc m := add_mset (elem_of m) (M (index_bytes hc m)))) s'
    \<and> (unseen_empty M s \<longrightarrow> unseen_empty (M(index_bytes hc m := add_mset (elem_of m) (M (index_bytes hc m)))) s')"
proof -
  let ?k = "index_bytes hc m"
  obtain s1 where s1: "ready W indexed s1" "em_table s1 = em_table s" "em_out s1 = em_out s"
      "enc_data (em_key s1) = ?k" "enc_data (em_value s1) = elem_bytes hc m"
      "e_weight m \<noteq> None \<Longrightarrow> em_weight s1 = weight_value m" "(em_weight_pos s1 > 0) = (e_weight m \<noteq> None)"
      "run hc W (emit_calls m) s = End_emit W s1"
    using run_emit [OF assms(1,2)] by metis
  have "rep (M ?k) (entry_at init s1 ?k)" using assms(3) s1(2) by (simp add: stands_def entry_at_def)
  then obtain t where t: "add (elem_of m) (entry_at init s1 ?k) = Ok t" "rep (add_mset (elem_of m) (M ?k)) t"
    using rep_add assms(4) by blast
  then obtain a where a: "add_emit hc W m (entry_at init s1 ?k) = Ok (a, t)"
    using adds [OF assms(2), of "entry_at init s1 ?k"] by (auto simp: elem_of_def bind_res_eq_Ok)
  have hw: "tw_has_weight (w_tab W) = (e_weight m \<noteq> None)"
    using assms(2) by (auto simp: emit_ok_def split: option.splits)
  let ?s = "s1\<lparr>em_table := AList.update ?k t (em_table s1), em_memory := em_memory s1 + a\<rparr>"
  have "End_emit W s1 = Ok ?s"
    using s1 a hw aggregates find_entry_at [OF assms(4)]
    by (auto simp: End_emit_def ready_def add_emit_def Let_def)
  moreover have "ready W indexed ?s" using s1(1) by (simp add: ready_def idle_def)
  moreover have "stands (M(?k := add_mset (elem_of m) (M ?k))) ?s"
    using stands_update [OF _ _ t(2), of M s1 ?s ?k] assms(3) s1(2) by (simp add: stands_def entry_at_def)
  moreover have "unseen_empty (M(?k := add_mset (elem_of m) (M ?k))) ?s" if "unseen_empty M s"
    using unseen_update [of ?s ?k t s1 M] that s1(2) by (simp add: unseen_empty_def)
  ultimately show ?thesis using s1(3,8) by auto
qed

lemma at_index_simps [simp]:
  "at_index k [] = {#}"
  "at_index k (m # ms) = (if index_bytes hc m = k then add_mset (elem_of m) (at_index k ms) else at_index k ms)"
  "at_index k (ms @ ms') = at_index k ms + at_index k ms'"
  by (simp_all add: at_index_def)

lemma run_emits_stands:
  "ready W indexed s \<Longrightarrow> list_all (emit_ok reg W indexed wt) ms \<Longrightarrow> stands M s \<Longrightarrow>
    (\<And>k. fits (at_index k ms + M k)) \<Longrightarrow>
    \<exists>s'. run_emits hc W ms s = Ok s' \<and> em_out s' = em_out s \<and> stands (\<lambda>k. at_index k ms + M k) s'
      \<and> (unseen_empty M s \<longrightarrow> unseen_empty (\<lambda>k. at_index k ms + M k) s')"
proof (induction ms arbitrary: s M)
  case (Cons m ms)
  let ?k = "index_bytes hc m"
  let ?M = "M(?k := add_mset (elem_of m) (M ?k))"
  have "add_mset (elem_of m) (M ?k) \<subseteq># at_index ?k (m # ms) + M ?k" by simp
  then have f: "fits (add_mset (elem_of m) (M ?k))" using fits_subset Cons.prems(4) by blast
  have "emit_ok reg W indexed wt m" using Cons.prems(2) by simp
  from run_emit_stands [OF Cons.prems(1) this Cons.prems(3) f]
  obtain s1 where s1: "run hc W (emit_calls m) s = Ok s1" "ready W indexed s1" "em_out s1 = em_out s" "stands ?M s1"
    "unseen_empty M s \<longrightarrow> unseen_empty ?M s1"
    by blast
  have eq: "at_index k ms + ?M k = at_index k (m # ms) + M k" for k by simp
  have "\<exists>s'. run_emits hc W ms s1 = Ok s' \<and> em_out s' = em_out s1 \<and> stands (\<lambda>k. at_index k ms + ?M k) s'
      \<and> (unseen_empty ?M s1 \<longrightarrow> unseen_empty (\<lambda>k. at_index k ms + ?M k) s')"
    by (rule Cons.IH [OF s1(2) _ s1(4)]) (use Cons.prems(2,4) eq in simp_all)
  then show ?case unfolding eq using s1 by (auto simp: run_emits_def run_append)
qed (simp add: run_emits_def)

text \<open>Flushing.\<close>

definition flushed :: "'e multiset \<Rightarrow> bytes \<Rightarrow> bool" where
  "flushed X b \<longleftrightarrow> (\<exists>s s'. rep X s \<and> flush s = Ok (b, s'))"

lemma flushed_nil:
  assumes "flushed X []" "rep N t" "fits (X + N)"
  shows "rep (X + N) t"
proof -
  obtain s s' where "rep X s" "flush s = Ok ([], s')" using assms(1) by (auto simp: flushed_def)
  from rep_merge [OF this assms(2,3)] show ?thesis by (auto simp: merge_nil)
qed

lemma Flusher_loop_pairs:
  "list_all (\<lambda>(k, t). rep (M k) t \<and> fits (M k)) es \<Longrightarrow> distinct (map fst es) \<Longrightarrow>
    \<exists>s' ps. Flusher_loop W es s = Ok s' \<and> em_out s' = em_out s @ ps \<and> distinct (map fst ps)
      \<and> fst ` set ps \<subseteq> fst ` set es \<and> list_all (\<lambda>(k, b). flushed (M k) b) ps
      \<and> (\<forall>k. k \<in> fst ` set es - fst ` set ps \<longrightarrow> flushed (M k) [])"
proof (induction es arbitrary: s)
  case (Cons e es)
  obtain k t where e: "e = (k, t)" by (cases e)
  then obtain b t' where b: "flush t = Ok (b, t')" "flushed (M k) b"
    using Cons.prems(1) rep_flush [of "M k" t] by (auto simp: flushed_def)
  let ?s = "if b \<noteq> [] then WriteValue k b s else s"
  from Cons.IH [of ?s] Cons.prems obtain s' ps where IH: "Flusher_loop W es ?s = Ok s'" "em_out s' = em_out ?s @ ps"
      "distinct (map fst ps)" "fst ` set ps \<subseteq> fst ` set es" "list_all (\<lambda>(k, b). flushed (M k) b) ps"
      "\<forall>k. k \<in> fst ` set es - fst ` set ps \<longrightarrow> flushed (M k) []" by auto
  have k: "k \<notin> fst ` set ps" using Cons.prems(2) e IH(4) by auto
  show ?case
    by (rule exI [of _ s'], rule exI [of _ "if b \<noteq> [] then (k, b) # ps else ps"])
      (use e b IH k in \<open>auto simp: flushes WriteValue_def\<close>)
qed simp

definition shard_ok :: "emit list \<Rightarrow> (bytes \<times> bytes) list \<Rightarrow> bool" where
  "shard_ok ms ps \<longleftrightarrow> distinct (map fst ps) \<and> list_all (\<lambda>(k, b). flushed (at_index k ms) b) ps
     \<and> (\<forall>k. k \<notin> fst ` set ps \<longrightarrow> flushed (at_index k ms) [] \<or> at_index k ms = {#})"

lemma new_emitter_stands:
  "ready W indexed (new_emitter a b c)" "stands (\<lambda>_. {#}) (new_emitter a b c)" "unseen_empty (\<lambda>_. {#}) (new_emitter a b c)"
  by (simp_all add: ready_def idle_def stands_def unseen_empty_def new_emitter_def entry_at_def rep_init)

lemma shard_pairs_ok:
  assumes "list_all (emit_ok reg W indexed wt) ms" "\<And>k. fits (at_index k ms)"
  shows "\<exists>ps. shard_pairs hc W ms = Ok ps \<and> shard_ok ms ps"
proof -
  obtain s where s: "run_emits hc W ms (new_emitter False 0 False) = Ok s"
      "em_out s = []" "stands (\<lambda>k. at_index k ms) s" "unseen_empty (\<lambda>k. at_index k ms) s"
    using run_emits_stands [OF new_emitter_stands(1) assms(1) new_emitter_stands(2), of False 0 False] assms(2)
      new_emitter_stands(3) [of False 0 False] by (auto simp: new_emitter_def)
  have "rep (at_index k ms) t" if "(k, t) \<in> set (em_table s)" for k t
    using s(3) that by (auto simp: stands_def entry_at_def map_of_eq_Some_iff dest!: spec [of _ k])
  then have "list_all (\<lambda>(k, t). rep (at_index k ms) t \<and> fits (at_index k ms)) (em_table s)"
    using assms(2) by (auto simp: list_all_iff)
  from Flusher_loop_pairs [OF this, of s] s(3) obtain s' ps where f: "Flusher_loop W (em_table s) s = Ok s'"
      "em_out s' = ps" "distinct (map fst ps)" "fst ` set ps \<subseteq> fst ` set (em_table s)"
      "list_all (\<lambda>(k, b). flushed (at_index k ms) b) ps"
      "\<forall>k. k \<in> fst ` set (em_table s) - fst ` set ps \<longrightarrow> flushed (at_index k ms) []"
    using s(2) by (auto simp: stands_def)
  have "flushed (at_index k ms) [] \<or> at_index k ms = {#}" if "k \<notin> fst ` set ps" for k
    using f(6) s(4) that by (cases "k \<in> fst ` set (em_table s)") (simp_all add: unseen_empty_def)
  then have "shard_ok ms ps" using f(3,5) by (simp add: shard_ok_def)
  then show ?thesis using s(1) f(1,2) by (simp add: shard_pairs_def Flusher_def)
qed

text \<open>Merging: every pair with the multiset that it stands for.\<close>

definition tagged :: "emit list \<Rightarrow> (bytes \<times> bytes) list \<Rightarrow> ((bytes \<times> bytes) \<times> 'e multiset) list" where
  "tagged ms ps = map (\<lambda>kb. (kb, at_index (fst kb) ms)) ps"

definition total :: "bytes \<Rightarrow> ((bytes \<times> bytes) \<times> 'e multiset) list \<Rightarrow> 'e multiset" where
  "total k T = (\<Sum>x\<leftarrow>filter (\<lambda>x. fst (fst x) = k) T. snd x)"

lemma total_simps [simp]:
  "total k [] = {#}" "total k (x # T) = (if fst (fst x) = k then snd x + total k T else total k T)"
  "total k (T @ U) = total k T + total k U"
  by (simp_all add: total_def)

lemma total_mset: "mset T = mset U \<Longrightarrow> total k T = total k U"
proof -
  assume "mset T = mset U"
  then have "mset (map snd (filter (\<lambda>x. fst (fst x) = k) T)) = mset (map snd (filter (\<lambda>x. fst (fst x) = k) U))"
    by simp
  then show ?thesis unfolding total_def by (metis sum_mset_sum_list)
qed

lemma total_tagged:
  "distinct (map fst ps) \<Longrightarrow> total k (tagged ms ps) = (if k \<in> fst ` set ps then at_index k ms else {#})"
  by (induction ps) (auto simp: tagged_def)

lemma merge_pair_stands:
  assumes "stands N t" "flushed X b" "fits (X + N k)"
  shows "\<exists>t'. merge_pair W (k, b) t = Ok t' \<and> stands (N(k := X + N k)) t'"
proof -
  obtain s s' where f: "rep X s" "flush s = Ok (b, s')" using assms(2) by (auto simp: flushed_def)
  have "rep (N k) (entry_at init t k)" using assms(1) by (simp add: stands_def)
  from rep_merge [OF f this assms(3)] obtain u where u: "merge b (entry_at init t k) = Ok (MergeOk, u)" "rep (X + N k) u"
    by blast
  let ?t = "t\<lparr>em_table := AList.update k u (em_table t)\<rparr>"
  have "stands (N(k := X + N k)) ?t" by (rule stands_update [OF assms(1) _ u(2)]) simp
  then show ?thesis using u(1) find_entry_at [OF assms(3)]
    by (simp add: merge_pair_def em_Merge_def merges)
qed

lemma merge_all:
  "stands N t \<Longrightarrow> list_all (\<lambda>(kb, X). flushed X (snd kb)) T \<Longrightarrow> (\<And>k. fits (total k T + N k)) \<Longrightarrow>
    \<exists>t'. fold_res (merge_pair W) (map fst T) t = Ok t' \<and> stands (\<lambda>k. total k T + N k) t'"
proof (induction T arbitrary: N t)
  case (Cons x T)
  obtain k b X where x: "x = ((k, b), X)" by (metis surj_pair)
  have "X + N k \<subseteq># total k (x # T) + N k" by (simp add: x)
  then have "fits (X + N k)" using fits_subset Cons.prems(3) by blast
  then obtain t1 where t1: "merge_pair W (k, b) t = Ok t1" "stands (N(k := X + N k)) t1"
    using merge_pair_stands [OF Cons.prems(1), of X b k] Cons.prems(2) x by auto
  have eq: "total k' T + (N(k := X + N k)) k' = total k' (x # T) + N k'" for k' by (simp add: x ac_simps)
  have "\<exists>t'. fold_res (merge_pair W) (map fst T) t1 = Ok t' \<and> stands (\<lambda>k'. total k' T + (N(k := X + N k)) k') t'"
    by (rule Cons.IH [OF t1(2)]) (use Cons.prems(2,3) eq in simp_all)
  then show ?case unfolding eq using t1(1) x by simp
qed simp

text \<open>Pairs that were not written because the flushed string was empty are not missed.\<close>

lemma unwritten:
  assumes "list_all2 shard_ok shards outs" "rep (total k (concat (map2 tagged shards outs)) + N) e"
    and "fits (at_index k (concat shards) + N)"
  shows "rep (at_index k (concat shards) + N) e"
  using assms
proof (induction shards outs arbitrary: N rule: list_all2_induct)
  case (Cons ms shards ps outs)
  let ?a = "total k (tagged ms ps)"
  have a: "?a = at_index k ms \<or> ?a = {#} \<and> flushed (at_index k ms) []"
    using Cons.hyps(1) total_tagged [of ps k ms] by (auto simp: shard_ok_def)
  have "?a \<subseteq># at_index k ms" using a by auto
  then have "at_index k (concat shards) + (?a + N) \<subseteq># at_index k (concat (ms # shards)) + N" by simp
  then have "fits (at_index k (concat shards) + (?a + N))" using fits_subset Cons.prems(2) by blast
  then have r: "rep (at_index k (concat shards) + (?a + N)) e"
    using Cons.IH [of "?a + N"] Cons.prems(1) by (simp add: ac_simps)
  from a show ?case
  proof
    assume "?a = {#} \<and> flushed (at_index k ms) []"
    then show ?thesis using flushed_nil [of "at_index k ms" "at_index k (concat shards) + N" e] r Cons.prems(2)
      by (simp add: ac_simps)
  qed (use r in \<open>simp add: ac_simps\<close>)
qed simp

theorem map_reduce:
  assumes ok: "list_all (list_all (emit_ok reg W indexed wt)) shards" and fits: "\<And>k. fits (at_index k (concat shards))"
  shows "\<exists>outs. map_res (shard_pairs hc W) shards = Ok outs \<and>
    (\<forall>pairs. mset pairs = mset (concat outs) \<longrightarrow>
      (\<exists>t. fold_res (merge_pair W) pairs (new_emitter a b c) = Ok t \<and>
        (\<forall>k. rep (at_index k (concat shards)) (entry_at init t k))))"
proof -
  have part: "fits (at_index k ms)" if "ms \<in> set shards" for k ms
  proof -
    have "at_index k ms \<subseteq># at_index k (concat shards)" using that
      by (induction shards) (auto intro: subset_mset.order_trans mset_subset_eq_add_right)
    then show ?thesis using fits fits_subset by blast
  qed
  have "\<exists>outs. map_res (shard_pairs hc W) xs = Ok outs \<and> list_all2 shard_ok xs outs" if "set xs \<subseteq> set shards" for xs
    using that
  proof (induction xs)
    case (Cons ms xs)
    then obtain ps where "shard_pairs hc W ms = Ok ps" "shard_ok ms ps"
      using shard_pairs_ok [of ms] ok part by (auto simp: list_all_iff)
    then show ?case using Cons by auto
  qed simp
  then obtain outs where outs: "map_res (shard_pairs hc W) shards = Ok outs" "list_all2 shard_ok shards outs" by blast
  let ?T = "concat (map2 tagged shards outs)"
  have tag: "list_all (\<lambda>(kb, X). flushed X (snd kb)) (tagged ms ps)" if "shard_ok ms ps" for ms ps
    using that by (auto simp: tagged_def shard_ok_def list_all_iff)
  have T: "map fst ?T = concat outs" "list_all (\<lambda>(kb, X). flushed X (snd kb)) ?T"
    using outs(2) by (induction shards outs rule: list_all2_induct) (simp_all add: tag, simp add: tagged_def comp_def)
  have fT: "fits (total k ?T)" for k
  proof -
    have "total k ?T \<subseteq># at_index k (concat shards)" using outs(2)
      by (induction shards outs rule: list_all2_induct) (auto simp: shard_ok_def total_tagged subset_mset.add_mono)
    then show ?thesis using fits fits_subset by blast
  qed
  have "\<exists>t. fold_res (merge_pair W) pairs (new_emitter a b c) = Ok t \<and>
      (\<forall>k. rep (at_index k (concat shards)) (entry_at init t k))" if perm: "mset pairs = mset (concat outs)" for pairs
  proof -
    obtain U where U: "mset U = mset ?T" "map fst U = pairs" 
      using rearranged [of fst ?T pairs, unfolded T(1), OF perm [symmetric]] by blast
    have "list_all (\<lambda>(kb, X). flushed X (snd kb)) U"
      using T(2) mset_eq_setD [OF U(1)] by (simp only: list_all_iff)
    from merge_all [OF new_emitter_stands(2) this, of a b c] fT total_mset [OF U(1)] obtain t where
      t: "fold_res (merge_pair W) pairs (new_emitter a b c) = Ok t" "stands (\<lambda>k. total k ?T) t"
      using U(2) by auto
    have "rep (at_index k (concat shards)) (entry_at init t k)" for k
      using unwritten [OF outs(2), of k "{#}" "entry_at init t k"] t(2) fits by (simp add: stands_def)
    then show ?thesis using t(1) by blast
  qed
  then show ?thesis using outs(1) by blast
qed

end

end
