(* ===== verification/Szl_MapReduce.thy ===== *)
theory Szl_MapReduce
  imports Szl_Pipeline Szl_Sum Szl_Maximum
begin

text \<open>
  The program end to end for two kinds of tables: what was emitted into sum tables and into
  maximum and minimum tables by any number of shards is what the merged emitter holds.  The
  statements speak of the values that the program emitted; encoding, the state of the emitters,
  flushing and merging are all inside.
\<close>

section \<open>The writers\<close>

text \<open>The sizes of objects that the memory estimates add are arguments.\<close>

definition sum_writer :: "int \<Rightarrow> host_config \<Rightarrow> szl_tab_writer \<Rightarrow> sum_entry writer" where
  "sum_writer sz hc tw = (let p = tw_element_ops tw in
     \<lparr>w_tab = tw, w_CreateEntry = (\<lambda>_. new_sum p), w_FilterValue = (\<lambda>_. Inl (Fatal ''Call to FilterValue() for a table that does not support it.'')),
      e_AddElem = sum_AddElem hc p, e_AddWeightedElem = (\<lambda>b w s. default_AddWeightedElem s b w),
      e_Merge = sum_Merge hc p, e_Flush = sum_Flush hc p,
      e_FlushForDisplay = (\<lambda>s. bind_res (sum_FlushForDisplay hc p s) (\<lambda>out. Ok (out, s))),
      e_TupleCount = (\<lambda>s. Ok 1), e_Memory = (\<lambda>s. bind_res (Memory p (sum_sum s)) (\<lambda>m. Ok (sz + m)))\<rparr>)"

text \<open>\<open>junk\<close> is what memory holds where the constructor of an entry leaves \<open>tot_elems_\<close> as it is.\<close>

definition max_writer :: "i64 \<Rightarrow> int \<Rightarrow> int \<Rightarrow> int \<Rightarrow> host_config \<Rightarrow> szl_tab_writer \<Rightarrow> szl_value_cmp \<Rightarrow> max_entry writer" where
  "max_writer junk sz base each hc tw c = (let p = tw_weight_ops tw in
     \<lparr>w_tab = tw, w_CreateEntry = (\<lambda>_. Ok (new_max junk (tw_param tw))), w_FilterValue = (\<lambda>_. Inl (Fatal ''Call to FilterValue() for a table that does not support it.'')),
      e_AddElem = max_AddElem p c, e_AddWeightedElem = max_AddWeightedElem p c,
      e_Merge = max_Merge hc p c, e_Flush = max_Flush hc p c, e_FlushForDisplay = max_FlushForDisplay hc p c,
      e_TupleCount = (\<lambda>s. Ok (max_TupleCount s)), e_Memory = (\<lambda>s. bind_res (heap_Memory base each p (mx_heap s)) (\<lambda>m. Ok (sz + m)))\<rparr>)"

text \<open>The attributes that the creators of these tables give their writers.\<close>

definition sum_attributes :: "szl_tab_writer \<Rightarrow> szl_tab_writer" where
  "sum_attributes tw = tw\<lparr>tw_has_weight := False, tw_aggregates := True\<rparr>"

definition max_attributes :: "szl_tab_writer \<Rightarrow> szl_tab_writer" where
  "max_attributes tw = tw\<lparr>tw_has_weight := True, tw_aggregates := True\<rparr>"

lemma new_sum_init: "int_ops p \<Longrightarrow> new_sum p = Ok (sum_init p)"
proof -
  fix hc assume p: "int_ops p"
  then have "tv p VZero" by (cases p) (auto intro!: typed_tv(1))
  then show ?thesis
    using sum_Clear_rep [OF p, where s = "\<lparr>sum_tot = 0, sum_sum = VZero, sum_memory = 0\<rparr>" and hc = hc]
    by (auto simp: sum_init_def new_sum_def)
qed

lemmas writer_defs = sum_writer_def sum_attributes_def max_writer_def max_attributes_def Let_def

interpretation sum_pipe: pipeline "sum_fits hc (tw_element_ops tw)" "sum_rep hc (tw_element_ops tw)"
  "sum_init (tw_element_ops tw)" "sum_add hc (tw_element_ops tw)" "sum_Flush hc (tw_element_ops tw)"
  "sum_Merge hc (tw_element_ops tw)" hc "sum_writer sz hc (sum_attributes tw)" "\<lambda>b w. b" reg indexed wt
  for sz hc tw reg indexed wt
proof (unfold_locales, goal_cases)
  case (1 k)
  then show ?case by (simp add: writer_defs new_sum_init sum_fits_def)
next
  case (5 m t)
  then have "e_weight m = None"
    by (auto simp: emit_ok_def writer_defs split: option.splits)
  then show ?case by (simp add: add_emit_def writer_defs sum_add_def)
qed (simp_all add: writer_defs sum_Merge_def)

interpretation max_pipe: pipeline "max_fits (tw_weight_ops tw) (tw_param tw)" "max_rep (tw_weight_ops tw) c (tw_param tw)"
  "new_max 0 (tw_param tw)" "max_add (tw_weight_ops tw) c" "max_Flush hc (tw_weight_ops tw) c"
  "max_Merge hc (tw_weight_ops tw) c" hc "max_writer 0 sz base each hc (max_attributes tw) c" Pair reg indexed wt
  for sz base each hc tw c reg indexed wt
proof (unfold_locales, goal_cases)
  case (5 m t)
  then have "e_weight m \<noteq> None"
    by (auto simp: emit_ok_def writer_defs split: option.splits)
  then show ?case by (auto simp: add_emit_def writer_defs max_add_def)
qed (simp_all add: writer_defs max_Merge_def)


section \<open>Properties\<close>

lemma sum_CreateD:
  assumes "sum_Create reg t = Ok (Inr tw)" "ty_element t = Some el" "ty_weight t = None"
  shows "new_ops reg (fd_type el) = Ok (tw_element_ops tw)" "sum_attributes tw = tw"
  using assms by (auto simp: sum_Create_def new_tab_writer_def bind_res_eq_Ok sum_attributes_def split: if_splits)

definition emitted :: "host_config \<Rightarrow> bytes \<Rightarrow> emit list list \<Rightarrow> emit list" where
  "emitted hc k shards = filter (\<lambda>m. index_bytes hc m = k) (concat shards)"

text \<open>C2. Emitting into a sum table of integers, end to end: the creator's writer is used by any
  number of shards, each drives its own emitter with the calls that an emit statement sends, for any emits of
  the element's type, and flushes it, and the written pairs are merged, in any order, by one more
  emitter.  No step fails, and under every index the final entry counts the emits with this
  index and holds the sums modulo \<open>2^64\<close> of their numbers.\<close>

theorem sum_map_reduce:
  assumes create: "sum_Create reg t = Ok (Inr tw)" "ty_element t = Some el" "ty_weight t = None"
    and el: "good_field reg (fd_type el)" "int_ops (tw_element_ops tw)"
    and ms: "list_all (list_all (\<lambda>m. (e_index m \<noteq> []) = tw_has_indices tw \<and> e_weight m = None
        \<and> matches (fd_type el) (e_elem m))) shards"
    and few: "length (concat shards) < 2 ^ 63"
  shows "\<exists>outs. map_res (shard_pairs hc (sum_writer sz hc tw)) shards = Ok outs \<and>
    (\<forall>pairs. mset pairs = mset (concat outs) \<longrightarrow>
      (\<exists>s. fold_res (merge_pair (sum_writer sz hc tw)) pairs (new_emitter a b d) = Ok s \<and>
        (\<forall>k. let e = entry_at (sum_init (tw_element_ops tw)) s k in
          sum_tot e = of_nat (length (emitted hc k shards)) \<and>
          (\<forall>i < nints (tw_element_ops tw). ints (tw_element_ops tw) (sum_sum e) ! i =
            (\<Sum>m\<leftarrow>emitted hc k shards. ints (tw_element_ops tw) (pval (e_elem m)) ! i)))))"
proof -
  let ?p = "tw_element_ops tw"
  note ops = sum_CreateD [OF create]
  have enc: "encodes hc ?p (pval (e_elem m)) (elem_bytes hc m)" if "m \<in> set (concat shards)" for m
    using protocol_encodes [OF el(1) ops(1)] ms that by (auto simp: elem_bytes_def list_all_iff)
  have at: "sum_pipe.at_index hc k ms = mset (map (elem_bytes hc) (filter (\<lambda>m. index_bytes hc m = k) ms))" for k ms
  proof -
    have "sum_pipe.elem_of hc = elem_bytes hc" by (simp add: fun_eq_iff sum_pipe.elem_of_def)
    then show ?thesis by (simp add: sum_pipe.at_index_def)
  qed
  have ok: "list_all (list_all (emit_ok reg (sum_writer sz hc (sum_attributes tw)) (tw_has_indices tw) kInt)) shards"
    using ms by (auto simp: list_all_iff emit_ok_def writer_defs)
  have fits: "sum_fits hc ?p (sum_pipe.at_index hc k (concat shards))" for k
  proof -
    have n: "size (mset (map (elem_bytes hc) (filter (\<lambda>m. index_bytes hc m = k) (concat shards)))) < 2 ^ 63"
      using le_less_trans [OF length_filter_le few] by (simp only: size_mset length_map)
    have "\<exists>v. encodes hc ?p v e" if "e \<in># mset (map (elem_bytes hc) (filter (\<lambda>m. index_bytes hc m = k) (concat shards)))" for e
      using that enc by (auto simp del: set_concat)
    then show ?thesis using n el(2) unfolding at sum_fits_def by blast
  qed
  have rep: "sum_tot e = of_nat (length (emitted hc k shards)) \<and>
      (\<forall>i < nints ?p. ints ?p (sum_sum e) ! i = (\<Sum>m\<leftarrow>emitted hc k shards. ints ?p (pval (e_elem m)) ! i))"
    if "sum_rep hc ?p (sum_pipe.at_index hc k (concat shards)) e" for k e
  proof -
    have "sum_value hc ?p (elem_bytes hc m) = pval (e_elem m)" if "m \<in> set (concat shards)" for m
      using parse_encoded [OF enc [OF that]] by (simp add: sum_value_def)
    then have "map (\<lambda>m. ints ?p (sum_value hc ?p (elem_bytes hc m)) ! i) (emitted hc k shards)
        = map (\<lambda>m. ints ?p (pval (e_elem m)) ! i) (emitted hc k shards)" for i
      by (auto simp: emitted_def simp del: set_concat)
    then show ?thesis using that el(2)
      unfolding sum_rep_def at emitted_def [symmetric]
      by (simp add: sum_mset_sum_list comp_def flip: mset_map cong: map_cong)
  qed
  from sum_pipe.map_reduce [OF ok fits, of a b d] show ?thesis
    unfolding ops(2) Let_def using rep by meson
qed

text \<open>Tables of integers without and with a weight, and emits into them.\<close>

definition int_table :: "string \<Rightarrow> int \<Rightarrow> szl_type option \<Rightarrow> szl_type" where
  "int_table kind n w = SzlType K_TABLE kind n False [] [] (Some (SzlField [] kInt)) (map_option (SzlField []) w)"

definition int_tab_writer :: "int \<Rightarrow> bool \<Rightarrow> szl_tab_writer" where
  "int_tab_writer n w = \<lparr>tw_param = n, tw_has_indices = False, tw_has_weight = w, tw_aggregates = True,
     tw_filters = False, tw_element_ops = int_sum_ops, tw_weight_ops = int_sum_ops\<rparr>"

definition int_emit :: "i64 \<Rightarrow> i64 option \<Rightarrow> emit" where
  "int_emit i w = \<lparr>e_index = [], e_elem = PInt i, e_weight = map_option PInt w\<rparr>"

lemmas int_table_defs = int_table_def int_tab_writer_def int_sum_ops_def kInt_def new_type_def

lemma good_kInt: "good_field reg kInt"
  using nested_of_base [of K_INT] by (auto simp: good_field_def fresh_def kInt_def) (simp_all add: new_type_def Valid.simps)

lemma new_ops_kInt: "new_ops reg kInt = Ok int_sum_ops"
  by (simp add: int_table_defs new_ops.simps SzlFlattenKinds.simps BaseType_def Valid.simps Let_def)

lemma int_table_Create:
  "sum_Create reg (int_table ''sum'' 0 None) = Ok (Inr (int_tab_writer 0 False))"
  "max_Create reg (int_table ''maximum'' n (Some kInt)) = Ok (Inr (int_tab_writer n True, max_cmp (int_table ''maximum'' n (Some kInt))))"
proof -
  have "IsAddable kInt = Ok True" "IsOrdered kInt" by (simp_all add: kInt_def new_type_def IsAddable.simps IsOrdered.simps)
  then show "sum_Create reg (int_table ''sum'' 0 None) = Ok (Inr (int_tab_writer 0 False))"
    "max_Create reg (int_table ''maximum'' n (Some kInt)) = Ok (Inr (int_tab_writer n True, max_cmp (int_table ''maximum'' n (Some kInt))))"
    using new_ops_kInt [of reg]
    by (simp_all add: sum_Create_def max_Create_def new_tab_writer_def int_table_def int_tab_writer_def indices_size_def)
qed

theorem sum_map_reduce_witness:
  "\<exists>outs s. map_res (shard_pairs (good_config Big) (sum_writer 8 (good_config Big) (int_tab_writer 0 False)))
      [[int_emit 5 None, int_emit 7 None], [], [int_emit (- 1) None]] = Ok outs \<and>
    fold_res (merge_pair (sum_writer 8 (good_config Big) (int_tab_writer 0 False))) (rev (concat outs)) (new_emitter True 3 False) = Ok s \<and>
    sum_tot (entry_at (sum_init int_sum_ops) s []) = 3 \<and> ints int_sum_ops (sum_sum (entry_at (sum_init int_sum_ops) s [])) ! 0 = 11"
proof -
  let ?sh = "[[int_emit 5 None, int_emit 7 None], [], [int_emit (- 1) None]]"
  have k: "emitted hc [] ?sh = concat ?sh" for hc by (simp add: emitted_def index_bytes_def int_emit_def)
  have v: "ints int_sum_ops (VInt i) ! 0 = i" for i by (simp add: int_table_defs int_of_value_def)
  have n: "nints int_sum_ops = 1" by (simp add: int_table_defs nints_def)
  let ?t = "int_table ''sum'' 0 None" and ?tw = "int_tab_writer 0 False"
  have ms: "list_all (list_all (\<lambda>m. (e_index m \<noteq> []) = tw_has_indices ?tw \<and> e_weight m = None
      \<and> matches (fd_type (SzlField [] kInt)) (e_elem m))) ?sh"
    by (simp add: int_tab_writer_def int_emit_def matches_simps) (simp add: kInt_def new_type_def)
  have c: "ty_element ?t = Some (SzlField [] kInt)" "ty_weight ?t = None" "int_ops (tw_element_ops ?tw)" "tw_element_ops ?tw = int_sum_ops"
    by (simp_all add: int_table_def int_tab_writer_def int_sum_ops_ok)
  have g: "good_field Map.empty (fd_type (SzlField [] kInt))" by (simp add: good_kInt)
  have few: "length (concat ?sh) < 2 ^ 63" by simp
  from sum_map_reduce [OF int_table_Create(1) [of Map.empty] c(1,2) g c(3) ms few, of "good_config Big" 8 True 3 False]
  show ?thesis
  proof (elim exE conjE, goal_cases)
    case (1 outs)
    from 1(2) [rule_format, OF mset_rev] show ?case
    proof (elim exE conjE, goal_cases)
      case (1 s)
      from 1(2) [rule_format, of "[]"]
      have "sum_tot (entry_at (sum_init int_sum_ops) s []) = 3" "ints int_sum_ops (sum_sum (entry_at (sum_init int_sum_ops) s [])) ! 0 = 11"
        unfolding Let_def k c(4) by (simp_all add: n v int_emit_def)
      then show ?case using 1(1) \<open>map_res _ _ = Ok outs\<close> by blast
    qed
  qed
qed

text \<open>Weights are typed unless one of their floats is not a number.\<close>

fun not_nan :: "pvalue \<Rightarrow> bool" where
  "not_nan (PFloat f) = (\<not> is_nan f)"
| "not_nan v = True"

lemma leaf_typed: "simple_leaf v \<Longrightarrow> not_nan v \<Longrightarrow> typed_base (leaf_kind v) (pval v)"
  by (cases v) (auto simp: typed_base_def simple_leaf_def mk_buf_def)

lemma weight_typed:
  assumes g: "good_field reg t" and p: "new_ops reg t = Ok p" and m: "matches t w" and w: "simple w" "leaves w \<noteq> []"
    and n: "list_all not_nan (leaves w)"
  shows "typed p (pval w)"
proof -
  obtain fl where fl: "p = SzlOps t fl" "fl = leaf_flats (leaves w)" using weight_flats [OF g p m w(1)] by blast
  show ?thesis
  proof (cases "\<exists>vs. w = PTuple vs")
    case True
    then have tk: "ty_kind t = K_TUPLE" using m by (auto simp: matches_simps)
    have v: "pval w = VVals (map pval (leaves w))"
      using pflats_leaves [OF w(1)] w(2) True by (auto simp: mk_vals_def)
    have "zip_flats fl (map pval (leaves w)) = map (\<lambda>v. (Flat (leaf_kind v), pval v)) (leaves w)"
      by (simp add: zip_flats_exact fl(2) zip_map_map zip_same_conv_map comp_def)
    then show ?thesis using tk v w n leaf_typed
      by (auto simp: fl(1) typed.simps simple_def list_all_iff) (simp add: fl(2))
  next
    case False
    then have s: "leaves w = [w]" "simple_leaf w" using w(1) by (cases w; simp add: simple_def)+
    then have "ty_kind t = leaf_kind w" using m by (cases w) (auto simp: matches_simps simple_leaf_def)
    then show ?thesis using s n leaf_typed by (simp add: fl(1) typed.simps simple_leaf_def)
  qed
qed

lemma max_CreateD:
  assumes "max_Create reg t = Ok (Inr (tw, c))" "ty_weight t = Some wfd"
  shows "new_ops reg (fd_type wfd) = Ok (tw_weight_ops tw)" "max_attributes tw = tw" "tw_param tw = ty_param t"
    "c = max_cmp t"
  using assms by (auto simp: max_Create_def new_tab_writer_def bind_res_eq_Ok max_attributes_def split: if_splits option.splits)



end
