(* ===== verification/Szl_Outputter.thy ===== *)
theory Szl_Outputter
  imports Szl_MapReduce Szl_Compare
begin

text \<open>
  \<open>Outputter\<close> of engine/outputter.cc: how an emit statement turns run-time values into the calls
  of the emitter interface.  The values are popped from the stack, the first element of the
  list; the calls are collected, since an emitter answers none of them.  Map keys are sorted
  first, with \<open>std::sort\<close>; an insertion sort stands for it, and for keys of an ordered type the
  sorted order is the only one.  Opening and writing files are arguments.  Lengths are taken to
  fit into an \<open>int\<close>.

  The calls for a value are those of the documented protocol but for the length of a map, and two
  values of a type lead to the same bytes exactly if they are equal: the entries of a table are in
  bijection with the values of its index.
\<close>

section \<open>Sorting the keys of a map\<close>

definition MapKeySorter :: "Val option \<times> nat \<Rightarrow> Val option \<times> nat \<Rightarrow> bool res" where
  "MapKeySorter a b = (case fst b of
     None \<Rightarrow> Ok False
   | Some y \<Rightarrow> (case fst a of
       None \<Rightarrow> Ok True
     | Some x \<Rightarrow> bind_res (Val_Cmp x y) (\<lambda>d. case d of None \<Rightarrow> Inl Check_failed | Some c \<Rightarrow> Ok (c < 0))))"

fun insert_res :: "('a \<Rightarrow> 'a \<Rightarrow> bool res) \<Rightarrow> 'a \<Rightarrow> 'a list \<Rightarrow> 'a list res" where
  "insert_res lt x [] = Ok [x]"
| "insert_res lt x (y # ys) = bind_res (lt x y) (\<lambda>b.
     if b then Ok (x # y # ys) else bind_res (insert_res lt x ys) (\<lambda>zs. Ok (y # zs)))"

fun sort_res :: "('a \<Rightarrow> 'a \<Rightarrow> bool res) \<Rightarrow> 'a list \<Rightarrow> 'a list res" where
  "sort_res lt [] = Ok []"
| "sort_res lt (x # xs) = bind_res (sort_res lt xs) (insert_res lt x)"

definition sorted_keys :: "Val hmap \<Rightarrow> nat list res" where
  "sorted_keys m =
     bind_res (map_res (\<lambda>i. bind_res (GetKeyByIndex m i) (\<lambda>k. Ok (k, i))) [0..<m_occupancy m]) (\<lambda>ks.
     bind_res (sort_res MapKeySorter ks) (\<lambda>ks. Ok (map snd ks)))"


section \<open>Values\<close>

function PutValue :: "ty \<Rightarrow> Val \<Rightarrow> emit_call list res" where
  "PutValue t v = (case t of
     TyBool \<Rightarrow> (case v of BoolVal b \<Rightarrow> Ok [CPutBool b] | _ \<Rightarrow> Inl Check_failed)
   | TyBytes \<Rightarrow> (case v of BytesVal a \<Rightarrow> Ok [CPutBytes a] | _ \<Rightarrow> Inl Check_failed)
   | TyInt \<Rightarrow> (case v of IntVal i \<Rightarrow> Ok [CPutInt i] | _ \<Rightarrow> Inl Check_failed)
   | TyUInt \<Rightarrow> (case v of UIntVal u \<Rightarrow> Ok [CPutInt u] | _ \<Rightarrow> Inl Check_failed)
   | TyFloat \<Rightarrow> (case v of FloatVal d \<Rightarrow> Ok [CPutFloat d] | _ \<Rightarrow> Inl Check_failed)
   | TyFingerprint \<Rightarrow> (case v of FingerprintVal u \<Rightarrow> Ok [CPutFingerprint u] | _ \<Rightarrow> Inl Check_failed)
   | TyString \<Rightarrow> (case v of StringVal a \<Rightarrow> Ok [CPutString a] | _ \<Rightarrow> Inl Check_failed)
   | TyTime \<Rightarrow> (case v of TimeVal u \<Rightarrow> Ok [CPutTime u] | _ \<Rightarrow> Inl Check_failed)
   | TyTuple ts \<Rightarrow> (case v of
       TupleVal _ vs \<Rightarrow>
         let n = int (length ts) in
         bind_res (map_res (\<lambda>i. if length vs \<le> i then Inl Out_of_range
             else if i < length ts then PutValue (ts ! i) (vs ! i) else Inl Out_of_range) [0..<length ts]) (\<lambda>css.
         Ok (CBegin TUPLE n # concat css @ [CEnd TUPLE n]))
     | _ \<Rightarrow> Inl Check_failed)
   | TyArray et \<Rightarrow> (case v of
       ArrayVal vs \<Rightarrow>
         let n = int (length vs) in
         bind_res (map_res (PutValue et) vs) (\<lambda>css.
         Ok (CBegin ARRAY n # concat css @ [CEnd ARRAY n]))
     | _ \<Rightarrow> Inl Check_failed)
   | TyMap kt et \<Rightarrow> (case v of
       MapVal m \<Rightarrow>
         let total_elements = int (m_occupancy m * 2) in
         bind_res (sorted_keys m) (\<lambda>is.
         bind_res (map_res (\<lambda>i.
             bind_res (GetKeyByIndex m i) (\<lambda>k. bind_res (deref k) (\<lambda>k. bind_res (PutValue kt k) (\<lambda>cs.
             bind_res (GetValueByIndex m i) (\<lambda>e. bind_res (deref e) (\<lambda>e. bind_res (PutValue et e) (\<lambda>ds.
             Ok (cs @ ds)))))))) is) (\<lambda>css.
         Ok (CBegin MAP total_elements # concat css @ [CEnd MAP total_elements])))
     | _ \<Rightarrow> Inl Check_failed)
   | TyFunction \<Rightarrow> Inl (Fatal ''emitting of functions is unimplemented''))"
  by pat_completeness auto
termination
  by (relation "measure (\<lambda>(t, v). size t)") (auto simp: less_Suc_eq_le intro!: size_list_estimation' [OF nth_mem])

declare PutValue.simps [simp del]


section \<open>Emits\<close>

record output_type =
  ot_is_proc :: bool
  ot_index_format :: bool
  ot_elem_format :: bool
  ot_index :: "ty list"
  ot_elem :: ty
  ot_weight :: "ty option"

definition uses_emitter :: "output_type \<Rightarrow> bool" where
  "uses_emitter t \<longleftrightarrow> \<not> ot_index_format t"

record 'f outputter =
  op_type :: output_type
  op_installed :: bool
  op_emit_count :: int
  op_error_msg :: "string option"
  op_calls :: "emit_call list"
  op_written :: "('f \<times> bytes) list"

definition new_outputter :: "output_type \<Rightarrow> 'f outputter" where
  "new_outputter t = \<lparr>op_type = t, op_installed = False, op_emit_count = 0, op_error_msg = None,
     op_calls = [], op_written = []\<rparr>"

definition set_emitter :: "bool \<Rightarrow> 'f outputter \<Rightarrow> 'f outputter" where
  "set_emitter b p = p\<lparr>op_installed := b\<rparr>"

text \<open>Only the first error is registered.\<close>

definition Error :: "string \<Rightarrow> 'f outputter \<Rightarrow> 'f outputter" where
  "Error msg p = (if op_error_msg p = None then p\<lparr>op_error_msg := Some msg\<rparr> else p)"

definition send :: "emit_call list \<Rightarrow> 'f outputter \<Rightarrow> 'f outputter" where
  "send cs p = p\<lparr>op_calls := op_calls p @ cs\<rparr>"

definition pop :: "Val list \<Rightarrow> (Val \<times> Val list) res" where
  "pop sp = (case sp of [] \<Rightarrow> Inl Out_of_range | v # sp' \<Rightarrow> Ok (v, sp'))"

definition PutPop :: "ty \<Rightarrow> Val list \<Rightarrow> (emit_call list \<times> Val list) res" where
  "PutPop t sp = bind_res (pop sp) (\<lambda>(v, sp'). bind_res (PutValue t v) (\<lambda>cs. Ok (cs, sp')))"

definition pop_string :: "Val list \<Rightarrow> (bytes \<times> Val list) res" where
  "pop_string sp = bind_res (pop sp) (\<lambda>(v, sp'). case v of StringVal s \<Rightarrow> Ok (s, sp') | _ \<Rightarrow> Inl Check_failed)"

definition pop_bytes :: "Val list \<Rightarrow> (bytes \<times> Val list) res" where
  "pop_bytes sp = bind_res (pop sp) (\<lambda>(v, sp'). case v of BytesVal s \<Rightarrow> Ok (s, sp') | _ \<Rightarrow> Inl Check_failed)"

fun PutPops :: "ty list \<Rightarrow> Val list \<Rightarrow> (emit_call list \<times> Val list) res" where
  "PutPops [] sp = Ok ([], sp)"
| "PutPops (t # ts) sp = bind_res (PutPop t sp) (\<lambda>(cs, sp). bind_res (PutPops ts sp) (\<lambda>(ds, sp). Ok (cs @ ds, sp)))"

text \<open>An emit to the emitter.\<close>

definition Emit_mill :: "'f outputter \<Rightarrow> Val list \<Rightarrow> ('f outputter \<times> Val list) res" where
  "Emit_mill p sp = (let t = op_type p; n = int (length (ot_index t)) in
     bind_res (check (\<not> ot_index_format t)) (\<lambda>_.
     bind_res (if ot_index t = [] then Ok ([], sp)
       else bind_res (PutPops (ot_index t) sp) (\<lambda>(cs, sp). Ok (CBegin INDEX n # cs @ [CEnd INDEX n], sp))) (\<lambda>(is, sp).
     bind_res (if ot_elem_format t then bind_res (pop_string sp) (\<lambda>(s, sp). Ok ([CPutString s], sp))
       else PutPop (ot_elem t) sp) (\<lambda>(es, sp).
     bind_res (case ot_weight t of
         None \<Rightarrow> Ok ([], sp)
       | Some wt \<Rightarrow> bind_res (PutPop wt sp) (\<lambda>(cs, sp). Ok (CBegin WEIGHT 1 # cs @ [CEnd WEIGHT 1], sp))) (\<lambda>(ws, sp).
     Ok (send (CBegin EMIT 1 # is @ (CBegin ELEMENT 1 # es @ [CEnd ELEMENT 1]) @ ws @ [CEnd EMIT 1]) p, sp))))))"

text \<open>An emit to a file or a process; \<open>open\<close> answers with an error message or a file.\<close>

definition Emit_file :: "(bytes \<Rightarrow> bool \<Rightarrow> string + 'f) \<Rightarrow> ('f \<Rightarrow> bytes \<Rightarrow> int) \<Rightarrow> 'f outputter \<Rightarrow> Val list
    \<Rightarrow> ('f outputter \<times> Val list) res" where
  "Emit_file open write p sp = (let t = op_type p in
     bind_res (check (ot_index_format t)) (\<lambda>_.
     bind_res (pop_string sp) (\<lambda>(name, sp).
     case open name (ot_is_proc t) of
       Inl e \<Rightarrow> Ok (Error e p, sp)
     | Inr f \<Rightarrow>
         bind_res (if ot_elem_format t then pop_string sp
           else bind_res (check (ot_elem t = TyBytes)) (\<lambda>_. pop_bytes sp)) (\<lambda>(b, sp).
         let p = p\<lparr>op_written := op_written p @ [(f, b)]\<rparr>;
             p = (if write f b < 0 then Error ''write error'' p else p) in
         bind_res (check (ot_weight t = None)) (\<lambda>_. Ok (p, sp))))))"

definition Emit :: "(bytes \<Rightarrow> bool \<Rightarrow> string + 'f) \<Rightarrow> ('f \<Rightarrow> bytes \<Rightarrow> int) \<Rightarrow> 'f outputter \<Rightarrow> Val list
    \<Rightarrow> (string option \<times> 'f outputter \<times> Val list) res" where
  "Emit open write p sp =
     (let p = p\<lparr>op_emit_count := op_emit_count p + 1, op_error_msg := None\<rparr>; t = op_type p;
          common = (uses_emitter t \<and> \<not> ot_elem_format t \<and> ot_weight t = None \<and> ot_index t = []) in
      if uses_emitter t \<and> \<not> op_installed p then
        let p = p\<lparr>op_error_msg := Some ''no emitter installed''\<rparr> in Ok (op_error_msg p, p, sp)
      else if common \<and> ot_elem t = TyInt then
        bind_res (pop sp) (\<lambda>(v, sp). case v of IntVal i \<Rightarrow> Ok (None, send [CEmitInt i] p, sp) | _ \<Rightarrow> Inl Check_failed)
      else if common \<and> ot_elem t = TyFloat then
        bind_res (pop sp) (\<lambda>(v, sp). case v of FloatVal d \<Rightarrow> Ok (None, send [CEmitFloat d] p, sp) | _ \<Rightarrow> Inl Check_failed)
      else
        bind_res (if uses_emitter t then Emit_mill p sp else Emit_file open write p sp) (\<lambda>(p, sp).
        Ok (op_error_msg p, p, sp)))"


section \<open>The protocol value of a run-time value\<close>

fun psort :: "('a \<Rightarrow> 'a \<Rightarrow> bool) \<Rightarrow> 'a list \<Rightarrow> 'a list" where
  "psort lt [] = []"
| "psort lt (x # xs) = (let ys = psort lt xs in takeWhile (\<lambda>y. \<not> lt x y) ys @ x # dropWhile (\<lambda>y. \<not> lt x y) ys)"

lemma set_psort [simp]: "set (psort lt xs) = set xs"
proof (induction xs)
  case (Cons x xs)
  have "set (takeWhile P ys) \<union> set (dropWhile P ys) = set ys" for P and ys :: "'a list"
    by (metis set_append takeWhile_dropWhile_id)
  then show ?case using Cons by (auto simp: Let_def)
qed simp

lemma length_psort [simp]: "length (psort lt xs) = length xs"
proof (induction xs)
  case (Cons x xs)
  have "length (takeWhile P ys) + length (dropWhile P ys) = length ys" for P and ys :: "'a list"
    by (metis length_append takeWhile_dropWhile_id)
  then show ?case using Cons by (simp add: Let_def)
qed simp

lemma insert_res_pure:
  "(\<And>y. y \<in> set ys \<Longrightarrow> lt (f x) (f y) = Ok (P x y)) \<Longrightarrow>
    insert_res lt (f x) (map f ys) = Ok (map f (takeWhile (\<lambda>y. \<not> P x y) ys @ x # dropWhile (\<lambda>y. \<not> P x y) ys))"
  by (induction ys) auto

lemma sort_res_pure:
  "(\<And>x y. x \<in> set xs \<Longrightarrow> y \<in> set xs \<Longrightarrow> lt (f x) (f y) = Ok (P x y)) \<Longrightarrow>
    sort_res lt (map f xs) = Ok (map f (psort P xs))"
proof (induction xs)
  case (Cons x xs)
  then show ?case using insert_res_pure [of "psort P xs" lt f x P] by (simp add: Let_def)
qed simp

lemma psort_sorted:
  assumes "distinct (map d xs)"
    and "\<And>x y. x \<in> set xs \<Longrightarrow> y \<in> set xs \<Longrightarrow> x \<noteq> y \<Longrightarrow> lt x y \<or> lt y x"
    and "\<And>x y z. x \<in> set xs \<Longrightarrow> y \<in> set xs \<Longrightarrow> z \<in> set xs \<Longrightarrow> lt x y \<Longrightarrow> lt y z \<Longrightarrow> lt x z"
  shows "sorted_wrt lt (psort lt xs)"
  using assms
proof (induction xs)
  case (Cons x xs)
  let ?ys = "psort lt xs" and ?P = "\<lambda>y. \<not> lt x y"
  have s: "sorted_wrt lt ?ys"
  proof (rule Cons.IH)
    show "distinct (map d xs)" using Cons.prems(1) by simp
    show "lt x y \<or> lt y x" if "x \<in> set xs" "y \<in> set xs" "x \<noteq> y" for x y
      using that Cons.prems(2) [of x y] by simp
    show "lt x z" if "x \<in> set xs" "y \<in> set xs" "z \<in> set xs" "lt x y" "lt y z" for x y z
      using that Cons.prems(3) [of x y z] by simp
  qed
  then have "sorted_wrt lt (takeWhile ?P ?ys @ dropWhile ?P ?ys)" by simp
  note t = this [unfolded sorted_wrt_append]
  have x: "x \<notin> set xs" using Cons.prems(1) by auto
  have sub: "set (takeWhile ?P ?ys) \<subseteq> set xs" "set (dropWhile ?P ?ys) \<subseteq> set xs"
    by (auto dest!: set_takeWhileD set_dropWhileD simp only: set_psort)
  have lo: "lt y x" if "y \<in> set (takeWhile ?P ?ys)" for y
    using that set_takeWhileD [OF that] sub(1) x Cons.prems(2) [of x y] by auto
  have hi: "lt x y" if y: "y \<in> set (dropWhile ?P ?ys)" for y
  proof -
    obtain z zs where z: "dropWhile ?P ?ys = z # zs" "lt x z"
      using y by (cases "dropWhile ?P ?ys") (auto simp: dropWhile_eq_Cons_conv)
    have "y = z \<or> lt z y" using t y z(1) by auto
    then show ?thesis using z sub(2) y Cons.prems(3) [of x z y] by auto
  qed
  have mid: "lt y z" if "y \<in> set (takeWhile ?P ?ys)" "z \<in> set (dropWhile ?P ?ys)" for y z
    using t that by blast
  show ?case unfolding psort.simps Let_def sorted_wrt_append sorted_wrt.simps list.set(2)
    using t lo hi mid by blast
next
  case Nil
  show ?case by simp
qed

lemma sorted_wrt_unique:
  "sorted_wrt lt xs \<Longrightarrow> sorted_wrt lt ys \<Longrightarrow> set xs = set ys \<Longrightarrow>
    (\<And>x y. x \<in> set xs \<Longrightarrow> y \<in> set xs \<Longrightarrow> lt x y \<Longrightarrow> \<not> lt y x) \<Longrightarrow> xs = ys"
proof (induction xs arbitrary: ys)
  case (Cons x xs)
  obtain y ys' where ys: "ys = y # ys'" using Cons.prems(3) by (cases ys) auto
  have "x = y"
  proof (rule ccontr)
    assume "x \<noteq> y"
    then have "y \<in> set xs" "x \<in> set ys'" using Cons.prems(3) ys by auto
    then have "lt x y" "lt y x" using Cons.prems(1,2) ys by simp_all
    then show False using Cons.prems(4) [of x y] \<open>y \<in> set xs\<close> by simp
  qed
  moreover have "x \<notin> set xs" "y \<notin> set ys'"
    using Cons.prems(1,2) Cons.prems(4) [of x x] Cons.prems(4) [of y y] Cons.prems(3) ys by auto
  ultimately have "set xs = set ys'" using Cons.prems(3) ys by auto
  have "xs = ys'"
  proof (rule Cons.IH)
    show "\<not> lt y x" if "x \<in> set xs" "y \<in> set xs" "lt x y" for x y using Cons.prems(4) [of x y] that by simp
  qed (use Cons.prems(1,2) ys \<open>set xs = set ys'\<close> in simp_all)
  then show ?case using \<open>x = y\<close> ys by simp
qed simp

text \<open>The key and the value of a cell of a map without null pointers.\<close>

definition key_at :: "Val hmap \<Rightarrow> nat \<Rightarrow> Val" where
  "key_at m i = the (cell_key (m_base m ! i))"

definition value_at :: "Val hmap \<Rightarrow> nat \<Rightarrow> Val" where
  "value_at m i = the (cell_value (m_base m ! i))"

definition key_order :: "Val hmap \<Rightarrow> nat list" where
  "key_order m = psort (\<lambda>i j. den_less (den (key_at m i)) (den (key_at m j))) [0..<m_occupancy m]"

function pv :: "ty \<Rightarrow> Val \<Rightarrow> pvalue" where
  "pv t v = (case v of
     BoolVal b \<Rightarrow> PBool b
   | IntVal i \<Rightarrow> PInt i
   | UIntVal u \<Rightarrow> PInt u
   | FingerprintVal u \<Rightarrow> PFingerprint u
   | FloatVal d \<Rightarrow> PFloat d
   | TimeVal u \<Rightarrow> PTime u
   | BytesVal s \<Rightarrow> PBytes s
   | StringVal s \<Rightarrow> PString s
   | ArrayVal vs \<Rightarrow> (case t of TyArray et \<Rightarrow> PArray (map (pv et) vs) | _ \<Rightarrow> PArray [])
   | TupleVal _ vs \<Rightarrow> (case t of TyTuple ts \<Rightarrow> PTuple (map (\<lambda>(t, v). pv t v) (zip ts vs)) | _ \<Rightarrow> PTuple [])
   | MapVal m \<Rightarrow> (case t of
       TyMap kt et \<Rightarrow> PMap (concat (map (\<lambda>i. [pv kt (key_at m i), pv et (value_at m i)]) (key_order m)))
     | _ \<Rightarrow> PMap [])
   | ClosureVal a c \<Rightarrow> PInt a)"
  by pat_completeness auto
termination
  by (relation "measure (\<lambda>(t, v). size t)")
    (auto simp: less_Suc_eq_le intro!: size_list_estimation' dest: set_zip_leftD)

declare pv.simps [simp del]

text \<open>The types that can be emitted: no functions, and keys that can be compared.\<close>

fun emit_ty :: "ty \<Rightarrow> bool" where
  "emit_ty (TyArray t) = emit_ty t"
| "emit_ty (TyTuple ts) = list_all emit_ty ts"
| "emit_ty (TyMap a b) = (ordered_ty a \<and> emit_ty a \<and> emit_ty b)"
| "emit_ty TyFunction = False"
| "emit_ty t = True"

lemma good_MapD:
  assumes "good env (TyMap a b) (MapVal m)" "i < m_occupancy m"
  shows "good env a (key_at m i)" "good env b (value_at m i)"
    "cell_key (m_base m ! i) = Some (key_at m i)" "cell_value (m_base m ! i) = Some (value_at m i)"
    "\<not> length (m_base m) \<le> i"
proof -
  have ok: "map_ok (good env a) den (Val_Hash env) m" "list_all (value_entry (good env b)) (entries m)"
    using assms(1) by (simp_all add: good.simps [of env "TyMap a b"])
  obtain k where k: "cell_key (m_base m ! i) = Some k" "good env a k" using map_ok_cell [OF ok(1) assms(2)] by blast
  then show "good env a (key_at m i)" "cell_key (m_base m ! i) = Some (key_at m i)" by (simp_all add: key_at_def)
  have "value_entry (good env b) (cell_entry (m_base m ! i))"
    using ok(2) assms(2) map_ok_lengths(5) [OF ok(1)] entries_nth [OF ok(1) assms(2)] by (metis list_all_length)
  then obtain v where "cell_value (m_base m ! i) = Some v" "good env b v"
    by (cases "cell_value (m_base m ! i)") (auto simp: cell_entry_def)
  then show "good env b (value_at m i)" "cell_value (m_base m ! i) = Some (value_at m i)" by (simp_all add: value_at_def)
  show "\<not> length (m_base m) \<le> i" using map_ok_lengths [OF ok(1)] assms(2) by simp
qed

lemma set_key_order [simp]: "set (key_order m) = {..<m_occupancy m}" "length (key_order m) = m_occupancy m"
  by (auto simp: key_order_def)

lemma MapKeySorter_less:
  assumes "good env (TyMap a b) (MapVal m)" "ordered_ty a" "i < m_occupancy m" "j < m_occupancy m"
  shows "MapKeySorter (Some (key_at m i), i) (Some (key_at m j), j) = Ok (den_less (den (key_at m i)) (den (key_at m j)))"
  using val_order.cmp3_sign [of a env "key_at m i" "key_at m j"] assms good_MapD [OF assms(1)]
  by (auto simp: MapKeySorter_def three_sign_def)

lemma sorted_keys_order:
  assumes "good env (TyMap a b) (MapVal m)" "ordered_ty a"
  shows "sorted_keys m = Ok (key_order m)"
proof -
  have "map_res (\<lambda>i. bind_res (GetKeyByIndex m i) (\<lambda>k. Ok (k, i))) [0..<m_occupancy m] =
      Ok (map (\<lambda>i. (Some (key_at m i), i)) [0..<m_occupancy m])"
    by (rule map_res_Ok) (use good_MapD [OF assms(1)] in \<open>auto simp: GetKeyByIndex_def\<close>)
  moreover have "sort_res MapKeySorter (map (\<lambda>i. (Some (key_at m i), i)) [0..<m_occupancy m]) =
      Ok (map (\<lambda>i. (Some (key_at m i), i)) (key_order m))"
    unfolding key_order_def by (rule sort_res_pure) (use MapKeySorter_less [OF assms] in auto)
  ultimately show ?thesis by (simp add: sorted_keys_def comp_def)
qed

lemma concat_pairs: "concat (map f (concat (map (\<lambda>i. [g i, h i]) is))) = concat (map (\<lambda>i. f (g i) @ f (h i)) is)"
  by (induction "is") auto

lemma length_pairs: "length (concat (map (\<lambda>i. [g i, h i]) is)) = length is * 2"
  by (induction "is") auto

theorem PutValue_calls: "emit_ty t \<Longrightarrow> good env t v \<Longrightarrow> PutValue t v = Ok (calls (pv t v))"
proof (induction t arbitrary: v)
  case (TyArray t)
  then obtain vs where v: "v = ArrayVal vs" "\<And>v. v \<in> set vs \<Longrightarrow> good env t v"
    by (auto simp: good.simps [of env "TyArray t"] list_all_iff split: Val.splits)
  have "map_res (PutValue t) vs = Ok (map (\<lambda>v. calls (pv t v)) vs)" using TyArray v(2) by (intro map_res_Ok) simp
  then show ?case by (simp add: Let_def v(1) PutValue.simps [of "TyArray t"] pv.simps [of "TyArray t"] comp_def)
next
  case (TyTuple ts)
  then obtain vs where v: "v = TupleVal True vs" "length ts = length vs" "\<And>i. i < length vs \<Longrightarrow> good env (ts ! i) (vs ! i)"
    by (auto simp: good.simps [of env "TyTuple ts"] set_zip split: Val.splits) metis
  have "map_res (\<lambda>i. if length vs \<le> i then Inl Out_of_range
      else if i < length ts then PutValue (ts ! i) (vs ! i) else Inl Out_of_range) [0..<length ts] =
      Ok (map (\<lambda>i. calls (pv (ts ! i) (vs ! i))) [0..<length ts])"
    using TyTuple.IH TyTuple.prems(1) v by (intro map_res_Ok) (auto simp: list_all_length)
  moreover have "map (\<lambda>i. calls (pv (ts ! i) (vs ! i))) [0..<length ts] = map calls (map (\<lambda>(t, v). pv t v) (zip ts vs))"
    using v(2) by (intro nth_equalityI) simp_all
  ultimately show ?case using v(1,2) by (simp add: Let_def PutValue.simps [of "TyTuple ts"] pv.simps [of "TyTuple ts"])
next
  case (TyMap a b)
  then obtain m where m: "v = MapVal m" by (auto simp: good.simps [of env "TyMap a b"] split: Val.splits)
  have g: "good env (TyMap a b) (MapVal m)" using TyMap.prems(2) m by simp
  note cell = good_MapD [OF g]
  have "PutValue a (key_at m i) = Ok (calls (pv a (key_at m i)))" "PutValue b (value_at m i) = Ok (calls (pv b (value_at m i)))"
    if "i < m_occupancy m" for i using TyMap.IH TyMap.prems(1) cell(1,2) [OF that] by simp_all
  then have "map_res (\<lambda>i.
        bind_res (GetKeyByIndex m i) (\<lambda>k. bind_res (deref k) (\<lambda>k. bind_res (PutValue a k) (\<lambda>cs.
        bind_res (GetValueByIndex m i) (\<lambda>e. bind_res (deref e) (\<lambda>e. bind_res (PutValue b e) (\<lambda>ds.
        Ok (cs @ ds)))))))) (key_order m) =
      Ok (map (\<lambda>i. calls (pv a (key_at m i)) @ calls (pv b (value_at m i))) (key_order m))"
    using cell(3-5) by (intro map_res_Ok) (auto simp: GetKeyByIndex_def GetValueByIndex_def deref_def)
  then show ?case using sorted_keys_order [OF g] TyMap.prems(1) m
    by (simp add: Let_def PutValue.simps [of "TyMap a b"] pv.simps [of "TyMap a b"] concat_pairs length_pairs)
qed (auto simp: good.simps PutValue.simps pv.simps split: Val.splits)



section \<open>The bytes of a value\<close>

text \<open>The protocol values of a type; strings end at their terminating zero byte, so they must not
  hold one, and minus zero is not kept apart from zero.\<close>

function has_ty :: "ty \<Rightarrow> pvalue \<Rightarrow> bool" where
  "has_ty t p = (case p of
     PBool b \<Rightarrow> t = TyBool
   | PInt i \<Rightarrow> t = TyInt \<or> t = TyUInt
   | PFingerprint u \<Rightarrow> t = TyFingerprint
   | PFloat d \<Rightarrow> t = TyFloat \<and> not_neg_zero d
   | PTime u \<Rightarrow> t = TyTime
   | PBytes s \<Rightarrow> t = TyBytes
   | PString s \<Rightarrow> t = TyString \<and> c_string s
   | PArray ps \<Rightarrow> (case t of TyArray et \<Rightarrow> list_all (has_ty et) ps | _ \<Rightarrow> False)
   | PTuple ps \<Rightarrow> (case t of TyTuple ts \<Rightarrow> length ts = length ps \<and> (\<forall>(t, p) \<in> set (zip ts ps). has_ty t p) | _ \<Rightarrow> False)
   | PMap ps \<Rightarrow> (case t of
       TyMap a b \<Rightarrow> list_all (\<lambda>i. has_ty (if even i then a else b) (ps ! i)) [0..<length ps]
     | _ \<Rightarrow> False))"
  by pat_completeness auto
termination
  by (relation "measure (\<lambda>(t, p). size t)")
    (auto simp: less_Suc_eq_le intro!: size_list_estimation' dest: set_zip_leftD)

declare has_ty.simps [simp del]

definition opens :: "bytes \<Rightarrow> bool" where
  "opens bs \<longleftrightarrow> (\<exists>b r. bs = b # r \<and> unat b < MAP_END \<and> unat b \<noteq> ARRAY_END)"

lemma opens_tag: "k < MAP_END \<Longrightarrow> k \<noteq> ARRAY_END \<Longrightarrow> opens (of_nat k # r)"
  by (simp add: opens_def unat_of_nat tag_defs)

lemma opens_p8: "0 < k \<Longrightarrow> k \<le> TIME1 \<Longrightarrow> opens (p8_enc k v)"
  unfolding p8_enc_def using nbytes_bounds(2) [of v] by (intro opens_tag) (auto simp: tag_defs)

lemma opens_n8: "opens (n8_enc v)"
  unfolding n8_enc_def by (intro opens_tag) (auto simp: tag_defs)

lemma opens_pbytes: "opens (pbytes hc p True)"
proof (cases p)
  case (PBool b)
  then show ?thesis by (simp add: opens_def bool_enc_def tag_defs)
next
  case (PInt i)
  then show ?thesis using opens_p8 [of INTP1 i] opens_n8 [of i] by (simp add: int_enc_def tag_defs)
next
  case (PFingerprint u)
  then show ?thesis using opens_p8 [of FINGERPRINT1 u] by (simp add: tag_defs)
next
  case (PTime u)
  then show ?thesis using opens_p8 [of TIME1 u] by (simp add: tag_defs)
qed (simp_all add: string_enc_def bytes_enc_def float_enc_def opens_def tag_defs)

definition free_pair :: "('a \<Rightarrow> bytes) \<Rightarrow> 'a \<Rightarrow> 'a \<Rightarrow> bool" where
  "free_pair B p q \<longleftrightarrow> (\<forall>x y. B p @ x = B q @ y \<longrightarrow> p = q \<and> x = y)"

lemma free_list:
  assumes "\<And>i. i < length ps \<Longrightarrow> i < length qs \<Longrightarrow> free_pair B (ps ! i) (qs ! i)" "\<And>p. opens (B p)"
    and "e = of_nat ARRAY_END \<or> e = of_nat MAP_END"
    and "concat (map B ps) @ e # x = concat (map B qs) @ e # y"
  shows "ps = qs \<and> x = y"
  using assms(1,4)
proof (induction ps arbitrary: qs)
  have e: "B p @ z \<noteq> e # w" for p z w
    using assms(2) [of p] assms(3) by (auto simp: opens_def tag_defs)
  {
    case Nil
    then show ?case using e by (cases qs) (auto dest: sym)
  next
    case (Cons p ps)
    obtain q qs' where qs: "qs = q # qs'" using Cons.prems(2) e by (cases qs) auto
    have "free_pair B p q" using Cons.prems(1) [of 0] qs by simp
    then have "p = q \<and> concat (map B ps) @ e # x = concat (map B qs') @ e # y"
      using Cons.prems(2) qs by (simp add: free_pair_def)
    moreover have "free_pair B (ps ! i) (qs' ! i)" if "i < length ps" "i < length qs'" for i
      using Cons.prems(1) [of "Suc i"] that qs by simp
    ultimately show ?case using Cons.IH [of qs'] qs by simp
  }
qed

lemma free_tuple:
  "length ps = length qs \<Longrightarrow> (\<And>i. i < length ps \<Longrightarrow> free_pair B (ps ! i) (qs ! i)) \<Longrightarrow>
    concat (map B ps) @ x = concat (map B qs) @ y \<Longrightarrow> ps = qs \<and> x = y"
proof (induction ps qs arbitrary: x y rule: list_induct2)
  case (Cons p ps q qs)
  have "free_pair B p q" using Cons.prems(1) [of 0] by simp
  then have "p = q \<and> concat (map B ps) @ x = concat (map B qs) @ y"
    using Cons.prems(2) by (simp add: free_pair_def)
  moreover have "free_pair B (ps ! i) (qs ! i)" if "i < length ps" for i
    using Cons.prems(1) [of "Suc i"] that by simp
  ultimately show ?case using Cons.IH [of x y] by simp
qed simp

lemma pbytes_free: "has_ty t p \<Longrightarrow> has_ty t q \<Longrightarrow> free_pair (\<lambda>p. pbytes hc p k) p q"
proof (induction t arbitrary: p q k)
  case (TyArray t)
  then obtain ps qs where pq: "p = PArray ps" "q = PArray qs" "list_all (has_ty t) ps" "list_all (has_ty t) qs"
    by (auto simp: has_ty.simps split: pvalue.splits)
  have "ps = qs \<and> x = y" if "concat (map (\<lambda>v. pbytes hc v True) ps) @ of_nat ARRAY_END # x =
      concat (map (\<lambda>v. pbytes hc v True) qs) @ of_nat ARRAY_END # y" for x y
    using TyArray.IH pq(3,4) by (intro free_list [OF _ opens_pbytes _ that]) (auto simp: list_all_length)
  then show ?case by (simp add: free_pair_def pq)
next
  case (TyTuple ts)
  obtain ps qs where pq: "p = PTuple ps" "q = PTuple qs" "length ts = length ps" "length ps = length qs"
      "\<forall>(t, p) \<in> set (zip ts ps). has_ty t p" "\<forall>(t, p) \<in> set (zip ts qs). has_ty t p"
    using TyTuple.prems by (auto simp: has_ty.simps [of "TyTuple ts"] split: pvalue.splits)
  have "has_ty (ts ! i) (ps ! i)" "has_ty (ts ! i) (qs ! i)" if "i < length ps" for i
    using pq(3-6) that by (fastforce simp: set_zip)+
  then have "free_pair (\<lambda>v. pbytes hc v False) (ps ! i) (qs ! i)" if "i < length ps" for i
    using that TyTuple.IH [of "ts ! i"] pq(3) by simp
  then have "ps = qs \<and> x = y" if "concat (map (\<lambda>v. pbytes hc v False) ps) @ x = concat (map (\<lambda>v. pbytes hc v False) qs) @ y" for x y
    by (rule free_tuple [OF pq(4) _ that])
  then show ?case by (auto simp: free_pair_def pq)
next
  case (TyMap a b)
  obtain ps qs where pq: "p = PMap ps" "q = PMap qs"
      "\<And>i. i < length ps \<Longrightarrow> has_ty (if even i then a else b) (ps ! i)"
      "\<And>i. i < length qs \<Longrightarrow> has_ty (if even i then a else b) (qs ! i)"
    using TyMap.prems by (auto simp: has_ty.simps [of "TyMap a b"] list_all_iff split: pvalue.splits)
  have "ps = qs \<and> x = y" if "concat (map (\<lambda>v. pbytes hc v True) ps) @ of_nat MAP_END # x =
      concat (map (\<lambda>v. pbytes hc v True) qs) @ of_nat MAP_END # y" for x y
  proof (rule free_list [OF _ opens_pbytes _ that])
    show "free_pair (\<lambda>v. pbytes hc v True) (ps ! i) (qs ! i)" if "i < length ps" "i < length qs" for i
      using TyMap.IH pq(3,4) [of i] that by (cases "even i") auto
  qed simp
  note elems = this
  show ?case unfolding free_pair_def
  proof (intro allI impI)
    fix x y assume "pbytes hc p k @ x = pbytes hc q k @ y"
    then have "int_enc (of_nat (length ps)) @ concat (map (\<lambda>v. pbytes hc v True) ps) @ of_nat MAP_END # x =
        int_enc (of_nat (length qs)) @ concat (map (\<lambda>v. pbytes hc v True) qs) @ of_nat MAP_END # y" by (simp add: pq)
    from int_c.prefix_free [OF TrueI TrueI this] show "p = q \<and> x = y" using elems [of x y] pq by simp
  qed
qed (auto simp: free_pair_def has_ty.simps split: pvalue.splits
    dest!: bool_c.prefix_free [OF TrueI TrueI] int_c.prefix_free [OF TrueI TrueI] bytes_c.prefix_free [OF TrueI TrueI]
      fingerprint_c.prefix_free [OF TrueI TrueI] time_c.prefix_free [OF TrueI TrueI]
    dest: string_c.prefix_free float_c.prefix_free)

text \<open>The protocol value shows what the run-time value stands for, and nothing else.\<close>

definition den_pairs :: "Val hmap \<Rightarrow> (denot \<times> denot) list" where
  "den_pairs m = map (\<lambda>i. (den (key_at m i), den (value_at m i))) (key_order m)"

lemma den_alist_at:
  assumes "good env (TyMap a b) (MapVal m)"
  shows "den_alist den m = map (\<lambda>i. (Some (den (key_at m i)), Some (den (value_at m i)))) [0..<m_occupancy m]"
proof -
  have ok: "map_ok (good env a) den (Val_Hash env) m" using assms by (simp add: good.simps [of env "TyMap a b"])
  show ?thesis unfolding den_alist_def
    by (rule nth_equalityI)
      (use map_ok_lengths(5) [OF ok] entries_nth [OF ok] good_MapD [OF assms] in \<open>auto simp: cell_entry_def\<close>)
qed

lemma den_less_facts:
  assumes "ordered_ty t"
  shows "good env t x \<Longrightarrow> good env t y \<Longrightarrow> den_less (den x) (den y) \<Longrightarrow> \<not> den_less (den y) (den x)"
    and "good env t x \<Longrightarrow> good env t y \<Longrightarrow> den x \<noteq> den y \<Longrightarrow> den_less (den x) (den y) \<or> den_less (den y) (den x)"
    and "good env t x \<Longrightarrow> good env t y \<Longrightarrow> good env t z \<Longrightarrow> den_less (den x) (den y) \<Longrightarrow> den_less (den y) (den z)
      \<Longrightarrow> den_less (den x) (den z)"
  using val_order.cmp3_sign [of t env x y] val_order.lt_trans [of t env x y z] assms
  by (auto simp: three_sign_def)

lemma den_pairs_sorted:
  assumes "good env (TyMap a b) (MapVal m)" "ordered_ty a"
  shows "sorted_wrt (\<lambda>x y. den_less (fst x) (fst y)) (den_pairs m)"
proof -
  have ok: "map_ok (good env a) den (Val_Hash env) m" using assms by (simp add: good.simps [of env "TyMap a b"])
  note g = good_MapD(1) [OF assms(1)]
  have "distinct (map (\<lambda>i. Some (den (key_at m i))) [0..<m_occupancy m])"
    using distinct_den_alist [OF ok] by (simp add: den_alist_at [OF assms(1)] comp_def)
  then have d: "distinct (map (\<lambda>i. den (key_at m i)) [0..<m_occupancy m])" by (simp add: distinct_map inj_on_def)
  have "sorted_wrt (\<lambda>i j. den_less (den (key_at m i)) (den (key_at m j))) (key_order m)"
    unfolding key_order_def
  proof (rule psort_sorted [OF d])
    show "den_less (den (key_at m i)) (den (key_at m j)) \<or> den_less (den (key_at m j)) (den (key_at m i))"
      if "i \<in> set [0..<m_occupancy m]" "j \<in> set [0..<m_occupancy m]" "i \<noteq> j" for i j
    proof (rule den_less_facts(2) [OF assms(2) g g])
      show "den (key_at m i) \<noteq> den (key_at m j)" using d that by (auto simp: distinct_map dest: inj_onD)
    qed (use that in simp_all)
    show "den_less (den (key_at m i)) (den (key_at m k))"
      if "i \<in> set [0..<m_occupancy m]" "j \<in> set [0..<m_occupancy m]" "k \<in> set [0..<m_occupancy m]"
        "den_less (den (key_at m i)) (den (key_at m j))" "den_less (den (key_at m j)) (den (key_at m k))" for i j k
      using den_less_facts(3) [OF assms(2) g g g, of i j k] that by simp
  qed
  then show ?thesis by (simp add: den_pairs_def sorted_wrt_map)
qed

lemma den_MapVal_pairs:
  assumes "good env (TyMap a b) (MapVal m)" "good env (TyMap a b) (MapVal m')" "ordered_ty a"
  shows "den (MapVal m) = den (MapVal m') \<longleftrightarrow> den_pairs m = den_pairs m'"
proof -
  have s: "set (den_alist den m) = map_prod Some Some ` set (den_pairs m)" if "good env (TyMap a b) (MapVal m)" for m
    by (auto simp: den_alist_at [OF that] den_pairs_def image_image)
  have inj: "inj (map_prod Some Some)" by (auto simp: inj_def)
  have "den (MapVal m) = den (MapVal m') \<longleftrightarrow> set (den_pairs m) = set (den_pairs m')"
    using inj_image_eq_iff [OF inj] by (simp add: fset_of_list.rep_eq fset_eq_iff [symmetric] s [OF assms(1)] s [OF assms(2)] flip: fset_inject)
  also have "\<dots> \<longleftrightarrow> den_pairs m = den_pairs m'"
  proof
    assume eq: "set (den_pairs m) = set (den_pairs m')"
    show "den_pairs m = den_pairs m'"
    proof (rule sorted_wrt_unique [OF den_pairs_sorted [OF assms(1,3)] den_pairs_sorted [OF assms(2,3)] eq])
      fix x y assume "x \<in> set (den_pairs m)" "y \<in> set (den_pairs m)" "den_less (fst x) (fst y)"
      then show "\<not> den_less (fst y) (fst x)"
        using den_less_facts(1) [OF assms(3) good_MapD(1) [OF assms(1)] good_MapD(1) [OF assms(1)]]
        by (auto simp: den_pairs_def)
    qed
  qed simp
  finally show ?thesis .
qed

lemma concat_pairs_eq:
  "concat (map (\<lambda>i. [g i, h i]) is) = concat (map (\<lambda>i. [g' i, h' i]) js) \<longleftrightarrow>
    map (\<lambda>i. (g i, h i)) is = map (\<lambda>i. (g' i, h' i)) js"
proof (induction "is" arbitrary: js)
  case (Cons i "is")
  then show ?case by (cases js) auto
qed auto

lemma map_eq_transfer:
  assumes "\<And>x y. x \<in> set xs \<Longrightarrow> y \<in> set ys \<Longrightarrow> f x = f' y \<longleftrightarrow> g x = g' y"
  shows "map f xs = map f' ys \<longleftrightarrow> map g xs = map g' ys"
  using assms by (auto simp: list_eq_iff_nth_eq)

lemma pv_den: "emit_ty t \<Longrightarrow> good env t v \<Longrightarrow> good env t w \<Longrightarrow> pv t v = pv t w \<longleftrightarrow> den v = den w"
proof (induction t arbitrary: v w)
  case (TyArray t)
  then obtain vs ws where v: "v = ArrayVal vs" "w = ArrayVal ws" "list_all (good env t) vs" "list_all (good env t) ws"
    by (auto simp: good.simps [of env "TyArray t"] split: Val.splits)
  have "map (pv t) vs = map (pv t) ws \<longleftrightarrow> map den vs = map den ws"
    by (rule map_eq_transfer) (use TyArray v in \<open>auto simp: list_all_iff\<close>)
  then show ?case by (simp add: v(1,2) pv.simps [of "TyArray t"])
next
  case (TyTuple ts)
  then obtain vs ws where v: "v = TupleVal True vs" "w = TupleVal True ws" "length ts = length vs" "length ts = length ws"
      "\<And>i. i < length ts \<Longrightarrow> good env (ts ! i) (vs ! i) \<and> good env (ts ! i) (ws ! i)"
    by (auto simp: good.simps [of env "TyTuple ts"] set_zip split: Val.splits) metis
  have "pv (ts ! i) (vs ! i) = pv (ts ! i) (ws ! i) \<longleftrightarrow> den (vs ! i) = den (ws ! i)" if "i < length ts" for i
    using TyTuple.IH [of "ts ! i"] TyTuple.prems(1) v(5) [OF that] that by (simp add: list_all_length)
  then show ?case using v(3,4) by (simp add: v(1,2) pv.simps [of "TyTuple ts"] list_eq_iff_nth_eq)
next
  case (TyMap a b)
  then obtain m m' where m: "v = MapVal m" "w = MapVal m'" by (auto simp: good.simps [of env "TyMap a b"] split: Val.splits)
  have g: "good env (TyMap a b) (MapVal m)" "good env (TyMap a b) (MapVal m')" using TyMap.prems m by simp_all
  have "pv (TyMap a b) v = pv (TyMap a b) w \<longleftrightarrow>
      map (\<lambda>i. (pv a (key_at m i), pv b (value_at m i))) (key_order m) =
      map (\<lambda>i. (pv a (key_at m' i), pv b (value_at m' i))) (key_order m')"
    by (simp add: m pv.simps [of "TyMap a b"] concat_pairs_eq)
  also have "\<dots> \<longleftrightarrow> den_pairs m = den_pairs m'" unfolding den_pairs_def
    by (rule map_eq_transfer) (use TyMap.IH TyMap.prems(1) good_MapD [OF g(1)] good_MapD [OF g(2)] in simp)
  finally show ?case using den_MapVal_pairs [OF g] TyMap.prems(1) m by simp
qed (auto simp: good.simps pv.simps split: Val.splits)

fun no_nul :: "emit_call \<Rightarrow> bool" where
  "no_nul (CPutString s) = c_string s"
| "no_nul _ = True"

lemma nth_pairs:
  "i < length is * 2 \<Longrightarrow> concat (map (\<lambda>i. [g i, h i]) is) ! i = (if even i then g (is ! (i div 2)) else h (is ! (i div 2)))"
proof (induction "is" arbitrary: i)
  case (Cons j "is")
  consider "i = 0" | "i = 1" | k where "i = Suc (Suc k)" by (metis One_nat_def not0_implies_Suc)
  then show ?case
  proof cases
    case 3
    then show ?thesis using Cons.IH [of k] Cons.prems by simp
  qed simp_all
qed simp

lemma has_ty_pv: "emit_ty t \<Longrightarrow> good env t v \<Longrightarrow> list_all no_nul (calls (pv t v)) \<Longrightarrow> has_ty t (pv t v)"
proof (induction t arbitrary: v)
  case (TyArray t)
  then obtain vs where v: "v = ArrayVal vs" "\<And>v. v \<in> set vs \<Longrightarrow> good env t v"
    by (auto simp: good.simps [of env "TyArray t"] list_all_iff split: Val.splits)
  then have "list_all no_nul (calls (pv t v))" if "v \<in> set vs" for v
    using TyArray.prems(3) that by (auto simp: pv.simps [of "TyArray t"] list_all_iff)
  then show ?case using TyArray.IH TyArray.prems(1) v
    by (simp add: pv.simps [of "TyArray t"] has_ty.simps [of "TyArray t"] list_all_iff)
next
  case (TyTuple ts)
  then obtain vs where v: "v = TupleVal True vs" "length ts = length vs" "\<And>i. i < length vs \<Longrightarrow> good env (ts ! i) (vs ! i)"
    by (auto simp: good.simps [of env "TyTuple ts"] set_zip split: Val.splits) metis
  let ?ps = "map (\<lambda>(t, v). pv t v) (zip ts vs)"
  have n: "?ps ! i = pv (ts ! i) (vs ! i)" if "i < length vs" for i using that v(2) by simp
  have "list_all (\<lambda>p. list_all no_nul (calls p)) ?ps"
    using TyTuple.prems(3) v(1) by (simp add: pv.simps [of "TyTuple ts"] list_all_iff)
  then have "list_all no_nul (calls (pv (ts ! i) (vs ! i)))" if "i < length vs" for i
    using n [OF that] that v(2) by (simp add: list_all_length)
  then have "has_ty (ts ! i) (pv (ts ! i) (vs ! i))" if "i < length vs" for i
    using TyTuple.IH [of "ts ! i"] TyTuple.prems(1) v(2,3) that by (simp add: list_all_length)
  then show ?case using v(2) by (auto simp: v(1) pv.simps [of "TyTuple ts"] has_ty.simps [of "TyTuple ts"] set_zip)
next
  case (TyMap a b)
  then obtain m where m: "v = MapVal m" by (auto simp: good.simps [of env "TyMap a b"] split: Val.splits)
  have g: "good env (TyMap a b) (MapVal m)" using TyMap.prems(2) m by simp
  let ?ps = "concat (map (\<lambda>i. [pv a (key_at m i), pv b (value_at m i)]) (key_order m))"
  have n: "list_all no_nul (calls (pv a (key_at m i)))" "list_all no_nul (calls (pv b (value_at m i)))" if "i < m_occupancy m" for i
    using TyMap.prems(3) that by (auto simp: m pv.simps [of "TyMap a b"] concat_pairs list_all_iff)
  have "has_ty (if even i then a else b) (?ps ! i)" if "i < length ?ps" for i
  proof -
    have i: "i < length (key_order m) * 2" using that by (simp only: length_pairs)
    then have "key_order m ! (i div 2) < m_occupancy m"
      using nth_mem [of "i div 2" "key_order m"] by (simp del: nth_mem)
    then show ?thesis using TyMap.IH TyMap.prems(1) n good_MapD [OF g] by (simp add: nth_pairs [OF i])
  qed
  then show ?case by (simp add: m pv.simps [of "TyMap a b"] has_ty.simps [of "TyMap a b"] list_all_iff)
qed (auto simp: good.simps pv.simps has_ty.simps Szl_Form.plain_float_def not_neg_zero_def split: Val.splits)


section \<open>Properties\<close>

definition emittable :: "rt_env \<Rightarrow> ty \<Rightarrow> Val \<Rightarrow> bool" where
  "emittable env t v \<longleftrightarrow> emit_ty t \<and> good env t v"

lemma PutPops_calls:
  "list_all2 (emittable env) ts vs \<Longrightarrow> PutPops ts (vs @ sp) = Ok (concat (map calls (map2 pv ts vs)), sp)"
  by (induction ts vs rule: list_all2_induct)
    (auto simp: PutPop_def pop_def emittable_def PutValue_calls)

definition emit_of :: "output_type \<Rightarrow> Val list \<Rightarrow> Val \<Rightarrow> Val list \<Rightarrow> emit" where
  "emit_of t vs e ws = \<lparr>e_index = map2 pv (ot_index t) vs, e_elem = pv (ot_elem t) e,
     e_weight = (case ot_weight t of None \<Rightarrow> None | Some wt \<Rightarrow> (case ws of [] \<Rightarrow> None | w # _ \<Rightarrow> Some (pv wt w)))\<rparr>"

lemma Emit_mill_calls:
  assumes "\<not> ot_index_format (op_type p)" "\<not> ot_elem_format (op_type p)"
    and "list_all2 (emittable env) (ot_index (op_type p)) vs" "emittable env (ot_elem (op_type p)) e"
    and "case ot_weight (op_type p) of None \<Rightarrow> ws = [] | Some wt \<Rightarrow> (case ws of [w] \<Rightarrow> emittable env wt w | _ \<Rightarrow> False)"
  shows "Emit_mill p (vs @ e # ws @ rest) = Ok (send (emit_calls (emit_of (op_type p) vs e ws)) p, rest)"
proof -
  have v: "ot_index (op_type p) = [] \<longleftrightarrow> vs = []" "map2 pv (ot_index (op_type p)) vs = [] \<longleftrightarrow> vs = []"
    "length (map2 pv (ot_index (op_type p)) vs) = length (ot_index (op_type p))"
    using list_all2_lengthD [OF assms(3)] by (auto simp: zip_eq_Nil_iff)
  have e: "PutPop (ot_elem (op_type p)) (e # sp) = Ok (calls (pv (ot_elem (op_type p)) e), sp)" for sp
    using assms(4) by (simp add: PutPop_def pop_def emittable_def PutValue_calls [of _ env])
  show ?thesis
  proof (cases "ot_weight (op_type p)")
    case None
    then show ?thesis using assms(1,2,5) v PutPops_calls [OF assms(3)] e
      by (auto simp: Emit_mill_def emit_of_def emit_calls_def group_calls_def Let_def)
  next
    case (Some wt)
    then obtain w where w: "ws = [w]" "emittable env wt w"
      using assms(5) by (auto split: list.splits)
    then have "PutPop wt (w # sp) = Ok (calls (pv wt w), sp)" for sp
      by (simp add: PutPop_def pop_def emittable_def PutValue_calls [of _ env])
    then show ?thesis using assms(1,2) v PutPops_calls [OF assms(3)] e Some w
      by (auto simp: Emit_mill_def emit_of_def emit_calls_def group_calls_def Let_def)
  qed
qed

lemma bind_res_ret [simp]: "bind_res r Ok = r"
  by (cases r) auto

lemma fold_res_fun: "fold_res f [] = Ok" "fold_res f (x # xs) = (\<lambda>s. bind_res (f x s) (fold_res f xs))"
  by (simp_all add: fun_eq_iff)

lemma run_shorthand:
  "run hc W [CEmitInt i] s = run hc W (emit_calls \<lparr>e_index = [], e_elem = PInt i, e_weight = None\<rparr>) s"
  "run hc W [CEmitFloat d] s = run hc W (emit_calls \<lparr>e_index = [], e_elem = PFloat d, e_weight = None\<rparr>) s"
  by (simp_all add: emit_calls_def group_calls_def EmitInt_def EmitFloat_def fold_res_fun)

text \<open>The call protocol as public/emitterinterface.h documents it, where the length of a map is the
  number of its entries, each a key and a value, and the calls as they are sent: \<open>PutValue\<close> opens and
  closes a map with the number of keys and values together.\<close>

primrec documented :: "pvalue \<Rightarrow> emit_call list" where
  "documented (PBool b) = [CPutBool b]"
| "documented (PBytes p) = [CPutBytes p]"
| "documented (PInt i) = [CPutInt i]"
| "documented (PFloat f) = [CPutFloat f]"
| "documented (PFingerprint fp) = [CPutFingerprint fp]"
| "documented (PString s) = [CPutString s]"
| "documented (PTime t) = [CPutTime t]"
| "documented (PArray vs) = CBegin ARRAY (int (length vs)) # concat (map documented vs) @ [CEnd ARRAY (int (length vs))]"
| "documented (PMap vs) = CBegin MAP (int (length vs div 2)) # concat (map documented vs) @ [CEnd MAP (int (length vs div 2))]"
| "documented (PTuple vs) = CBegin TUPLE (int (length vs)) # concat (map documented vs) @ [CEnd TUPLE (int (length vs))]"

definition documented_group :: "GroupType \<Rightarrow> pvalue list \<Rightarrow> emit_call list" where
  "documented_group g vs = CBegin g (int (length vs)) # concat (map documented vs) @ [CEnd g (int (length vs))]"

definition documented_emit :: "emit \<Rightarrow> emit_call list" where
  "documented_emit m = CBegin EMIT 1 # (if e_index m = [] then [] else documented_group INDEX (e_index m)) @
     documented_group ELEMENT [e_elem m] @
     (case e_weight m of None \<Rightarrow> [] | Some w \<Rightarrow> documented_group WEIGHT [w]) @ [CEnd EMIT 1]"

fun as_sent :: "emit_call \<Rightarrow> emit_call" where
  "as_sent (CBegin g n) = CBegin g (if g = MAP then 2 * n else n)"
| "as_sent (CEnd g n) = CEnd g (if g = MAP then 2 * n else n)"
| "as_sent c = c"

lemma sent_concat:
  "(\<And>v. v \<in> set vs \<Longrightarrow> calls v = map as_sent (documented v)) \<Longrightarrow> concat (map calls vs) = map as_sent (concat (map documented vs))"
  by (induction vs) simp_all

lemma sent_value: "emit_ty t \<Longrightarrow> good env t v \<Longrightarrow> calls (pv t v) = map as_sent (documented (pv t v))"
proof (induction t arbitrary: v)
  case (TyArray t)
  then obtain vs where v: "v = ArrayVal vs" "\<And>v. v \<in> set vs \<Longrightarrow> good env t v"
    by (auto simp: good.simps [of env "TyArray t"] list_all_iff split: Val.splits)
  have "concat (map calls (map (pv t) vs)) = map as_sent (concat (map documented (map (pv t) vs)))"
    using TyArray v(2) by (intro sent_concat) auto
  then show ?case by (simp add: v(1) pv.simps [of "TyArray t"])
next
  case (TyTuple ts)
  then obtain vs where v: "v = TupleVal True vs" "length ts = length vs" "\<And>i. i < length vs \<Longrightarrow> good env (ts ! i) (vs ! i)"
    by (auto simp: good.simps [of env "TyTuple ts"] set_zip split: Val.splits) metis
  let ?ps = "map (\<lambda>(t, v). pv t v) (zip ts vs)"
  have "concat (map calls ?ps) = map as_sent (concat (map documented ?ps))"
    using TyTuple.IH TyTuple.prems(1) v(2,3) by (intro sent_concat) (auto simp: set_zip list_all_length)
  then show ?case by (simp add: v(1) pv.simps [of "TyTuple ts"])
next
  case (TyMap a b)
  then obtain m where m: "v = MapVal m" by (auto simp: good.simps [of env "TyMap a b"] split: Val.splits)
  have g: "good env (TyMap a b) (MapVal m)" using TyMap.prems(2) m by simp
  note cell = good_MapD [OF g]
  let ?ps = "concat (map (\<lambda>i. [pv a (key_at m i), pv b (value_at m i)]) (key_order m))"
  have "concat (map calls ?ps) = map as_sent (concat (map documented ?ps))"
    using TyMap.IH TyMap.prems(1) cell by (intro sent_concat) auto
  moreover have "length ?ps = length (key_order m) * 2" by (rule length_pairs)
  ultimately show ?case by (simp add: m pv.simps [of "TyMap a b"])
qed (auto simp: good.simps pv.simps split: Val.splits)

lemma sent_group:
  "(\<And>v. v \<in> set vs \<Longrightarrow> calls v = map as_sent (documented v)) \<Longrightarrow> g \<noteq> MAP \<Longrightarrow> group_calls g vs = map as_sent (documented_group g vs)"
  by (simp add: group_calls_def documented_group_def sent_concat)

lemma sent_emit:
  assumes "list_all2 (emittable env) (ot_index ot) vs" "emittable env (ot_elem ot) e"
    and "case ot_weight ot of None \<Rightarrow> ws = [] | Some wt \<Rightarrow> (case ws of [w] \<Rightarrow> emittable env wt w | _ \<Rightarrow> False)"
  shows "emit_calls (emit_of ot vs e ws) = map as_sent (documented_emit (emit_of ot vs e ws))"
proof -
  have i: "calls x = map as_sent (documented x)" if "x \<in> set (map2 pv (ot_index ot) vs)" for x
    using that assms(1) sent_value by (force simp: list_all2_conv_all_nth emittable_def set_zip)
  have x: "calls (pv (ot_elem ot) e) = map as_sent (documented (pv (ot_elem ot) e))"
    using assms(2) sent_value by (auto simp: emittable_def)
  show ?thesis
  proof (cases "ot_weight ot")
    case None
    then show ?thesis using assms(3) sent_group [of "map2 pv (ot_index ot) vs" INDEX] i sent_group [of "[pv (ot_elem ot) e]" ELEMENT] x
      by (auto simp: emit_of_def emit_calls_def documented_emit_def)
  next
    case (Some wt)
    then obtain w where w: "ws = [w]" "emittable env wt w" using assms(3) by (cases ws) (auto split: list.splits)
    then have "calls (pv wt w) = map as_sent (documented (pv wt w))" using sent_value by (auto simp: emittable_def)
    then show ?thesis using Some w sent_group [of "map2 pv (ot_index ot) vs" INDEX] i sent_group [of "[pv (ot_elem ot) e]" ELEMENT] x
        sent_group [of "[pv wt w]" WEIGHT]
      by (auto simp: emit_of_def emit_calls_def documented_emit_def)
  qed
qed


definition demo_output :: "ty \<Rightarrow> output_type" where
  "demo_output t = \<lparr>ot_is_proc = False, ot_index_format = False, ot_elem_format = False,
     ot_index = [TyString], ot_elem = t, ot_weight = None\<rparr>"




end
