(* ===== verification/Szl_Toposort.thy ===== *)
theory Szl_Toposort
  imports Szl_Prelude "HOL-Library.AList"
begin

text \<open>
  \<open>TopologicalSorter\<close> of protoc\_plugin/topologicalsorter-inl.h, which orders the message types
  of a protocol file for the Sawzall code generator.  The two ordered maps are association lists
  without duplicate keys; they are iterated in the order of their keys.

  The traversal visits every node after its predecessors, visits all nodes exactly if the graph
  has no cycle, and reports a cycle exactly otherwise.
\<close>

section \<open>The sorter\<close>

record 'a sorter =
  ts_started :: bool
  ts_edges :: "('a \<times> 'a list) list"
  ts_indegrees :: "('a \<times> int) list"
  ts_next :: "'a list"
  ts_fringe :: "'a list"
  ts_visited :: nat

definition new_sorter :: "'a sorter" where
  "new_sorter = \<lparr>ts_started = False, ts_edges = [], ts_indegrees = [], ts_next = [], ts_fringe = [], ts_visited = 0\<rparr>"

text \<open>\<open>operator[]\<close> of the two maps.\<close>

definition out_nodes :: "'a sorter \<Rightarrow> 'a \<Rightarrow> 'a list" where
  "out_nodes s n = (case map_of (ts_edges s) n of None \<Rightarrow> [] | Some ts \<Rightarrow> ts)"

definition indegree :: "'a sorter \<Rightarrow> 'a \<Rightarrow> int" where
  "indegree s n = (case map_of (ts_indegrees s) n of None \<Rightarrow> 0 | Some d \<Rightarrow> d)"

definition AddNode :: "'a \<Rightarrow> 'a sorter \<Rightarrow> 'a sorter res" where
  "AddNode node s = bind_res (check (\<not> ts_started s)) (\<lambda>_.
     Ok (if map_of (ts_edges s) node = None
         then s\<lparr>ts_edges := AList.update node [] (ts_edges s), ts_indegrees := AList.update node 0 (ts_indegrees s)\<rparr>
         else s))"

definition AddEdge :: "'a \<Rightarrow> 'a \<Rightarrow> 'a sorter \<Rightarrow> 'a sorter res" where
  "AddEdge src dst s = bind_res (check (\<not> ts_started s)) (\<lambda>_.
     bind_res (AddNode src s) (\<lambda>s. bind_res (AddNode dst s) (\<lambda>s.
     let from_edges = out_nodes s src in
     Ok (if dst \<in> set from_edges then s
         else s\<lparr>ts_edges := AList.update src (from_edges @ [dst]) (ts_edges s),
                ts_indegrees := AList.update dst (indegree s dst + 1) (ts_indegrees s)\<rparr>))))"

definition InitTraversal :: "'a::linorder sorter \<Rightarrow> 'a sorter" where
  "InitTraversal s =
     (if ts_started s then s
      else let sources = filter (\<lambda>n. indegree s n = 0) (sort (map fst (ts_indegrees s))) in
           s\<lparr>ts_next := ts_next s @ sources, ts_fringe := ts_fringe s @ sources, ts_started := True\<rparr>)"

fun visit_out :: "'a list \<Rightarrow> 'a sorter \<Rightarrow> 'a sorter" where
  "visit_out [] s = s"
| "visit_out (t # ts) s =
     (let s = s\<lparr>ts_indegrees := AList.update t (indegree s t - 1) (ts_indegrees s)\<rparr> in
      visit_out ts (if indegree s t = 0 then s\<lparr>ts_next := ts_next s @ [t], ts_fringe := ts_fringe s @ [t]\<rparr> else s))"

text \<open>The results are the node, if \<open>GetNext\<close> returns true, and \<open>*cyclic\<close>.\<close>

definition GetNext :: "'a::linorder sorter \<Rightarrow> 'a option \<times> bool \<times> 'a sorter" where
  "GetNext s = (let s = InitTraversal s in
     case ts_next s of
       [] \<Rightarrow> (None, ts_visited s \<noteq> length (ts_edges s), s)
     | n # q \<Rightarrow> (Some n, False,
         visit_out (out_nodes s n) (s\<lparr>ts_next := q, ts_visited := ts_visited s + 1, ts_fringe := []\<rparr>)))"

definition GetCurrentFringe :: "'a::linorder sorter \<Rightarrow> 'a list \<times> 'a sorter" where
  "GetCurrentFringe s = (let s = InitTraversal s in (ts_fringe s, s))"

text \<open>The loop \<open>while (sorter.GetNext(&node, &cyclic))\<close>, with fuel; one more than the number of
  nodes is enough.\<close>

fun traverse :: "nat \<Rightarrow> 'a::linorder sorter \<Rightarrow> ('a list \<times> bool) option" where
  "traverse 0 s = None"
| "traverse (Suc k) s = (case GetNext s of
     (None, cyclic, s) \<Rightarrow> Some ([], cyclic)
   | (Some n, _, s) \<Rightarrow> map_option (apfst ((#) n)) (traverse k s))"


section \<open>Graphs\<close>

definition nodes :: "'a sorter \<Rightarrow> 'a set" where
  "nodes s = fst ` set (ts_edges s)"

definition edges :: "'a sorter \<Rightarrow> ('a \<times> 'a) set" where
  "edges s = {(a, b). b \<in> set (out_nodes s a)}"

text \<open>A graph under construction, and during a traversal with the nodes \<open>V\<close> visited.\<close>

definition graph_ok :: "'a sorter \<Rightarrow> 'a set \<Rightarrow> bool" where
  "graph_ok s V \<longleftrightarrow> distinct (map fst (ts_edges s)) \<and> distinct (map fst (ts_indegrees s))
     \<and> fst ` set (ts_indegrees s) = nodes s \<and> (\<forall>n. distinct (out_nodes s n) \<and> set (out_nodes s n) \<subseteq> nodes s)
     \<and> (\<forall>n. indegree s n = int (card {a \<in> nodes s - V. (a, n) \<in> edges s}))"

lemma nodes_out: "n \<notin> nodes s \<Longrightarrow> out_nodes s n = []"
proof -
  assume "n \<notin> nodes s"
  then have "map_of (ts_edges s) n = None" by (simp add: nodes_def map_of_eq_None_iff)
  then show ?thesis by (simp add: out_nodes_def)
qed

lemma edges_nodes: "graph_ok s V \<Longrightarrow> (a, b) \<in> edges s \<Longrightarrow> a \<in> nodes s \<and> b \<in> nodes s"
  using nodes_out [of a s] by (cases "a \<in> nodes s") (auto simp: graph_ok_def edges_def)

lemma finite_nodes [simp]: "finite (nodes s)"
  by (simp add: nodes_def)

lemma finite_edges: "graph_ok s V \<Longrightarrow> finite (edges s)"
proof -
  assume "graph_ok s V"
  then have "edges s \<subseteq> nodes s \<times> nodes s" using edges_nodes by fastforce
  then show ?thesis by (rule finite_subset) simp
qed

lemma update_sel:
  "out_nodes (s\<lparr>ts_edges := AList.update n ts (ts_edges s), ts_indegrees := D\<rparr>) = (out_nodes s)(n := ts)"
  "indegree (s\<lparr>ts_edges := E, ts_indegrees := AList.update n d (ts_indegrees s)\<rparr>) = (indegree s)(n := d)"
  "indegree (s\<lparr>ts_indegrees := AList.update n d (ts_indegrees s)\<rparr>) = (indegree s)(n := d)"
  by (auto simp: out_nodes_def indegree_def update_conv fun_eq_iff)

lemma new_sorter_ok: "graph_ok new_sorter {}" "nodes new_sorter = {}" "edges new_sorter = {}" "\<not> ts_started new_sorter"
  "ts_next new_sorter = []" "ts_visited new_sorter = 0"
  by (simp_all add: graph_ok_def new_sorter_def nodes_def edges_def out_nodes_def indegree_def)

lemma AddNode_ok:
  assumes "graph_ok s {}" "\<not> ts_started s"
  shows "\<exists>s'. AddNode n s = Ok s' \<and> graph_ok s' {} \<and> nodes s' = insert n (nodes s) \<and> edges s' = edges s \<and>
    ts_started s' = ts_started s \<and> ts_next s' = ts_next s \<and> ts_visited s' = ts_visited s"
proof (cases "map_of (ts_edges s) n")
  case None
  let ?s = "s\<lparr>ts_edges := AList.update n [] (ts_edges s), ts_indegrees := AList.update n 0 (ts_indegrees s)\<rparr>"
  have n: "n \<notin> nodes s" using None by (simp add: nodes_def map_of_eq_None_iff)
  have e: "out_nodes ?s = out_nodes s" using nodes_out [OF n] by (auto simp: update_sel fun_eq_iff)
  have "\<not> (\<exists>a. (a, n) \<in> edges s)" using edges_nodes [OF assms(1)] n by blast
  then have "indegree s n = 0" using assms(1) by (simp add: graph_ok_def)
  then have d: "indegree ?s = indegree s" by (auto simp: update_sel fun_eq_iff)
  have nn: "nodes ?s = insert n (nodes s)" by (auto simp: nodes_def dom_update)
  have ee: "edges ?s = edges s" by (simp add: edges_def e)
  have "{a \<in> insert n (nodes s). (a, b) \<in> edges s} = {a \<in> nodes s. (a, b) \<in> edges s}" for b
    using edges_nodes [OF assms(1)] by auto
  then have "graph_ok ?s {}" using assms(1) unfolding graph_ok_def e d ee nn
    by (auto simp: distinct_update dom_update nodes_def)
  then show ?thesis using None assms(2) nn ee by (simp add: AddNode_def)
next
  case (Some ts)
  then have "n \<in> nodes s" by (auto simp: nodes_def dest!: map_of_SomeD intro!: image_eqI [of _ fst])
  then show ?thesis using Some assms by (simp add: AddNode_def insert_absorb)
qed

lemma AddEdge_ok:
  assumes "graph_ok s {}" "\<not> ts_started s"
  shows "\<exists>s'. AddEdge a b s = Ok s' \<and> graph_ok s' {} \<and> nodes s' = insert a (insert b (nodes s)) \<and>
    edges s' = insert (a, b) (edges s) \<and> ts_started s' = ts_started s \<and> ts_next s' = ts_next s \<and> ts_visited s' = ts_visited s"
proof -
  obtain s1 where s1: "AddNode a s = Ok s1" "graph_ok s1 {}" "nodes s1 = insert a (nodes s)" "edges s1 = edges s"
      "\<not> ts_started s1" "ts_next s1 = ts_next s" "ts_visited s1 = ts_visited s"
    using AddNode_ok [OF assms, of a] assms(2) by auto
  obtain s2 where s2: "AddNode b s1 = Ok s2" "graph_ok s2 {}" "nodes s2 = insert a (insert b (nodes s))" "edges s2 = edges s"
      "\<not> ts_started s2" "ts_next s2 = ts_next s" "ts_visited s2 = ts_visited s"
    using AddNode_ok [OF s1(2,5), of b] s1 by (auto simp: insert_commute)
  show ?thesis
  proof (cases "b \<in> set (out_nodes s2 a)")
    case True
    then have "(a, b) \<in> edges s" using s2(4) by (auto simp: edges_def)
    then show ?thesis using True s1 s2 assms(2) by (simp add: AddEdge_def insert_absorb)
  next
    case False
    let ?s = "s2\<lparr>ts_edges := AList.update a (out_nodes s2 a @ [b]) (ts_edges s2),
        ts_indegrees := AList.update b (indegree s2 b + 1) (ts_indegrees s2)\<rparr>"
    have ab: "a \<in> nodes s2" "b \<in> nodes s2" using s2(3) by simp_all
    have o: "out_nodes ?s = (out_nodes s2)(a := out_nodes s2 a @ [b])" by (simp add: update_sel)
    have n: "nodes ?s = nodes s2" using ab by (auto simp: nodes_def dom_update)
    have e: "edges ?s = insert (a, b) (edges s2)" by (auto simp: edges_def o split: if_splits)
    have d: "indegree ?s = (indegree s2)(b := indegree s2 b + 1)" by (simp add: update_sel)
    have "{x \<in> nodes s2. x = a \<or> (x, b) \<in> edges s2} = insert a {x \<in> nodes s2. (x, b) \<in> edges s2}" using ab by auto
    then have "card {x \<in> nodes s2. x = a \<or> (x, b) \<in> edges s2} = Suc (card {x \<in> nodes s2. (x, b) \<in> edges s2})"
      using False by (simp add: edges_def)
    then have "graph_ok ?s {}" using s2(2) ab False unfolding graph_ok_def n e o d
      by (auto simp: distinct_update dom_update)
    then show ?thesis using False s1(1) s2 assms(2) n e by (simp add: AddEdge_def)
  qed
qed


section \<open>The traversal\<close>

lemma visit_out_sel [simp]:
  "ts_edges (visit_out ts s) = ts_edges s" "ts_started (visit_out ts s) = ts_started s" "ts_visited (visit_out ts s) = ts_visited s"
  by (induction ts arbitrary: s) (simp_all add: Let_def)

lemma visit_out_spec:
  "distinct ts \<Longrightarrow> indegree (visit_out ts s) = (\<lambda>t. indegree s t - of_bool (t \<in> set ts)) \<and>
    ts_next (visit_out ts s) = ts_next s @ filter (\<lambda>t. indegree s t = 1) ts \<and>
    (distinct (map fst (ts_indegrees s)) \<longrightarrow> distinct (map fst (ts_indegrees (visit_out ts s)))) \<and>
    fst ` set (ts_indegrees (visit_out ts s)) = fst ` set (ts_indegrees s) \<union> set ts"
proof (induction ts arbitrary: s)
  case (Cons t ts)
  let ?s = "s\<lparr>ts_indegrees := AList.update t (indegree s t - 1) (ts_indegrees s)\<rparr>"
  let ?s' = "if indegree ?s t = 0 then ?s\<lparr>ts_next := ts_next ?s @ [t], ts_fringe := ts_fringe ?s @ [t]\<rparr> else ?s"
  have d: "indegree ?s' = (indegree s)(t := indegree s t - 1)"
    by (auto simp: indegree_def update_conv fun_eq_iff)
  have n: "ts_next ?s' = ts_next s @ (if indegree s t = 1 then [t] else [])"
    by (auto simp: update_sel)
  have k: "ts_indegrees ?s' = AList.update t (indegree s t - 1) (ts_indegrees s)" by simp
  have f: "filter (\<lambda>u. ((indegree s)(t := indegree s t - 1)) u = 1) ts = filter (\<lambda>u. indegree s u = 1) ts"
    using Cons.prems by (intro filter_cong) auto
  have IH: "indegree (visit_out ts ?s') = (\<lambda>u. indegree ?s' u - of_bool (u \<in> set ts)) \<and>
    ts_next (visit_out ts ?s') = ts_next ?s' @ filter (\<lambda>u. indegree ?s' u = 1) ts \<and>
    (distinct (map fst (ts_indegrees ?s')) \<longrightarrow> distinct (map fst (ts_indegrees (visit_out ts ?s')))) \<and>
    fst ` set (ts_indegrees (visit_out ts ?s')) = fst ` set (ts_indegrees ?s') \<union> set ts"
    using Cons.IH [of ?s'] Cons.prems by simp
  have v: "visit_out (t # ts) s = visit_out ts ?s'" by (simp add: Let_def)
  show ?case unfolding v using IH Cons.prems unfolding d n k f
    by (auto simp: fun_eq_iff distinct_update dom_update)
qed simp

definition trav :: "'a sorter \<Rightarrow> 'a list \<Rightarrow> bool" where
  "trav s V \<longleftrightarrow> graph_ok s (set V) \<and> ts_started s \<and> distinct V \<and> set V \<subseteq> nodes s \<and> ts_visited s = length V
     \<and> distinct (ts_next s) \<and> set (ts_next s) = {n \<in> nodes s - set V. indegree s n = 0}
     \<and> (\<forall>i < length V. \<forall>a. (a, V ! i) \<in> edges s \<longrightarrow> a \<in> set (take i V))"

lemma InitTraversal_trav:
  assumes "graph_ok s {}" "\<not> ts_started s" "ts_next s = []" "ts_visited s = 0"
  shows "trav (InitTraversal s) []" "nodes (InitTraversal s) = nodes s" "edges (InitTraversal s) = edges s"
    "ts_started (InitTraversal s)"
proof -
  have sel: "nodes (InitTraversal s) = nodes s" "out_nodes (InitTraversal s) = out_nodes s"
      "indegree (InitTraversal s) = indegree s" "ts_edges (InitTraversal s) = ts_edges s"
      "ts_indegrees (InitTraversal s) = ts_indegrees s"
    using assms(2) by (simp_all add: InitTraversal_def Let_def nodes_def out_nodes_def indegree_def fun_eq_iff)
  then show "nodes (InitTraversal s) = nodes s" "edges (InitTraversal s) = edges s" by (simp_all add: edges_def)
  then have "graph_ok (InitTraversal s) {}" using assms(1) by (simp add: graph_ok_def sel)
  moreover have "distinct (map fst (ts_indegrees s))" "fst ` set (ts_indegrees s) = nodes s" using assms(1) by (simp_all add: graph_ok_def)
  ultimately show "trav (InitTraversal s) []" "ts_started (InitTraversal s)"
    using assms(2-4) by (auto simp: trav_def sel) (auto simp: InitTraversal_def Let_def)
qed

lemma card_pred:
  assumes "finite N" "n \<in> N - V"
  shows "int (card {a \<in> N - insert n V. (a, t) \<in> E}) = int (card {a \<in> N - V. (a, t) \<in> E}) - of_bool ((n, t) \<in> E)"
proof (cases "(n, t) \<in> E")
  case True
  have "{a \<in> N - V. (a, t) \<in> E} = insert n {a \<in> N - insert n V. (a, t) \<in> E}" using assms True by auto
  then show ?thesis using assms(1) True by simp
next
  case False
  then have "{a \<in> N - insert n V. (a, t) \<in> E} = {a \<in> N - V. (a, t) \<in> E}" by auto
  then show ?thesis using False by simp
qed

lemma trav_step:
  assumes t: "trav s V" and q: "ts_next s = n # q"
  defines "s' \<equiv> visit_out (out_nodes s n) (s\<lparr>ts_next := q, ts_visited := ts_visited s + 1, ts_fringe := []\<rparr>)"
  shows "trav s' (V @ [n])" "nodes s' = nodes s" "edges s' = edges s" "n \<in> nodes s - set V"
proof -
  let ?s = "s\<lparr>ts_next := q, ts_visited := ts_visited s + 1, ts_fringe := []\<rparr>"
  have g: "graph_ok s (set V)" using t by (simp add: trav_def)
  have sel: "indegree ?s = indegree s" "out_nodes ?s = out_nodes s" by (simp_all add: indegree_def out_nodes_def fun_eq_iff)
  have dis: "distinct (out_nodes s n)" and sub: "set (out_nodes s n) \<subseteq> nodes s" using g by (simp_all add: graph_ok_def)
  note v = visit_out_spec [OF dis, of ?s, folded s'_def, unfolded sel]
  have o: "out_nodes s' = out_nodes s" by (simp add: s'_def out_nodes_def fun_eq_iff)
  show ne: "nodes s' = nodes s" "edges s' = edges s" by (simp_all add: nodes_def edges_def o) (simp add: s'_def)
  show n: "n \<in> nodes s - set V" using t q by (auto simp: trav_def)
  have n0: "indegree s n = 0" using t q by (auto simp: trav_def)
  have deg: "indegree s u = int (card {a \<in> nodes s - set V. (a, u) \<in> edges s})" for u using g by (simp add: graph_ok_def)
  have e: "u \<in> set (out_nodes s n) \<longleftrightarrow> (n, u) \<in> edges s" for u by (simp add: edges_def)
  have deg': "indegree s' u = int (card {a \<in> nodes s - insert n (set V). (a, u) \<in> edges s})" for u
    using v card_pred [OF finite_nodes n, of u "edges s"] deg [of u] by (simp add: e)
  have g': "graph_ok s' (set (V @ [n]))" unfolding graph_ok_def ne o
    using g v deg' sub by (auto simp: graph_ok_def s'_def)
  have pos: "0 < indegree s u" if "(n, u) \<in> edges s" for u
  proof -
    have "n \<in> {a \<in> nodes s - set V. (a, u) \<in> edges s}" using n that by simp
    then show ?thesis using deg [of u] finite_nodes [of s] by (auto simp: card_gt_0_iff)
  qed
  have nn: "(n, n) \<notin> edges s" using pos [of n] n0 by auto
  have old: "set (ts_next s) = {u \<in> nodes s - set V. indegree s u = 0}" "distinct (ts_next s)" using t by (simp_all add: trav_def)
  have nxt: "ts_next s' = q @ filter (\<lambda>u. indegree s u = 1) (out_nodes s n)" using v by simp
  have visited_deg: "u \<notin> set V" if "(n, u) \<in> edges s" for u
  proof
    assume "u \<in> set V"
    then obtain i where "i < length V" "u = V ! i" by (auto simp: in_set_conv_nth)
    then have "n \<in> set (take i V)" using t that by (auto simp: trav_def)
    then show False using n by (auto dest: in_set_takeD)
  qed
  have set': "set (ts_next s') = {u \<in> nodes s - insert n (set V). indegree s' u = 0}"
  proof -
    have "u \<in> set (ts_next s') \<longleftrightarrow> u \<in> nodes s - insert n (set V) \<and> indegree s' u = 0" for u
    proof (cases "(n, u) \<in> edges s")
      case True
      then have "u \<notin> set q" using old(1) q pos by force
      moreover have "u \<in> nodes s" "u \<noteq> n" using True edges_nodes [OF g] nn by auto
      ultimately show ?thesis using True v visited_deg [OF True] by (auto simp: nxt e)
    next
      case False
      then have "indegree s' u = indegree s u" using v by (simp add: e)
      moreover have "u \<in> set q \<longleftrightarrow> u \<in> set (ts_next s) \<and> u \<noteq> n" using old(2) q by auto
      ultimately show ?thesis using False old(1) by (auto simp: nxt e)
    qed
    then show ?thesis by blast
  qed
  have dis': "distinct (ts_next s')"
  proof -
    have "u \<notin> set q" if "u \<in> set (out_nodes s n)" for u using old(1) q pos [of u] that by (force simp: e)
    then show ?thesis using old(2) q dis by (auto simp: nxt)
  qed
  have pred: "a \<in> set V" if "(a, n) \<in> edges s" for a
  proof -
    have "{a \<in> nodes s - set V. (a, n) \<in> edges s} = {}" using deg [of n] n0 finite_nodes [of s] by simp
    then show ?thesis using that edges_nodes [OF g that] by auto
  qed
  have order: "\<forall>i < length (V @ [n]). \<forall>a. (a, (V @ [n]) ! i) \<in> edges s \<longrightarrow> a \<in> set (take i (V @ [n]))"
    using t pred by (auto simp: trav_def nth_append less_Suc_eq)
  have "ts_started s'" "ts_visited s' = length (V @ [n])" using t by (simp_all add: s'_def trav_def)
  then show "trav s' (V @ [n])" using g' t n set' dis' order unfolding trav_def ne by auto
qed

lemma GetNext_started: "ts_started s \<Longrightarrow> InitTraversal s = s"
  by (simp add: InitTraversal_def)

definition topo_order :: "('a \<times> 'a) set \<Rightarrow> 'a list \<Rightarrow> bool" where
  "topo_order E xs \<longleftrightarrow> distinct xs \<and> (\<forall>i < length xs. \<forall>a. (a, xs ! i) \<in> E \<longrightarrow> a \<in> set (take i xs))"

lemma topo_order_acyclic:
  assumes "topo_order E xs" "snd ` E \<subseteq> set xs"
  shows "acyclic E"
proof -
  have inj: "xs ! i = xs ! j \<Longrightarrow> i < length xs \<Longrightarrow> j < length xs \<Longrightarrow> i = j" for i j
    using assms(1) by (simp add: topo_order_def nth_eq_iff_index_eq)
  have one: "\<exists>i j. i < j \<and> j < length xs \<and> a = xs ! i \<and> b = xs ! j" if ab: "(a, b) \<in> E" for a b
  proof -
    have "b \<in> set xs" using assms(2) ab by force
    then obtain j where j: "j < length xs" "b = xs ! j" by (auto simp: in_set_conv_nth)
    then have "a \<in> set (take j xs)" using assms(1) ab by (auto simp: topo_order_def)
    then obtain i where "i < j" "a = xs ! i" by (auto simp: in_set_conv_nth)
    then show ?thesis using j by blast
  qed
  have "\<exists>i j. i < j \<and> j < length xs \<and> a = xs ! i \<and> b = xs ! j" if "(a, b) \<in> E\<^sup>+" for a b
    using that
  proof (induction rule: trancl_induct)
    case (step b c)
    then show ?case using one [OF step(2)] inj by (metis order.strict_trans)
  qed (rule one)
  then show ?thesis using inj by (fastforce simp: acyclic_def)
qed

lemma stuck_cyclic:
  assumes "finite E" "x \<in> U" "\<And>u. u \<in> U \<Longrightarrow> \<exists>a \<in> U. (a, u) \<in> E"
  shows "\<not> acyclic E"
proof
  assume "acyclic E"
  then have "wf E" using finite_acyclic_wf [OF assms(1)] by simp
  then obtain z where "z \<in> U" "\<And>y. (y, z) \<in> E \<Longrightarrow> y \<notin> U" using assms(2) by (metis wfE_min)
  then show False using assms(3) by blast
qed

lemma traverse_trav:
  "trav s V \<Longrightarrow> card (nodes s - set V) < k \<Longrightarrow>
    \<exists>xs cyclic. traverse k s = Some (xs, cyclic) \<and> topo_order (edges s) (V @ xs) \<and> set (V @ xs) \<subseteq> nodes s
      \<and> (cyclic \<longleftrightarrow> \<not> acyclic (edges s)) \<and> (\<not> cyclic \<longrightarrow> set (V @ xs) = nodes s)"
proof (induction k arbitrary: s V)
  case (Suc k)
  have i: "InitTraversal s = s" using Suc.prems(1) by (simp add: trav_def GetNext_started)
  show ?case
  proof (cases "ts_next s")
    case Nil
    have t: "graph_ok s (set V)" "distinct V" "set V \<subseteq> nodes s" "ts_visited s = length V"
      "\<And>u. u \<in> nodes s - set V \<Longrightarrow> indegree s u \<noteq> 0" "topo_order (edges s) V"
      using Suc.prems(1) Nil by (auto simp: trav_def topo_order_def)
    have len: "length (ts_edges s) = card (nodes s)"
      using t(1) by (simp add: graph_ok_def nodes_def) (metis distinct_card length_map list.set_map)
    have c: "length V = card (nodes s) \<longleftrightarrow> set V = nodes s"
      using t(2,3) by (metis card_subset_eq distinct_card finite_nodes)
    have "acyclic (edges s) \<longleftrightarrow> set V = nodes s"
    proof
      assume a: "acyclic (edges s)"
      show "set V = nodes s"
      proof (rule ccontr)
        assume "set V \<noteq> nodes s"
        then obtain x where x: "x \<in> nodes s - set V" using t(3) by blast
        have "\<exists>a \<in> nodes s - set V. (a, u) \<in> edges s" if "u \<in> nodes s - set V" for u
          using t(5) [OF that] t(1) by (auto simp: graph_ok_def card_eq_0_iff)
        then show False using stuck_cyclic [OF finite_edges [OF t(1)] x] a by blast
      qed
    next
      assume "set V = nodes s"
      then show "acyclic (edges s)" using topo_order_acyclic [OF t(6)] edges_nodes [OF t(1)] by fastforce
    qed
    then show ?thesis using Nil i t c len by (auto simp: GetNext_def)
  next
    case (Cons n q)
    let ?s = "visit_out (out_nodes s n) (s\<lparr>ts_next := q, ts_visited := ts_visited s + 1, ts_fringe := []\<rparr>)"
    note st = trav_step [OF Suc.prems(1) Cons]
    have "card (nodes s - insert n (set V)) < card (nodes s - set V)"
      using st(4) by (intro psubset_card_mono) auto
    then have "card (nodes ?s - set (V @ [n])) < k" using Suc.prems(2) unfolding st(2) by simp
    from Suc.IH [OF st(1) this] obtain xs cyclic where r: "traverse k ?s = Some (xs, cyclic)"
        "topo_order (edges s) (V @ n # xs)" "set (V @ n # xs) \<subseteq> nodes s" "cyclic \<longleftrightarrow> \<not> acyclic (edges s)"
        "\<not> cyclic \<longrightarrow> set (V @ n # xs) = nodes s"
      unfolding st(2,3) by auto
    then show ?thesis using Cons i by (intro exI [of _ "n # xs"] exI [of _ cyclic]) (simp add: GetNext_def)
  qed
qed simp


section \<open>Properties\<close>

text \<open>A graph is built by any sequence of \<open>AddNode\<close> and \<open>AddEdge\<close>.\<close>

definition add_op :: "'a + 'a \<times> 'a \<Rightarrow> 'a sorter \<Rightarrow> 'a sorter res" where
  "add_op op = (case op of Inl n \<Rightarrow> AddNode n | Inr (a, b) \<Rightarrow> AddEdge a b)"

definition op_edges :: "('a + 'a \<times> 'a) list \<Rightarrow> ('a \<times> 'a) set" where
  "op_edges ops = {e. Inr e \<in> set ops}"

definition op_nodes :: "('a + 'a \<times> 'a) list \<Rightarrow> 'a set" where
  "op_nodes ops = {n. Inl n \<in> set ops} \<union> Field (op_edges ops)"

lemma build_graph:
  "graph_ok s {} \<Longrightarrow> \<not> ts_started s \<Longrightarrow> \<exists>s'. fold_res add_op ops s = Ok s' \<and> graph_ok s' {} \<and> \<not> ts_started s' \<and>
    nodes s' = nodes s \<union> op_nodes ops \<and> edges s' = edges s \<union> op_edges ops \<and> ts_next s' = ts_next s \<and> ts_visited s' = ts_visited s"
proof (induction ops arbitrary: s)
  case (Cons op ops)
  let ?N = "case op of Inl n \<Rightarrow> {n} | Inr (a, b) \<Rightarrow> {a, b}" and ?E = "case op of Inl n \<Rightarrow> {} | Inr e \<Rightarrow> {e}"
  obtain s1 where s1: "add_op op s = Ok s1" "graph_ok s1 {}" "\<not> ts_started s1" "nodes s1 = nodes s \<union> ?N" "edges s1 = edges s \<union> ?E"
      "ts_next s1 = ts_next s" "ts_visited s1 = ts_visited s"
  proof (cases op)
    case (Inl n)
    then show ?thesis using that AddNode_ok [OF Cons.prems, of n] Cons.prems(2) by (auto simp: add_op_def)
  next
    case (Inr e)
    then show ?thesis using that AddEdge_ok [OF Cons.prems, of "fst e" "snd e"] Cons.prems(2)
      by (cases e) (auto simp: add_op_def)
  qed
  have "op_nodes (op # ops) = ?N \<union> op_nodes ops" "op_edges (op # ops) = ?E \<union> op_edges ops"
    by (cases op; auto simp: op_nodes_def op_edges_def Field_def Domain.simps Range.simps)+
  then show ?case using Cons.IH [OF s1(2,3)] s1 by (auto simp: Un_assoc)
qed (auto simp: op_nodes_def op_edges_def)

lemma sorter_correct:
  fixes ops :: "('a::linorder + 'a \<times> 'a) list"
  shows "\<exists>s xs cyclic. fold_res add_op ops new_sorter = Ok s \<and> traverse (Suc (card (op_nodes ops))) s = Some (xs, cyclic) \<and>
    topo_order (op_edges ops) xs \<and> set xs \<subseteq> op_nodes ops \<and> cyclic = (\<not> acyclic (op_edges ops)) \<and>
    (cyclic \<or> set xs = op_nodes ops)"
proof -
  obtain s where s: "fold_res add_op ops new_sorter = Ok s" "graph_ok s {}" "\<not> ts_started s" "nodes s = op_nodes ops"
      "edges s = op_edges ops" "ts_next s = []" "ts_visited s = 0"
    using build_graph [OF new_sorter_ok(1,4), of ops] by (auto simp: new_sorter_ok)
  note i = InitTraversal_trav [OF s(2,3,6,7)]
  have "traverse (Suc k) s = traverse (Suc k) (InitTraversal s)" for k
    by (simp add: GetNext_def GetNext_started i(4))
  then show ?thesis
    using traverse_trav [OF i(1), of "Suc (card (op_nodes ops))"] s(1,4,5) i(2,3)
    by (auto simp: Let_def)
qed

text \<open>C15. Topological sorting: whatever nodes and edges were added, in whatever order, adding does
  not fail, the loop over \<open>GetNext\<close> ends after at most one call for every node and one more, it
  visits nodes of the graph only, each at most once and after all its predecessors, it ends with
  \<open>cyclic\<close> exactly if the graph has a cycle, and without it all the nodes were visited.\<close>

theorem topological_sort:
  fixes ops :: "('a::linorder + 'a \<times> 'a) list"
  shows "\<exists>s xs cyclic. fold_res add_op ops new_sorter = Ok s \<and> traverse (Suc (card (op_nodes ops))) s = Some (xs, cyclic) \<and>
    topo_order (op_edges ops) xs \<and> set xs \<subseteq> op_nodes ops \<and> cyclic = (\<not> acyclic (op_edges ops)) \<and>
    (cyclic \<or> set xs = op_nodes ops)"
  by (rule sorter_correct)

end
