(* ===== verification/Szl_Circularity.thy ===== *)
theory Szl_Circularity
  imports Szl_Toposort
begin

text \<open>
  \<open>CircularityDetector\<close> of protoc\_plugin/circularity\_detector-inl.h: Tarjan's strongly connected
  components with an explicit control stack.  A \<open>MapValue\<close> is named by its key; its attributes are
  functions of the key.  The edges of a node are a set of pointers, iterated in the order of their
  addresses, here a list without duplicates in the order of addition; the numbers of the components
  depend on it, what is proved of the answers does not.

  The component numbers after a traversal are equal exactly for nodes that reach each other, and
  \<open>HasCycle\<close> is true exactly if the graph has a cycle, whatever edges and queries came before.
\<close>

section \<open>The detector\<close>

record 'a detector =
  cd_graph :: "('a \<times> 'a list) list"
  cd_component_id :: "'a \<Rightarrow> int"
  cd_need_traversal :: bool
  cd_untraversed :: nat
  cd_has_cycle :: bool

definition new_detector :: "'a detector" where
  "new_detector = \<lparr>cd_graph = [], cd_component_id = (\<lambda>_. 0), cd_need_traversal = False, cd_untraversed = 0, cd_has_cycle = False\<rparr>"

definition edges_of :: "('a \<times> 'a list) list \<Rightarrow> 'a \<Rightarrow> 'a list" where
  "edges_of g n = (case map_of g n of None \<Rightarrow> [] | Some ts \<Rightarrow> ts)"

definition Get :: "'a \<Rightarrow> 'a detector \<Rightarrow> 'a detector" where
  "Get key d =
     (if map_of (cd_graph d) key = None
      then let k = cd_untraversed d + 1 in
        d\<lparr>cd_graph := AList.update key [] (cd_graph d), cd_untraversed := k,
          cd_component_id := (cd_component_id d)(key := - int k)\<rparr>
      else d)"

definition cd_AddEdge :: "'a \<Rightarrow> 'a \<Rightarrow> 'a detector \<Rightarrow> 'a detector" where
  "cd_AddEdge src dst d =
     (if src = dst then d\<lparr>cd_has_cycle := True\<rparr>
      else let d = Get dst (Get src d); es = edges_of (cd_graph d) src in
        d\<lparr>cd_graph := AList.update src (if dst \<in> set es then es else es @ [dst]) (cd_graph d),
          cd_need_traversal := True\<rparr>)"

text \<open>The two stacks, with the attributes of the nodes.  A frame is the least depth-first number
  reached, the node, and the edges from \<open>here\<close> to \<open>end\<close>; the top is the first element.\<close>

record 'a search =
  sr_control :: "(nat \<times> 'a \<times> 'a list) list"
  sr_value :: "'a list"
  sr_count :: nat
  sr_components :: int
  sr_nontrivial :: bool
  sr_comp :: "'a \<Rightarrow> int"
  sr_dfn :: "'a \<Rightarrow> nat"

definition new_search :: "'a search" where
  "new_search = \<lparr>sr_control = [], sr_value = [], sr_count = 0, sr_components = 0, sr_nontrivial = False,
     sr_comp = (\<lambda>_. 0), sr_dfn = (\<lambda>_. 0)\<rparr>"

definition sr_Push :: "('a \<Rightarrow> 'a list) \<Rightarrow> 'a \<Rightarrow> 'a search \<Rightarrow> 'a search" where
  "sr_Push out n s = (let k = sr_count s + 1 in
     s\<lparr>sr_value := n # sr_value s, sr_count := k, sr_dfn := (sr_dfn s)(n := k), sr_control := (k, n, out n) # sr_control s\<rparr>)"

fun pop_until :: "'a \<Rightarrow> int \<Rightarrow> 'a list \<Rightarrow> ('a \<Rightarrow> int) \<Rightarrow> ('a list \<times> ('a \<Rightarrow> int)) res" where
  "pop_until v k [] cid = Inl Out_of_range"
| "pop_until v k (x # xs) cid = (let cid = cid(x := k) in if x = v then Ok (xs, cid) else pop_until v k xs cid)"

definition PopComponent :: "'a search \<Rightarrow> 'a search res" where
  "PopComponent s = (case sr_control s of
     [] \<Rightarrow> Inl Out_of_range
   | (mn, top_node, rest) # fs \<Rightarrow>
       (case sr_value s of
          [] \<Rightarrow> Inl Out_of_range
        | x # xs \<Rightarrow>
            let k = sr_components s + 1 in
            bind_res (pop_until top_node k (sr_value s) (sr_comp s)) (\<lambda>(vs, cid).
            Ok (s\<lparr>sr_components := k, sr_nontrivial := (sr_nontrivial s \<or> x \<noteq> top_node), sr_value := vs, sr_comp := cid\<rparr>))))"

text \<open>One round of the loop of \<open>FindComponents\<close>, and the loop with fuel.\<close>

definition find_step :: "('a \<Rightarrow> 'a list) \<Rightarrow> 'a search \<Rightarrow> 'a search res" where
  "find_step out s = (case sr_control s of
     [] \<Rightarrow> Inl Out_of_range
   | (mn, v, here) # fs \<Rightarrow>
       (case here of
          [] \<Rightarrow>
            bind_res (if mn = sr_dfn s v then PopComponent s else Ok s) (\<lambda>s.
            Ok (s\<lparr>sr_control := (case fs of [] \<Rightarrow> [] | (mn', p, here') # fs' \<Rightarrow> (min mn' mn, p, here') # fs')\<rparr>))
        | w # here' \<Rightarrow>
            let s = s\<lparr>sr_control := (mn, v, here') # fs\<rparr> in
            Ok (if sr_comp s w = 0 then
                  if sr_dfn s w = 0 then sr_Push out w s
                  else s\<lparr>sr_control := (min mn (sr_dfn s w), v, here') # fs\<rparr>
                else s)))"

fun find_loop :: "('a \<Rightarrow> 'a list) \<Rightarrow> nat \<Rightarrow> 'a search \<Rightarrow> 'a search res" where
  "find_loop out 0 s = Inl Diverges"
| "find_loop out (Suc k) s = bind_res (find_step out s) (\<lambda>s. if sr_control s = [] then Ok s else find_loop out k s)"

definition find_fuel :: "('a \<times> 'a list) list \<Rightarrow> nat" where
  "find_fuel g = Suc (\<Sum>(n, ts)\<leftarrow>g. length ts + 2)"

definition FindComponents :: "('a \<times> 'a list) list \<Rightarrow> 'a \<Rightarrow> 'a search \<Rightarrow> 'a search res" where
  "FindComponents g root s = find_loop (edges_of g) (find_fuel g) (sr_Push (edges_of g) root s)"

definition Traverse :: "('a::linorder \<times> 'a list) list \<Rightarrow> 'a search res" where
  "Traverse g = fold_res (\<lambda>n s. if sr_comp s n = 0 then FindComponents g n s else Ok s) (sort (map fst g)) new_search"

definition TraverseIfNecessary :: "'a::linorder detector \<Rightarrow> 'a detector res" where
  "TraverseIfNecessary d =
     (if cd_need_traversal d then
        bind_res (Traverse (cd_graph d)) (\<lambda>s.
        Ok (d\<lparr>cd_has_cycle := (cd_has_cycle d \<or> sr_nontrivial s), cd_need_traversal := False, cd_untraversed := 0,
              cd_component_id := sr_comp s\<rparr>))
      else Ok d)"

definition IsCircular :: "'a::linorder \<Rightarrow> 'a \<Rightarrow> 'a detector \<Rightarrow> (bool \<times> 'a detector) res" where
  "IsCircular left right d =
     bind_res (TraverseIfNecessary d) (\<lambda>d. let d = Get right (Get left d) in
     Ok (cd_component_id d left = cd_component_id d right, d))"

definition HasCycle :: "'a::linorder detector \<Rightarrow> (bool \<times> 'a detector) res" where
  "HasCycle d = bind_res (TraverseIfNecessary d) (\<lambda>d. Ok (cd_has_cycle d, d))"

definition GetComponentId :: "'a::linorder \<Rightarrow> 'a detector \<Rightarrow> (int \<times> 'a detector) res" where
  "GetComponentId node d =
     bind_res (TraverseIfNecessary d) (\<lambda>d. let d = Get node d in Ok (cd_component_id d node, d))"


section \<open>The invariant of the search\<close>

definition arcs :: "('a \<Rightarrow> 'a list) \<Rightarrow> ('a \<times> 'a) set" where
  "arcs out = {(a, b). b \<in> set (out a)}"

definition mutual :: "('a \<times> 'a) set \<Rightarrow> 'a \<Rightarrow> 'a \<Rightarrow> bool" where
  "mutual E a b \<longleftrightarrow> (a, b) \<in> E\<^sup>* \<and> (b, a) \<in> E\<^sup>*"

text \<open>Numbers, the value stack, and the components found so far.\<close>

definition search_core :: "'a set \<Rightarrow> ('a \<Rightarrow> 'a list) \<Rightarrow> 'a search \<Rightarrow> bool" where
  "search_core N out s \<longleftrightarrow>
     (\<forall>n. sr_dfn s n \<noteq> 0 \<longrightarrow> n \<in> N) \<and> (\<forall>n. sr_dfn s n \<le> sr_count s) \<and>
     set (sr_value s) = {n. sr_dfn s n \<noteq> 0 \<and> sr_comp s n = 0} \<and>
     sorted_wrt (\<lambda>a b. sr_dfn s b < sr_dfn s a) (sr_value s) \<and>
     (\<forall>n. sr_comp s n \<noteq> 0 \<longrightarrow> sr_dfn s n \<noteq> 0) \<and>
     (\<forall>u w. sr_comp s u \<noteq> 0 \<longrightarrow> w \<in> set (out u) \<longrightarrow> sr_comp s w \<noteq> 0) \<and>
     (\<forall>u w. sr_comp s u \<noteq> 0 \<longrightarrow> (sr_comp s w = sr_comp s u \<longleftrightarrow> mutual (arcs out) u w)) \<and>
     (\<forall>u. 0 \<le> sr_comp s u \<and> sr_comp s u \<le> sr_components s) \<and>
     (sr_nontrivial s \<longleftrightarrow> (\<exists>u w. u \<noteq> w \<and> sr_comp s u \<noteq> 0 \<and> sr_comp s w = sr_comp s u))"

text \<open>The frames of the control stack, the top one first; \<open>hi\<close> bounds the numbers of the nodes that
  belong to the first frame.\<close>

definition frame_ok :: "('a \<Rightarrow> 'a list) \<Rightarrow> 'a list \<Rightarrow> ('a \<Rightarrow> nat) \<Rightarrow> ('a \<Rightarrow> int) \<Rightarrow> nat \<Rightarrow> nat \<Rightarrow> 'a \<Rightarrow> 'a list \<Rightarrow> bool" where
  "frame_ok out vs dfn cid hi mn v here \<longleftrightarrow>
     v \<in> set vs \<and> dfn v < hi \<and> mn \<le> dfn v \<and> (\<exists>w \<in> set vs. dfn w = mn \<and> (v, w) \<in> (arcs out)\<^sup>*) \<and>
     distinct here \<and> set here \<subseteq> set (out v) \<and>
     (\<forall>u w. u \<in> set vs \<longrightarrow> dfn v \<le> dfn u \<longrightarrow> dfn u < hi \<longrightarrow> w \<in> set (out u) \<longrightarrow> (u = v \<longrightarrow> w \<notin> set here) \<longrightarrow>
        dfn w \<noteq> 0 \<and> (cid w = 0 \<longrightarrow> mn \<le> dfn w))"

fun frames_ok :: "('a \<Rightarrow> 'a list) \<Rightarrow> 'a list \<Rightarrow> ('a \<Rightarrow> nat) \<Rightarrow> ('a \<Rightarrow> int) \<Rightarrow> nat \<Rightarrow> (nat \<times> 'a \<times> 'a list) list \<Rightarrow> bool" where
  "frames_ok out vs dfn cid hi [] \<longleftrightarrow> True"
| "frames_ok out vs dfn cid hi ((mn, v, here) # fs) \<longleftrightarrow> frame_ok out vs dfn cid hi mn v here \<and>
     (case fs of [] \<Rightarrow> True | (_, p, _) # _ \<Rightarrow> v \<in> set (out p)) \<and> frames_ok out vs dfn cid (dfn v) fs"

lemma frame_okI:
  assumes "v \<in> set vs" "dfn v < hi" "mn \<le> dfn v" "w \<in> set vs" "dfn w = mn" "(v, w) \<in> (arcs out)\<^sup>*" "distinct here" "set here \<subseteq> set (out v)"
    and "\<And>u w. u \<in> set vs \<Longrightarrow> dfn v \<le> dfn u \<Longrightarrow> dfn u < hi \<Longrightarrow> w \<in> set (out u) \<Longrightarrow> (u = v \<Longrightarrow> w \<notin> set here) \<Longrightarrow>
      dfn w \<noteq> 0 \<and> (cid w = 0 \<longrightarrow> mn \<le> dfn w)"
  shows "frame_ok out vs dfn cid hi mn v here"
  using assms(1-8) assms(9) unfolding frame_ok_def by blast

lemma frame_okD:
  assumes "frame_ok out vs dfn cid hi mn v here"
  shows "v \<in> set vs" "dfn v < hi" "mn \<le> dfn v" "\<exists>w \<in> set vs. dfn w = mn \<and> (v, w) \<in> (arcs out)\<^sup>*" "distinct here" "set here \<subseteq> set (out v)"
    and "\<And>u w. u \<in> set vs \<Longrightarrow> dfn v \<le> dfn u \<Longrightarrow> dfn u < hi \<Longrightarrow> w \<in> set (out u) \<Longrightarrow> (u = v \<Longrightarrow> w \<notin> set here) \<Longrightarrow>
      dfn w \<noteq> 0 \<and> (cid w = 0 \<longrightarrow> mn \<le> dfn w)"
  using assms unfolding frame_ok_def by blast+

definition on_control :: "'a search \<Rightarrow> 'a set" where
  "on_control s = (\<lambda>(mn, v, here). v) ` set (sr_control s)"

definition search_stacks :: "('a \<Rightarrow> 'a list) \<Rightarrow> 'a search \<Rightarrow> bool" where
  "search_stacks out s \<longleftrightarrow>
     (\<forall>c \<in> on_control s. \<forall>u \<in> set (sr_value s). sr_dfn s c \<le> sr_dfn s u \<longrightarrow> (c, u) \<in> (arcs out)\<^sup>*) \<and>
     (\<forall>u \<in> set (sr_value s). \<exists>c \<in> on_control s. sr_dfn s c \<le> sr_dfn s u \<and> (u, c) \<in> (arcs out)\<^sup>*) \<and>
     frames_ok out (sr_value s) (sr_dfn s) (sr_comp s) (Suc (sr_count s)) (sr_control s)"

definition search_ok :: "'a set \<Rightarrow> ('a \<Rightarrow> 'a list) \<Rightarrow> 'a search \<Rightarrow> bool" where
  "search_ok N out s \<longleftrightarrow> search_core N out s \<and> search_stacks out s"

lemma core_value:
  assumes "search_core N out s" "u \<in> set (sr_value s)" "w \<in> set (sr_value s)" "sr_dfn s u = sr_dfn s w"
  shows "u = w"
proof -
  have "sorted_wrt (\<lambda>a b. sr_dfn s b < sr_dfn s a) (sr_value s)" using assms(1) by (simp add: search_core_def)
  then show ?thesis using assms(2-4) by (induction "sr_value s") (auto simp: sorted_wrt_iff_nth_less in_set_conv_nth, metis linorder_neqE_nat nat_neq_iff)
qed

lemma frames_below: "frames_ok out vs dfn cid hi fs \<Longrightarrow> (mn, v, here) \<in> set fs \<Longrightarrow> dfn v < hi \<and> v \<in> set vs"
proof (induction fs arbitrary: hi)
  case (Cons f fs)
  obtain m u r where f: "f = (m, u, r)" by (metis surj_pair)
  then have u: "frame_ok out vs dfn cid hi m u r" "frames_ok out vs dfn cid (dfn u) fs" using Cons.prems(1) by simp_all
  show ?case
  proof (cases "(mn, v, here) = f")
    case True
    then show ?thesis using frame_okD(1,2) [OF u(1)] f by simp
  next
    case False
    then have "dfn v < dfn u \<and> v \<in> set vs" using Cons.IH [OF u(2)] Cons.prems(2) by simp
    then show ?thesis using frame_okD(2) [OF u(1)] by simp
  qed
qed simp

text \<open>A new node on the value stack does not disturb the frames below it.\<close>

lemma frame_push:
  assumes "frame_ok out vs dfn cid hi mn v here" "hi \<le> Suc k" "dfn w = 0" "\<And>u. u \<in> set vs \<Longrightarrow> dfn u \<noteq> 0"
  shows "frame_ok out (w # vs) (dfn(w := Suc k)) cid hi mn v here"
proof -
  note f = frame_okD [OF assms(1)]
  obtain x where x: "x \<in> set vs" "dfn x = mn" "(v, x) \<in> (arcs out)\<^sup>*" using f(4) by blast
  have n: "v \<noteq> w" "x \<noteq> w" using assms(3,4) f(1) x(1) by metis+
  show ?thesis
  proof (rule frame_okI [of _ _ _ _ _ x])
    fix u y
    assume u: "u \<in> set (w # vs)" "(dfn(w := Suc k)) v \<le> (dfn(w := Suc k)) u" "(dfn(w := Suc k)) u < hi" "y \<in> set (out u)"
      and "u = v \<Longrightarrow> y \<notin> set here"
    moreover have "u \<noteq> w" using u(3) assms(2) by auto
    ultimately have "dfn y \<noteq> 0 \<and> (cid y = 0 \<longrightarrow> mn \<le> dfn y)" using n f(7) [of u y] by simp
    then show "(dfn(w := Suc k)) y \<noteq> 0 \<and> (cid y = 0 \<longrightarrow> mn \<le> (dfn(w := Suc k)) y)" using assms(3) by auto
  qed (use f x n in simp_all)
qed

lemma frames_push:
  "frames_ok out vs dfn cid hi fs \<Longrightarrow> hi \<le> Suc k \<Longrightarrow> dfn w = 0 \<Longrightarrow> (\<And>u. u \<in> set vs \<Longrightarrow> dfn u \<noteq> 0) \<Longrightarrow>
    frames_ok out (w # vs) (dfn(w := Suc k)) cid hi fs"
proof (induction fs arbitrary: hi)
  case (Cons f fs)
  obtain mn v here where f: "f = (mn, v, here)" by (metis surj_pair)
  then have u: "frame_ok out vs dfn cid hi mn v here" "frames_ok out vs dfn cid (dfn v) fs" using Cons.prems(1) by simp_all
  have "dfn v < hi" "v \<noteq> w" using frame_okD(1,2) [OF u(1)] Cons.prems(3,4) by metis+
  then have "frames_ok out (w # vs) (dfn(w := Suc k)) cid (dfn v) fs"
    using Cons.prems(2) by (intro Cons.IH [OF u(2) _ Cons.prems(3,4)]) simp_all
  moreover have "(dfn(w := Suc k)) v = dfn v" using \<open>v \<noteq> w\<close> by simp
  moreover have "case fs of [] \<Rightarrow> True | (_, p, _) # _ \<Rightarrow> v \<in> set (out p)" using Cons.prems(1) f by simp
  ultimately show ?case unfolding f frames_ok.simps using frame_push [OF u(1) Cons.prems(2-4)] by metis
qed simp

text \<open>Taking a component off the value stack does not disturb the frames below it.\<close>

lemma frame_pop:
  assumes "frame_ok out vs dfn cid hi mn v here" "hi \<le> k" "\<And>y. cid' y = 0 \<Longrightarrow> cid y = 0"
  shows "frame_ok out (filter (\<lambda>u. dfn u < k) vs) dfn cid' hi mn v here"
proof -
  note f = frame_okD [OF assms(1)]
  obtain x where x: "x \<in> set vs" "dfn x = mn" "(v, x) \<in> (arcs out)\<^sup>*" using f(4) by blast
  show ?thesis
  proof (rule frame_okI [of _ _ _ _ _ x])
    fix u y
    assume "u \<in> set (filter (\<lambda>u. dfn u < k) vs)" "dfn v \<le> dfn u" "dfn u < hi" "y \<in> set (out u)" "u = v \<Longrightarrow> y \<notin> set here"
    then show "dfn y \<noteq> 0 \<and> (cid' y = 0 \<longrightarrow> mn \<le> dfn y)" using f(7) [of u y] assms(3) by auto
  qed (use f x assms(2) in auto)
qed

lemma frames_pop:
  "frames_ok out vs dfn cid hi fs \<Longrightarrow> hi \<le> k \<Longrightarrow> (\<And>y. cid' y = 0 \<Longrightarrow> cid y = 0) \<Longrightarrow>
    frames_ok out (filter (\<lambda>u. dfn u < k) vs) dfn cid' hi fs"
proof (induction fs arbitrary: hi)
  case (Cons f fs)
  obtain mn v here where f: "f = (mn, v, here)" by (metis surj_pair)
  then have u: "frame_ok out vs dfn cid hi mn v here" "frames_ok out vs dfn cid (dfn v) fs" using Cons.prems(1) by simp_all
  have "frames_ok out (filter (\<lambda>u. dfn u < k) vs) dfn cid' (dfn v) fs"
    using Cons.IH [OF u(2) _ Cons.prems(3)] frame_okD(2) [OF u(1)] Cons.prems(2) by simp
  then show ?case using frame_pop [OF u(1) Cons.prems(2,3)] Cons.prems(1) f by simp
qed simp


section \<open>One round keeps the invariant\<close>

definition search_size :: "'a set \<Rightarrow> ('a \<Rightarrow> 'a list) \<Rightarrow> 'a search \<Rightarrow> nat" where
  "search_size N out s = (\<Sum>n \<in> {n \<in> N. sr_dfn s n = 0}. length (out n) + 2) + (\<Sum>(mn, v, here)\<leftarrow>sr_control s. length here + 1)"

definition steps_to :: "'a set \<Rightarrow> ('a \<Rightarrow> 'a list) \<Rightarrow> 'a search \<Rightarrow> 'a search \<Rightarrow> bool" where
  "steps_to N out s s' \<longleftrightarrow> search_ok N out s' \<and> search_size N out s' < search_size N out s \<and>
     (\<forall>n. sr_dfn s n \<noteq> 0 \<longrightarrow> sr_dfn s' n \<noteq> 0)"

lemma core_control [simp]: "search_core N out (s\<lparr>sr_control := fs\<rparr>) = search_core N out s"
  by (simp add: search_core_def)

lemma advance_steps:
  assumes ok: "search_ok N out s" and top: "sr_control s = (mn, v, w # here) # fs" and w: "sr_dfn s w \<noteq> 0"
    and mn': "mn' = (if sr_comp s w = 0 then min mn (sr_dfn s w) else mn)"
  shows "steps_to N out s (s\<lparr>sr_control := (mn', v, here) # fs\<rparr>)"
proof -
  let ?s = "s\<lparr>sr_control := (mn', v, here) # fs\<rparr>"
  have core: "search_core N out s" using ok by (simp add: search_ok_def)
  have st: "search_stacks out s" using ok by (simp add: search_ok_def)
  have fr: "frames_ok out (sr_value s) (sr_dfn s) (sr_comp s) (Suc (sr_count s)) ((mn, v, w # here) # fs)"
    using st top by (simp add: search_stacks_def)
  then have f: "frame_ok out (sr_value s) (sr_dfn s) (sr_comp s) (Suc (sr_count s)) mn v (w # here)" by simp
  note d = frame_okD [OF f]
  have vw: "(v, w) \<in> arcs out" using d(6) by (auto simp: arcs_def)
  have "\<exists>x \<in> set (sr_value s). sr_dfn s x = mn' \<and> (v, x) \<in> (arcs out)\<^sup>*"
  proof (cases "sr_comp s w = 0 \<and> sr_dfn s w < mn")
    case True
    then have "w \<in> set (sr_value s)" using core w by (simp add: search_core_def)
    then show ?thesis using True vw mn' by auto
  next
    case False
    then have "mn' = mn" using mn' by auto
    then show ?thesis using d(4) by simp
  qed
  then obtain x where x: "x \<in> set (sr_value s)" "sr_dfn s x = mn'" "(v, x) \<in> (arcs out)\<^sup>*" by blast
  have "frame_ok out (sr_value s) (sr_dfn s) (sr_comp s) (Suc (sr_count s)) mn' v here"
  proof (rule frame_okI [OF d(1,2) _ x])
    fix u y
    assume u: "u \<in> set (sr_value s)" "sr_dfn s v \<le> sr_dfn s u" "sr_dfn s u < Suc (sr_count s)" "y \<in> set (out u)" "u = v \<Longrightarrow> y \<notin> set here"
    show "sr_dfn s y \<noteq> 0 \<and> (sr_comp s y = 0 \<longrightarrow> mn' \<le> sr_dfn s y)"
    proof (cases "y = w")
      case False
      then show ?thesis using d(7) [OF u(1-4)] u(5) mn' by auto
    qed (use w mn' in auto)
  qed (use d mn' in auto)
  then have "frames_ok out (sr_value s) (sr_dfn s) (sr_comp s) (Suc (sr_count s)) ((mn', v, here) # fs)"
    using fr by simp
  moreover have "on_control ?s = on_control s" by (simp add: on_control_def top)
  ultimately have "search_stacks out ?s" using st by (simp add: search_stacks_def)
  then show ?thesis using core by (simp add: steps_to_def search_ok_def search_size_def top)
qed

lemma push_core:
  assumes "search_core N out s" "w \<in> N" "sr_dfn s w = 0"
  shows "search_core N out (sr_Push out w s)"
proof -
  have "sr_comp s w = 0" using assms(1,3) by (auto simp: search_core_def)
  moreover have "w \<notin> set (sr_value s)" using assms(1,3) by (auto simp: search_core_def)
  moreover have "sorted_wrt (\<lambda>a b. ((sr_dfn s)(w := Suc (sr_count s))) b < ((sr_dfn s)(w := Suc (sr_count s))) a) (sr_value s)"
    by (rule sorted_wrt_mono_rel [of _ "\<lambda>a b. sr_dfn s b < sr_dfn s a"])
      (use \<open>w \<notin> set (sr_value s)\<close> assms(1) in \<open>auto simp: search_core_def\<close>)
  ultimately show ?thesis using assms unfolding search_core_def sr_Push_def Let_def
    by (auto simp: le_Suc_eq less_Suc_eq_le)
qed

lemma push_stacks:
  assumes core: "search_core N out s" and w: "sr_dfn s w = 0" "distinct (out w)"
    and up: "\<And>c u. c \<in> on_control s \<Longrightarrow> u \<in> set (sr_value s) \<Longrightarrow> sr_dfn s c \<le> sr_dfn s u \<Longrightarrow> (c, u) \<in> (arcs out)\<^sup>*"
    and down: "\<And>u. u \<in> set (sr_value s) \<Longrightarrow> \<exists>c \<in> on_control s. sr_dfn s c \<le> sr_dfn s u \<and> (u, c) \<in> (arcs out)\<^sup>*"
    and reach: "\<And>c. c \<in> on_control s \<Longrightarrow> (c, w) \<in> (arcs out)\<^sup>*" "on_control s \<subseteq> set (sr_value s)"
    and parent: "case sr_control s of [] \<Rightarrow> True | (_, p, _) # _ \<Rightarrow> w \<in> set (out p)"
    and frames: "frames_ok out (w # sr_value s) ((sr_dfn s)(w := Suc (sr_count s))) (sr_comp s) (Suc (sr_count s)) (sr_control s)"
  shows "search_stacks out (sr_Push out w s)"
proof -
  let ?d = "(sr_dfn s)(w := Suc (sr_count s))"
  have nw: "u \<noteq> w" if "u \<in> set (sr_value s)" for u using that core w(1) by (auto simp: search_core_def)
  have le: "sr_dfn s u \<le> sr_count s" for u using core by (simp add: search_core_def)
  have oc: "on_control (sr_Push out w s) = insert w (on_control s)" by (simp add: on_control_def sr_Push_def Let_def)
  have a: "(c, u) \<in> (arcs out)\<^sup>*" if "c \<in> insert w (on_control s)" "u \<in> set (w # sr_value s)" "?d c \<le> ?d u" for c u
  proof (cases "u = w")
    case True
    then show ?thesis using that(1) reach(1) by auto
  next
    case False
    then have "c \<noteq> w" using that(3) le [of u] by auto
    then show ?thesis using that False up by auto
  qed
  have b: "\<exists>c \<in> insert w (on_control s). ?d c \<le> ?d u \<and> (u, c) \<in> (arcs out)\<^sup>*" if u: "u \<in> set (w # sr_value s)" for u
  proof (cases "u = w")
    case False
    then obtain c where "c \<in> on_control s" "sr_dfn s c \<le> sr_dfn s u" "(u, c) \<in> (arcs out)\<^sup>*" using down u by auto
    moreover have "c \<noteq> w" using nw reach(2) \<open>c \<in> on_control s\<close> by auto
    ultimately show ?thesis using False by auto
  qed auto
  have "frames_ok out (w # sr_value s) ?d (sr_comp s) (Suc (Suc (sr_count s))) ((Suc (sr_count s), w, out w) # sr_control s)"
  proof -
    have "u = w" if "Suc (sr_count s) \<le> ?d u" for u using that le [of u] by (auto split: if_splits)
    note only = this
    have "frame_ok out (w # sr_value s) ?d (sr_comp s) (Suc (Suc (sr_count s))) (Suc (sr_count s)) w (out w)"
    proof (rule frame_okI [of _ _ _ _ _ w])
      fix u y assume u: "?d w \<le> ?d u" "y \<in> set (out u)" "u = w \<Longrightarrow> y \<notin> set (out w)"
      have "u = w" by (rule only) (use u(1) in simp)
      then show "?d y \<noteq> 0 \<and> (sr_comp s y = 0 \<longrightarrow> Suc (sr_count s) \<le> ?d y)" using u(2,3) by simp
    qed (use w(2) in simp_all)
    then show ?thesis using frames parent by simp
  qed
  moreover have "sr_value (sr_Push out w s) = w # sr_value s" "sr_dfn (sr_Push out w s) = ?d" "sr_comp (sr_Push out w s) = sr_comp s"
      "sr_count (sr_Push out w s) = Suc (sr_count s)" "sr_control (sr_Push out w s) = (Suc (sr_count s), w, out w) # sr_control s"
    by (simp_all add: sr_Push_def)
  ultimately show ?thesis unfolding search_stacks_def oc using a b by metis
qed

lemma push_size:
  assumes "finite N" "w \<in> N" "sr_dfn s w = 0"
  shows "search_size N out (sr_Push out w s) < search_size N out s"
proof -
  have "{n \<in> N. sr_dfn s n = 0} = insert w {n \<in> N. sr_dfn (sr_Push out w s) n = 0}"
    using assms by (auto simp: sr_Push_def Let_def)
  moreover have "w \<notin> {n \<in> N. sr_dfn (sr_Push out w s) n = 0}" by (simp add: sr_Push_def Let_def)
  ultimately show ?thesis using assms(1) by (simp add: search_size_def) (simp add: sr_Push_def Let_def)
qed

lemma control_below:
  assumes "search_ok N out s" "sr_control s = (mn, v, here) # fs" "c \<in> on_control s"
  shows "sr_dfn s c \<le> sr_dfn s v" "c \<in> set (sr_value s)" "c = v \<or> sr_dfn s c < sr_dfn s v"
proof -
  have fr: "frames_ok out (sr_value s) (sr_dfn s) (sr_comp s) (Suc (sr_count s)) ((mn, v, here) # fs)"
    using assms(1,2) by (simp add: search_ok_def search_stacks_def)
  obtain m r where c: "(m, c, r) \<in> set ((mn, v, here) # fs)" using assms(2,3) by (auto simp: on_control_def)
  then show "c \<in> set (sr_value s)" using frames_below [OF fr] by blast
  have "frames_ok out (sr_value s) (sr_dfn s) (sr_comp s) (sr_dfn s v) fs" using fr by simp
  from frames_below [OF this, of m c r] c show "c = v \<or> sr_dfn s c < sr_dfn s v" by auto
  then show "sr_dfn s c \<le> sr_dfn s v" by auto
qed

lemma push_steps:
  assumes fin: "finite N" and g: "\<And>n. set (out n) \<subseteq> N \<and> distinct (out n)" and ok: "search_ok N out s"
    and top: "sr_control s = (mn, v, w # here) # fs" and w: "sr_dfn s w = 0"
  shows "steps_to N out s (sr_Push out w (s\<lparr>sr_control := (mn, v, here) # fs\<rparr>))"
proof -
  let ?s = "s\<lparr>sr_control := (mn, v, here) # fs\<rparr>"
  have core: "search_core N out s" and st: "search_stacks out s" using ok by (simp_all add: search_ok_def)
  have fr: "frames_ok out (sr_value s) (sr_dfn s) (sr_comp s) (Suc (sr_count s)) ((mn, v, w # here) # fs)"
    using st top by (simp add: search_stacks_def)
  note d = frame_okD [OF conjunct1 [OF fr [unfolded frames_ok.simps]]]
  have vw: "w \<in> set (out v)" using d(6) by simp
  have oc: "on_control ?s = on_control s" by (simp add: on_control_def top)
  have nz: "sr_dfn s u \<noteq> 0" if "u \<in> set (sr_value s)" for u using that core by (auto simp: search_core_def)
  let ?d = "(sr_dfn s)(w := Suc (sr_count s))"
  have v: "v \<noteq> w" using nz [OF d(1)] w by auto
  have "frame_ok out (w # sr_value s) ?d (sr_comp s) (Suc (sr_count s)) mn v (w # here)"
    using fr by (intro frame_push [where dfn = "sr_dfn s"] w nz) simp_all
  note d' = frame_okD [OF this]
  have top': "frame_ok out (w # sr_value s) ?d (sr_comp s) (Suc (sr_count s)) mn v here"
  proof -
    obtain x where x: "x \<in> set (w # sr_value s)" "?d x = mn" "(v, x) \<in> (arcs out)\<^sup>*" using d'(4) by blast
    show ?thesis
    proof (rule frame_okI [OF d'(1-3) x])
      fix u y assume u: "u \<in> set (w # sr_value s)" "?d v \<le> ?d u" "?d u < Suc (sr_count s)" "y \<in> set (out u)" "u = v \<Longrightarrow> y \<notin> set here"
      show "?d y \<noteq> 0 \<and> (sr_comp s y = 0 \<longrightarrow> mn \<le> ?d y)"
      proof (cases "y = w")
        case True
        then show ?thesis using d(2,3) by simp
      next
        case False
        then show ?thesis using d'(7) [OF u(1-4)] u(5) by auto
      qed
    qed (use d'(5,6) in auto)
  qed
  have "frames_ok out (w # sr_value s) ?d (sr_comp s) (sr_dfn s v) fs"
    using fr d(2) by (intro frames_push [where dfn = "sr_dfn s"] w nz) simp_all
  moreover have "?d v = sr_dfn s v" using v by simp
  moreover have "case fs of [] \<Rightarrow> True | (_, p, _) # _ \<Rightarrow> v \<in> set (out p)" using fr by simp
  ultimately have frames: "frames_ok out (w # sr_value s) ?d (sr_comp s) (Suc (sr_count s)) ((mn, v, here) # fs)"
    unfolding frames_ok.simps using top' by metis
  have "(c, v) \<in> (arcs out)\<^sup>*" if "c \<in> on_control s" for c
    using st control_below(1) [OF ok top that] that d(1) by (auto simp: search_stacks_def)
  moreover have "(v, w) \<in> arcs out" using vw by (simp add: arcs_def)
  ultimately have reach: "(c, w) \<in> (arcs out)\<^sup>*" if "c \<in> on_control s" for c
    using that by (blast intro: rtrancl_into_rtrancl)
  have "search_stacks out (sr_Push out w ?s)"
  proof (rule push_stacks [where N = N])
    show "(c, u) \<in> (arcs out)\<^sup>*" if "c \<in> on_control ?s" "u \<in> set (sr_value ?s)" "sr_dfn ?s c \<le> sr_dfn ?s u" for c u
      using that st by (simp add: search_stacks_def oc)
    show "\<exists>c \<in> on_control ?s. sr_dfn ?s c \<le> sr_dfn ?s u \<and> (u, c) \<in> (arcs out)\<^sup>*" if "u \<in> set (sr_value ?s)" for u
      using that st unfolding oc by (simp add: search_stacks_def)
    show "on_control ?s \<subseteq> set (sr_value ?s)" using control_below(2) [OF ok top] unfolding oc by auto
    show "frames_ok out (w # sr_value ?s) ((sr_dfn ?s)(w := Suc (sr_count ?s))) (sr_comp ?s) (Suc (sr_count ?s)) (sr_control ?s)"
      using frames by (simp del: frames_ok.simps fun_upd_apply)
  qed (use core w g reach vw in \<open>simp_all add: oc\<close>)
  moreover have "w \<in> N" using g vw by blast
  moreover have "search_size N out ?s < search_size N out s" by (simp add: search_size_def top)
  moreover have "search_size N out (sr_Push out w ?s) < search_size N out ?s" by (rule push_size) (use fin \<open>w \<in> N\<close> w in simp_all)
  moreover have "\<forall>n. sr_dfn s n \<noteq> 0 \<longrightarrow> sr_dfn (sr_Push out w ?s) n \<noteq> 0" by (simp add: sr_Push_def)
  ultimately show ?thesis using push_core [of N out ?s w] core w unfolding steps_to_def search_ok_def by simp
qed

lemma return_steps:
  assumes ok: "search_ok N out s" and top: "sr_control s = (mn, v, []) # fs" and mn: "mn \<noteq> sr_dfn s v"
  shows "\<exists>mn' p here fs'. fs = (mn', p, here) # fs' \<and> steps_to N out s (s\<lparr>sr_control := (min mn' mn, p, here) # fs'\<rparr>)"
proof -
  have core: "search_core N out s" and st: "search_stacks out s" using ok by (simp_all add: search_ok_def)
  have fr: "frames_ok out (sr_value s) (sr_dfn s) (sr_comp s) (Suc (sr_count s)) ((mn, v, []) # fs)"
    using st top by (simp add: search_stacks_def)
  note d = frame_okD [OF conjunct1 [OF fr [unfolded frames_ok.simps]]]
  obtain x where x: "x \<in> set (sr_value s)" "sr_dfn s x = mn" "(v, x) \<in> (arcs out)\<^sup>*" using d(4) by blast
  have lt: "mn < sr_dfn s v" using d(3) mn by simp
  obtain c where c: "c \<in> on_control s" "sr_dfn s c \<le> mn" "(x, c) \<in> (arcs out)\<^sup>*" using st x(1,2) by (auto simp: search_stacks_def)
  have cv: "c \<noteq> v" using c(2) lt by auto
  then obtain mn' p here fs' where fs: "fs = (mn', p, here) # fs'" using c(1) top
    by (cases fs) (auto simp: on_control_def)
  let ?s = "s\<lparr>sr_control := (min mn' mn, p, here) # fs'\<rparr>"
  have p: "frame_ok out (sr_value s) (sr_dfn s) (sr_comp s) (sr_dfn s v) mn' p here" "v \<in> set (out p)" using fr fs by simp_all
  note q = frame_okD [OF p(1)]
  obtain y where y: "y \<in> set (sr_value s)" "sr_dfn s y = mn'" "(p, y) \<in> (arcs out)\<^sup>*" using q(4) by blast
  have "(p, x) \<in> (arcs out)\<^sup>*" using p(2) x(3) by (auto simp: arcs_def intro: converse_rtrancl_into_rtrancl)
  then have "\<exists>z \<in> set (sr_value s). sr_dfn s z = min mn' mn \<and> (p, z) \<in> (arcs out)\<^sup>*" using x y by (cases "mn' \<le> mn") auto
  then obtain z where z: "z \<in> set (sr_value s)" "sr_dfn s z = min mn' mn" "(p, z) \<in> (arcs out)\<^sup>*" by blast
  have "frame_ok out (sr_value s) (sr_dfn s) (sr_comp s) (Suc (sr_count s)) (min mn' mn) p here"
  proof (rule frame_okI [where w = z])
    fix u w assume u: "u \<in> set (sr_value s)" "sr_dfn s p \<le> sr_dfn s u" "sr_dfn s u < Suc (sr_count s)" "w \<in> set (out u)"
      "u = p \<Longrightarrow> w \<notin> set here"
    show "sr_dfn s w \<noteq> 0 \<and> (sr_comp s w = 0 \<longrightarrow> min mn' mn \<le> sr_dfn s w)"
    proof (cases "sr_dfn s u < sr_dfn s v")
      case True
      then show ?thesis using q(7) [of u w] u by auto
    next
      case False
      then show ?thesis using d(7) [of u w] u by auto
    qed
  qed (use q d(2) z in auto)
  then have "frames_ok out (sr_value s) (sr_dfn s) (sr_comp s) (Suc (sr_count s)) ((min mn' mn, p, here) # fs')"
    using fr fs by simp
  moreover have oc: "on_control s = insert v (on_control ?s)" by (auto simp: on_control_def top fs)
  moreover have "\<exists>c \<in> on_control ?s. sr_dfn s c \<le> sr_dfn s u \<and> (u, c) \<in> (arcs out)\<^sup>*" if u: "u \<in> set (sr_value s)" for u
  proof -
    obtain e where e: "e \<in> on_control s" "sr_dfn s e \<le> sr_dfn s u" "(u, e) \<in> (arcs out)\<^sup>*" using st u by (auto simp: search_stacks_def)
    show ?thesis
    proof (cases "e = v")
      case True
      then have "(u, c) \<in> (arcs out)\<^sup>*" using e(3) x(3) c(3) by (meson rtrancl_trans)
      moreover have "c \<in> on_control ?s" using c(1) cv oc by blast
      moreover have "sr_dfn s c \<le> sr_dfn s u" using c(2) lt e(2) True by simp
      ultimately show ?thesis by blast
    qed (use e oc in auto)
  qed
  ultimately have "search_stacks out ?s" using st by (simp add: search_stacks_def)
  then show ?thesis using core fs by (auto simp: steps_to_def search_ok_def search_size_def top)
qed

lemma pop_until_spec:
  "sorted_wrt (\<lambda>a b. d b < d a) vs \<Longrightarrow> v \<in> set vs \<Longrightarrow>
    pop_until v k vs cid = Ok (filter (\<lambda>u. d u < d v) vs, \<lambda>u. if u \<in> set vs \<and> \<not> d u < (d v :: nat) then k else cid u)"
proof (induction vs arbitrary: cid)
  case (Cons x vs)
  show ?case
  proof (cases "x = v")
    case True
    have lt: "d u < d v" if "u \<in> set vs" for u using Cons.prems(1) True that by simp
    then have "filter (\<lambda>u. d u < d v) vs = vs" by (simp add: filter_id_conv)
    then show ?thesis using True lt by (auto simp: fun_eq_iff)
  next
    case False
    then have v: "v \<in> set vs" using Cons.prems(2) by simp
    then have "\<not> d x < d v" using Cons.prems(1) by auto
    moreover have "x \<notin> set vs" using Cons.prems(1) by auto
    ultimately have "(\<lambda>u. if u \<in> set vs \<and> \<not> d u < d v then k else (cid(x := k)) u) =
        (\<lambda>u. if u \<in> set (x # vs) \<and> \<not> d u < d v then k else cid u)" by (intro ext) auto
    then show ?thesis using Cons.IH [of "cid(x := k)"] Cons.prems(1) v False \<open>\<not> d x < d v\<close>
      by (simp del: fun_upd_apply list.set)
  qed
qed simp

text \<open>The top of the value stack, down to the node of a finished frame that reached nothing older, is
  one component.\<close>

lemma component_closed:
  assumes ok: "search_ok N out s" and top: "sr_control s = (sr_dfn s v, v, []) # fs"
  defines "S \<equiv> {u \<in> set (sr_value s). sr_dfn s v \<le> sr_dfn s u}"
  shows "u \<in> S \<Longrightarrow> w \<in> set (out u) \<Longrightarrow> w \<in> S \<or> sr_comp s w \<noteq> 0"
    and "(u, x) \<in> (arcs out)\<^sup>* \<Longrightarrow> u \<in> S \<Longrightarrow> x \<in> S \<or> sr_comp s x \<noteq> 0"
    and "(u, x) \<in> (arcs out)\<^sup>* \<Longrightarrow> sr_comp s u \<noteq> 0 \<Longrightarrow> sr_comp s x \<noteq> 0"
    and "u \<in> S \<Longrightarrow> mutual (arcs out) u x \<longleftrightarrow> x \<in> S"
proof -
  have core: "search_core N out s" and st: "search_stacks out s" using ok by (simp_all add: search_ok_def)
  have fr: "frames_ok out (sr_value s) (sr_dfn s) (sr_comp s) (Suc (sr_count s)) ((sr_dfn s v, v, []) # fs)"
    using st top by (simp add: search_stacks_def)
  note d = frame_okD [OF conjunct1 [OF fr [unfolded frames_ok.simps]]]
  have le: "sr_dfn s u < Suc (sr_count s)" for u using core by (simp add: search_core_def less_Suc_eq_le)
  have val: "set (sr_value s) = {n. sr_dfn s n \<noteq> 0 \<and> sr_comp s n = 0}" using core by (simp add: search_core_def)
  show 1: "w \<in> S \<or> sr_comp s w \<noteq> 0" if "u \<in> S" "w \<in> set (out u)" for u w
    using d(7) [of u w] that le [of u] by (auto simp: S_def val)
  show 3: "sr_comp s x \<noteq> 0" if "(u, x) \<in> (arcs out)\<^sup>*" "sr_comp s u \<noteq> 0" for u x
    using that core by (induction rule: rtrancl_induct) (auto simp: arcs_def search_core_def)
  show 2: "x \<in> S \<or> sr_comp s x \<noteq> 0" if "(u, x) \<in> (arcs out)\<^sup>*" "u \<in> S" for u x
    using that
  proof (induction rule: rtrancl_induct)
    case (step y z)
    then show ?case using 1 [of y z] 3 [of y z] by (auto simp: arcs_def)
  qed simp
  have to: "(v, u) \<in> (arcs out)\<^sup>*" "(u, v) \<in> (arcs out)\<^sup>*" if u: "u \<in> S" for u
  proof -
    have "v \<in> on_control s" by (simp add: on_control_def top)
    then show "(v, u) \<in> (arcs out)\<^sup>*" using st u by (auto simp: search_stacks_def S_def)
    obtain c where c: "c \<in> on_control s" "(u, c) \<in> (arcs out)\<^sup>*" using st u by (auto simp: search_stacks_def S_def)
    note b = control_below [OF ok top c(1)]
    have "sr_comp s c = 0" using b(2) by (simp add: val)
    then have "c \<in> S" using 2 [OF c(2) u] by simp
    then have "c = v" using b(3) by (auto simp: S_def)
    then show "(u, v) \<in> (arcs out)\<^sup>*" using c(2) by simp
  qed
  show "mutual (arcs out) u x \<longleftrightarrow> x \<in> S" if u: "u \<in> S"
  proof
    assume m: "mutual (arcs out) u x"
    then have "x \<in> S \<or> sr_comp s x \<noteq> 0" using 2 u by (auto simp: mutual_def)
    moreover have "sr_comp s u = 0" using u by (simp add: S_def val)
    then have "sr_comp s x = 0" using 3 [of x u] m by (auto simp: mutual_def)
    ultimately show "x \<in> S" by simp
  next
    assume "x \<in> S"
    then show "mutual (arcs out) u x" using to u by (meson mutual_def rtrancl_trans)
  qed
qed

definition popped :: "'a \<Rightarrow> 'a search \<Rightarrow> 'a search" where
  "popped v s = s\<lparr>sr_components := sr_components s + 1, sr_nontrivial := (sr_nontrivial s \<or> hd (sr_value s) \<noteq> v),
     sr_value := filter (\<lambda>u. sr_dfn s u < sr_dfn s v) (sr_value s),
     sr_comp := (\<lambda>u. if u \<in> set (sr_value s) \<and> \<not> sr_dfn s u < sr_dfn s v then sr_components s + 1 else sr_comp s u)\<rparr>"

lemma PopComponent_popped:
  assumes "search_core N out s" "sr_control s = (mn, v, here) # fs" "v \<in> set (sr_value s)"
  shows "PopComponent s = Ok (popped v s)"
proof -
  have "sorted_wrt (\<lambda>a b. sr_dfn s b < sr_dfn s a) (sr_value s)" using assms(1) by (simp add: search_core_def)
  note pop = pop_until_spec [OF this assms(3), of "sr_components s + 1" "sr_comp s"]
  obtain x xs where "sr_value s = x # xs" using assms(3) by (cases "sr_value s") auto
  then have "PopComponent s = bind_res (pop_until v (sr_components s + 1) (sr_value s) (sr_comp s)) (\<lambda>(vs, cid).
      Ok (s\<lparr>sr_components := sr_components s + 1, sr_nontrivial := (sr_nontrivial s \<or> hd (sr_value s) \<noteq> v), sr_value := vs, sr_comp := cid\<rparr>))"
    using assms(2) by (simp add: PopComponent_def Let_def del: pop_until.simps)
  then show ?thesis unfolding pop by (simp add: popped_def)
qed

lemma popped_core:
  assumes ok: "search_ok N out s" and top: "sr_control s = (sr_dfn s v, v, []) # fs"
  shows "search_core N out (popped v s)"
proof -
  let ?S = "{u \<in> set (sr_value s). sr_dfn s v \<le> sr_dfn s u}" and ?c = "sr_comp (popped v s)" and ?k = "sr_components s + 1"
  have core: "search_core N out s" using ok by (simp add: search_ok_def)
  note cl = component_closed [OF ok top]
  have v: "v \<in> set (sr_value s)" using control_below(2) [OF ok top] by (simp add: on_control_def top)
  have c: "?c u = (if u \<in> ?S then ?k else sr_comp s u)" for u by (auto simp: popped_def)
  have cin: "?c u = ?k" if "u \<in> ?S" for u using that by (simp only: c if_True)
  have cout: "?c u = sr_comp s u" if "u \<notin> ?S" for u using that by (simp only: c if_False)
  have le: "0 \<le> sr_comp s u" "sr_comp s u < ?k" for u using core by (simp_all add: search_core_def)
  have k0: "0 < ?k" using le(1) [of v] le(2) [of v] by linarith
  have val: "set (sr_value s) = {n. sr_dfn s n \<noteq> 0 \<and> sr_comp s n = 0}" using core by (simp add: search_core_def)
  have eqk: "?c u = ?k \<longleftrightarrow> u \<in> ?S" for u using le(2) [of u] by (auto simp: c)
  have closed: "?c w \<noteq> 0" if "?c u \<noteq> 0" "w \<in> set (out u)" for u w
  proof (cases "u \<in> ?S")
    case True
    then show ?thesis using cl(1) [OF True that(2)] k0 by (auto simp: c)
  next
    case False
    have "sr_comp s u \<noteq> 0" using that(1) c [of u] if_not_P [OF False] by metis
    then have "sr_comp s w \<noteq> 0" using core that(2) by (auto simp: search_core_def)
    then show ?thesis using k0 by (simp add: c)
  qed
  have classes: "?c w = ?c u \<longleftrightarrow> mutual (arcs out) u w" if "?c u \<noteq> 0" for u w
  proof (cases "u \<in> ?S")
    case True
    then have "?c u = ?k" using eqk by blast
    then have "?c w = ?c u \<longleftrightarrow> w \<in> ?S" using eqk [of w] by (simp only:)
    then show ?thesis using cl(4) [OF True, of w] by (simp only:)
  next
    case False
    then have u: "sr_comp s u \<noteq> 0" "?c u = sr_comp s u" using that cout by metis+
    show ?thesis
    proof (cases "w \<in> ?S")
      case True
      then have "sr_comp s w = 0" by (simp add: val)
      then have "\<not> mutual (arcs out) u w" using cl(3) [of u w] u(1) by (auto simp: mutual_def)
      moreover have "?c w \<noteq> ?c u" using cin [OF True] u(2) le(2) [of u] by linarith
      ultimately show ?thesis by blast
    next
      case False
      have "sr_comp s w = sr_comp s u \<longleftrightarrow> mutual (arcs out) u w" using core u(1) by (simp add: search_core_def)
      then show ?thesis using cout [OF False] u(2) by metis
    qed
  qed
  have nontrivial: "sr_nontrivial (popped v s) \<longleftrightarrow> (\<exists>u w. u \<noteq> w \<and> ?c u \<noteq> 0 \<and> ?c w = ?c u)"
  proof -
    obtain x xs where x: "sr_value s = x # xs" using v by (cases "sr_value s") auto
    have sorted: "\<forall>y \<in> set xs. sr_dfn s y < sr_dfn s x" using core x by (simp add: search_core_def)
    have xv: "x \<noteq> v \<longleftrightarrow> (\<exists>u w. u \<noteq> w \<and> u \<in> ?S \<and> w \<in> ?S)"
      using v sorted x by fastforce
    have "(\<exists>u w. u \<noteq> w \<and> ?c u \<noteq> 0 \<and> ?c w = ?c u) \<longleftrightarrow> (\<exists>u w. u \<noteq> w \<and> u \<in> ?S \<and> w \<in> ?S) \<or> (\<exists>u w. u \<noteq> w \<and> sr_comp s u \<noteq> 0 \<and> sr_comp s w = sr_comp s u)"
      (is "?L \<longleftrightarrow> ?A \<or> ?B")
    proof
      assume ?L
      then obtain u w where uw: "u \<noteq> w" "?c u \<noteq> 0" "?c w = ?c u" by blast
      show "?A \<or> ?B"
      proof (cases "u \<in> ?S")
        case True
        then have "w \<in> ?S" using uw(3) eqk [of u] eqk [of w] by metis
        then show ?thesis using uw(1) True by blast
      next
        case False
        then have "w \<notin> ?S" using uw(3) eqk [of u] eqk [of w] by metis
        then have "sr_comp s u \<noteq> 0" "sr_comp s w = sr_comp s u" using False uw(2,3) c by metis+
        then show ?thesis using uw(1) by blast
      qed
    next
      assume "?A \<or> ?B"
      then show ?L
      proof
        assume ?A
        then obtain u w where "u \<noteq> w" "u \<in> ?S" "w \<in> ?S" by blast
        moreover have "?c u = ?k" "?c w = ?k" using eqk \<open>u \<in> ?S\<close> \<open>w \<in> ?S\<close> by blast+
        ultimately show ?L using k0 by (metis less_irrefl)
      next
        assume ?B
        then obtain u w where uw: "u \<noteq> w" "sr_comp s u \<noteq> 0" "sr_comp s w = sr_comp s u" by blast
        then have "u \<notin> ?S" "w \<notin> ?S" by (auto simp: val)
        then have "?c u = sr_comp s u" "?c w = sr_comp s w" using c by presburger+
        then show ?L using uw by metis
      qed
    qed
    moreover have "sr_nontrivial (popped v s) \<longleftrightarrow> sr_nontrivial s \<or> x \<noteq> v" by (simp add: popped_def x)
    moreover have "sr_nontrivial s \<longleftrightarrow> (\<exists>u w. u \<noteq> w \<and> sr_comp s u \<noteq> 0 \<and> sr_comp s w = sr_comp s u)"
      using core by (simp add: search_core_def)
    ultimately show ?thesis using xv by blast
  qed
  have sel: "sr_dfn (popped v s) = sr_dfn s" "sr_count (popped v s) = sr_count s" "sr_components (popped v s) = ?k"
    "sr_value (popped v s) = filter (\<lambda>u. sr_dfn s u < sr_dfn s v) (sr_value s)" by (simp_all add: popped_def)
  have "set (sr_value (popped v s)) = {n. sr_dfn s n \<noteq> 0 \<and> ?c n = 0}" using k0 by (auto simp: sel c val)
  moreover have "sorted_wrt (\<lambda>a b. sr_dfn s b < sr_dfn s a) (sr_value (popped v s))"
    using core by (simp add: sel search_core_def sorted_wrt_filter)
  moreover have "sr_dfn s n \<noteq> 0" if "?c n \<noteq> 0" for n using that core val by (cases "n \<in> ?S") (auto simp: c search_core_def)
  moreover have "0 \<le> ?c u \<and> ?c u \<le> ?k" for u using le [of u] k0 by (auto simp: c)
  ultimately show ?thesis using core closed classes nontrivial unfolding search_core_def sel by blast
qed

lemma component_steps:
  assumes ok: "search_ok N out s" and top: "sr_control s = (sr_dfn s v, v, []) # fs"
  shows "PopComponent s = Ok (popped v s)"
    and "steps_to N out s ((popped v s)\<lparr>sr_control :=
      (case fs of [] \<Rightarrow> [] | (mn', p, here') # fs' \<Rightarrow> (min mn' (sr_dfn s v), p, here') # fs')\<rparr>)"
proof -
  have core: "search_core N out s" and st: "search_stacks out s" using ok by (simp_all add: search_ok_def)
  have v: "v \<in> set (sr_value s)" using control_below(2) [OF ok top] by (simp add: on_control_def top)
  show "PopComponent s = Ok (popped v s)" by (rule PopComponent_popped [OF core top v])
  have fr: "frames_ok out (sr_value s) (sr_dfn s) (sr_comp s) (Suc (sr_count s)) ((sr_dfn s v, v, []) # fs)"
    using st top by (simp add: search_stacks_def)
  let ?fs = "case fs of [] \<Rightarrow> [] | (mn', p, here') # fs' \<Rightarrow> (min mn' (sr_dfn s v), p, here') # fs'"
  let ?s = "(popped v s)\<lparr>sr_control := ?fs\<rparr>"
  have sel: "sr_dfn ?s = sr_dfn s" "sr_count ?s = sr_count s" "sr_control ?s = ?fs" "sr_comp ?s = sr_comp (popped v s)"
    "sr_value ?s = filter (\<lambda>u. sr_dfn s u < sr_dfn s v) (sr_value s)" by (simp_all add: popped_def)
  have "(\<lambda>(mn, v, here). v) ` set ?fs = (\<lambda>(mn, v, here). v) ` set fs"
  proof (cases fs)
    case (Cons f fs')
    then show ?thesis by (cases f) (simp only: list.case prod.case list.set image_insert)
  qed simp
  then have oc: "on_control s = insert v (on_control ?s)" unfolding on_control_def sel(3) top by simp
  have kc: "sr_comp s y = 0" if "sr_comp (popped v s) y = 0" for y
    using that core by (auto simp: popped_def search_core_def split: if_splits)
  have low: "frames_ok out (filter (\<lambda>u. sr_dfn s u < sr_dfn s v) (sr_value s)) (sr_dfn s) (sr_comp (popped v s)) (sr_dfn s v) fs"
    by (rule frames_pop [OF _ order_refl kc]) (use fr in simp_all)
  have frames: "frames_ok out (filter (\<lambda>u. sr_dfn s u < sr_dfn s v) (sr_value s)) (sr_dfn s) (sr_comp (popped v s)) (Suc (sr_count s)) ?fs"
  proof (cases fs)
    case (Cons f fs')
    obtain mn' p here where f: "f = (mn', p, here)" by (metis surj_pair)
    have p: "frame_ok out (filter (\<lambda>u. sr_dfn s u < sr_dfn s v) (sr_value s)) (sr_dfn s) (sr_comp (popped v s)) (sr_dfn s v) mn' p here"
      using low Cons f by simp
    note q = frame_okD [OF p]
    obtain x where x: "x \<in> set (filter (\<lambda>u. sr_dfn s u < sr_dfn s v) (sr_value s))" "sr_dfn s x = mn'" "(p, x) \<in> (arcs out)\<^sup>*"
      using q(4) by blast
    have m: "min mn' (sr_dfn s v) = mn'" using q(2,3) by simp
    have "sr_dfn s v < Suc (sr_count s)" using core by (simp add: search_core_def less_Suc_eq_le)
    then have "frame_ok out (filter (\<lambda>u. sr_dfn s u < sr_dfn s v) (sr_value s)) (sr_dfn s) (sr_comp (popped v s)) (Suc (sr_count s)) mn' p here"
      using q(1,2,3,5,6) x q(7) by (intro frame_okI [where w = x]) auto
    then show ?thesis using low Cons f m by simp
  qed simp
  have "\<exists>c \<in> on_control ?s. sr_dfn s c \<le> sr_dfn s u \<and> (u, c) \<in> (arcs out)\<^sup>*" if u: "u \<in> set (sr_value ?s)" for u
  proof -
    have "u \<in> set (sr_value s)" "sr_dfn s u < sr_dfn s v" using u by (simp_all add: sel)
    then obtain c where "c \<in> on_control s" "sr_dfn s c \<le> sr_dfn s u" "(u, c) \<in> (arcs out)\<^sup>*" using st by (auto simp: search_stacks_def)
    moreover have "c \<noteq> v" using calculation(2) \<open>sr_dfn s u < sr_dfn s v\<close> by auto
    ultimately show ?thesis using oc by blast
  qed
  moreover have "(c, u) \<in> (arcs out)\<^sup>*" if "c \<in> on_control ?s" "u \<in> set (sr_value ?s)" "sr_dfn s c \<le> sr_dfn s u" for c u
    using st that oc by (auto simp: search_stacks_def sel)
  ultimately have "search_stacks out ?s" unfolding search_stacks_def using frames by (simp only: sel) blast
  moreover have "search_size N out ?s < search_size N out s"
    unfolding search_size_def sel(1,3) top by (cases fs) auto
  ultimately show "steps_to N out s ?s" using popped_core [OF ok top] by (simp add: steps_to_def search_ok_def sel(1))
qed


text \<open>Every round is one of the four.\<close>

lemma find_step_ok:
  assumes fin: "finite N" and g: "\<And>n. set (out n) \<subseteq> N \<and> distinct (out n)" and ok: "search_ok N out s" and ne: "sr_control s \<noteq> []"
  shows "\<exists>s'. find_step out s = Ok s' \<and> steps_to N out s s'"
proof -
  obtain mn v here fs where top: "sr_control s = (mn, v, here) # fs" using ne by (cases "sr_control s") auto
  show ?thesis
  proof (cases here)
    case Nil
    show ?thesis
    proof (cases "mn = sr_dfn s v")
      case True
      note c = component_steps [OF ok, of v fs]
      show ?thesis using c Nil True top by (auto simp: find_step_def)
    next
      case False
      then show ?thesis using return_steps [OF ok, of mn v fs] Nil top by (auto simp: find_step_def)
    qed
  next
    case (Cons w here')
    show ?thesis
    proof (cases "sr_dfn s w = 0")
      case True
      then have "sr_comp s w = 0" using ok by (auto simp: search_ok_def search_core_def)
      then show ?thesis using push_steps [OF fin g ok _ True, of mn v here' fs] True Cons top by (simp add: find_step_def Let_def)
    next
      case False
      then show ?thesis using advance_steps [OF ok _ False refl, of mn v here' fs] Cons top
        by (simp add: find_step_def Let_def split: if_splits)
    qed
  qed
qed

definition finds :: "'a set \<Rightarrow> ('a \<Rightarrow> 'a list) \<Rightarrow> 'a search \<Rightarrow> 'a search \<Rightarrow> bool" where
  "finds N out s s' \<longleftrightarrow> search_core N out s' \<and> sr_control s' = [] \<and> sr_value s' = [] \<and> (\<forall>n. sr_dfn s n \<noteq> 0 \<longrightarrow> sr_dfn s' n \<noteq> 0)"

lemma find_loop_ok:
  assumes fin: "finite N" and g: "\<And>n. set (out n) \<subseteq> N \<and> distinct (out n)"
  shows "search_ok N out s \<Longrightarrow> sr_control s \<noteq> [] \<Longrightarrow> search_size N out s < k \<Longrightarrow> \<exists>s'. find_loop out k s = Ok s' \<and> finds N out s s'"
proof (induction k arbitrary: s)
  case (Suc k)
  obtain s1 where s1: "find_step out s = Ok s1" "steps_to N out s s1" using find_step_ok [OF fin g Suc.prems(1,2)] by blast
  then have ok: "search_ok N out s1" "search_size N out s1 < k" "\<And>n. sr_dfn s n \<noteq> 0 \<Longrightarrow> sr_dfn s1 n \<noteq> 0"
    using Suc.prems(3) by (auto simp: steps_to_def)
  show ?case
  proof (cases "sr_control s1 = []")
    case True
    then have "sr_value s1 = []" using ok(1) by (cases "sr_value s1") (auto simp: search_ok_def search_stacks_def on_control_def)
    then show ?thesis using ok s1(1) True by (simp add: finds_def search_ok_def)
  next
    case False
    then show ?thesis using Suc.IH [OF ok(1) False ok(2)] ok(3) s1(1) by (auto simp: finds_def)
  qed
qed simp


section \<open>The traversal\<close>

lemma mutual_leaves:
  assumes "mutual E u w" "u \<noteq> w"
  shows "\<exists>x. (u, x) \<in> E"
proof -
  have "(u, w) \<in> E\<^sup>*" using assms(1) by (simp add: mutual_def)
  then show ?thesis by (cases rule: converse_rtranclE) (use assms(2) in auto)
qed

lemma edges_of_node: "x \<in> set (edges_of g a) \<Longrightarrow> a \<in> fst ` set g"
  by (cases "map_of g a") (auto simp: edges_of_def dest: map_of_SomeD intro: rev_image_eqI)

definition graph_wf :: "('a \<times> 'a list) list \<Rightarrow> bool" where
  "graph_wf g \<longleftrightarrow> distinct (map fst g) \<and> (\<forall>(n, ts) \<in> set g. distinct ts \<and> set ts \<subseteq> fst ` set g)"

lemma graph_wf_edges: "graph_wf g \<Longrightarrow> set (edges_of g n) \<subseteq> fst ` set g \<and> distinct (edges_of g n)"
  by (auto simp: graph_wf_def edges_of_def split: option.splits dest!: map_of_SomeD)

lemma graph_wf_size:
  assumes "graph_wf g"
  shows "(\<Sum>n \<in> fst ` set g. length (edges_of g n) + 2) < find_fuel g"
proof -
  have d: "distinct (map fst g)" using assms by (simp add: graph_wf_def)
  have "(\<Sum>n \<in> fst ` set g. length (edges_of g n) + 2) = (\<Sum>p \<in> set g. length (edges_of g (fst p)) + 2)"
    using d by (simp add: sum.reindex distinct_map)
  also have "\<dots> = (\<Sum>(n, ts) \<in> set g. length ts + 2)"
    using d by (intro sum.cong refl) (auto simp: edges_of_def)
  also have "\<dots> = (\<Sum>(n, ts)\<leftarrow>g. length ts + 2)"
    using d by (simp add: sum_list_distinct_conv_sum_set distinct_map)
  finally show ?thesis by (simp add: find_fuel_def)
qed

text \<open>Between two searches both stacks are empty.\<close>

definition idle :: "('a \<times> 'a list) list \<Rightarrow> 'a search \<Rightarrow> bool" where
  "idle g s \<longleftrightarrow> search_core (fst ` set g) (edges_of g) s \<and> sr_control s = [] \<and> sr_value s = []"

lemma idle_comp: "idle g s \<Longrightarrow> sr_dfn s n \<noteq> 0 \<longleftrightarrow> sr_comp s n \<noteq> 0"
  by (auto simp: idle_def search_core_def)

lemma FindComponents_ok:
  assumes g: "graph_wf g" and i: "idle g s" and n: "n \<in> fst ` set g" "sr_comp s n = 0"
  shows "\<exists>s'. FindComponents g n s = Ok s' \<and> idle g s' \<and> (\<forall>m. sr_comp s m \<noteq> 0 \<or> m = n \<longrightarrow> sr_comp s' m \<noteq> 0)"
proof -
  let ?N = "fst ` set g" and ?s = "sr_Push (edges_of g) n s"
  have core: "search_core ?N (edges_of g) s" and e: "sr_control s = []" "sr_value s = []" using i by (simp_all add: idle_def)
  have d: "sr_dfn s n = 0" using idle_comp [OF i, of n] n(2) by simp
  have "search_stacks (edges_of g) ?s"
    by (rule push_stacks [OF core d]) (simp_all add: e on_control_def graph_wf_edges [OF g])
  then have ok: "search_ok ?N (edges_of g) ?s" using push_core [OF core n(1) d] by (simp add: search_ok_def)
  have "search_size ?N (edges_of g) s \<le> (\<Sum>n \<in> ?N. length (edges_of g n) + 2)"
    unfolding search_size_def e(1) by (simp add: sum_mono2)
  then have k: "search_size ?N (edges_of g) ?s < find_fuel g"
    using push_size [of ?N n s "edges_of g"] n(1) d graph_wf_size [OF g] by simp
  have "sr_control ?s \<noteq> []" by (simp add: sr_Push_def Let_def)
  from find_loop_ok [OF _ graph_wf_edges [OF g] ok this k] obtain s'
    where s': "FindComponents g n s = Ok s'" "finds ?N (edges_of g) ?s s'" by (auto simp: FindComponents_def)
  then have i': "idle g s'" by (simp add: finds_def idle_def)
  have "sr_dfn s' m \<noteq> 0" if "sr_dfn s m \<noteq> 0 \<or> m = n" for m
    using that s'(2) by (auto simp: finds_def sr_Push_def Let_def)
  then show ?thesis using s'(1) i' idle_comp [OF i] idle_comp [OF i'] by blast
qed

lemma fold_components_ok:
  assumes g: "graph_wf g"
  shows "idle g s \<Longrightarrow> set ns \<subseteq> fst ` set g \<Longrightarrow>
    \<exists>s'. fold_res (\<lambda>n s. if sr_comp s n = 0 then FindComponents g n s else Ok s) ns s = Ok s' \<and> idle g s' \<and>
      (\<forall>m. sr_comp s m \<noteq> 0 \<or> m \<in> set ns \<longrightarrow> sr_comp s' m \<noteq> 0)"
proof (induction ns arbitrary: s)
  case (Cons n ns)
  obtain s1 where s1: "(if sr_comp s n = 0 then FindComponents g n s else Ok s) = Ok s1" "idle g s1"
      "\<forall>m. sr_comp s m \<noteq> 0 \<or> m = n \<longrightarrow> sr_comp s1 m \<noteq> 0"
    using FindComponents_ok [OF g Cons.prems(1), of n] Cons.prems by (cases "sr_comp s n = 0") auto
  show ?case using Cons.IH [OF s1(2)] Cons.prems(2) s1 by auto
qed auto

lemma Traverse_ok:
  assumes g: "graph_wf g"
  shows "\<exists>s. Traverse g = Ok s \<and> (\<forall>n \<in> fst ` set g. 0 < sr_comp s n) \<and>
    (\<forall>u \<in> fst ` set g. \<forall>w. sr_comp s w = sr_comp s u \<longleftrightarrow> mutual (arcs (edges_of g)) u w) \<and>
    (sr_nontrivial s \<longleftrightarrow> (\<exists>u w. u \<noteq> w \<and> mutual (arcs (edges_of g)) u w))"
proof -
  let ?E = "arcs (edges_of g)" and ?N = "fst ` set g"
  have "idle g new_search" by (simp add: idle_def new_search_def search_core_def)
  from fold_components_ok [OF g this, of "sort (map fst g)"] obtain s
    where s: "Traverse g = Ok s" "idle g s" "\<And>m. m \<in> ?N \<Longrightarrow> sr_comp s m \<noteq> 0" by (auto simp: Traverse_def)
  have core: "search_core ?N (edges_of g) s" using s(2) by (simp add: idle_def)
  then have "0 \<le> sr_comp s n" for n unfolding search_core_def by blast
  then have pos: "0 < sr_comp s n" if "n \<in> ?N" for n using s(3) [OF that] by (simp add: order_less_le)
  have cls: "sr_comp s w = sr_comp s u \<longleftrightarrow> mutual ?E u w" if "sr_comp s u \<noteq> 0" for u w
    using core that unfolding search_core_def by blast
  have nt: "sr_nontrivial s \<longleftrightarrow> (\<exists>u w. u \<noteq> w \<and> sr_comp s u \<noteq> 0 \<and> sr_comp s w = sr_comp s u)"
    using core unfolding search_core_def by blast
  have "u \<in> ?N" if uw: "mutual ?E u w" "u \<noteq> w" for u w
  proof -
    obtain x where "(u, x) \<in> ?E" using mutual_leaves [OF uw] by blast
    then show ?thesis by (simp add: arcs_def edges_of_node)
  qed
  then have "sr_nontrivial s \<longleftrightarrow> (\<exists>u w. u \<noteq> w \<and> mutual ?E u w)"
    unfolding nt using cls s(3) by blast
  then show ?thesis using s(1) pos cls s(3) by blast
qed


section \<open>The detector keeps its answers\<close>

text \<open>\<open>A\<close> holds the edges added so far, loops on one node included.\<close>

definition cd_nodes :: "'a detector \<Rightarrow> 'a set" where
  "cd_nodes d = fst ` set (cd_graph d)"

definition detector_ok :: "('a \<times> 'a) set \<Rightarrow> 'a detector \<Rightarrow> bool" where
  "detector_ok A d \<longleftrightarrow> graph_wf (cd_graph d) \<and> arcs (edges_of (cd_graph d)) = A - Id \<and>
     (cd_has_cycle d \<longrightarrow> \<not> acyclic A) \<and> ((\<exists>a. (a, a) \<in> A) \<longrightarrow> cd_has_cycle d) \<and>
     (\<not> cd_need_traversal d \<longrightarrow> (\<not> acyclic A \<longrightarrow> cd_has_cycle d) \<and>
       (\<forall>u \<in> cd_nodes d. - int (cd_untraversed d) \<le> cd_component_id d u \<and>
         (\<forall>w \<in> cd_nodes d. cd_component_id d u = cd_component_id d w \<longleftrightarrow> mutual A u w)))"

lemma mutual_loops [simp]: "mutual (A - Id) a b = mutual A a b"
  by (simp add: mutual_def rtrancl_r_diff_Id)

lemma acyclic_mutual: "acyclic A \<longleftrightarrow> (\<nexists>a. (a, a) \<in> A) \<and> (\<nexists>u w. u \<noteq> w \<and> mutual A u w)"
proof -
  have "(\<exists>a. (a, a) \<in> A) \<or> (\<exists>u w. u \<noteq> w \<and> mutual A u w)" if c: "(u, u) \<in> A\<^sup>+" for u
  proof -
    obtain z where "(u, z) \<in> A" "(z, u) \<in> A\<^sup>*" using tranclD [OF c] by blast
    then show ?thesis by (cases "u = z") (auto simp: mutual_def)
  qed
  moreover have "(u, u) \<in> A\<^sup>+" if "u \<noteq> w" "mutual A u w" for u w
    using that by (auto simp: mutual_def rtrancl_eq_or_trancl)
  ultimately show ?thesis unfolding acyclic_def by blast
qed

lemma new_detector_ok: "detector_ok {} new_detector"
  by (auto simp: detector_ok_def new_detector_def graph_wf_def arcs_def edges_of_def cd_nodes_def acyclic_def)

lemma isolated_mutual: "x \<notin> Field A \<Longrightarrow> mutual A x w \<longleftrightarrow> w = x"
  by (auto simp: mutual_def Field_def elim: converse_rtranclE)

lemma mutual_sym: "mutual A a b = mutual A b a"
  by (auto simp: mutual_def)

lemma edges_of_new: "map_of g key = None \<Longrightarrow> edges_of (AList.update key [] g) = edges_of g"
  by (auto simp: edges_of_def update_conv' split: option.splits)

lemma Get_nodes: "cd_nodes (Get key d) = insert key (cd_nodes d)"
proof (cases "map_of (cd_graph d) key")
  case None
  then show ?thesis by (auto simp: Get_def cd_nodes_def Let_def dom_update)
next
  case (Some ts)
  then show ?thesis by (auto simp: Get_def cd_nodes_def dest!: map_of_SomeD intro: rev_image_eqI)
qed

lemma graph_wf_update:
  assumes "graph_wf g" "distinct ts" "set ts \<subseteq> insert n (fst ` set g)"
  shows "graph_wf (AList.update n ts g)"
proof -
  have d: "fst ` set (AList.update n ts g) = insert n (fst ` set g)"
    using dom_update [of n ts g] by simp
  have "distinct us \<and> set us \<subseteq> insert n (fst ` set g)" if "(m, us) \<in> set (AList.update n ts g)" for m us
  proof -
    have "map_of (AList.update n ts g) m = Some us" using that assms(1) by (intro map_of_is_SomeI) (simp_all add: graph_wf_def distinct_update)
    then show ?thesis using assms by (auto simp: update_conv' graph_wf_def split: if_splits dest!: map_of_SomeD)
  qed
  then show ?thesis using assms(1) unfolding graph_wf_def d by (auto simp: distinct_update graph_wf_def)
qed


lemma detector_field: "detector_ok A d \<Longrightarrow> mutual A a b \<Longrightarrow> a \<noteq> b \<Longrightarrow> a \<in> cd_nodes d"
proof -
  assume d: "detector_ok A d" and m: "mutual A a b" "a \<noteq> b"
  then obtain x where "(a, x) \<in> A - Id" using mutual_leaves [of "A - Id" a b] by auto
  then have "x \<in> set (edges_of (cd_graph d) a)" using d by (auto simp: detector_ok_def arcs_def)
  then show ?thesis unfolding cd_nodes_def by (rule edges_of_node)
qed

lemma Get_ok:
  assumes d: "detector_ok A d"
  shows "detector_ok A (Get key d)"
proof (cases "map_of (cd_graph d) key")
  case None
  let ?d = "Get key d" and ?k = "cd_untraversed d + 1"
  have sel: "cd_graph ?d = AList.update key [] (cd_graph d)" "cd_has_cycle ?d = cd_has_cycle d" "cd_need_traversal ?d = cd_need_traversal d"
      "cd_untraversed ?d = ?k" "cd_component_id ?d = (cd_component_id d)(key := - int ?k)"
    using None by (simp_all add: Get_def Let_def)
  have key: "key \<notin> cd_nodes d" using None by (simp add: cd_nodes_def map_of_eq_None_iff)
  have alone: "mutual A key w \<longleftrightarrow> w = key" "mutual A w key \<longleftrightarrow> w = key" for w
    using detector_field [OF d, of key w] key mutual_sym [of A key w] by (auto simp: mutual_def)
  have wf': "graph_wf (cd_graph ?d)" unfolding sel(1) using d by (intro graph_wf_update) (simp_all add: detector_ok_def)
  have ar: "edges_of (cd_graph ?d) = edges_of (cd_graph d)" unfolding sel(1) by (rule edges_of_new [OF None])
  have ids: "- int ?k \<le> cd_component_id ?d u \<and> (\<forall>w \<in> cd_nodes ?d. cd_component_id ?d u = cd_component_id ?d w \<longleftrightarrow> mutual A u w)"
    if n: "\<not> cd_need_traversal d" and u: "u \<in> cd_nodes ?d" for u
  proof -
    have old: "- int (cd_untraversed d) \<le> cd_component_id d x" if "x \<in> cd_nodes d" for x using d n that by (simp add: detector_ok_def)
    have eq: "cd_component_id d x = cd_component_id d y \<longleftrightarrow> mutual A x y" if "x \<in> cd_nodes d" "y \<in> cd_nodes d" for x y
      using d n that by (simp add: detector_ok_def)
    have new: "cd_component_id d x \<noteq> - int ?k" if "x \<in> cd_nodes d" for x using old [OF that] by linarith
    have "cd_component_id ?d u = cd_component_id ?d w \<longleftrightarrow> mutual A u w" if w: "w \<in> cd_nodes ?d" for w
    proof (cases "u = key \<or> w = key")
      case True
      then show ?thesis using alone new [of u] new [of w] u w unfolding sel(5) Get_nodes by (metis fun_upd_apply insertE)
    next
      case False
      then show ?thesis using eq u w unfolding sel(5) Get_nodes by simp
    qed
    moreover have "- int ?k \<le> cd_component_id ?d u" using old [of u] u unfolding sel(5) Get_nodes by auto
    ultimately show ?thesis by blast
  qed
  show ?thesis unfolding detector_ok_def ar sel(2,3,4) using d wf' ids by (simp add: detector_ok_def)
next
  case (Some ts)
  then show ?thesis using d by (simp add: Get_def)
qed

lemma arcs_add: "arcs (f(a := if b \<in> set (f a) then f a else f a @ [b])) = insert (a, b) (arcs f)"
  by (auto simp: arcs_def split: if_splits)

lemma AddEdge_detector:
  assumes d: "detector_ok A d"
  shows "detector_ok (insert (a, b) A) (cd_AddEdge a b d)"
proof (cases "a = b")
  case True
  have e: "insert (a, b) A - Id = A - Id" using True by auto
  have m: "mutual (insert (a, b) A) = mutual A" using mutual_loops [of "insert (a, b) A"] unfolding e by (intro ext) simp
  have c: "\<not> acyclic (insert (a, b) A)" using True by (auto simp: acyclic_mutual)
  have ad: "cd_AddEdge a b d = d\<lparr>cd_has_cycle := True\<rparr>" using True by (simp add: cd_AddEdge_def)
  have f: "graph_wf (cd_graph d)" "arcs (edges_of (cd_graph d)) = A - Id"
      "\<not> cd_need_traversal d \<longrightarrow> (\<forall>u \<in> cd_nodes d. - int (cd_untraversed d) \<le> cd_component_id d u \<and>
         (\<forall>w \<in> cd_nodes d. cd_component_id d u = cd_component_id d w \<longleftrightarrow> mutual A u w))"
    using d unfolding detector_ok_def by blast+
  have sel: "cd_graph (cd_AddEdge a b d) = cd_graph d" "cd_nodes (cd_AddEdge a b d) = cd_nodes d" "cd_has_cycle (cd_AddEdge a b d)"
      "cd_need_traversal (cd_AddEdge a b d) = cd_need_traversal d" "cd_untraversed (cd_AddEdge a b d) = cd_untraversed d"
      "cd_component_id (cd_AddEdge a b d) = cd_component_id d"
    by (simp_all add: cd_nodes_def ad)
  show ?thesis unfolding detector_ok_def sel(1,2,4-6) e m by (intro conjI impI f(1,2) c sel(3) mp [OF f(3)])
next
  case False
  let ?d = "Get b (Get a d)"
  let ?es = "edges_of (cd_graph ?d) a"
  let ?ts = "if b \<in> set ?es then ?es else ?es @ [b]"
  have ok: "detector_ok A ?d" by (intro Get_ok d)
  have nd: "a \<in> fst ` set (cd_graph ?d)" "b \<in> fst ` set (cd_graph ?d)" using Get_nodes [of b "Get a d"] Get_nodes [of a d] by (auto simp: cd_nodes_def)
  have g: "graph_wf (cd_graph ?d)" and ar: "arcs (edges_of (cd_graph ?d)) = A - Id" using ok by (simp_all add: detector_ok_def)
  have "graph_wf (AList.update a ?ts (cd_graph ?d))"
    using graph_wf_edges [OF g, of a] nd by (intro graph_wf_update [OF g]) auto
  moreover have "edges_of (AList.update a ?ts (cd_graph ?d)) = (edges_of (cd_graph ?d))(a := ?ts)"
    by (auto simp: edges_of_def update_conv')
  then have "arcs (edges_of (AList.update a ?ts (cd_graph ?d))) = insert (a, b) (arcs (edges_of (cd_graph ?d)))"
    by (simp only: arcs_add)
  then have "arcs (edges_of (AList.update a ?ts (cd_graph ?d))) = insert (a, b) A - Id" using ar False by auto
  moreover have "cd_has_cycle ?d \<Longrightarrow> \<not> acyclic (insert (a, b) A)" using ok by (auto simp: detector_ok_def acyclic_insert)
  moreover have "(\<exists>c. (c, c) \<in> insert (a, b) A) \<Longrightarrow> cd_has_cycle ?d" using ok False by (auto simp: detector_ok_def)
  moreover have "cd_graph (cd_AddEdge a b d) = AList.update a ?ts (cd_graph ?d)" "cd_need_traversal (cd_AddEdge a b d)"
      "cd_has_cycle (cd_AddEdge a b d) = cd_has_cycle ?d"
    using False by (simp_all add: cd_AddEdge_def Let_def)
  ultimately show ?thesis unfolding detector_ok_def by metis
qed

lemma TraverseIfNecessary_ok:
  assumes d: "detector_ok A d"
  shows "\<exists>d'. TraverseIfNecessary d = Ok d' \<and> detector_ok A d' \<and> \<not> cd_need_traversal d'"
proof (cases "cd_need_traversal d")
  case True
  have g: "graph_wf (cd_graph d)" and ar: "arcs (edges_of (cd_graph d)) = A - Id" using d by (simp_all add: detector_ok_def)
  obtain s where s: "Traverse (cd_graph d) = Ok s" "\<forall>n \<in> cd_nodes d. 0 < sr_comp s n"
      "\<forall>u \<in> cd_nodes d. \<forall>w. sr_comp s w = sr_comp s u \<longleftrightarrow> mutual A u w" "sr_nontrivial s \<longleftrightarrow> (\<exists>u w. u \<noteq> w \<and> mutual A u w)"
    using Traverse_ok [OF g] unfolding ar mutual_loops cd_nodes_def by blast
  let ?d = "d\<lparr>cd_has_cycle := (cd_has_cycle d \<or> sr_nontrivial s), cd_need_traversal := False, cd_untraversed := 0, cd_component_id := sr_comp s\<rparr>"
  have c: "cd_has_cycle d \<or> sr_nontrivial s \<longleftrightarrow> \<not> acyclic A"
    using d s(4) unfolding detector_ok_def acyclic_mutual by blast
  have "detector_ok A ?d"
    unfolding detector_ok_def using g ar c s(2,3) acyclic_mutual [of A] by (simp add: cd_nodes_def) (metis order_less_imp_le)
  then show ?thesis using s(1) True by (simp add: TraverseIfNecessary_def)
qed (use d in \<open>simp add: TraverseIfNecessary_def\<close>)


lemma IsCircular_ok:
  assumes "detector_ok A d"
  shows "\<exists>d'. IsCircular a b d = Ok (mutual A a b, d') \<and> detector_ok A d'"
proof -
  obtain e where e: "TraverseIfNecessary d = Ok e" "detector_ok A e" "\<not> cd_need_traversal e" using TraverseIfNecessary_ok [OF assms] by blast
  let ?e = "Get b (Get a e)"
  have ok: "detector_ok A ?e" by (intro Get_ok e(2))
  have "\<not> cd_need_traversal ?e" using e(3) by (simp add: Get_def Let_def)
  then have "cd_component_id ?e a = cd_component_id ?e b \<longleftrightarrow> mutual A a b" using ok by (simp add: detector_ok_def Get_nodes)
  then show ?thesis using e(1) ok by (simp add: IsCircular_def Let_def)
qed

lemma HasCycle_ok:
  assumes "detector_ok A d"
  shows "\<exists>d'. HasCycle d = Ok (\<not> acyclic A, d') \<and> detector_ok A d' \<and> \<not> cd_need_traversal d'"
proof -
  obtain e where e: "TraverseIfNecessary d = Ok e" "detector_ok A e" "\<not> cd_need_traversal e" using TraverseIfNecessary_ok [OF assms] by blast
  then have "cd_has_cycle e \<longleftrightarrow> \<not> acyclic A" unfolding detector_ok_def by blast
  then show ?thesis using e by (simp add: HasCycle_def)
qed

text \<open>Two component numbers asked for without an edge added between.\<close>

lemma GetComponentId_ok:
  assumes "detector_ok A d"
  shows "\<exists>k d'. GetComponentId a d = Ok (k, d') \<and> detector_ok A d' \<and> \<not> cd_need_traversal d' \<and> a \<in> cd_nodes d' \<and> cd_component_id d' a = k"
proof -
  obtain e where e: "TraverseIfNecessary d = Ok e" "detector_ok A e" "\<not> cd_need_traversal e" using TraverseIfNecessary_ok [OF assms] by blast
  moreover have "detector_ok A (Get a e)" by (rule Get_ok [OF e(2)])
  moreover have "\<not> cd_need_traversal (Get a e)" using e(3) by (simp add: Get_def Let_def)
  ultimately show ?thesis by (simp add: GetComponentId_def Let_def Get_nodes)
qed

lemma GetComponentId_twice:
  assumes "detector_ok A d"
  shows "\<exists>k d' l d''. GetComponentId a d = Ok (k, d') \<and> GetComponentId b d' = Ok (l, d'') \<and> (k = l \<longleftrightarrow> mutual A a b)"
proof -
  obtain k e where e: "GetComponentId a d = Ok (k, e)" "detector_ok A e" "\<not> cd_need_traversal e" "a \<in> cd_nodes e" "cd_component_id e a = k"
    using GetComponentId_ok [OF assms] by blast
  let ?e = "Get b e"
  have ok: "detector_ok A ?e" by (rule Get_ok [OF e(2)])
  have n: "\<not> cd_need_traversal ?e" using e(3) by (simp add: Get_def Let_def)
  have "cd_component_id ?e a = k" using e(4,5) by (auto simp: Get_def Let_def cd_nodes_def map_of_eq_None_iff)
  moreover have "cd_component_id ?e a = cd_component_id ?e b \<longleftrightarrow> mutual A a b" using ok n e(4) by (simp add: detector_ok_def Get_nodes)
  moreover have "GetComponentId b e = Ok (cd_component_id ?e b, ?e)" using e(3) by (simp add: GetComponentId_def TraverseIfNecessary_def Let_def)
  ultimately show ?thesis using e(1) by auto
qed


section \<open>Properties\<close>

datatype 'a det_op = Op_AddEdge 'a 'a | Op_IsCircular 'a 'a | Op_HasCycle | Op_GetComponentId 'a

fun det_step :: "'a::linorder det_op \<Rightarrow> 'a detector \<Rightarrow> 'a detector res" where
  "det_step (Op_AddEdge a b) d = Ok (cd_AddEdge a b d)"
| "det_step (Op_IsCircular a b) d = bind_res (IsCircular a b d) (\<lambda>(_, d). Ok d)"
| "det_step Op_HasCycle d = bind_res (HasCycle d) (\<lambda>(_, d). Ok d)"
| "det_step (Op_GetComponentId a) d = bind_res (GetComponentId a d) (\<lambda>(_, d). Ok d)"

definition added_edges :: "'a det_op list \<Rightarrow> ('a \<times> 'a) set" where
  "added_edges ops = {(a, b). Op_AddEdge a b \<in> set ops}"

lemma det_step_ok:
  assumes d: "detector_ok A d"
  shows "\<exists>d'. det_step op d = Ok d' \<and> detector_ok (added_edges [op] \<union> A) d'"
proof (cases op)
  case (Op_AddEdge a b)
  then have "added_edges [op] \<union> A = insert (a, b) A" by (auto simp: added_edges_def)
  then show ?thesis using AddEdge_detector [OF d, of a b] Op_AddEdge by simp
next
  case (Op_IsCircular a b)
  then show ?thesis using IsCircular_ok [OF d, of a b] by (auto simp: added_edges_def)
next
  case Op_HasCycle
  then show ?thesis using HasCycle_ok [OF d] by (auto simp: added_edges_def)
next
  case (Op_GetComponentId a)
  then show ?thesis using GetComponentId_ok [OF d, of a] by (auto simp: added_edges_def)
qed

lemma det_steps_ok: "detector_ok A d \<Longrightarrow> \<exists>d'. fold_res det_step ops d = Ok d' \<and> detector_ok (added_edges ops \<union> A) d'"
proof (induction ops arbitrary: A d)
  case (Cons op ops)
  obtain e where e: "det_step op d = Ok e" "detector_ok (added_edges [op] \<union> A) e" using det_step_ok [OF Cons.prems] by blast
  have "added_edges ops \<union> (added_edges [op] \<union> A) = added_edges (op # ops) \<union> A" by (auto simp: added_edges_def)
  then show ?case using Cons.IH [OF e(2)] e(1) by simp
qed (simp add: added_edges_def)

text \<open>C7. Circular dependencies: after any sequence of added edges and queries, none of which fails
  or runs for ever, \<open>HasCycle\<close> answers whether the edges added so far have a cycle, loops on one
  node included; \<open>IsCircular\<close> answers whether two nodes, added before or not, reach each other; and
  two component numbers are equal exactly for nodes that reach each other.\<close>

theorem circularity_detector:
  fixes ops :: "'a::linorder det_op list"
  shows "\<exists>d. fold_res det_step ops new_detector = Ok d \<and>
    (\<exists>d'. HasCycle d = Ok (\<not> acyclic (added_edges ops), d')) \<and>
    (\<forall>a b. \<exists>d'. IsCircular a b d = Ok (mutual (added_edges ops) a b, d')) \<and>
    (\<forall>a b. \<exists>k d' l d''. GetComponentId a d = Ok (k, d') \<and> GetComponentId b d' = Ok (l, d'') \<and>
      (k = l \<longleftrightarrow> mutual (added_edges ops) a b))"
proof -
  obtain d where d: "fold_res det_step ops new_detector = Ok d" "detector_ok (added_edges ops) d"
    using det_steps_ok [OF new_detector_ok, of ops] by auto
  then show ?thesis using HasCycle_ok [OF d(2)] IsCircular_ok [OF d(2)] GetComponentId_twice [OF d(2)] by blast
qed

end
