(* ===== verification/Szl_ProtoSorter.thy ===== *)
theory Szl_ProtoSorter
  imports Szl_Circularity
begin

text \<open>
  The order of message types in the Sawzall code for a protocol file
  (protoc\_plugin/proto-sorter.cc).  A descriptor of the protocol buffer library is what the code
  reads of it: its full name and its fields, a field of group type with the descriptor of the group,
  a field of message type with the full name of its type.  The messages of a file are a list, and
  a message is known by its index.  A \<open>Nodes\<close> or \<open>Cycles\<close> set is the ascending list of its elements.

  Whatever the file, the sorter neither fails nor loops; it keeps every message, puts each after the
  messages it depends on if the dependencies have no cycle, and otherwise warns and keeps the order.
\<close>

section \<open>Dependencies\<close>

datatype field_desc = Group_field descriptor | Message_field string | Other_field
and descriptor = Descriptor (full_name: string) (desc_fields: "field_desc list")

type_synonym dep_nodes = "nat list"
type_synonym dep_map = "(nat \<times> dep_nodes) list"

text \<open>\<open>find\<close> of the C++ library: the position of the first match, or the length.\<close>

definition find_name :: "string list \<Rightarrow> string \<Rightarrow> nat" where
  "find_name type_names n = length (takeWhile (\<lambda>m. m \<noteq> n) type_names)"

fun AddDescriptorDependencies :: "descriptor \<Rightarrow> string list \<Rightarrow> dep_nodes \<Rightarrow> dep_nodes"
and add_field :: "field_desc \<Rightarrow> string list \<Rightarrow> dep_nodes \<Rightarrow> dep_nodes" where
  "AddDescriptorDependencies (Descriptor nm fs) type_names ns = fold (\<lambda>f. add_field f type_names) fs ns"
| "add_field (Group_field d) type_names ns = AddDescriptorDependencies d type_names ns"
| "add_field (Message_field n) type_names ns =
     (let i = find_name type_names n in if i \<noteq> length type_names then insort_insert i ns else ns)"
| "add_field Other_field type_names ns = ns"

definition GetDependencyMap :: "descriptor list \<Rightarrow> dep_map \<times> string list" where
  "GetDependencyMap file = (let type_names = map full_name file in
     (filter (\<lambda>(i, ns). ns \<noteq> [])
        (map (\<lambda>i. (i, remove1 i (AddDescriptorDependencies (file ! i) type_names []))) [0..<length file]),
      type_names))"

definition IsTopologicallySorted :: "dep_map \<Rightarrow> bool" where
  "IsTopologicallySorted dm = list_all (\<lambda>(n, ns). list_all (\<lambda>m. \<not> m > n) ns) dm"

text \<open>The pairs of the nested loops over a dependency map, in their order.\<close>

definition dep_edges :: "dep_map \<Rightarrow> (nat \<times> nat) list" where
  "dep_edges dm = concat (map (\<lambda>(n, ns). map (\<lambda>m. (m, n)) ns) dm)"

definition id_nodes :: "(int \<times> dep_nodes) list \<Rightarrow> int \<Rightarrow> dep_nodes" where
  "id_nodes id_map k = (case map_of id_map k of None \<Rightarrow> [] | Some ns \<Rightarrow> ns)"

definition add_to_id_map :: "nat \<Rightarrow> nat detector \<times> (int \<times> dep_nodes) list \<Rightarrow> (nat detector \<times> (int \<times> dep_nodes) list) res" where
  "add_to_id_map node = (\<lambda>(d, id_map). bind_res (GetComponentId node d) (\<lambda>(k, d).
     Ok (d, AList.update k (insort_insert node (id_nodes id_map k)) id_map)))"

definition GetCircularDependencies :: "dep_map \<Rightarrow> dep_nodes list res" where
  "GetCircularDependencies dm =
     (let d = fold (\<lambda>(m, n). cd_AddEdge m n) (dep_edges dm) new_detector in
      bind_res (HasCycle d) (\<lambda>(c, d).
      if \<not> c then Ok []
      else bind_res (fold_res add_to_id_map (map fst dm) (d, [])) (\<lambda>(d, id_map).
        Ok (fold (\<lambda>(k, ns) cycles. if length ns > 1 then insort_insert ns cycles else cycles) id_map []))))"

definition message_type :: "descriptor list \<Rightarrow> nat \<Rightarrow> descriptor res" where
  "message_type file i = (if i < length file then Ok (file ! i) else Inl Out_of_range)"

definition SortTopologically :: "descriptor list \<Rightarrow> dep_map \<Rightarrow> descriptor list \<Rightarrow> descriptor list res" where
  "SortTopologically file dm sorted_messages =
     bind_res (fold_res AddNode [0..<length file] new_sorter) (\<lambda>s.
     bind_res (fold_res (\<lambda>(m, n). AddEdge m n) (dep_edges dm) s) (\<lambda>s.
     case traverse (Suc (length file)) s of
       None \<Rightarrow> Inl Diverges
     | Some (xs, cyclic) \<Rightarrow>
         bind_res (map_res (message_type file) xs) (\<lambda>ms.
         bind_res (check (\<not> cyclic)) (\<lambda>_. Ok (sorted_messages @ ms)))))"

definition LogCycleWarning :: "dep_nodes list \<Rightarrow> string list \<Rightarrow> string list res" where
  "LogCycleWarning cycles names =
     map_res (\<lambda>ns. bind_res (map_res (\<lambda>n. if n < length names then Ok ('' '' @ names ! n) else Inl Out_of_range) ns) (\<lambda>ws.
       Ok (''Compiled Sawzall types are mutually recursive:'' @ concat ws))) cycles"

text \<open>The results are the logged warnings and the messages.\<close>

definition EnsureTopologicallySorted :: "descriptor list \<Rightarrow> descriptor list \<Rightarrow> (string list \<times> descriptor list) res" where
  "EnsureTopologicallySorted file sorted_messages =
     (let (dm, type_names) = GetDependencyMap file in
      if \<not> IsTopologicallySorted dm then
        bind_res (GetCircularDependencies dm) (\<lambda>cycles.
        if length cycles > 0 then
          bind_res (LogCycleWarning cycles type_names) (\<lambda>ws. Ok (ws, sorted_messages @ map (\<lambda>i. file ! i) [0..<length file]))
        else bind_res (SortTopologically file dm sorted_messages) (\<lambda>ms. Ok ([], ms)))
      else Ok ([], sorted_messages @ map (\<lambda>i. file ! i) [0..<length file]))"


section \<open>What the dependency map holds\<close>

text \<open>The names of the message types of a descriptor's fields, those of its groups included, and the
  dependencies between the messages of a file, from a message to its dependents.\<close>

fun type_refs :: "descriptor \<Rightarrow> string set"
and field_refs :: "field_desc \<Rightarrow> string set" where
  "type_refs (Descriptor nm fs) = (\<Union>f \<in> set fs. field_refs f)"
| "field_refs (Group_field d) = type_refs d"
| "field_refs (Message_field n) = {n}"
| "field_refs Other_field = {}"

definition dependencies :: "descriptor list \<Rightarrow> (nat \<times> nat) set" where
  "dependencies file = {(j, i). i < length file \<and> j < length file \<and> j \<noteq> i \<and>
     (\<exists>n \<in> type_refs (file ! i). full_name (file ! j) = n \<and> (\<forall>k < j. full_name (file ! k) \<noteq> n))}"

lemma find_name_iff: "find_name ns n = j \<and> j \<noteq> length ns \<longleftrightarrow> j < length ns \<and> ns ! j = n \<and> (\<forall>k < j. ns ! k \<noteq> n)"
proof (induction ns arbitrary: j)
  case (Cons m ns)
  show ?case
  proof (cases "m = n")
    case True
    then show ?thesis by (auto simp: find_name_def nth_Cons' intro: Suc_leI)
  next
    case False
    then have f: "find_name (m # ns) n = Suc (find_name ns n)" by (simp add: find_name_def)
    show ?thesis
    proof (cases j)
      case 0
      then show ?thesis using False f by auto
    next
      case (Suc i)
      then show ?thesis using Cons.IH [of i] False f by (auto simp: All_less_Suc2)
    qed
  qed
qed (auto simp: find_name_def)

lemma AddDescriptorDependencies_nodes:
  "sorted ns \<and> distinct ns \<Longrightarrow> sorted (AddDescriptorDependencies d names ns) \<and> distinct (AddDescriptorDependencies d names ns) \<and>
    set (AddDescriptorDependencies d names ns) = set ns \<union> {j. \<exists>n \<in> type_refs d. find_name names n = j \<and> j \<noteq> length names}"
  "sorted ns \<and> distinct ns \<Longrightarrow> sorted (add_field f names ns) \<and> distinct (add_field f names ns) \<and>
    set (add_field f names ns) = set ns \<union> {j. \<exists>n \<in> field_refs f. find_name names n = j \<and> j \<noteq> length names}"
proof (induction d names ns and f names ns rule: AddDescriptorDependencies_add_field.induct)
  case (1 nm fs names ns)
  have "sorted (fold (\<lambda>f. add_field f names) gs ms) \<and> distinct (fold (\<lambda>f. add_field f names) gs ms) \<and>
      set (fold (\<lambda>f. add_field f names) gs ms) = set ms \<union> {j. \<exists>n \<in> \<Union> (field_refs ` set gs). find_name names n = j \<and> j \<noteq> length names}"
    if "set gs \<subseteq> set fs" "sorted ms \<and> distinct ms" for gs ms
    using that
  proof (induction gs arbitrary: ms)
    case (Cons g gs)
    have g: "sorted (add_field g names ms) \<and> distinct (add_field g names ms) \<and>
        set (add_field g names ms) = set ms \<union> {j. \<exists>n \<in> field_refs g. find_name names n = j \<and> j \<noteq> length names}"
      using 1(1) [of g ms] Cons.prems by auto
    show ?case using Cons.IH [of "add_field g names ms"] g Cons.prems(1) by auto
  qed simp
  then show ?case using 1(2) by simp
next
  case (3 n names ns)
  then show ?case by (auto simp: Let_def set_insort_insert sorted_insort_insert distinct_insort_insert)
qed simp_all


lemma find_name_map:
  "find_name (map full_name file) n = j \<and> j \<noteq> length file \<longleftrightarrow>
    j < length file \<and> full_name (file ! j) = n \<and> (\<forall>k < j. full_name (file ! k) \<noteq> n)"
  using find_name_iff [of "map full_name file" n j] by (auto simp: nth_map)

lemma dep_edges_iff: "(j, i) \<in> set (dep_edges dm) \<longleftrightarrow> (\<exists>ns. (i, ns) \<in> set dm \<and> j \<in> set ns)"
  by (force simp: dep_edges_def)

lemma GetDependencyMap_ok:
  assumes dm_def: "dm = fst (GetDependencyMap file)"
  shows "snd (GetDependencyMap file) = map full_name file" and "set (dep_edges dm) = dependencies file"
    and "fst ` set dm = snd ` dependencies file" and "distinct (map fst dm)"
proof -
  let ?f = "\<lambda>i. remove1 i (AddDescriptorDependencies (file ! i) (map full_name file) [])"
  have dm: "dm = filter (\<lambda>(i, ns). ns \<noteq> []) (map (\<lambda>i. (i, ?f i)) [0..<length file])"
    by (simp add: dm_def GetDependencyMap_def Let_def)
  have f: "j \<in> set (?f i) \<longleftrightarrow> (j, i) \<in> dependencies file" if i: "i < length file" for i j
  proof -
    note a = AddDescriptorDependencies_nodes(1) [of "[]" "file ! i" "map full_name file"]
    have "set (?f i) = {j. \<exists>n \<in> type_refs (file ! i). find_name (map full_name file) n = j \<and> j \<noteq> length file} - {i}"
      using a by (simp add: set_remove1_eq)
    then show ?thesis using i by (auto simp: dependencies_def find_name_map)
  qed
  have in_dm: "(i, ns) \<in> set dm \<longleftrightarrow> i < length file \<and> ns = ?f i \<and> ns \<noteq> []" for i ns by (auto simp: dm)
  have lt: "(j, i) \<in> dependencies file \<Longrightarrow> i < length file" for i j by (simp add: dependencies_def)
  show "snd (GetDependencyMap file) = map full_name file" by (simp add: GetDependencyMap_def Let_def)
  have "(j, i) \<in> set (dep_edges dm) \<longleftrightarrow> (j, i) \<in> dependencies file" for i j
    unfolding dep_edges_iff in_dm using f [of i j] lt [of j i] by (metis empty_iff list.set(1))
  then show "set (dep_edges dm) = dependencies file" by auto
  have k: "i \<in> fst ` set dm \<longleftrightarrow> (\<exists>j. (j, i) \<in> dependencies file)" for i
  proof -
    have "i \<in> fst ` set dm \<longleftrightarrow> (\<exists>ns. (i, ns) \<in> set dm)" by force
    also have "\<dots> \<longleftrightarrow> i < length file \<and> ?f i \<noteq> []" unfolding in_dm by blast
    also have "\<dots> \<longleftrightarrow> i < length file \<and> (\<exists>j. j \<in> set (?f i))" by (metis ex_in_conv set_empty)
    also have "\<dots> \<longleftrightarrow> (\<exists>j. (j, i) \<in> dependencies file)" using f lt by blast
    finally show ?thesis .
  qed
  have "i \<in> snd ` dependencies file \<longleftrightarrow> (\<exists>j. (j, i) \<in> dependencies file)" for i by force
  then show "fst ` set dm = snd ` dependencies file" using k by (intro set_eqI) (simp only:)
  have "map fst dm = filter (\<lambda>i. ?f i \<noteq> []) [0..<length file]" by (simp add: dm filter_map o_def)
  then show "distinct (map fst dm)" by simp
qed

lemma IsTopologicallySorted_edges: "IsTopologicallySorted dm \<longleftrightarrow> (\<forall>(m, n) \<in> set (dep_edges dm). m \<le> n)"
proof -
  have "IsTopologicallySorted dm \<longleftrightarrow> (\<forall>n ns m. (n, ns) \<in> set dm \<longrightarrow> m \<in> set ns \<longrightarrow> m \<le> n)"
    unfolding IsTopologicallySorted_def list_all_iff by (auto simp: not_less)
  then show ?thesis using dep_edges_iff [of _ _ dm] by blast
qed


section \<open>Cycles\<close>

lemma add_edges_detector: "detector_ok A d \<Longrightarrow> detector_ok (set es \<union> A) (fold (\<lambda>(m, n). cd_AddEdge m n) es d)"
proof (induction es arbitrary: A d)
  case (Cons e es)
  obtain m n where e: "e = (m, n)" by (cases e)
  then show ?case using Cons.IH [OF AddEdge_detector [OF Cons.prems, of m n]] by simp
qed simp

lemma add_edges_nodes: "cd_nodes d \<union> Field (set es - Id) \<subseteq> cd_nodes (fold (\<lambda>(m, n). cd_AddEdge m n) es d)"
proof (induction es arbitrary: d)
  case (Cons e es)
  obtain m n where e: "e = (m, n)" by (cases e)
  have "cd_nodes (cd_AddEdge m n d) = (if m = n then cd_nodes d else insert m (insert n (cd_nodes d)))"
    using Get_nodes [of n "Get m d"] Get_nodes [of m d] by (auto simp: cd_AddEdge_def Let_def cd_nodes_def dom_update)
  then show ?case using Cons.IH [of "cd_AddEdge m n d"] e by (auto simp: Field_def split: if_splits)
qed simp

lemma HasCycle_nodes: "HasCycle d = Ok (c, d') \<Longrightarrow> cd_nodes d' = cd_nodes d"
  by (auto simp: HasCycle_def TraverseIfNecessary_def bind_res_eq_Ok cd_nodes_def split: if_splits)

lemma GetComponentId_known:
  assumes "\<not> cd_need_traversal d" "n \<in> cd_nodes d"
  shows "GetComponentId n d = Ok (cd_component_id d n, d)"
proof -
  have "map_of (cd_graph d) n \<noteq> None" using assms(2) by (simp add: cd_nodes_def map_of_eq_None_iff)
  then have "Get n d = d" unfolding Get_def by (simp only: if_False)
  then show ?thesis using assms(1) by (simp add: GetComponentId_def TraverseIfNecessary_def)
qed

text \<open>The map from component numbers to nodes.\<close>

definition groups_ok :: "(nat \<Rightarrow> int) \<Rightarrow> nat set \<Rightarrow> (int \<times> dep_nodes) list \<Rightarrow> bool" where
  "groups_ok f S id_map \<longleftrightarrow> distinct (map fst id_map) \<and> fst ` set id_map = f ` S \<and>
     (\<forall>k. sorted (id_nodes id_map k) \<and> distinct (id_nodes id_map k) \<and> set (id_nodes id_map k) = {n \<in> S. f n = k})"

lemma groups_ok_add:
  assumes "groups_ok f S m"
  shows "groups_ok f (insert n S) (AList.update (f n) (insort_insert n (id_nodes m (f n))) m)"
proof -
  have i: "id_nodes (AList.update (f n) ns m) k = (if k = f n then ns else id_nodes m k)" for ns k
    by (simp add: id_nodes_def update_conv')
  show ?thesis using assms unfolding groups_ok_def i
    by (auto simp: distinct_update dom_update set_insort_insert sorted_insort_insert distinct_insort_insert)
qed

lemma id_map_ok:
  assumes d: "\<not> cd_need_traversal d"
  shows "set ns \<subseteq> cd_nodes d \<Longrightarrow> groups_ok (cd_component_id d) S m \<Longrightarrow>
    \<exists>m'. fold_res add_to_id_map ns (d, m) = Ok (d, m') \<and> groups_ok (cd_component_id d) (S \<union> set ns) m'"
proof (induction ns arbitrary: S m)
  case (Cons n ns)
  have "add_to_id_map n (d, m) = Ok (d, AList.update (cd_component_id d n) (insort_insert n (id_nodes m (cd_component_id d n))) m)"
    using GetComponentId_known [OF d, of n] Cons.prems(1) by (simp add: add_to_id_map_def)
  then show ?case using Cons.IH [OF _ groups_ok_add [OF Cons.prems(2), of n]] Cons.prems(1) by simp
qed simp


text \<open>The strongly connected components of more than one node.\<close>

definition cycle_sets :: "('a::linorder \<times> 'a) set \<Rightarrow> 'a list set" where
  "cycle_sets E = {sorted_list_of_set {x. mutual E u x} | u. \<exists>w. u \<noteq> w \<and> mutual E u w}"

lemma big_groups:
  "sorted cs \<and> distinct cs \<Longrightarrow>
    sorted (fold (\<lambda>(k, ns) cs. if length ns > 1 then insort_insert ns cs else cs) m cs) \<and>
    distinct (fold (\<lambda>(k, ns) cs. if length ns > 1 then insort_insert ns cs else cs) m cs) \<and>
    set (fold (\<lambda>(k, ns) cs. if length ns > 1 then insort_insert ns cs else cs) m cs) = set cs \<union> {ns. 1 < length ns \<and> ns \<in> snd ` set m}"
proof (induction m arbitrary: cs)
  case (Cons p m)
  obtain k ns where p: "p = (k, ns)" by (cases p)
  let ?cs = "if length ns > 1 then insort_insert ns cs else cs"
  have "sorted ?cs \<and> distinct ?cs" "set ?cs = set cs \<union> (if 1 < length ns then {ns} else {})"
    using Cons.prems by (auto simp: set_insort_insert sorted_insort_insert distinct_insort_insert)
  then show ?case using Cons.IH [of ?cs] p by auto
qed simp

lemma mutual_target:
  assumes "mutual E u w" "u \<noteq> w"
  shows "u \<in> snd ` E"
proof -
  have "mutual (E\<inverse>) u w" using assms(1) by (auto simp: mutual_def rtrancl_converse)
  then obtain x where "(u, x) \<in> E\<inverse>" using mutual_leaves assms(2) by metis
  then show ?thesis by force
qed

lemma groups_cycles:
  assumes m: "groups_ok f (snd ` E) m" and f: "\<And>u w. u \<in> snd ` E \<Longrightarrow> w \<in> snd ` E \<Longrightarrow> f u = f w \<longleftrightarrow> mutual E u w"
  shows "{ns. 1 < length ns \<and> ns \<in> snd ` set m} = cycle_sets E"
proof -
  have cls: "id_nodes m (f u) = sorted_list_of_set {x. mutual E u x} \<and> (1 < length (id_nodes m (f u)) \<longleftrightarrow> (\<exists>w. u \<noteq> w \<and> mutual E u w))"
    if u: "u \<in> snd ` E" for u
  proof -
    let ?ns = "id_nodes m (f u)"
    have ns: "sorted ?ns" "distinct ?ns" "set ?ns = {n \<in> snd ` E. f n = f u}" using m by (simp_all add: groups_ok_def)
    have "x \<in> snd ` E" if "mutual E u x" for x using mutual_target [of E x u] that u mutual_sym by metis
    then have set: "set ?ns = {x. mutual E u x}" unfolding ns(3) using f u mutual_sym by metis
    have "1 < length ?ns \<longleftrightarrow> 1 < card (set ?ns)" using ns(2) by (simp add: distinct_card)
    also have "\<dots> \<longleftrightarrow> (\<exists>w. u \<noteq> w \<and> w \<in> set ?ns)"
    proof
      assume c: "1 < card (set ?ns)"
      show "\<exists>w. u \<noteq> w \<and> w \<in> set ?ns"
      proof (rule ccontr)
        assume "\<nexists>w. u \<noteq> w \<and> w \<in> set ?ns"
        then have "card (set ?ns) \<le> card {u}" by (intro card_mono) auto
        then show False using c by simp
      qed
    next
      assume "\<exists>w. u \<noteq> w \<and> w \<in> set ?ns"
      then obtain w where "u \<noteq> w" "w \<in> set ?ns" by blast
      moreover have "u \<in> set ?ns" using u unfolding ns(3) by simp
      ultimately have "card {u, w} \<le> card (set ?ns)" by (intro card_mono) auto
      then show "1 < card (set ?ns)" using \<open>u \<noteq> w\<close> by simp
    qed
    finally have "1 < length ?ns \<longleftrightarrow> (\<exists>w. u \<noteq> w \<and> mutual E u w)" using set by blast
    moreover have "?ns = sorted_list_of_set {x. mutual E u x}" using ns(1,2) sorted_list_of_set_sort_remdups [of ?ns] unfolding set [symmetric]
      by (simp add: sorted_sort_id distinct_remdups_id)
    ultimately show ?thesis by blast
  qed
  have r: "ns \<in> snd ` set m \<longleftrightarrow> (\<exists>u \<in> snd ` E. ns = id_nodes m (f u))" for ns
  proof -
    have d: "distinct (map fst m)" "fst ` set m = f ` snd ` E" using m by (simp_all add: groups_ok_def)
    have "(k, ns) \<in> set m \<longleftrightarrow> k \<in> fst ` set m \<and> ns = id_nodes m k" for k
      using d(1) by (force simp: id_nodes_def)
    then have "ns \<in> snd ` set m \<longleftrightarrow> (\<exists>k \<in> f ` snd ` E. ns = id_nodes m k)" unfolding d(2) [symmetric] by force
    then show ?thesis by blast
  qed
  have "{ns. 1 < length ns \<and> (\<exists>u \<in> K. ns = h u)} = {h u | u. u \<in> K \<and> 1 < length (h u)}" for h :: "nat \<Rightarrow> nat list" and K by blast
  then have "{ns. 1 < length ns \<and> ns \<in> snd ` set m} = {id_nodes m (f u) | u. u \<in> snd ` E \<and> 1 < length (id_nodes m (f u))}"
    unfolding r by metis
  also have "\<dots> = {sorted_list_of_set {x. mutual E u x} | u. u \<in> snd ` E \<and> (\<exists>w. u \<noteq> w \<and> mutual E u w)}"
    using cls by (intro Collect_cong ex_cong1) metis
  also have "\<dots> = cycle_sets E"
  proof -
    have "u \<in> snd ` E \<and> (\<exists>w. u \<noteq> w \<and> mutual E u w) \<longleftrightarrow> (\<exists>w. u \<noteq> w \<and> mutual E u w)" for u using mutual_target [of E u] by metis
    then show ?thesis by (simp only: cycle_sets_def)
  qed
  finally show ?thesis .
qed


lemma GetCircularDependencies_ok:
  assumes keys: "fst ` set dm = snd ` set (dep_edges dm)" and loops: "set (dep_edges dm) \<inter> Id = {}"
  shows "\<exists>cs. GetCircularDependencies dm = Ok cs \<and> sorted cs \<and> distinct cs \<and> set cs = cycle_sets (set (dep_edges dm))"
proof -
  let ?E = "set (dep_edges dm)" and ?d = "fold (\<lambda>(m, n). cd_AddEdge m n) (dep_edges dm) new_detector"
  have ok: "detector_ok ?E ?d" using add_edges_detector [OF new_detector_ok, of "dep_edges dm"] by simp
  obtain d where d: "HasCycle ?d = Ok (\<not> acyclic ?E, d)" "detector_ok ?E d" "\<not> cd_need_traversal d" using HasCycle_ok [OF ok] by blast
  show ?thesis
  proof (cases "acyclic ?E")
    case True
    then have "cycle_sets ?E = {}" by (auto simp: cycle_sets_def acyclic_mutual)
    then show ?thesis using d(1) True by (simp add: GetCircularDependencies_def Let_def)
  next
    case False
    have "?E - Id = ?E" using loops by blast
    then have known: "snd ` ?E \<subseteq> cd_nodes d" using add_edges_nodes [of new_detector "dep_edges dm"] HasCycle_nodes [OF d(1)] by (auto simp: Field_def)
    have "groups_ok (cd_component_id d) {} []" by (simp add: groups_ok_def id_nodes_def)
    from id_map_ok [OF d(3) _ this, of "map fst dm"] obtain m
      where m: "fold_res add_to_id_map (map fst dm) (d, []) = Ok (d, m)" "groups_ok (cd_component_id d) (snd ` ?E) m"
      using known keys by auto
    have "cd_component_id d u = cd_component_id d w \<longleftrightarrow> mutual ?E u w" if "u \<in> cd_nodes d" "w \<in> cd_nodes d" for u w
      using d(2,3) that by (simp add: detector_ok_def)
    then have "{ns. 1 < length ns \<and> ns \<in> snd ` set m} = cycle_sets ?E"
      using known by (intro groups_cycles [OF m(2)]) blast
    then show ?thesis using big_groups [of "[]" m] d(1) False m(1) by (simp add: GetCircularDependencies_def Let_def)
  qed
qed


section \<open>Sorting\<close>

lemma SortTopologically_ok:
  assumes E: "set (dep_edges dm) \<subseteq> {..<length file} \<times> {..<length file}" and ac: "acyclic (set (dep_edges dm))"
  shows "\<exists>xs. SortTopologically file dm ms = Ok (ms @ map (\<lambda>i. file ! i) xs) \<and> topo_order (set (dep_edges dm)) xs \<and> set xs = {..<length file}"
proof -
  let ?ops = "map Inl [0..<length file] @ map Inr (dep_edges dm) :: (nat + nat \<times> nat) list"
  have e: "op_edges ?ops = set (dep_edges dm)" by (auto simp: op_edges_def)
  have "{n. Inl n \<in> set ?ops} = {..<length file}" by auto
  then have n: "op_nodes ?ops = {..<length file}" unfolding op_nodes_def e using E by (auto simp: Field_def)
  have "(\<lambda>i :: nat. add_op (Inl i)) = AddNode" "(\<lambda>p. add_op (Inr p)) = (\<lambda>(m :: nat, n). AddEdge m n)" by (auto simp: add_op_def)
  then have f: "fold_res add_op ?ops new_sorter =
      bind_res (fold_res AddNode [0..<length file] new_sorter) (fold_res (\<lambda>(m, n). AddEdge m n) (dep_edges dm))"
    by (simp add: fold_res_append fold_res_map)
  obtain s xs where s: "fold_res add_op ?ops new_sorter = Ok s" "traverse (Suc (length file)) s = Some (xs, False)"
      "topo_order (set (dep_edges dm)) xs" "set xs = {..<length file}"
    using sorter_correct [of ?ops] ac unfolding e n card_lessThan by auto
  have "map_res (message_type file) xs = Ok (map (\<lambda>i. file ! i) xs)" by (rule map_res_Ok) (use s(4) in \<open>auto simp: message_type_def\<close>)
  moreover obtain s0 where "fold_res AddNode [0..<length file] new_sorter = Ok s0" "fold_res (\<lambda>(m, n). AddEdge m n) (dep_edges dm) s0 = Ok s"
    using s(1) unfolding f by (auto simp: bind_res_eq_Ok)
  ultimately show ?thesis using s(2-4) by (auto simp: SortTopologically_def check_def)
qed

definition cycle_warning :: "descriptor list \<Rightarrow> dep_nodes \<Rightarrow> string" where
  "cycle_warning file ns = ''Compiled Sawzall types are mutually recursive:'' @ concat (map (\<lambda>n. '' '' @ full_name (file ! n)) ns)"

lemma LogCycleWarning_ok:
  assumes "\<And>ns n. ns \<in> set cs \<Longrightarrow> n \<in> set ns \<Longrightarrow> n < length file"
  shows "LogCycleWarning cs (map full_name file) = Ok (map (cycle_warning file) cs)"
  unfolding LogCycleWarning_def
proof (rule map_res_Ok)
  fix ns assume ns: "ns \<in> set cs"
  have "map_res (\<lambda>n. if n < length (map full_name file) then Ok ('' '' @ map full_name file ! n) else Inl Out_of_range) ns =
      Ok (map (\<lambda>n. '' '' @ full_name (file ! n)) ns)"
    by (rule map_res_Ok) (use assms [OF ns] in simp)
  then show "bind_res (map_res (\<lambda>n. if n < length (map full_name file) then Ok ('' '' @ map full_name file ! n) else Inl Out_of_range) ns)
      (\<lambda>ws. Ok (''Compiled Sawzall types are mutually recursive:'' @ concat ws)) = Ok (cycle_warning file ns)"
    by (simp only: bind_res_Ok cycle_warning_def)
qed

lemma upt_topo_order:
  assumes "\<And>a i. (a, i) \<in> E \<Longrightarrow> a < i"
  shows "topo_order E [0..<n]"
  using assms by (auto simp: topo_order_def)



section \<open>Properties\<close>

lemma cycles_of_file:
  "GetCircularDependencies (fst (GetDependencyMap file)) = Ok (sorted_list_of_set (cycle_sets (dependencies file)))"
proof -
  note dm = GetDependencyMap_ok [OF refl, of "file"]
  have "dependencies file \<inter> Id = {}" by (auto simp: dependencies_def)
  then obtain cs where cs: "GetCircularDependencies (fst (GetDependencyMap file)) = Ok cs" "sorted cs" "distinct cs" "set cs = cycle_sets (dependencies file)"
    using GetCircularDependencies_ok [of "fst (GetDependencyMap file)"] unfolding dm(2,3) by blast
  have "sorted_list_of_set (set cs) = cs" using cs(2,3) by (simp add: sorted_list_of_set_sort_remdups sorted_sort_id distinct_remdups_id)
  then show ?thesis using cs(1,4) by simp
qed

lemma cycle_sets_members:
  assumes "E \<subseteq> A \<times> A" "finite A" "ns \<in> cycle_sets E" "n \<in> set ns"
  shows "n \<in> A"
proof -
  obtain u w where u: "ns = sorted_list_of_set {x. mutual E u x}" "u \<noteq> w" "mutual E u w" using assms(3) by (auto simp: cycle_sets_def)
  have "x \<in> A" if x: "mutual E u x" for x
  proof (cases "x = u")
    case True
    then show ?thesis using mutual_target [OF u(3,2)] assms(1) by auto
  next
    case False
    then show ?thesis using mutual_target [of E x u] x mutual_sym [of E x u] assms(1) by auto
  qed
  then have c: "{x. mutual E u x} \<subseteq> A" by blast
  have "set ns = {x. mutual E u x}" unfolding u(1) by (rule set_sorted_list_of_set [OF finite_subset [OF c assms(2)]])
  then show ?thesis using c assms(4) by blast
qed

lemma cycle_sets_finite:
  assumes "E \<subseteq> A \<times> A" "finite A"
  shows "finite (cycle_sets E)"
proof -
  have "u \<in> A" if "u \<noteq> w" "mutual E u w" for u w using mutual_target [OF that(2,1)] assms(1) by auto
  then have "cycle_sets E \<subseteq> (\<lambda>u. sorted_list_of_set {x. mutual E u x}) ` A" unfolding cycle_sets_def by blast
  then show ?thesis using assms(2) by (meson finite_imageI finite_subset)
qed

lemma cycle_sets_empty: "cycle_sets E = {} \<longleftrightarrow> (\<nexists>u w. u \<noteq> w \<and> mutual E u w)"
  by (auto simp: cycle_sets_def)

text \<open>Circular dependencies of the messages of any file: \<open>GetCircularDependencies\<close> neither fails
  nor runs for ever, and gives, in ascending order and each once, the strongly connected components
  of more than one message.\<close>

theorem circular_dependencies:
  "GetCircularDependencies (fst (GetDependencyMap file)) = Ok (sorted_list_of_set (cycle_sets (dependencies file)))"
  by (rule cycles_of_file)

text \<open>C6. Message order: whatever the file, \<open>EnsureTopologicallySorted\<close> neither fails nor runs for
  ever and appends every message of the file once.  If the dependencies have no cycle, every message
  comes after the messages it depends on; otherwise the order of the file is kept.  It is kept too
  if no message depends on a later one.  There is one warning for each cycle, which names its messages.\<close>

theorem messages_sorted:
  "\<exists>ws xs. EnsureTopologicallySorted file ms = Ok (ws, ms @ map (\<lambda>i. file ! i) xs) \<and>
    distinct xs \<and> set xs = {..<length file} \<and>
    (if acyclic (dependencies file) then topo_order (dependencies file) xs else xs = [0..<length file]) \<and>
    ((\<exists>j i. (j, i) \<in> dependencies file \<and> i < j) \<or> xs = [0..<length file]) \<and>
    ws = map (cycle_warning file) (sorted_list_of_set (cycle_sets (dependencies file)))"
proof -
  let ?E = "dependencies file" and ?dm = "fst (GetDependencyMap file)" and ?up = "[0..<length file]"
  note dm = GetDependencyMap_ok [OF refl, of "file"]
  have ens: "EnsureTopologicallySorted file ms =
      (if \<not> IsTopologicallySorted ?dm then
        bind_res (GetCircularDependencies ?dm) (\<lambda>cycles.
        if length cycles > 0 then
          bind_res (LogCycleWarning cycles (map full_name file)) (\<lambda>ws. Ok (ws, ms @ map (\<lambda>i. file ! i) ?up))
        else bind_res (SortTopologically file ?dm ms) (\<lambda>ms. Ok ([], ms)))
      else Ok ([], ms @ map (\<lambda>i. file ! i) ?up))"
    by (simp only: EnsureTopologicallySorted_def Let_def case_prod_beta dm(1))
  have irr: "(j, j) \<notin> ?E" for j by (simp add: dependencies_def)
  have bounds: "?E \<subseteq> {..<length file} \<times> {..<length file}" by (auto simp: dependencies_def)
  have ac: "acyclic ?E \<longleftrightarrow> cycle_sets ?E = {}" using irr by (auto simp: acyclic_mutual cycle_sets_empty)
  have fin: "finite (cycle_sets ?E)" by (rule cycle_sets_finite [OF bounds]) simp
  have sorted_iff: "IsTopologicallySorted ?dm \<longleftrightarrow> \<not> (\<exists>j i. (j, i) \<in> ?E \<and> i < j)"
    unfolding IsTopologicallySorted_edges dm(2) by (auto simp: not_less)
  show ?thesis
  proof (cases "IsTopologicallySorted ?dm")
    case True
    then have lt: "j < i" if "(j, i) \<in> ?E" for i j using that irr [of j] sorted_iff by (metis linorder_neqE_nat)
    then have "?E \<subseteq> less_than" by auto
    then have "acyclic ?E" using wf_acyclic [OF wf_less_than] acyclic_subset by blast
    moreover have "EnsureTopologicallySorted file ms = Ok ([], ms @ map (\<lambda>i. file ! i) ?up)" using True ens by simp
    moreover have "topo_order ?E ?up" by (rule upt_topo_order [OF lt])
    ultimately show ?thesis using ac by (intro exI [of _ "[] :: string list"] exI [of _ ?up]) (simp add: atLeast0LessThan)
  next
    case False
    note cy = cycles_of_file [of "file"]
    show ?thesis
    proof (cases "acyclic ?E")
      case True
      obtain xs where xs: "SortTopologically file ?dm ms = Ok (ms @ map (\<lambda>i. file ! i) xs)" "topo_order ?E xs" "set xs = {..<length file}"
        using SortTopologically_ok [of ?dm "file" ms] bounds True unfolding dm(2) by blast
      have "EnsureTopologicallySorted file ms = Ok ([], ms @ map (\<lambda>i. file ! i) xs)" using True False ac cy xs(1) ens by simp
      moreover have "distinct xs" using xs(2) by (simp add: topo_order_def)
      ultimately show ?thesis using True False ac sorted_iff xs(2,3) by (intro exI [of _ "[] :: string list"] exI [of _ xs]) simp
    next
      case c: False
      let ?cs = "sorted_list_of_set (cycle_sets ?E)"
      have "LogCycleWarning ?cs (map full_name file) = Ok (map (cycle_warning file) ?cs)"
        using cycle_sets_members [OF bounds] fin by (intro LogCycleWarning_ok) auto
      moreover have "?cs \<noteq> []" using c ac fin by simp
      ultimately have "EnsureTopologicallySorted file ms = Ok (map (cycle_warning file) ?cs, ms @ map (\<lambda>i. file ! i) ?up)"
        using False cy ens by simp
      then show ?thesis using c by (intro exI [of _ "map (cycle_warning file) ?cs"] exI [of _ ?up]) (simp add: atLeast0LessThan)
    qed
  qed
qed

end
