(* ===== verification/Spec2Isabelle.thy ===== *)
theory Spec2Isabelle
  imports Varint Szl_Sum Szl_Maximum Szl_Set Szl_Unique Szl_Sample Szl_Compare Szl_Utf8 Szl_Outputter Szl_ProtoSorter
begin

text \<open>
  A verification development for Szl, the implementation of the Sawzall language (src/src).

  \<^bold>\<open>The program.\<close>  A Sawzall program looks at one input record at a time and emits values into
  tables.  The engine (engine/) compiles and runs the program; its run-time values live in
  engine/val.cc, their per-type behaviour in engine/form.cc, and its map values in
  engine/map.cc.  Strings are UTF-8 and rest on fmt/runes.cc and utilities/strutils.cc.  An
  emitted value is encoded (emitvalues/szlencoder.cc, szldecoder.cc, utilities/varint.cc) under a
  type (emitvalues/szltype.cc), turned into a flat array of scalars (emitvalues/szlvalue.cc), and
  added to a table entry (emitters/).  Entries of many processes are flushed to strings, which
  other processes merge; a results reader turns the final string into rows.

  \<^bold>\<open>The theories.\<close>  In the order of their imports:
  \<^item> \<open>Szl_Prelude\<close>: errors (\<open>error\<close>, one constructor per way the code can stop), the result
    type \<open>'a res\<close>, its bind, byte strings, words, and the lemmas that the components share.
  \<^item> \<open>Varint\<close> (utilities/varint.cc), \<open>Szl_Keys\<close> (public/hashutils.h, utilities/hashutils.cc),
    \<open>Szl_Float\<close> (doubles as bit patterns with their order).
  \<^item> \<open>Szl_Type\<close> (emitvalues/szltype.cc): types as a datatype, their validity and its cache,
    printing, equality.
  \<^item> \<open>Szl_Encoder\<close>, \<open>Szl_Decoder\<close> and \<open>Szl_Codec\<close>: the wire format and its theorems.
  \<^item> \<open>Szl_Value\<close>, \<open>Szl_Arith\<close>, \<open>Szl_Wire\<close> (emitvalues/szlvalue.cc): an SzlValue is a datatype,
    an SzlOps object the record of a type and its flattened kinds; \<open>Szl_Typed\<close>, \<open>Szl_Order\<close> and
    \<open>Szl_Wire_Props\<close> hold what is proved about them.
  \<^item> \<open>Szl_Sift\<close>, \<open>Szl_Heap\<close> (emitters/szlheap.cc): the heap of the best weighted elements.
  \<^item> \<open>Szl_Entry\<close> (public/szltabentry.h) and the tables \<open>Szl_Sum\<close>, \<open>Szl_Maximum\<close>, \<open>Szl_Set\<close>,
    \<open>Szl_Unique\<close> and \<open>Szl_Sample\<close> (emitters/szlsum.cc and so on, each with its results reader);
    \<open>Szl_Random\<close> (utilities/random_base.cc, acmrandom.cc, mt_random.cc) for the sample table.
  \<^item> \<open>Szl_Map\<close> (engine/map.cc), \<open>Szl_Form\<close> and \<open>Szl_Compare\<close> (engine/form.cc, val.cc): hash tables
    of run-time values, and equality, hash, fingerprint and order of values.
  \<^item> \<open>Szl_Rune\<close> (fmt/runes.cc) and \<open>Szl_Utf8\<close> (utilities/strutils.cc): runes and UTF-8 strings.
  \<^item> \<open>Szl_Emitter\<close> (emitvalues/szlemitter.cc): the object that the engine drives with the calls of
    public/emitterinterface.h; \<open>Szl_Protocol\<close> shows that the calls for a value write its encoding,
    \<open>Szl_Pipeline\<close> follows whole emits through shards, flushing and merging, and \<open>Szl_MapReduce\<close>
    has the result for sum, maximum and minimum tables.
  \<^item> \<open>Szl_Outputter\<close> (engine/outputter.cc): emit statements, from run-time values on the stack to
    the calls on the emitter.
  \<^item> \<open>Szl_Toposort\<close> and \<open>Szl_Circularity\<close> (protoc_plugin/topologicalsorter-inl.h and
    circularity_detector-inl.h): topological sorting and strongly connected components of a graph;
    \<open>Szl_ProtoSorter\<close> (proto-sorter.cc): the order in which the protocol compiler plug-in writes the
    message types of a file, with both.

  \<^bold>\<open>How code becomes definitions.\<close>  Every operation is a function of the state record or of the
  bytes it reads, with the name it has in the code, prefixed where the C++ class would tell two of
  them apart.  Pure results are plain values; an operation that can stop returns \<open>'a res\<close>: the
  \<open>Inl\<close> side names the failed assertion, the \<open>LOG(FATAL)\<close> or the access out of bounds, and
  assertions are taken to be active.  Machine integers are words, so that sums wrap around as
  they do in the code; \<open>int\<close> and \<open>nat\<close> stand for lengths and positions that the code keeps far
  from overflow.  Loops are recursive functions with termination proofs.  The walk along the chains
  of a hash table, which a corrupted table would make endless, has as fuel the number of cells and
  answers \<open>Diverges\<close> beyond it, and the invariant of maps shows that this never happens.  The loops
  of the two graph algorithms have as fuel one more than the nodes, or than the edges and twice the
  nodes, and are shown to end within it for every graph; the rejection loops of the random
  generators are shown to return.

  \<^bold>\<open>What is proved.\<close>
  \<^item> Round trips: varints, keys, scalars, values of any type nested to any depth in the form that
    decoding gives them, runes and arrays of runes are read back as they were written.
  \<^item> Order: encoded scalars and composite keys, float keys, SzlValues and run-time values compare
    as what they stand for; for floats this excludes NaN and minus zero, and on the wire it needs a
    byte-order macro that agrees with the host, which the build as shipped does not have.
  \<^item> Refinement: each table, with its emits split over any shards, flushed and merged, has, under the
    conditions that each theorem names, the contents that its abstract specification gives for all the emits together (a multiset of the
    best, a sum, a set, the smallest hashes, a sub-multiset); the engine's hash table is a finite
    map on what its keys stand for, through growth and copying.
  \<^item> Composition: the calls of an emit statement on run-time values are those of the documented protocol
    but for the length of a map, which is sent as keys and values together instead of pairs;
    two emits meet in one entry exactly if their indices are equal values, and what shards emit,
    flush and merge through emitters ends up in the tables as the sum or the best of everything.
  \<^item> Graphs: the topological sorter and the iterative search for strongly connected components, over
    any sequence of their operations, against reachability and acyclicity; the plug-in orders the
    messages of every file without cycles by their dependencies and warns of exactly the cycles.
  \<^item> Safety and bounds: conversions of any bytes stay in their buffers and have the announced
    lengths; printing of types never aborts; assignment never aborts.
  \<^item> Errors: theorems that state what the code does where it is not what its comments say; they
    are listed as findings in the manifest.

  \<^bold>\<open>Interfaces.\<close>  Where components rely on each other the laws are locales: the order of
  the heap's elements, the hash and equality of map keys (\<open>hash_key\<close>, \<open>map_values\<close>), three-way
  comparison (\<open>three_way\<close>), and the contracts of tables (\<open>tab_entry\<close>, extended to \<open>pipeline\<close>
  for tables behind emitters); each is interpreted on the model's own
  operations in the theory that provides them.

  \<^bold>\<open>Parameters.\<close>  Code outside the repository is an argument: the MD5 digest of unique tables, the
  byte order of the host, opening and writing files, and the name, process number and clocks that
  seed the random generators.  So are the contents of memory that the code reads before it is set
  (the counter of a maximum entry, the padding of a hash in a unique table), and the index of a code
  address and the dynamic level of a frame, which the fingerprint of a closure asks the
  interpreter for, a part that is not modelled.

  \<^bold>\<open>Not modelled.\<close>  The front end and code generators of the engine, its memory manager and
  intrinsic functions, the formatting library, regular expressions, files and compression, the
  generated protocol buffer code, the text that the plug-in writes for a protocol file and the
  command line programs.  Of the tables, top, quantile,
  distinct and weighted sample, bootstrapsum, inverse histogram, text, recordio and mrcounter are
  left; several of them compute with floating point logarithms that the kernel cannot evaluate.
\<close>

end
